(* ===== verification/Kcp_Prelude.thy ===== *)
theory Kcp_Prelude
  imports Main "HOL-Library.Word"
begin

text \<open>
  The words, the results and the generic lemmas that every component of the development uses.

  C types of the 64-bit Linux build the Makefile describes: \<open>IUINT32\<close> is \<open>u32\<close>,
  \<open>IUINT16\<close> is \<open>u16\<close>, \<open>char\<close> and \<open>IUINT8\<close> are \<open>byte\<close>. An
  \<open>IINT32\<close> or \<open>int\<close> field of a struct is kept as its 32 bits
  (\<open>i32\<close>) and read with \<^const>\<open>sint\<close> where the code reads it as a signed value, so
  the implicit conversions between \<open>int\<close> and \<open>IUINT32\<close> are the identity, as in
  two's complement. Values of type \<open>long\<close> are integers: 64 bits hold all of them.
\<close>

unbundle bit_operations_syntax

named_theorems ikcp_consts "the values of the constants of ikcp.c"

type_synonym byte = "8 word"
type_synonym u16 = "16 word"
type_synonym u32 = "32 word"
type_synonym i32 = "32 word"

section \<open>Faults\<close>

text \<open>
  What ends a run of the C code without a return: a failed \<open>assert\<close> (the build keeps
  them, \<open>NDEBUG\<close> is not set), a write behind the end of an allocated block, a division
  by zero, a loop that does not end, the use of a null pointer. A failing \<open>LOG_ASSERT\<close> of the C++ files
  (a macro of the logging library) is an \<open>Assertion_failed\<close> too: the models end where it is reached. An
  operation that can fault returns \<open>fault + 'a\<close>.
\<close>

datatype fault = Assertion_failed | Buffer_overflow | Division_by_zero | No_return | Null_dereference

type_synonym 'a result = "fault + 'a"

definition bind :: "'a result \<Rightarrow> ('a \<Rightarrow> 'b result) \<Rightarrow> 'b result" where
  "bind r f = (case r of Inl e \<Rightarrow> Inl e | Inr x \<Rightarrow> f x)"

lemma bind_simps [simp]:
  "bind (Inl e) f = Inl e"
  "bind (Inr x) f = f x"
  by (simp_all add: bind_def)

lemma bind_Inr_iff: "bind r f = Inr y \<longleftrightarrow> (\<exists>x. r = Inr x \<and> f x = Inr y)"
  by (cases r) auto

lemma bind_InrE:
  assumes "bind r f = Inr y"
  obtains x where "r = Inr x" and "f x = Inr y"
  using assms by (auto simp: bind_Inr_iff)

text \<open>
  The partial-correctness reading of a result: what holds of the value when there is one.
\<close>

definition ensures :: "'a result \<Rightarrow> ('a \<Rightarrow> bool) \<Rightarrow> bool" where
  "ensures r P \<longleftrightarrow> (case r of Inl e \<Rightarrow> True | Inr x \<Rightarrow> P x)"

text \<open>The total-correctness reading: there is a value, and it satisfies the predicate.\<close>

definition yields :: "'a result \<Rightarrow> ('a \<Rightarrow> bool) \<Rightarrow> bool" where
  "yields r P \<longleftrightarrow> (case r of Inl e \<Rightarrow> False | Inr x \<Rightarrow> P x)"

lemma ensures_simps [simp]:
  "ensures (Inl e) P"
  "ensures (Inr x) P = P x"
  by (simp_all add: ensures_def)

lemma yields_simps [simp]:
  "\<not> yields (Inl e) P"
  "yields (Inr x) P = P x"
  by (simp_all add: yields_def)

lemma ensures_bind:
  "ensures r P \<Longrightarrow> (\<And>x. P x \<Longrightarrow> ensures (f x) Q) \<Longrightarrow> ensures (bind r f) Q"
  by (cases r) auto

lemma yields_bind:
  "yields r P \<Longrightarrow> (\<And>x. P x \<Longrightarrow> yields (f x) Q) \<Longrightarrow> yields (bind r f) Q"
  by (cases r) auto

lemma ensures_mono: "ensures r P \<Longrightarrow> (\<And>x. P x \<Longrightarrow> Q x) \<Longrightarrow> ensures r Q"
  by (cases r) auto

lemma yields_mono: "yields r P \<Longrightarrow> (\<And>x. P x \<Longrightarrow> Q x) \<Longrightarrow> yields r Q"
  by (cases r) auto

lemma yields_ensures: "yields r P \<Longrightarrow> ensures r P"
  by (cases r) auto

lemma ensuresD: "ensures r P \<Longrightarrow> r = Inr x \<Longrightarrow> P x"
  by simp

lemma yieldsE:
  assumes "yields r P"
  obtains x where "r = Inr x" and "P x"
  using assms by (cases r) auto

section \<open>Arithmetic helpers of ikcp.c\<close>

definition imin :: "u32 \<Rightarrow> u32 \<Rightarrow> u32" where
  "imin a b = (if a \<le> b then a else b)"

definition imax :: "u32 \<Rightarrow> u32 \<Rightarrow> u32" where
  "imax a b = (if a \<ge> b then a else b)"

definition ibound :: "u32 \<Rightarrow> u32 \<Rightarrow> u32 \<Rightarrow> u32" where
  "ibound lower middle upper = imin (imax lower middle) upper"

definition itimediff :: "u32 \<Rightarrow> u32 \<Rightarrow> int" where
  "itimediff later earlier = sint (later - earlier)"

text \<open>Division of signed C integers rounds towards zero.\<close>

definition c_div :: "int \<Rightarrow> int \<Rightarrow> int" where
  "c_div a b = sgn a * sgn b * (\<bar>a\<bar> div \<bar>b\<bar>)"

lemma imin_eq_min: "imin a b = min a b"
  by (simp add: imin_def min_def)

lemma imax_eq_max: "imax a b = max a b"
  by (auto simp: imax_def max_def)

lemma unat_imin: "unat (imin a b) = min (unat a) (unat b)"
  by (simp add: imin_def min_def word_le_nat_alt)

lemma unat_imax: "unat (imax a b) = max (unat a) (unat b)"
  by (auto simp: imax_def max_def word_le_nat_alt)

lemma ibound_range: "lower \<le> upper \<Longrightarrow> lower \<le> ibound lower middle upper \<and> ibound lower middle upper \<le> upper"
  by (auto simp: ibound_def imin_def imax_def)

lemma c_div_nonneg: "0 \<le> a \<Longrightarrow> 0 < b \<Longrightarrow> c_div a b = a div b"
  by (cases "a = 0") (auto simp: c_div_def)

section \<open>Serial-number arithmetic\<close>

text \<open>
  \<open>itimediff\<close> reads the difference of two 32-bit counters as a signed number. Around a
  common base it agrees with the difference of the distances from the base, as long as both
  distances stay below half the range.
\<close>

lemma uint32_range: "0 \<le> uint (w :: u32) \<and> uint w < 4294967296"
  using unsigned_less [of w, where 'a = int] by simp

lemma wrap32_cases:
  assumes "(0::int) \<le> u" and "u < 4294967296"
  shows "(u + 2147483648) mod 4294967296 - 2147483648 = (if u < 2147483648 then u else u - 4294967296)"
proof (cases "u < 2147483648")
  case False
  have "(u + 2147483648) mod 4294967296 = (u + 2147483648 - 4294967296) mod 4294967296"
    by (rule minus_mod_self2 [symmetric])
  also have "\<dots> = u + 2147483648 - 4294967296"
    using False assms(2) by (intro mod_pos_pos_trivial) simp_all
  finally show ?thesis using False by simp
qed (use assms in \<open>simp add: mod_pos_pos_trivial\<close>)

lemma sint32_eq: "sint (w :: u32) = (if uint w < 2147483648 then uint w else uint w - 4294967296)"
proof -
  have "sint w = (uint w + 2147483648) mod 4294967296 - 2147483648"
    using int_word_sint [of "uint w", where 'a = 32] by (simp only: word_of_int_uint) simp
  then show ?thesis using uint32_range [of w] wrap32_cases by metis
qed

lemma sint32_range: "- 2147483648 \<le> sint (w :: u32) \<and> sint w < 2147483648"
  using sint_ge [of w] sint_lt [of w] by simp

lemma sint_nonneg_iff: "0 \<le> sint (w :: u32) \<longleftrightarrow> uint w < 2147483648"
proof (cases "uint w < 2147483648")
  case False
  then have "sint w < 0" using uint32_range [of w] by (simp add: sint32_eq)
  with False show ?thesis by simp
qed (simp add: sint32_eq)

lemma sint_nonneg: "0 \<le> sint (w :: u32) \<Longrightarrow> sint w = uint w"
  by (simp only: sint_nonneg_iff) (simp add: sint32_eq)

lemma uint_diff32:
  "uint (a - b :: u32) = (if uint b \<le> uint a then uint a - uint b else uint a - uint b + 4294967296)"
  by (simp add: uint_sub_if')

lemma uint_add32:
  "uint (a + b :: u32) = (if uint a + uint b < 4294967296 then uint a + uint b else uint a + uint b - 4294967296)"
  by (simp add: uint_plus_if')

lemma sint_diff_small:
  fixes x y :: u32
  assumes "uint x < 2147483648" and "uint y < 2147483648"
  shows "sint (x - y) = uint x - uint y"
proof (cases "uint y \<le> uint x")
  case True
  then have "uint (x - y) = uint x - uint y" by (simp add: uint_diff32)
  moreover have "uint x - uint y < 2147483648" using assms uint32_range [of y] by linarith
  ultimately show ?thesis by (simp add: sint32_eq)
next
  case False
  then have "uint (x - y) = uint x - uint y + 4294967296" by (simp add: uint_diff32)
  moreover have "\<not> uint x - uint y + 4294967296 < 2147483648"
    using assms uint32_range [of x] by linarith
  ultimately show ?thesis by (simp add: sint32_eq)
qed

lemma itimediff_base:
  assumes "uint (a - c) < 2147483648" and "uint (b - c) < 2147483648"
  shows "itimediff a b = uint (a - c) - uint (b - c)"
  using sint_diff_small [OF assms] by (simp add: itimediff_def)

lemma itimediff_self [simp]: "itimediff a a = 0"
  by (simp add: itimediff_def)

lemma itimediff_nonneg_iff: "0 \<le> itimediff a b \<longleftrightarrow> uint (a - b) < 2147483648"
  by (simp add: itimediff_def sint_nonneg_iff)

lemma itimediff_nonneg: "0 \<le> itimediff a b \<Longrightarrow> itimediff a b = uint (a - b)"
  by (simp add: itimediff_def sint_nonneg)

lemma itimediff_add_left:
  "uint d < 2147483648 \<Longrightarrow> itimediff (a + d) a = uint d"
  by (simp add: itimediff_def sint32_eq)

text \<open>Counters below half the range that are numbered by naturals compare as their numbers do.\<close>

lemma uint_of_nat32: "n < 4294967296 \<Longrightarrow> uint (of_nat n :: u32) = int n"
  by (simp add: unsigned_of_nat take_bit_nat_eq_self)

lemma unat_of_nat32: "n < 4294967296 \<Longrightarrow> unat (of_nat n :: u32) = n"
  by (simp add: unsigned_of_nat take_bit_nat_eq_self)

lemma itimediff_of_nat:
  assumes "m < 2147483648" and "n < 2147483648"
  shows "itimediff (of_nat m) (of_nat n) = int m - int n"
  using itimediff_base [of "of_nat m" 0 "of_nat n"] assms by (simp add: uint_of_nat32)

lemma of_nat32_inject:
  "m < 4294967296 \<Longrightarrow> n < 4294967296 \<Longrightarrow> (of_nat m :: u32) = of_nat n \<longleftrightarrow> m = n"
  using unat_of_nat32 by metis

text \<open>Reading back an integer that was stored in 32 bits.\<close>

lemma sint_of_int32: "- 2147483648 \<le> k \<Longrightarrow> k < 2147483648 \<Longrightarrow> sint (word_of_int k :: u32) = k"
  by (simp add: signed_of_int signed_take_bit_int_eq_self)

lemma uint_of_int32: "0 \<le> k \<Longrightarrow> k < 4294967296 \<Longrightarrow> uint (word_of_int k :: u32) = k"
  by (simp add: uint_word_of_int)

lemma unat_of_int32: "0 \<le> k \<Longrightarrow> k < 4294967296 \<Longrightarrow> unat (word_of_int k :: u32) = nat k"
  by (simp only: unat_eq_nat_uint uint_of_int32)

lemma sint_lt_uint: "0 < sint (w :: u32) \<Longrightarrow> sint w = uint w \<and> 0 < uint w \<and> uint w < 2147483648"
  using sint_nonneg [of w] sint_nonneg_iff [of w] by simp

lemma nat_sint_pos: "0 < sint (w :: u32) \<Longrightarrow> \<exists>m. sint w = int m \<and> uint w = int m \<and> nat (sint w) = m \<and> 0 < m \<and> m < 2147483648"
proof -
  assume "0 < sint w"
  note b = sint_lt_uint [OF this]
  obtain m where m: "sint w = int m" using nonneg_eq_int [of "sint w"] \<open>0 < sint w\<close> by auto
  have "uint w = int m" "int m < 2147483648" "0 < int m" using b m by linarith+
  then show ?thesis using m by (intro exI [of _ m] conjI) linarith+
qed

end
