(* ===== verification/Codec.thy ===== *)
theory Codec
  imports Kcp_Prelude
begin

text \<open>
  The byte encoding of ikcp.c: \<open>ikcp_encode8u/16u/32u\<close>, their decoders, and the 24-byte
  segment header that \<open>ikcp_encode_seg\<close> writes and \<open>ikcp_input\<close> reads
  (protocol.txt, section 1). The integers are stored bytewise here; theory \<open>Kcp_Target\<close> treats the
  branches that copy them, too.

  An encoder returns the bytes it stores from its pointer on; a decoder takes the bytes from its
  pointer on and returns the value with the bytes behind it, or None when it would read past the
  end. The locale \<open>codec\<close> states the round trip in both directions; a pair of codecs is a
  codec (\<open>pair_codec\<close>), and the header is built that way.
\<close>

section \<open>The contract of an encoding\<close>

locale codec =
  fixes enc :: "'a \<Rightarrow> byte list"
    and dec :: "byte list \<Rightarrow> ('a \<times> byte list) option"
    and width :: nat
  assumes enc_length: "length (enc x) = width"
    and dec_enc: "dec (enc x @ rest) = Some (x, rest)"
    and dec_Some: "dec bs = Some (x, rest) \<Longrightarrow> bs = enc x @ rest"
    and dec_enough: "width \<le> length bs \<Longrightarrow> \<exists>x. dec bs = Some (x, drop width bs)"
begin

lemma enc_inject: "enc x = enc y \<longleftrightarrow> x = y"
  by (metis dec_enc option.inject prod.inject)

lemma dec_enough_drop: "k + width \<le> length bs \<Longrightarrow> \<exists>x. dec (drop k bs) = Some (x, drop (k + width) bs)"
  using dec_enough [of "drop k bs"] by (simp add: add.commute)

lemma dec_long: "dec bs = Some (x, rest) \<Longrightarrow> width \<le> length bs"
  using dec_Some enc_length by fastforce

lemma dec_None_iff: "dec bs = None \<longleftrightarrow> length bs < width"
proof
  assume "dec bs = None"
  then show "length bs < width" using dec_enough [of bs] by (cases "width \<le> length bs") auto
next
  assume "length bs < width"
  then show "dec bs = None" using dec_long [of bs] by (cases "dec bs") auto
qed

lemma dec_drop: "dec bs = Some (x, rest) \<Longrightarrow> rest = drop width bs"
  using dec_Some enc_length by force

lemma enc_dec_take: "dec bs = Some (x, rest) \<Longrightarrow> enc x = take width bs"
  using dec_Some enc_length by force

end

text \<open>Two encodings one behind the other.\<close>

definition pair_enc :: "('a \<Rightarrow> byte list) \<Rightarrow> ('b \<Rightarrow> byte list) \<Rightarrow> 'a \<times> 'b \<Rightarrow> byte list" where
  "pair_enc ea eb p = ea (fst p) @ eb (snd p)"

definition pair_dec :: "(byte list \<Rightarrow> ('a \<times> byte list) option) \<Rightarrow> (byte list \<Rightarrow> ('b \<times> byte list) option)
    \<Rightarrow> byte list \<Rightarrow> (('a \<times> 'b) \<times> byte list) option" where
  "pair_dec da db bs =
     (case da bs of None \<Rightarrow> None
      | Some (x, bs') \<Rightarrow> (case db bs' of None \<Rightarrow> None | Some (y, rest) \<Rightarrow> Some ((x, y), rest)))"

locale pair_codec =
  A: codec enc_a dec_a width_a + B: codec enc_b dec_b width_b
  for enc_a :: "'a \<Rightarrow> byte list" and dec_a width_a
    and enc_b :: "'b \<Rightarrow> byte list" and dec_b width_b

sublocale pair_codec \<subseteq> codec "pair_enc enc_a enc_b" "pair_dec dec_a dec_b" "width_a + width_b"
proof unfold_locales
  fix bs :: "byte list" assume "width_a + width_b \<le> length bs"
  then have a: "width_a \<le> length bs" and b: "width_b \<le> length (drop width_a bs)" by auto
  from A.dec_enough [OF a] obtain x where x: "dec_a bs = Some (x, drop width_a bs)" ..
  from B.dec_enough [OF b] obtain y where y: "dec_b (drop width_a bs) = Some (y, drop (width_a + width_b) bs)"
    by (auto simp: add.commute)
  from x y show "\<exists>p. pair_dec dec_a dec_b bs = Some (p, drop (width_a + width_b) bs)"
    by (simp add: pair_dec_def)
qed (auto simp: pair_enc_def pair_dec_def A.enc_length B.enc_length A.dec_enc B.dec_enc
      A.enc_inject B.enc_inject split: option.splits dest!: A.dec_Some B.dec_Some)

section \<open>8, 16 and 32 bits, least significant byte first\<close>

definition ikcp_encode8u :: "byte \<Rightarrow> byte list" where
  "ikcp_encode8u c = [c]"

fun ikcp_decode8u :: "byte list \<Rightarrow> (byte \<times> byte list) option" where
  "ikcp_decode8u (p0 # rest) = Some (p0, rest)"
| "ikcp_decode8u _ = None"

definition ikcp_encode16u :: "u16 \<Rightarrow> byte list" where
  "ikcp_encode16u w = [ucast (w AND 255), ucast (drop_bit 8 w)]"

fun ikcp_decode16u :: "byte list \<Rightarrow> (u16 \<times> byte list) option" where
  "ikcp_decode16u (p0 # p1 # rest) =
     (let w = ucast p1;
          w = ucast p0 + push_bit 8 w
      in Some (w, rest))"
| "ikcp_decode16u _ = None"

definition ikcp_encode32u :: "u32 \<Rightarrow> byte list" where
  "ikcp_encode32u l =
     [ucast (drop_bit 0 l AND 0xff), ucast (drop_bit 8 l AND 0xff),
      ucast (drop_bit 16 l AND 0xff), ucast (drop_bit 24 l AND 0xff)]"

fun ikcp_decode32u :: "byte list \<Rightarrow> (u32 \<times> byte list) option" where
  "ikcp_decode32u (p0 # p1 # p2 # p3 # rest) =
     (let l = ucast p3;
          l = ucast p2 + push_bit 8 l;
          l = ucast p1 + push_bit 8 l;
          l = ucast p0 + push_bit 8 l
      in Some (l, rest))"
| "ikcp_decode32u _ = None"

lemma bit_join16:
  "bit (ucast (a :: byte) + push_bit 8 x :: u16) n \<longleftrightarrow> (if n < 8 then bit a n else n < 16 \<and> bit x (n - 8))"
proof -
  have "(ucast a + push_bit 8 x :: u16) = ucast a OR push_bit 8 x"
    by (rule disjunctive_add) (auto simp: bit_simps dest: bit_imp_le_length)
  then show ?thesis by (auto simp: bit_simps dest: bit_imp_le_length)
qed

lemma bit_join32:
  "bit (ucast (a :: byte) + push_bit 8 x :: u32) n \<longleftrightarrow> (if n < 8 then bit a n else n < 32 \<and> bit x (n - 8))"
proof -
  have "(ucast a + push_bit 8 x :: u32) = ucast a OR push_bit 8 x"
    by (rule disjunctive_add) (auto simp: bit_simps dest: bit_imp_le_length)
  then show ?thesis by (auto simp: bit_simps dest: bit_imp_le_length)
qed

lemma bit_255: "bit (255 :: int) n \<longleftrightarrow> n < 8"
proof -
  have "(255 :: int) = mask 8" by (simp add: mask_eq_exp_minus_1)
  then show ?thesis by (simp only: bit_mask_iff possible_bit_int) auto
qed

lemma join16:
  "(ucast (ucast (w AND 255 :: u16) :: byte) + push_bit 8 (ucast (ucast (drop_bit 8 w) :: byte)) :: u16) = w"
  by (rule bit_word_eqI) (auto simp: bit_join16 bit_255 bit_simps)

lemma join32:
  "(ucast (ucast (drop_bit 0 l AND 0xff :: u32) :: byte) + push_bit 8
     (ucast (ucast (drop_bit 8 l AND 0xff) :: byte) + push_bit 8
       (ucast (ucast (drop_bit 16 l AND 0xff) :: byte) + push_bit 8
         (ucast (ucast (drop_bit 24 l AND 0xff) :: byte)))) :: u32) = l"
  by (rule bit_word_eqI) (auto simp: bit_join32 bit_255 bit_simps)

lemma split16:
  fixes p0 p1 :: byte
  defines "w \<equiv> ucast p0 + push_bit 8 (ucast p1) :: u16"
  shows "ucast (w AND 255) = p0" and "ucast (drop_bit 8 w) = p1"
  unfolding w_def
   by (rule bit_word_eqI, auto simp: bit_join16 bit_255 bit_simps)+

lemma split32:
  fixes p0 p1 p2 p3 :: byte
  defines "l \<equiv> ucast p0 + push_bit 8 (ucast p1 + push_bit 8 (ucast p2 + push_bit 8 (ucast p3))) :: u32"
  shows "ucast (drop_bit 0 l AND 0xff) = p0" and "ucast (drop_bit 8 l AND 0xff) = p1"
    and "ucast (drop_bit 16 l AND 0xff) = p2" and "ucast (drop_bit 24 l AND 0xff) = p3"
  unfolding l_def
     by (rule bit_word_eqI, auto simp: bit_join32 bit_255 bit_simps)+

lemma length_2_cases: "2 \<le> length bs \<Longrightarrow> \<exists>a b rest. bs = a # b # rest"
  by (cases bs; cases "tl bs") auto

lemma length_4_cases: "4 \<le> length bs \<Longrightarrow> \<exists>a b c d rest. bs = a # b # c # d # rest"
  using length_2_cases [of bs] length_2_cases [of "drop 2 bs"] by auto

interpretation c8: codec ikcp_encode8u ikcp_decode8u 1
proof unfold_locales
  fix bs :: "byte list" assume "1 \<le> length bs"
  then show "\<exists>x. ikcp_decode8u bs = Some (x, drop 1 bs)" by (cases bs) auto
next
  fix bs x rest assume "ikcp_decode8u bs = Some (x, rest)"
  then show "bs = ikcp_encode8u x @ rest" by (cases bs) (auto simp: ikcp_encode8u_def)
qed (auto simp: ikcp_encode8u_def)

interpretation c16: codec ikcp_encode16u ikcp_decode16u 2
proof unfold_locales
  fix bs :: "byte list" assume "2 \<le> length bs"
  then show "\<exists>x. ikcp_decode16u bs = Some (x, drop 2 bs)" by (auto dest: length_2_cases)
next
  fix bs x rest assume "ikcp_decode16u bs = Some (x, rest)"
  then show "bs = ikcp_encode16u x @ rest"
    by (cases bs rule: ikcp_decode16u.cases) (auto simp: ikcp_encode16u_def Let_def split16)
qed (simp_all add: ikcp_encode16u_def Let_def join16)

interpretation c32: codec ikcp_encode32u ikcp_decode32u 4
proof unfold_locales
  fix bs :: "byte list" assume "4 \<le> length bs"
  then show "\<exists>x. ikcp_decode32u bs = Some (x, drop 4 bs)" by (auto dest: length_4_cases)
next
  fix bs x rest assume d: "ikcp_decode32u bs = Some (x, rest)"
  then obtain p0 p1 p2 p3 where bs: "bs = p0 # p1 # p2 # p3 # rest"
    and x: "x = ucast p0 + push_bit 8 (ucast p1 + push_bit 8 (ucast p2 + push_bit 8 (ucast p3)))"
    by (cases bs rule: ikcp_decode32u.cases) (auto simp: Let_def)
  then show "bs = ikcp_encode32u x @ rest"
    unfolding ikcp_encode32u_def x split32 by simp
next
  fix x rest
  show "ikcp_decode32u (ikcp_encode32u x @ rest) = Some (x, rest)"
    by (simp only: ikcp_encode32u_def append_Cons append_Nil ikcp_decode32u.simps Let_def join32)
qed (simp add: ikcp_encode32u_def)

section \<open>The segment header\<close>

text \<open>
  The fields of a header as \<open>ikcp_input\<close> reads them into its locals; \<open>ikcp_encode_seg\<close>
  narrows the fields of a segment to these widths.
\<close>

record header =
  h_conv :: u32
  h_cmd :: byte
  h_frg :: byte
  h_wnd :: u16
  h_ts :: u32
  h_sn :: u32
  h_una :: u32
  h_len :: u32

definition encode_header :: "header \<Rightarrow> byte list" where
  "encode_header h =
     ikcp_encode32u (h_conv h) @ ikcp_encode8u (h_cmd h) @ ikcp_encode8u (h_frg h) @
     ikcp_encode16u (h_wnd h) @ ikcp_encode32u (h_ts h) @ ikcp_encode32u (h_sn h) @
     ikcp_encode32u (h_una h) @ ikcp_encode32u (h_len h)"

definition decode_header :: "byte list \<Rightarrow> (header \<times> byte list) option" where
  "decode_header data =
     (case ikcp_decode32u data of None \<Rightarrow> None | Some (conv, data) \<Rightarrow>
      case ikcp_decode8u data of None \<Rightarrow> None | Some (cmd, data) \<Rightarrow>
      case ikcp_decode8u data of None \<Rightarrow> None | Some (frg, data) \<Rightarrow>
      case ikcp_decode16u data of None \<Rightarrow> None | Some (wnd, data) \<Rightarrow>
      case ikcp_decode32u data of None \<Rightarrow> None | Some (ts, data) \<Rightarrow>
      case ikcp_decode32u data of None \<Rightarrow> None | Some (sn, data) \<Rightarrow>
      case ikcp_decode32u data of None \<Rightarrow> None | Some (una, data) \<Rightarrow>
      case ikcp_decode32u data of None \<Rightarrow> None | Some (len, data) \<Rightarrow>
      Some (\<lparr>h_conv = conv, h_cmd = cmd, h_frg = frg, h_wnd = wnd,
             h_ts = ts, h_sn = sn, h_una = una, h_len = len\<rparr>, data))"

text \<open>The header is the pairing of its fields.\<close>

interpretation una_len: pair_codec ikcp_encode32u ikcp_decode32u 4 ikcp_encode32u ikcp_decode32u 4
  by unfold_locales

interpretation sn_len: pair_codec ikcp_encode32u ikcp_decode32u 4
  "pair_enc ikcp_encode32u ikcp_encode32u" "pair_dec ikcp_decode32u ikcp_decode32u" "4 + 4"
  by unfold_locales

interpretation ts_len: pair_codec ikcp_encode32u ikcp_decode32u 4
  "pair_enc ikcp_encode32u (pair_enc ikcp_encode32u ikcp_encode32u)"
  "pair_dec ikcp_decode32u (pair_dec ikcp_decode32u ikcp_decode32u)" "4 + (4 + 4)"
  by unfold_locales

interpretation cmd_frg: pair_codec ikcp_encode8u ikcp_decode8u 1 ikcp_encode8u ikcp_decode8u 1
  by unfold_locales

lemma decode_header_fields:
  assumes "decode_header bs = Some (h, rest)"
  obtains b1 b2 b3 b4 where
    "ikcp_decode32u bs = Some (h_conv h, b1)"
    "pair_dec ikcp_decode8u ikcp_decode8u b1 = Some ((h_cmd h, h_frg h), b2)"
    "ikcp_decode16u b2 = Some (h_wnd h, b3)"
    "pair_dec ikcp_decode32u (pair_dec ikcp_decode32u (pair_dec ikcp_decode32u ikcp_decode32u)) b3
       = Some ((h_ts h, h_sn h, h_una h, h_len h), rest)"
  using assms by (auto simp: decode_header_def pair_dec_def split: option.splits)

lemma encode_header_fields:
  "encode_header h = ikcp_encode32u (h_conv h) @ pair_enc ikcp_encode8u ikcp_encode8u (h_cmd h, h_frg h) @
     ikcp_encode16u (h_wnd h) @
     pair_enc ikcp_encode32u (pair_enc ikcp_encode32u (pair_enc ikcp_encode32u ikcp_encode32u))
       (h_ts h, h_sn h, h_una h, h_len h)"
  by (simp add: encode_header_def pair_enc_def)

interpretation hdr: codec encode_header decode_header 24
proof unfold_locales
  fix bs :: "byte list" assume l: "24 \<le> length bs"
  obtain conv where 1: "ikcp_decode32u bs = Some (conv, drop 4 bs)"
    using c32.dec_enough [of bs] l by auto
  obtain cmd where 2: "ikcp_decode8u (drop 4 bs) = Some (cmd, drop 5 bs)"
    using c8.dec_enough_drop [of 4 bs] l by auto
  obtain frg where 3: "ikcp_decode8u (drop 5 bs) = Some (frg, drop 6 bs)"
    using c8.dec_enough_drop [of 5 bs] l by auto
  obtain wnd where 4: "ikcp_decode16u (drop 6 bs) = Some (wnd, drop 8 bs)"
    using c16.dec_enough_drop [of 6 bs] l by auto
  obtain ts where 5: "ikcp_decode32u (drop 8 bs) = Some (ts, drop 12 bs)"
    using c32.dec_enough_drop [of 8 bs] l by auto
  obtain sn where 6: "ikcp_decode32u (drop 12 bs) = Some (sn, drop 16 bs)"
    using c32.dec_enough_drop [of 12 bs] l by auto
  obtain una where 7: "ikcp_decode32u (drop 16 bs) = Some (una, drop 20 bs)"
    using c32.dec_enough_drop [of 16 bs] l by auto
  obtain len where 8: "ikcp_decode32u (drop 20 bs) = Some (len, drop 24 bs)"
    using c32.dec_enough_drop [of 20 bs] l by auto
  show "\<exists>h. decode_header bs = Some (h, drop 24 bs)"
    by (simp add: decode_header_def 1 2 3 4 5 6 7 8)
next
  fix bs h rest assume "decode_header bs = Some (h, rest)"
  then show "bs = encode_header h @ rest"
    by (rule decode_header_fields)
      (auto dest!: c32.dec_Some c16.dec_Some cmd_frg.dec_Some ts_len.dec_Some
        simp: encode_header_fields)
qed (simp_all add: encode_header_def decode_header_def c8.enc_length c16.enc_length c32.enc_length
      c8.dec_enc c16.dec_enc c32.dec_enc)

section \<open>Reading the conversation number\<close>

definition ikcp_getconv :: "byte list \<Rightarrow> u32 option" where
  "ikcp_getconv p = map_option fst (ikcp_decode32u p)"

lemma ikcp_getconv_header: "ikcp_getconv (encode_header h @ rest) = Some (h_conv h)"
  by (simp add: ikcp_getconv_def encode_header_def c32.dec_enc)

section \<open>Correctness\<close>

text \<open>The three integer encodings and their decoders are inverse to each other: decoding gives a value and
  a rest exactly for the byte strings that are the encoding of the value followed by the rest.\<close>

theorem integer_codecs:
  "(ikcp_decode8u bs = Some (c, rest)) = (bs = ikcp_encode8u c @ rest) \<and>
   (ikcp_decode16u bs = Some (w, rest)) = (bs = ikcp_encode16u w @ rest) \<and>
   (ikcp_decode32u bs = Some (l, rest)) = (bs = ikcp_encode32u l @ rest)"
  using c8.dec_Some c8.dec_enc c16.dec_Some c16.dec_enc c32.dec_Some c32.dec_enc by blast

text \<open>C38: The segment header is 24 bytes; reading one gives exactly the header written and the bytes behind
  it, and succeeds on every 24 bytes. \<open>ikcp_getconv\<close> reads the conversation of the first header of a datagram.\<close>

theorem header_codec:
  "length (encode_header h) = 24 \<and>
   (decode_header bs = Some (h, rest)) = (bs = encode_header h @ rest) \<and>
   (decode_header bs = None) = (length bs < 24) \<and>
   ikcp_getconv (encode_header h @ rest) = Some (h_conv h)"
  using hdr.enc_length hdr.dec_Some hdr.dec_enc hdr.dec_None_iff ikcp_getconv_header by blast

end
