(* ===== verification/Kcp_Target.thy ===== *)
theory Kcp_Target
  imports Codec
begin

text \<open>
  What ikcp.h and ikcp.c decide at compile time: the integer types, the byte order and the way integers are
  stored. A host is described by the macros its compiler predefines, by the widths of its C types and by the
  order of the bytes of an integer in memory. The other theories use 32-bit words and the bytewise
  branches of the encoders (theory Codec); here is why this is right on every host the tests of ikcp.h know.
\<close>

section \<open>Hosts\<close>

text \<open>A macro is undefined or has a value; a macro that is defined without a value has the value 1 here.\<close>

type_synonym macros = "string \<Rightarrow> int option"

definition is_defined :: "macros \<Rightarrow> string \<Rightarrow> bool" where
  "is_defined m x \<longleftrightarrow> m x \<noteq> None"

definition any_defined :: "macros \<Rightarrow> string list \<Rightarrow> bool" where
  "any_defined m xs \<longleftrightarrow> list_ex (is_defined m) xs"

record host =
  macros :: macros
  big_endian :: bool
  short_bits :: nat
  int_bits :: nat
  long_bits :: nat
  long_long_bits :: nat

section \<open>The integer types\<close>

datatype c_type =
  Char | Unsigned_char | Short | Unsigned_short | Signed_int | Unsigned_int | Long | Unsigned_long |
  Long_long | Unsigned_long_long | SInt32 | UInt32 | Int32_t | U_int32_t | Uint32_t |
  Ms_int32 | Ms_unsigned_int32 | Ms_int64 | Ms_unsigned_int64

text \<open>The types of system headers and of the Microsoft and Borland compilers have their width in the name.\<close>

fun c_bits :: "host \<Rightarrow> c_type \<Rightarrow> nat" where
  "c_bits h Char = 8" | "c_bits h Unsigned_char = 8"
| "c_bits h Short = short_bits h" | "c_bits h Unsigned_short = short_bits h"
| "c_bits h Signed_int = int_bits h" | "c_bits h Unsigned_int = int_bits h"
| "c_bits h Long = long_bits h" | "c_bits h Unsigned_long = long_bits h"
| "c_bits h Long_long = long_long_bits h" | "c_bits h Unsigned_long_long = long_long_bits h"
| "c_bits h Ms_int64 = 64" | "c_bits h Ms_unsigned_int64 = 64"
| "c_bits h _ = 32"

definition macros_64bit :: "string list" where
  "macros_64bit = [''_WIN64'', ''WIN64'', ''__amd64__'', ''__x86_64'', ''__x86_64__'', ''_M_IA64'', ''_M_AMD64'']"

definition macros_32bit :: "string list" where
  "macros_32bit = [''_WIN32'', ''WIN32'', ''__i386__'', ''__i386'', ''_M_X86'']"

text \<open>The types \<open>ISTDUINT32\<close> and \<open>ISTDINT32\<close>.\<close>

definition ISTD32 :: "macros \<Rightarrow> c_type \<times> c_type" where
  "ISTD32 m =
     (if any_defined m macros_64bit then (Unsigned_int, Signed_int)
      else if any_defined m macros_32bit then (Unsigned_long, Long)
      else if is_defined m ''__MACOS__'' then (UInt32, SInt32)
      else if is_defined m ''__APPLE__'' \<and> is_defined m ''__MACH__'' then (U_int32_t, Int32_t)
      else if is_defined m ''__BEOS__'' then (U_int32_t, Int32_t)
      else if any_defined m [''_MSC_VER'', ''__BORLANDC__''] \<and> \<not> is_defined m ''__MSDOS__'' then (Ms_unsigned_int32, Ms_int32)
      else if is_defined m ''__GNUC__'' then (Uint32_t, Int32_t)
      else (Unsigned_long, Long))"

text \<open>A type whose guard is already defined comes from the including program: None.\<close>

definition guarded :: "macros \<Rightarrow> string \<Rightarrow> c_type \<Rightarrow> c_type option" where
  "guarded m guard t = (if is_defined m guard then None else Some t)"

record int_types =
  IINT8 :: "c_type option"
  IUINT8 :: "c_type option"
  IUINT16 :: "c_type option"
  IINT16 :: "c_type option"
  IINT32 :: "c_type option"
  IUINT32 :: "c_type option"
  IINT64 :: "c_type option"
  IUINT64 :: "c_type option"

definition int_types_of :: "macros \<Rightarrow> int_types" where
  "int_types_of m = (let ms = any_defined m [''_MSC_VER'', ''__BORLANDC__''] in
     \<lparr>IINT8 = guarded m ''__IINT8_DEFINED'' Char,
      IUINT8 = guarded m ''__IUINT8_DEFINED'' Unsigned_char,
      IUINT16 = guarded m ''__IUINT16_DEFINED'' Unsigned_short,
      IINT16 = guarded m ''__IINT16_DEFINED'' Short,
      IINT32 = Option.bind (guarded m ''__INTEGER_32_BITS__'' (snd (ISTD32 m))) (guarded m ''__IINT32_DEFINED''),
      IUINT32 = Option.bind (guarded m ''__INTEGER_32_BITS__'' (fst (ISTD32 m))) (guarded m ''__IUINT32_DEFINED''),
      IINT64 = guarded m ''__IINT64_DEFINED'' (if ms then Ms_int64 else Long_long),
      IUINT64 = guarded m ''__IUINT64_DEFINED'' (if ms then Ms_unsigned_int64 else Unsigned_long_long)\<rparr>)"

section \<open>Byte order and alignment\<close>

definition macros_big_endian :: "string list" where
  "macros_big_endian = [''__hppa__'', ''__m68k__'', ''mc68000'', ''_M_M68K'', ''__ppc__'', ''__POWERPC__'', ''_M_PPC'',
     ''__sparc__'', ''__powerpc__'', ''__mc68000__'', ''__s390x__'', ''__s390__'']"

definition IWORDS_BIG_ENDIAN :: "macros \<Rightarrow> int" where
  "IWORDS_BIG_ENDIAN m =
     (case m ''IWORDS_BIG_ENDIAN'' of Some v \<Rightarrow> v
      | None \<Rightarrow>
          if is_defined m ''_BIG_ENDIAN_'' \<and> m ''_BIG_ENDIAN_'' \<noteq> Some 0 then 1
          else if any_defined m macros_big_endian \<or> is_defined m ''__MIPS__'' \<and> is_defined m ''__MIPSEB__'' then 1
          else 0)"

definition macros_x86 :: "string list" where
  "macros_x86 = [''__i386__'', ''__i386'', ''_i386_'', ''_M_IX86'', ''_X86_'', ''__x86_64__'', ''__amd64'', ''__amd64__'']"

definition IWORDS_MUST_ALIGN :: "macros \<Rightarrow> int" where
  "IWORDS_MUST_ALIGN m =
     (case m ''IWORDS_MUST_ALIGN'' of Some v \<Rightarrow> v
      | None \<Rightarrow> if any_defined m macros_x86 then 0 else 1)"

section \<open>The encoders as they are compiled\<close>

text \<open>The bytes of an object in memory, and the value of the object that has given bytes.\<close>

primrec le_bytes :: "nat \<Rightarrow> 'a::len word \<Rightarrow> byte list" where
  "le_bytes 0 w = []"
| "le_bytes (Suc n) w = ucast w # le_bytes n (drop_bit 8 w)"

primrec le_value :: "byte list \<Rightarrow> 'a::len word" where
  "le_value [] = 0"
| "le_value (b # bs) = ucast b + push_bit 8 (le_value bs)"

definition object_bytes :: "host \<Rightarrow> nat \<Rightarrow> 'a::len word \<Rightarrow> byte list" where
  "object_bytes h n w = (if big_endian h then rev (le_bytes n w) else le_bytes n w)"

definition object_value :: "host \<Rightarrow> byte list \<Rightarrow> 'a::len word" where
  "object_value h bs = le_value (if big_endian h then rev bs else bs)"

text \<open>The condition of the \<open>#if\<close> in the encoders and decoders.\<close>

definition bytewise :: "host \<Rightarrow> bool" where
  "bytewise h \<longleftrightarrow> IWORDS_BIG_ENDIAN (macros h) \<noteq> 0 \<or> IWORDS_MUST_ALIGN (macros h) \<noteq> 0"

definition encode16u_on :: "host \<Rightarrow> u16 \<Rightarrow> byte list" where
  "encode16u_on h w = (if bytewise h then ikcp_encode16u w else object_bytes h 2 w)"

definition decode16u_on :: "host \<Rightarrow> byte list \<Rightarrow> (u16 \<times> byte list) option" where
  "decode16u_on h p =
     (if bytewise h then ikcp_decode16u p
      else if length p < 2 then None else Some (object_value h (take 2 p), drop 2 p))"

definition encode32u_on :: "host \<Rightarrow> u32 \<Rightarrow> byte list" where
  "encode32u_on h l = (if bytewise h then ikcp_encode32u l else object_bytes h 4 l)"

definition decode32u_on :: "host \<Rightarrow> byte list \<Rightarrow> (u32 \<times> byte list) option" where
  "decode32u_on h p =
     (if bytewise h then ikcp_decode32u p
      else if length p < 4 then None else Some (object_value h (take 4 p), drop 4 p))"

section \<open>Lemmas\<close>

lemma ucast_low_byte: "ucast (w AND 255 :: 'a::len word) = (ucast w :: byte)"
  by (rule bit_word_eqI) (auto simp: bit_255 bit_simps dest: bit_imp_le_length)

lemma le_bytes_encode:
  shows "le_bytes 2 w = ikcp_encode16u w" and "le_bytes 4 l = ikcp_encode32u l"
  by (simp_all add: numeral_eq_Suc ikcp_encode16u_def ikcp_encode32u_def ucast_low_byte)

text \<open>The memory image of an integer on a little-endian host is its encoding, and back.\<close>

lemma object_bytes_little:
  assumes "\<not> big_endian h"
  shows "object_bytes h 2 w = ikcp_encode16u w" and "object_bytes h 4 l = ikcp_encode32u l"
  using assms by (simp_all only: object_bytes_def le_bytes_encode if_False simp_thms)

lemma object_value_little:
  assumes "\<not> big_endian h"
  shows "2 \<le> length p \<Longrightarrow> ikcp_decode16u p = Some (object_value h (take 2 p), drop 2 p)"
    and "4 \<le> length p \<Longrightarrow> ikcp_decode32u p = Some (object_value h (take 4 p), drop 4 p)"
  using assms by (auto simp: object_value_def Let_def dest!: length_2_cases length_4_cases)

text \<open>
  What is asked of a host: the macros of the x86 family, and only they, promise the order of the bytes; the macros of
  32-bit systems promise a 32-bit \<open>long\<close>, and a compiler with a wider one is one of those the header knows.
\<close>

definition known_host :: "host \<Rightarrow> bool" where
  "known_host h \<longleftrightarrow>
     short_bits h = 16 \<and> int_bits h = 32 \<and> long_long_bits h = 64 \<and>
     \<not> any_defined (macros h) [''IWORDS_BIG_ENDIAN'', ''IWORDS_MUST_ALIGN'', ''__INTEGER_32_BITS__'', ''__IINT8_DEFINED'', ''__IUINT8_DEFINED'',
         ''__IUINT16_DEFINED'', ''__IINT16_DEFINED'', ''__IINT32_DEFINED'', ''__IUINT32_DEFINED'',
         ''__IINT64_DEFINED'', ''__IUINT64_DEFINED''] \<and>
     (any_defined (macros h) macros_x86 \<longrightarrow> \<not> big_endian h) \<and>
     (long_bits h = 32 \<or> any_defined (macros h) macros_64bit \<or>
      \<not> any_defined (macros h) macros_32bit \<and> is_defined (macros h) ''__GNUC__'')"

lemma known_host_order:
  assumes "known_host h" and "\<not> bytewise h"
  shows "\<not> big_endian h"
  using assms
  by (auto simp: known_host_def bytewise_def IWORDS_MUST_ALIGN_def any_defined_def is_defined_def split: if_splits)

definition width_is :: "host \<Rightarrow> c_type option \<Rightarrow> nat \<Rightarrow> bool" where
  "width_is h t n \<longleftrightarrow> map_option (c_bits h) t = Some n"

lemma ISTD32_width:
  assumes "known_host h"
  shows "c_bits h (fst (ISTD32 (macros h))) = 32" and "c_bits h (snd (ISTD32 (macros h))) = 32"
  using assms by (auto simp: known_host_def ISTD32_def)

section \<open>Correctness\<close>

text \<open>On every host of the kinds ikcp.h provides for the integer types have the widths in their names.\<close>

theorem int_types_width:
  assumes "known_host h"
  shows "let t = int_types_of (macros h) in
    width_is h (IINT8 t) 8 \<and> width_is h (IUINT8 t) 8 \<and> width_is h (IINT16 t) 16 \<and> width_is h (IUINT16 t) 16 \<and>
    width_is h (IINT32 t) 32 \<and> width_is h (IUINT32 t) 32 \<and> width_is h (IINT64 t) 64 \<and> width_is h (IUINT64 t) 64"
  using assms ISTD32_width [OF assms]
  by (simp add: width_is_def int_types_of_def guarded_def Let_def known_host_def any_defined_def)

text \<open>C39: The wire format is the same on all known hosts: those with a 16-bit \<open>short\<close>, a 32-bit \<open>int\<close>, a 64-bit \<open>long long\<close>, a 32-bit
  \<open>long\<close> or one of the 64-bit or GNU compilers ikcp.h tests for, x86 macros only where integers are stored least significant byte
  first, and no macros given that override the tests (\<open>known_host\<close>). Whatever branch the byte order and alignment tests choose there, the
  encoders store the least significant byte first, as the bytewise branch does, and the decoders read it back; the type \<open>IUINT32\<close>
  they work on has 32 bits. On other hosts it need not: under a 64-bit compiler that ikcp.h does not know \<open>IUINT32\<close> is a 64-bit
  \<open>long\<close> (\<open>unknown_lp64\<close>).\<close>

theorem wire_format_portable:
  assumes "known_host h"
  shows "encode16u_on h w = ikcp_encode16u w \<and> decode16u_on h p = ikcp_decode16u p \<and>
    encode32u_on h l = ikcp_encode32u l \<and> decode32u_on h p = ikcp_decode32u p \<and>
    width_is h (IUINT32 (int_types_of (macros h))) 32"
proof -
  note le = known_host_order [OF assms]
  have "encode16u_on h w = ikcp_encode16u w" "encode32u_on h l = ikcp_encode32u l"
    using object_bytes_little [OF le] by (simp_all add: encode16u_on_def encode32u_on_def)
  moreover have "ikcp_decode16u p = None" if "length p < 2" using that c16.dec_None_iff by simp
  then have "decode16u_on h p = ikcp_decode16u p"
    using object_value_little(1) [OF le, of p] by (simp add: decode16u_on_def)
  moreover have "ikcp_decode32u p = None" if "length p < 4" using that c32.dec_None_iff by simp
  then have "decode32u_on h p = ikcp_decode32u p"
    using object_value_little(2) [OF le, of p] by (simp add: decode32u_on_def)
  moreover have "width_is h (IUINT32 (int_types_of (macros h))) 32"
    using int_types_width [OF assms] by (simp add: Let_def)
  ultimately show ?thesis by simp
qed

text \<open>The library's own build: Linux on x86-64, where the integers are copied; and a big-endian ARM, which no test names and the
  alignment test therefore saves.\<close>

definition linux_x86_64 :: host where
  "linux_x86_64 = \<lparr>macros = [''__x86_64__'' \<mapsto> 1, ''__x86_64'' \<mapsto> 1, ''__amd64__'' \<mapsto> 1, ''__amd64'' \<mapsto> 1, ''__GNUC__'' \<mapsto> 9, ''__linux__'' \<mapsto> 1],
     big_endian = False, short_bits = 16, int_bits = 32, long_bits = 64, long_long_bits = 64\<rparr>"

definition arm_big_endian :: host where
  "arm_big_endian = \<lparr>macros = [''__arm__'' \<mapsto> 1, ''__ARMEB__'' \<mapsto> 1, ''__GNUC__'' \<mapsto> 9],
     big_endian = True, short_bits = 16, int_bits = 32, long_bits = 32, long_long_bits = 64\<rparr>"

lemma known_hosts: "known_host linux_x86_64" "known_host arm_big_endian"
  by (simp_all add: known_host_def linux_x86_64_def arm_big_endian_def any_defined_def is_defined_def
      macros_x86_def macros_64bit_def macros_32bit_def)

text \<open>A 64-bit compiler whose macros ikcp.h does not test for: \<open>IUINT32\<close> has 64 bits.\<close>

theorem unknown_lp64:
  "let h = \<lparr>macros = [''__aarch64__'' \<mapsto> 1], big_endian = False, short_bits = 16, int_bits = 32, long_bits = 64, long_long_bits = 64\<rparr>
   in width_is h (IUINT32 (int_types_of (macros h))) 64"
  by (simp add: width_is_def int_types_of_def ISTD32_def guarded_def any_defined_def is_defined_def macros_64bit_def macros_32bit_def Let_def)

theorem wire_format_portable_witness:
  "\<not> bytewise linux_x86_64 \<and> bytewise arm_big_endian \<and>
   encode32u_on linux_x86_64 0x01020304 = [4, 3, 2, 1] \<and> decode32u_on arm_big_endian [4, 3, 2, 1] = Some (0x01020304, [])"
proof -
  have e: "ikcp_encode32u 0x01020304 = [4, 3, 2, 1]" by (simp add: ikcp_encode32u_def)
  have "\<not> bytewise linux_x86_64" "bytewise arm_big_endian"
    by (simp_all add: bytewise_def linux_x86_64_def arm_big_endian_def IWORDS_BIG_ENDIAN_def IWORDS_MUST_ALIGN_def
        any_defined_def is_defined_def macros_x86_def macros_big_endian_def)
  then show ?thesis
    using wire_format_portable [OF known_hosts(1), of 0 "[]" "0x01020304"]
      wire_format_portable [OF known_hosts(2), of 0 "[4, 3, 2, 1]"] c32.dec_enc [of "0x01020304" "[]"] e by simp
qed

end
