(* ===== verification/Iqueue.thy ===== *)
theory Iqueue
  imports Kcp_Prelude
begin

text \<open>
  The intrusive doubly linked queue of ikcp.h (the \<open>IQUEUE_*\<close> macros).

  A heap gives every address the two pointers of its \<open>IQUEUEHEAD\<close>; an address is a number
  and NULL is 0. Each macro is the sequence of its assignments, each reading the heap the one
  before left. \<open>iqueue h head xs\<close> says that the queue with that head node links exactly
  the nodes of \<open>xs\<close>, in that order. The lemmas show that every macro is the corresponding
  list operation, that walking a queue ends and meets its nodes in order, and that queues with
  disjoint nodes do not disturb each other; the locale \<open>queue_ops\<close> states that contract and
  the drain loop of \<open>ikcp_release\<close> is proved against it. The other theories keep the
  segment queues of a control block as lists.
\<close>

section \<open>The heap and the macros\<close>

type_synonym addr = nat

record IQUEUEHEAD =
  q_next :: addr
  q_prev :: addr

type_synonym heap = "addr \<Rightarrow> IQUEUEHEAD"

definition set_next :: "heap \<Rightarrow> addr \<Rightarrow> addr \<Rightarrow> heap" where
  "set_next h p v = h(p := (h p)\<lparr>q_next := v\<rparr>)"

definition set_prev :: "heap \<Rightarrow> addr \<Rightarrow> addr \<Rightarrow> heap" where
  "set_prev h p v = h(p := (h p)\<lparr>q_prev := v\<rparr>)"

definition iqueue_init :: "heap \<Rightarrow> addr \<Rightarrow> heap" where
  "iqueue_init h ptr =
     (let h1 = set_next h ptr ptr
      in set_prev h1 ptr ptr)"

definition iqueue_add :: "heap \<Rightarrow> addr \<Rightarrow> addr \<Rightarrow> heap" where
  "iqueue_add h node head =
     (let h1 = set_prev h node head;
          h2 = set_next h1 node (q_next (h1 head));
          h3 = set_prev h2 (q_next (h2 head)) node
      in set_next h3 head node)"

definition iqueue_add_tail :: "heap \<Rightarrow> addr \<Rightarrow> addr \<Rightarrow> heap" where
  "iqueue_add_tail h node head =
     (let h1 = set_prev h node (q_prev (h head));
          h2 = set_next h1 node head;
          h3 = set_next h2 (q_prev (h2 head)) node
      in set_prev h3 head node)"

definition iqueue_del :: "heap \<Rightarrow> addr \<Rightarrow> heap" where
  "iqueue_del h entry =
     (let h1 = set_prev h (q_next (h entry)) (q_prev (h entry));
          h2 = set_next h1 (q_prev (h1 entry)) (q_next (h1 entry));
          h3 = set_next h2 entry 0
      in set_prev h3 entry 0)"

definition iqueue_del_init :: "heap \<Rightarrow> addr \<Rightarrow> heap" where
  "iqueue_del_init h entry = iqueue_init (iqueue_del h entry) entry"

definition iqueue_is_empty :: "heap \<Rightarrow> addr \<Rightarrow> bool" where
  "iqueue_is_empty h entry \<longleftrightarrow> entry = q_next (h entry)"

definition iqueue_splice :: "heap \<Rightarrow> addr \<Rightarrow> addr \<Rightarrow> heap" where
  "iqueue_splice h list head =
     (if iqueue_is_empty h list then h
      else let first = q_next (h list); last = q_prev (h list); at = q_next (h head);
               h1 = set_prev h first head;
               h2 = set_next h1 head first;
               h3 = set_next h2 last at
           in set_prev h3 at last)"

definition iqueue_splice_init :: "heap \<Rightarrow> addr \<Rightarrow> addr \<Rightarrow> heap" where
  "iqueue_splice_init h list head = iqueue_init (iqueue_splice h list head) list"

text \<open>
  The walk of \<open>iqueue_foreach_entry\<close>: the nodes met from \<open>pos\<close> until the head comes
  round. On a heap that is not a queue it may never end, so its result is an option.
\<close>

partial_function (option) iqueue_walk :: "heap \<Rightarrow> addr \<Rightarrow> addr \<Rightarrow> addr list \<Rightarrow> addr list option" where
  "iqueue_walk h head pos acc =
     (if pos = head then Some acc
      else iqueue_walk h head (q_next (h pos)) (acc @ [pos]))"

definition iqueue_foreach :: "heap \<Rightarrow> addr \<Rightarrow> addr list option" where
  "iqueue_foreach h head = iqueue_walk h head (q_next (h head)) []"

text \<open>The loop of \<open>ikcp_release\<close> that empties one queue, and the nodes it frees.\<close>

partial_function (option) iqueue_drain :: "heap \<Rightarrow> addr \<Rightarrow> addr list \<Rightarrow> (heap \<times> addr list) option" where
  "iqueue_drain h head freed =
     (if iqueue_is_empty h head then Some (h, freed)
      else let node = q_next (h head)
           in iqueue_drain (iqueue_del h node) head (freed @ [node]))"

declare iqueue_walk.simps [code] iqueue_drain.simps [code]

text \<open>
  \<open>ikcp_release\<close> empties the four queues of a control block one after the other; the second
  component lists the segments in the order they are freed.
\<close>

definition ikcp_release_queues ::
    "heap \<Rightarrow> addr \<Rightarrow> addr \<Rightarrow> addr \<Rightarrow> addr \<Rightarrow> (heap \<times> addr list) option" where
  "ikcp_release_queues h snd_buf rcv_buf snd_queue rcv_queue =
     (case iqueue_drain h snd_buf [] of None \<Rightarrow> None | Some (h, freed) \<Rightarrow>
      case iqueue_drain h rcv_buf freed of None \<Rightarrow> None | Some (h, freed) \<Rightarrow>
      case iqueue_drain h snd_queue freed of None \<Rightarrow> None | Some (h, freed) \<Rightarrow>
      iqueue_drain h rcv_queue freed)"

section \<open>What a queue is\<close>

fun path :: "heap \<Rightarrow> addr \<Rightarrow> addr list \<Rightarrow> addr \<Rightarrow> bool" where
  "path h a [] b \<longleftrightarrow> q_next (h a) = b \<and> q_prev (h b) = a"
| "path h a (x # xs) b \<longleftrightarrow> q_next (h a) = x \<and> q_prev (h x) = a \<and> path h x xs b"

definition iqueue :: "heap \<Rightarrow> addr \<Rightarrow> addr list \<Rightarrow> bool" where
  "iqueue h head xs \<longleftrightarrow> distinct (head # xs) \<and> path h head xs head"

lemma set_next_simps [simp]:
  "q_next (set_next h p v a) = (if a = p then v else q_next (h a))"
  "q_prev (set_next h p v a) = q_prev (h a)"
  by (simp_all add: set_next_def)

lemma set_prev_simps [simp]:
  "q_prev (set_prev h p v a) = (if a = p then v else q_prev (h a))"
  "q_next (set_prev h p v a) = q_next (h a)"
  by (simp_all add: set_prev_def)

lemma path_append:
  "path h a (xs @ y # ys) b \<longleftrightarrow> path h a xs y \<and> path h y ys b"
  by (induction xs arbitrary: a) auto

lemma path_next: "path h a xs b \<Longrightarrow> q_next (h a) = hd (xs @ [b])"
  by (cases xs) auto

lemma path_prev: "path h a xs b \<Longrightarrow> q_prev (h b) = last (a # xs)"
  by (induction xs arbitrary: a) auto

lemma path_cong:
  assumes "\<And>p. p \<in> insert a (set xs) \<Longrightarrow> q_next (h' p) = q_next (h p)"
    and "\<And>p. p \<in> insert b (set xs) \<Longrightarrow> q_prev (h' p) = q_prev (h p)"
  shows "path h' a xs b = path h a xs b"
  using assms by (induction xs arbitrary: a) auto

lemma path_set_next [simp]:
  "p \<noteq> a \<Longrightarrow> p \<notin> set xs \<Longrightarrow> path (set_next h p v) a xs b = path h a xs b"
  by (rule path_cong) auto

lemma path_set_prev [simp]:
  "p \<noteq> b \<Longrightarrow> p \<notin> set xs \<Longrightarrow> path (set_prev h p v) a xs b = path h a xs b"
  by (rule path_cong) auto

section \<open>The macros are list operations\<close>

lemma iqueue_distinct: "iqueue h head xs \<Longrightarrow> head \<notin> set xs \<and> distinct xs"
  by (simp add: iqueue_def)

lemma iqueue_frame:
  assumes "iqueue h head xs"
    and "\<And>p. p \<in> insert head (set xs) \<Longrightarrow> h' p = h p"
  shows "iqueue h' head xs"
proof -
  have "path h' head xs head = path h head xs head"
    using assms(2) by (intro path_cong) auto
  with assms(1) show ?thesis by (simp add: iqueue_def)
qed

lemma iqueue_init_empty: "iqueue (iqueue_init h head) head []"
  by (simp add: iqueue_def iqueue_init_def Let_def)

lemma iqueue_is_empty_iff: "iqueue h head xs \<Longrightarrow> iqueue_is_empty h head \<longleftrightarrow> xs = []"
  by (cases xs) (auto simp: iqueue_def iqueue_is_empty_def)

lemma iqueue_first: "iqueue h head (x # xs) \<Longrightarrow> q_next (h head) = x"
  by (simp add: iqueue_def)

lemma iqueue_last: "iqueue h head (xs @ [x]) \<Longrightarrow> q_prev (h head) = x"
  by (simp add: iqueue_def path_append)

lemma iqueue_add_head:
  assumes "iqueue h head xs" and "n \<notin> insert head (set xs)"
  shows "iqueue (iqueue_add h n head) head (n # xs)"
  using assms by (cases xs) (auto simp: iqueue_def iqueue_add_def Let_def)

lemma iqueue_add_after:
  assumes "iqueue h head (xs @ p # ys)" and "n \<notin> insert head (set (xs @ p # ys))"
  shows "iqueue (iqueue_add h n p) head (xs @ p # n # ys)"
  using assms by (cases ys) (auto simp: iqueue_def iqueue_add_def Let_def path_append)

lemma iqueue_add_tail_append:
  assumes "iqueue h head xs" and "n \<notin> insert head (set xs)"
  shows "iqueue (iqueue_add_tail h n head) head (xs @ [n])"
  using assms
  by (cases xs rule: rev_cases) (auto simp: iqueue_def iqueue_add_tail_def Let_def path_append)

lemma iqueue_del_remove:
  assumes "iqueue h head (xs @ e # ys)"
  shows "iqueue (iqueue_del h e) head (xs @ ys)"
proof (cases ys)
  case Nil
  with assms show ?thesis
    by (cases xs rule: rev_cases) (auto simp: iqueue_def iqueue_del_def Let_def path_append)
next
  case (Cons y zs)
  with assms show ?thesis
    by (cases xs rule: rev_cases) (auto simp: iqueue_def iqueue_del_def Let_def path_append)
qed

lemma iqueue_del_init_remove:
  assumes "iqueue h head (xs @ e # ys)"
  shows "iqueue (iqueue_del_init h e) head (xs @ ys) \<and> iqueue (iqueue_del_init h e) e []"
proof -
  have "e \<notin> insert head (set (xs @ ys))" using iqueue_distinct [OF assms] by auto
  moreover have "iqueue (iqueue_del h e) head (xs @ ys)" by (rule iqueue_del_remove [OF assms])
  ultimately have "iqueue (iqueue_init (iqueue_del h e) e) head (xs @ ys)"
    by (elim iqueue_frame) (auto simp: iqueue_init_def Let_def set_next_def set_prev_def)
  then show ?thesis by (simp add: iqueue_del_init_def iqueue_init_empty)
qed

text \<open>Which addresses a macro writes.\<close>

lemma iqueue_init_frame: "p \<noteq> n \<Longrightarrow> iqueue_init h n p = h p"
  by (simp add: iqueue_init_def Let_def set_next_def set_prev_def)

lemma iqueue_add_tail_frame:
  "p \<notin> {n, head, q_prev (h head)} \<Longrightarrow> n \<noteq> head \<Longrightarrow> iqueue_add_tail h n head p = h p"
  by (simp add: iqueue_add_tail_def Let_def set_next_def set_prev_def)

lemma iqueue_del_frame:
  "p \<notin> {e, q_next (h e), q_prev (h e)} \<Longrightarrow> iqueue_del h e p = h p"
  by (auto simp: iqueue_del_def Let_def set_next_def set_prev_def)

lemma iqueue_neighbours:
  assumes "iqueue h head xs" and "e \<in> insert head (set xs)"
  shows "q_next (h e) \<in> insert head (set xs) \<and> q_prev (h e) \<in> insert head (set xs)"
proof (cases "e = head")
  case True
  have "path h head xs head" using assms(1) by (simp add: iqueue_def)
  from path_next [OF this] path_prev [OF this] True show ?thesis
    by (cases xs) auto
next
  case False
  with assms(2) obtain as bs where xs: "xs = as @ e # bs" by (auto dest: split_list)
  have a: "path h head as e" and b: "path h e bs head"
    using assms(1) by (simp_all add: iqueue_def path_append xs)
  show ?thesis using path_prev [OF a] path_next [OF b] xs
    by (cases as rule: rev_cases; cases bs) auto
qed

lemma iqueue_splice_append:
  assumes "iqueue h l xs" and "iqueue h head ys"
    and "insert l (set xs) \<inter> insert head (set ys) = {}"
  shows "iqueue (iqueue_splice h l head) head (xs @ ys)"
proof (cases xs)
  case Nil
  with assms show ?thesis by (simp add: iqueue_splice_def iqueue_is_empty_iff)
next
  case (Cons x zs)
  show ?thesis
  proof (cases zs rule: rev_cases)
    case Nil
    with Cons assms show ?thesis
      by (cases ys) (auto simp: iqueue_def iqueue_splice_def iqueue_is_empty_def Let_def)
  next
    case (snoc us z)
    with Cons assms show ?thesis
      by (cases ys)
        (auto simp: iqueue_def iqueue_splice_def iqueue_is_empty_def Let_def path_append)
  qed
qed

lemma iqueue_splice_init_append:
  assumes "iqueue h l xs" and "iqueue h head ys"
    and "insert l (set xs) \<inter> insert head (set ys) = {}"
  shows "iqueue (iqueue_splice_init h l head) head (xs @ ys) \<and> iqueue (iqueue_splice_init h l head) l []"
proof -
  have "iqueue (iqueue_splice h l head) head (xs @ ys)" by (rule iqueue_splice_append [OF assms])
  moreover have "l \<notin> insert head (set (xs @ ys))"
    using assms(3) iqueue_distinct [OF assms(1)] by auto
  ultimately have "iqueue (iqueue_splice_init h l head) head (xs @ ys)"
    unfolding iqueue_splice_init_def by (elim iqueue_frame) (auto intro: iqueue_init_frame)
  then show ?thesis by (simp add: iqueue_splice_init_def iqueue_init_empty)
qed

section \<open>Two queues\<close>

lemma iqueue_del_other:
  assumes "iqueue h q xs" and "e \<in> set xs" and "iqueue h r ys"
    and "insert q (set xs) \<inter> insert r (set ys) = {}"
  shows "iqueue (iqueue_del h e) r ys"
  using assms(3)
proof (rule iqueue_frame)
  fix p assume "p \<in> insert r (set ys)"
  then have "p \<notin> insert q (set xs)" using assms(4) by auto
  then show "iqueue_del h e p = h p"
    using assms(2) iqueue_neighbours [OF assms(1), of e] by (intro iqueue_del_frame) auto
qed

lemma iqueue_add_tail_other:
  assumes "iqueue h q xs" and "iqueue h r ys"
    and "insert q (insert n (set xs)) \<inter> insert r (set ys) = {}" and "n \<noteq> q"
  shows "iqueue (iqueue_add_tail h n q) r ys"
  using assms(2)
proof (rule iqueue_frame)
  fix p assume "p \<in> insert r (set ys)"
  then have "p \<notin> insert q (insert n (set xs))" using assms(3) by auto
  then show "iqueue_add_tail h n q p = h p"
    using assms(4) iqueue_neighbours [OF assms(1), of q] by (intro iqueue_add_tail_frame) auto
qed

section \<open>The contract of a queue\<close>

text \<open>
  What ikcp.c relies on when it moves segments around: a relation \<open>repr s q xs\<close> (in state
  \<open>s\<close> the queue \<open>q\<close> holds \<open>xs\<close>) that the operations transform as lists, and that
  operations on one queue keep for another.
\<close>

locale queue_ops =
  fixes repr :: "'s \<Rightarrow> 'q \<Rightarrow> 'q list \<Rightarrow> bool"
    and add_tail :: "'s \<Rightarrow> 'q \<Rightarrow> 'q \<Rightarrow> 's"
    and del :: "'s \<Rightarrow> 'q \<Rightarrow> 's"
    and is_empty :: "'s \<Rightarrow> 'q \<Rightarrow> bool"
    and front :: "'s \<Rightarrow> 'q \<Rightarrow> 'q"
  assumes repr_distinct: "repr s q xs \<Longrightarrow> q \<notin> set xs \<and> distinct xs"
    and repr_empty: "repr s q xs \<Longrightarrow> is_empty s q \<longleftrightarrow> xs = []"
    and repr_front: "repr s q (x # xs) \<Longrightarrow> front s q = x"
    and repr_add_tail: "repr s q xs \<Longrightarrow> n \<notin> insert q (set xs) \<Longrightarrow> repr (add_tail s n q) q (xs @ [n])"
    and repr_del: "repr s q (xs @ e # ys) \<Longrightarrow> repr (del s e) q (xs @ ys)"
    and repr_del_other: "repr s q xs \<Longrightarrow> e \<in> set xs \<Longrightarrow> repr s r ys \<Longrightarrow>
      insert q (set xs) \<inter> insert r (set ys) = {} \<Longrightarrow> repr (del s e) r ys"
    and repr_add_tail_other: "repr s q xs \<Longrightarrow> repr s r ys \<Longrightarrow>
      insert q (insert n (set xs)) \<inter> insert r (set ys) = {} \<Longrightarrow> n \<noteq> q \<Longrightarrow> repr (add_tail s n q) r ys"
begin

lemma repr_pop: "repr s q (x # xs) \<Longrightarrow> repr (del s (front s q)) q xs"
  using repr_del [of s q "[]" x xs] by (simp add: repr_front)

text \<open>The move of ikcp.c: unlink the front node of one queue and append it to another.\<close>

lemma repr_move:
  assumes "repr s q (x # xs)" and "repr s r ys"
    and "insert q (set (x # xs)) \<inter> insert r (set ys) = {}"
  shows "repr (add_tail (del s (front s q)) (front s q) r) q xs"
    and "repr (add_tail (del s (front s q)) (front s q) r) r (ys @ [x])"
proof -
  have f: "front s q = x" by (rule repr_front [OF assms(1)])
  have q: "repr (del s x) q xs" using repr_pop [OF assms(1)] by (simp add: f)
  have r: "repr (del s x) r ys" by (rule repr_del_other [OF assms(1) _ assms(2,3)]) simp
  have x: "x \<notin> insert r (set ys)" using assms(3) by auto
  then show "repr (add_tail (del s (front s q)) (front s q) r) r (ys @ [x])"
    by (simp add: f repr_add_tail [OF r])
  show "repr (add_tail (del s (front s q)) (front s q) r) q xs"
    unfolding f using assms(3) repr_distinct [OF assms(1)] x
    by (intro repr_add_tail_other [OF r q]) auto
qed

lemma repr_enqueue_all:
  "repr s q xs \<Longrightarrow> distinct ns \<Longrightarrow> insert q (set xs) \<inter> set ns = {} \<Longrightarrow>
    repr (fold (\<lambda>n s. add_tail s n q) ns s) q (xs @ ns)"
proof (induction ns arbitrary: s xs)
  case (Cons n ns)
  then have "repr (add_tail s n q) q (xs @ [n])" by (intro repr_add_tail) auto
  from Cons.IH [OF this] Cons.prems show ?case by auto
qed simp

end

interpretation ikcp_queue: queue_ops iqueue iqueue_add_tail iqueue_del iqueue_is_empty "\<lambda>h q. q_next (h q)"
proof unfold_locales
  fix h q xs assume "iqueue h q xs"
  then show "q \<notin> set xs \<and> distinct xs" and "iqueue_is_empty h q \<longleftrightarrow> xs = []"
    by (rule iqueue_distinct, rule iqueue_is_empty_iff)
qed (blast intro: iqueue_first iqueue_add_tail_append iqueue_del_remove iqueue_del_other
  iqueue_add_tail_other)+

section \<open>Loops over a queue\<close>

lemma iqueue_walk_suffix:
  "path h a xs head \<Longrightarrow> head \<notin> set xs \<Longrightarrow> iqueue_walk h head (q_next (h a)) acc = Some (acc @ xs)"
proof (induction xs arbitrary: a acc)
  case Nil
  then show ?case by (simp add: iqueue_walk.simps)
next
  case (Cons x xs)
  then have "path h x xs head" and n: "q_next (h a) = x" and "x \<noteq> head" by auto
  with Cons.IH [of x "acc @ [x]"] Cons.prems show ?case
    by (simp add: iqueue_walk.simps [of h head x])
qed

lemma iqueue_foreach_nodes: "iqueue h head xs \<Longrightarrow> iqueue_foreach h head = Some xs"
  using iqueue_walk_suffix [of h head xs head "[]"] by (simp add: iqueue_def iqueue_foreach_def)

lemma iqueue_drain_frees:
  "iqueue h head xs \<Longrightarrow>
    \<exists>h'. iqueue_drain h head freed = Some (h', freed @ xs) \<and> iqueue h' head [] \<and>
      (\<forall>r ys. iqueue h r ys \<longrightarrow> insert head (set xs) \<inter> insert r (set ys) = {} \<longrightarrow> iqueue h' r ys)"
proof (induction xs arbitrary: h freed)
  case Nil
  then show ?case using ikcp_queue.repr_empty [OF Nil] by (simp add: iqueue_drain.simps)
next
  case (Cons x xs)
  let ?h = "iqueue_del h x"
  have f: "q_next (h head) = x" by (rule iqueue_first [OF Cons.prems])
  have "iqueue ?h head xs" using ikcp_queue.repr_pop [OF Cons.prems] by (simp add: f)
  from Cons.IH [OF this, of "freed @ [x]"] obtain h' where
    h': "iqueue_drain ?h head (freed @ [x]) = Some (h', freed @ x # xs)" "iqueue h' head []"
    and keep: "\<And>r ys. iqueue ?h r ys \<Longrightarrow> insert head (set xs) \<inter> insert r (set ys) = {} \<Longrightarrow> iqueue h' r ys"
    by auto
  have "iqueue_drain h head freed = Some (h', freed @ x # xs)"
    using h'(1) ikcp_queue.repr_empty [OF Cons.prems] by (simp add: iqueue_drain.simps [of h head] Let_def f)
  moreover have "iqueue h' r ys" if "iqueue h r ys" "insert head (set (x # xs)) \<inter> insert r (set ys) = {}" for r ys
    using keep [OF ikcp_queue.repr_del_other [OF Cons.prems _ that]] that(2) by auto
  ultimately show ?case using h'(2) by auto
qed

lemma iqueue_drain_two:
  assumes "iqueue h q xs" and "insert q (set xs) \<inter> insert r (set ys) = {}" and "iqueue h r ys"
  shows "\<exists>h'. iqueue_drain h q freed = Some (h', freed @ xs) \<and> iqueue h' r ys"
  using iqueue_drain_frees [OF assms(1)] assms(2,3) by meson

section \<open>Correctness\<close>

text \<open>A heap with two queues, the nodes 5 and 6 on the queue of head 1, the queue of head 2 empty.\<close>

definition sample_heap :: heap where
  "sample_heap =
     iqueue_add_tail (iqueue_add_tail (iqueue_init (iqueue_init (\<lambda>_. \<lparr>q_next = 0, q_prev = 0\<rparr>) 1) 2) 5 1) 6 1"

lemma sample_heap_queues: "iqueue sample_heap 1 [5, 6]" "iqueue sample_heap 2 []"
  by (simp_all add: sample_heap_def iqueue_def iqueue_add_tail_def iqueue_init_def set_next_def set_prev_def Let_def)

text \<open>Unlinking the front node of one queue and appending it to another, as ikcp.c does wherever a
  segment changes queues, takes the first element off the one list and puts it behind the other.\<close>

theorem iqueue_move_front:
  assumes "iqueue h q (x # xs)" and "iqueue h r ys" and "insert q (set (x # xs)) \<inter> insert r (set ys) = {}"
  shows "iqueue (iqueue_add_tail (iqueue_del h (q_next (h q))) (q_next (h q)) r) q xs \<and>
    iqueue (iqueue_add_tail (iqueue_del h (q_next (h q))) (q_next (h q)) r) r (ys @ [x])"
  using ikcp_queue.repr_move [OF assms] by blast

theorem iqueue_move_front_witness:
  "iqueue (iqueue_add_tail (iqueue_del sample_heap 5) 5 2) 1 [6] \<and>
   iqueue (iqueue_add_tail (iqueue_del sample_heap 5) 5 2) 2 [5]"
  using iqueue_move_front [OF sample_heap_queues] iqueue_first [OF sample_heap_queues(1)] by simp

text \<open>Inserting a node behind a given one, unlinking any node, and splicing one queue before
  another are the list operations; the spliced queue is left empty.\<close>

theorem iqueue_edit:
  assumes "iqueue h q (xs @ p # ys)"
  shows "iqueue (iqueue_del_init h p) q (xs @ ys) \<and> iqueue (iqueue_del_init h p) p [] \<and>
    (n \<notin> insert q (set (xs @ p # ys)) \<longrightarrow> iqueue (iqueue_add h n p) q (xs @ p # n # ys)) \<and>
    (iqueue h r zs \<and> insert q (set (xs @ p # ys)) \<inter> insert r (set zs) = {} \<longrightarrow>
       iqueue (iqueue_splice_init h q r) r (xs @ p # ys @ zs) \<and> iqueue (iqueue_splice_init h q r) q [])"
  using iqueue_del_init_remove [OF assms] iqueue_add_after [OF assms] iqueue_splice_init_append [OF assms] by auto

theorem iqueue_edit_witness:
  "iqueue (iqueue_del_init sample_heap 5) 1 [6] \<and> iqueue (iqueue_add sample_heap 7 5) 1 [5, 7, 6] \<and>
   iqueue (iqueue_splice_init sample_heap 1 2) 2 [5, 6]"
  using iqueue_edit [of sample_heap 1 "[]" 5 "[6]" 7 2 "[]"] sample_heap_queues by simp

text \<open>The drain loops of \<open>ikcp_release\<close> end; they free every node of the four queues exactly once, in the
  order of the queues, and leave all four queues empty.\<close>

theorem ikcp_release_frees:
  assumes "iqueue h sb a" and "iqueue h rb b" and "iqueue h sq c" and "iqueue h rq d"
    and "distinct ((sb # a) @ (rb # b) @ (sq # c) @ (rq # d))"
  shows "\<exists>h'. ikcp_release_queues h sb rb sq rq = Some (h', a @ b @ c @ d) \<and>
    iqueue h' sb [] \<and> iqueue h' rb [] \<and> iqueue h' sq [] \<and> iqueue h' rq []"
proof -
  obtain h1 where 1: "iqueue_drain h sb [] = Some (h1, a)" "iqueue h1 sb []"
    and k1: "\<And>r ys. iqueue h r ys \<Longrightarrow> insert sb (set a) \<inter> insert r (set ys) = {} \<Longrightarrow> iqueue h1 r ys"
    using iqueue_drain_frees [OF assms(1), of "[]"] by auto
  have q1: "iqueue h1 rb b" "iqueue h1 sq c" "iqueue h1 rq d" using assms by (auto intro!: k1)
  obtain h2 where 2: "iqueue_drain h1 rb a = Some (h2, a @ b)" "iqueue h2 rb []"
    and k2: "\<And>r ys. iqueue h1 r ys \<Longrightarrow> insert rb (set b) \<inter> insert r (set ys) = {} \<Longrightarrow> iqueue h2 r ys"
    using iqueue_drain_frees [OF q1(1), of a] by auto
  have q2: "iqueue h2 sb []" "iqueue h2 sq c" "iqueue h2 rq d" using assms(5) 1(2) q1 by (auto intro!: k2)
  obtain h3 where 3: "iqueue_drain h2 sq (a @ b) = Some (h3, a @ b @ c)" "iqueue h3 sq []"
    and k3: "\<And>r ys. iqueue h2 r ys \<Longrightarrow> insert sq (set c) \<inter> insert r (set ys) = {} \<Longrightarrow> iqueue h3 r ys"
    using iqueue_drain_frees [OF q2(2), of "a @ b"] by auto
  have q3: "iqueue h3 sb []" "iqueue h3 rb []" "iqueue h3 rq d" using assms(5) 2(2) q2 by (auto intro!: k3)
  obtain h4 where 4: "iqueue_drain h3 rq (a @ b @ c) = Some (h4, a @ b @ c @ d)" "iqueue h4 rq []"
    and k4: "\<And>r ys. iqueue h3 r ys \<Longrightarrow> insert rq (set d) \<inter> insert r (set ys) = {} \<Longrightarrow> iqueue h4 r ys"
    using iqueue_drain_frees [OF q3(3), of "a @ b @ c"] by auto
  have "iqueue h4 sb []" "iqueue h4 rb []" "iqueue h4 sq []" using assms(5) 3(2) q3 by (auto intro!: k4)
  then show ?thesis using 4 by (simp add: ikcp_release_queues_def 1(1) 2(1) 3(1))
qed

theorem ikcp_release_frees_witness:
  "\<exists>h'. ikcp_release_queues (iqueue_init (iqueue_init sample_heap 3) 4) 1 2 3 4 = Some (h', [5, 6]) \<and> iqueue h' 1 []"
proof -
  let ?h = "iqueue_init (iqueue_init sample_heap 3) 4"
  have "iqueue ?h 1 [5, 6]" "iqueue ?h 2 []" "iqueue ?h 3 []" "iqueue ?h 4 []"
    by (simp_all add: sample_heap_def iqueue_def iqueue_add_tail_def iqueue_init_def set_next_def set_prev_def Let_def)
  from ikcp_release_frees [OF this] show ?thesis by auto
qed

end
