(* ===== verification/Kcp_State.thy ===== *)
theory Kcp_State
  imports Codec
begin

text \<open>
  The data of ikcp.c: the segment \<open>IKCPSEG\<close>, the control block \<open>IKCPCB\<close>, the
  constants, creation, and the configuration calls \<open>ikcp_setoutput\<close>, \<open>ikcp_setmtu\<close>,
  \<open>ikcp_interval\<close>, \<open>ikcp_nodelay\<close>, \<open>ikcp_wndsize\<close>, \<open>ikcp_waitsnd\<close>.

  A queue of segments is the list of its segments from front to back (theory Iqueue relates the
  pointers to such lists); its \<open>node\<close> links are not fields here. \<open>seg_data\<close> is the payload
  behind the struct. \<open>acklist\<close> is the allocated array, empty for NULL; \<open>buffer\<close> is the
  size in bytes of the block the output buffer points to; \<open>output_cb\<close> (the field \<open>output\<close>) tells whether a callback is
  installed. \<open>user\<close>, \<open>logmask\<close> and \<open>writelog\<close> only reach callbacks and are in theory
  Kcp_Host.
\<close>

section \<open>Constants\<close>

definition IKCP_RTO_NDL :: u32 where [ikcp_consts]: "IKCP_RTO_NDL = 30"
definition IKCP_RTO_MIN :: u32 where [ikcp_consts]: "IKCP_RTO_MIN = 100"
definition IKCP_RTO_DEF :: u32 where [ikcp_consts]: "IKCP_RTO_DEF = 200"
definition IKCP_RTO_MAX :: u32 where [ikcp_consts]: "IKCP_RTO_MAX = 60000"
definition IKCP_CMD_PUSH :: u32 where [ikcp_consts]: "IKCP_CMD_PUSH = 81"
definition IKCP_CMD_ACK :: u32 where [ikcp_consts]: "IKCP_CMD_ACK = 82"
definition IKCP_CMD_WASK :: u32 where [ikcp_consts]: "IKCP_CMD_WASK = 83"
definition IKCP_CMD_WINS :: u32 where [ikcp_consts]: "IKCP_CMD_WINS = 84"
definition IKCP_ASK_SEND :: u32 where [ikcp_consts]: "IKCP_ASK_SEND = 1"
definition IKCP_ASK_TELL :: u32 where [ikcp_consts]: "IKCP_ASK_TELL = 2"
definition IKCP_WND_SND :: u32 where [ikcp_consts]: "IKCP_WND_SND = 32"
definition IKCP_WND_RCV :: u32 where [ikcp_consts]: "IKCP_WND_RCV = 128"
definition IKCP_MTU_DEF :: u32 where [ikcp_consts]: "IKCP_MTU_DEF = 1400"
definition IKCP_INTERVAL :: u32 where [ikcp_consts]: "IKCP_INTERVAL = 100"
definition IKCP_OVERHEAD :: u32 where [ikcp_consts]: "IKCP_OVERHEAD = 24"
definition IKCP_DEADLINK :: u32 where [ikcp_consts]: "IKCP_DEADLINK = 20"
definition IKCP_THRESH_INIT :: u32 where [ikcp_consts]: "IKCP_THRESH_INIT = 2"
definition IKCP_THRESH_MIN :: u32 where [ikcp_consts]: "IKCP_THRESH_MIN = 2"
definition IKCP_PROBE_INIT :: u32 where [ikcp_consts]: "IKCP_PROBE_INIT = 7000"
definition IKCP_PROBE_LIMIT :: u32 where [ikcp_consts]: "IKCP_PROBE_LIMIT = 120000"
definition IKCP_FASTACK_LIMIT :: u32 where [ikcp_consts]: "IKCP_FASTACK_LIMIT = 5"

section \<open>The segment\<close>

record IKCPSEG =
  seg_conv :: u32
  seg_cmd :: u32
  seg_frg :: u32
  seg_wnd :: u32
  seg_ts :: u32
  seg_sn :: u32
  seg_una :: u32
  seg_len :: u32
  seg_resendts :: u32
  seg_rto :: u32
  seg_fastack :: u32
  seg_xmit :: u32
  seg_data :: "byte list"

text \<open>
  \<open>ikcp_segment_new\<close> only allocates: until \<open>ikcp_flush\<close> numbers the segment, the fields
  other than \<open>frg\<close>, \<open>len\<close> and the data are indeterminate. They are 0 here, and
  \<open>ikcp_flush\<close> writes each of them before it reads it.
\<close>

definition ikcp_segment_new :: IKCPSEG where
  "ikcp_segment_new = \<lparr>seg_conv = 0, seg_cmd = 0, seg_frg = 0, seg_wnd = 0, seg_ts = 0, seg_sn = 0,
     seg_una = 0, seg_len = 0, seg_resendts = 0, seg_rto = 0, seg_fastack = 0, seg_xmit = 0,
     seg_data = []\<rparr>"

definition seg_header :: "IKCPSEG \<Rightarrow> header" where
  "seg_header seg = \<lparr>h_conv = seg_conv seg, h_cmd = ucast (seg_cmd seg), h_frg = ucast (seg_frg seg),
     h_wnd = ucast (seg_wnd seg), h_ts = seg_ts seg, h_sn = seg_sn seg, h_una = seg_una seg,
     h_len = seg_len seg\<rparr>"

definition ikcp_encode_seg :: "IKCPSEG \<Rightarrow> byte list" where
  "ikcp_encode_seg seg =
     ikcp_encode32u (seg_conv seg) @
     ikcp_encode8u (ucast (seg_cmd seg)) @
     ikcp_encode8u (ucast (seg_frg seg)) @
     ikcp_encode16u (ucast (seg_wnd seg)) @
     ikcp_encode32u (seg_ts seg) @
     ikcp_encode32u (seg_sn seg) @
     ikcp_encode32u (seg_una seg) @
     ikcp_encode32u (seg_len seg)"

lemma ikcp_encode_seg_header: "ikcp_encode_seg seg = encode_header (seg_header seg)"
  by (simp add: ikcp_encode_seg_def encode_header_def seg_header_def)

lemma length_ikcp_encode_seg [simp]: "length (ikcp_encode_seg seg) = 24"
  by (simp add: ikcp_encode_seg_header hdr.enc_length)

section \<open>The control block\<close>

record ikcpcb =
  conv :: u32
  mtu :: u32
  mss :: u32
  state :: u32
  snd_una :: u32
  snd_nxt :: u32
  rcv_nxt :: u32
  ts_recent :: u32
  ts_lastack :: u32
  ssthresh :: u32
  rx_rttval :: i32
  rx_srtt :: i32
  rx_rto :: i32
  rx_minrto :: i32
  snd_wnd :: u32
  rcv_wnd :: u32
  rmt_wnd :: u32
  cwnd :: u32
  probe :: u32
  current :: u32
  interval :: u32
  ts_flush :: u32
  xmit :: u32
  nrcv_buf :: u32
  nsnd_buf :: u32
  nrcv_que :: u32
  nsnd_que :: u32
  nodelay :: u32
  updated :: u32
  ts_probe :: u32
  probe_wait :: u32
  dead_link :: u32
  incr :: u32
  snd_queue :: "IKCPSEG list"
  rcv_queue :: "IKCPSEG list"
  snd_buf :: "IKCPSEG list"
  rcv_buf :: "IKCPSEG list"
  acklist :: "u32 list"
  ackcount :: u32
  ackblock :: u32
  buffer :: u32
  fastresend :: i32
  fastlimit :: i32
  nocwnd :: i32
  stream :: i32
  output_cb :: bool

section \<open>Creation and configuration\<close>

text \<open>The two flags tell whether the two allocations succeed.\<close>

definition ikcp_create :: "bool \<Rightarrow> bool \<Rightarrow> u32 \<Rightarrow> ikcpcb option" where
  "ikcp_create malloc_kcp malloc_buffer cv =
     (if \<not> malloc_kcp then None
      else if \<not> malloc_buffer then None
      else Some \<lparr>conv = cv, mtu = IKCP_MTU_DEF, mss = IKCP_MTU_DEF - IKCP_OVERHEAD, state = 0,
        snd_una = 0, snd_nxt = 0, rcv_nxt = 0,
        ts_recent = 0, ts_lastack = 0, ssthresh = IKCP_THRESH_INIT,
        rx_rttval = 0, rx_srtt = 0, rx_rto = IKCP_RTO_DEF, rx_minrto = IKCP_RTO_MIN,
        snd_wnd = IKCP_WND_SND, rcv_wnd = IKCP_WND_RCV, rmt_wnd = IKCP_WND_RCV, cwnd = 0, probe = 0,
        current = 0, interval = IKCP_INTERVAL, ts_flush = IKCP_INTERVAL, xmit = 0,
        nrcv_buf = 0, nsnd_buf = 0, nrcv_que = 0, nsnd_que = 0,
        nodelay = 0, updated = 0, ts_probe = 0, probe_wait = 0,
        dead_link = IKCP_DEADLINK, incr = 0,
        snd_queue = [], rcv_queue = [], snd_buf = [], rcv_buf = [],
        acklist = [], ackcount = 0, ackblock = 0,
        buffer = (IKCP_MTU_DEF + IKCP_OVERHEAD) * 3,
        fastresend = 0, fastlimit = IKCP_FASTACK_LIMIT, nocwnd = 0, stream = 0,
        output_cb = False\<rparr>)"

definition ikcp_setoutput :: "ikcpcb \<Rightarrow> ikcpcb" where
  "ikcp_setoutput kcp = kcp\<lparr>output_cb := True\<rparr>"

definition ikcp_setmtu :: "bool \<Rightarrow> ikcpcb \<Rightarrow> int \<Rightarrow> int \<times> ikcpcb" where
  "ikcp_setmtu malloc_buffer kcp new_mtu =
     (if new_mtu < 50 \<or> new_mtu < uint IKCP_OVERHEAD then (-1, kcp)
      else if \<not> malloc_buffer then (-2, kcp)
      else (0, kcp\<lparr>mtu := word_of_int new_mtu,
                   mss := word_of_int new_mtu - IKCP_OVERHEAD,
                   buffer := (word_of_int new_mtu + IKCP_OVERHEAD) * 3\<rparr>))"

definition clamp_interval :: "int \<Rightarrow> int" where
  "clamp_interval i = (if i > 5000 then 5000 else if i < 10 then 10 else i)"

definition ikcp_interval :: "ikcpcb \<Rightarrow> int \<Rightarrow> int \<times> ikcpcb" where
  "ikcp_interval kcp i = (0, kcp\<lparr>interval := word_of_int (clamp_interval i)\<rparr>)"

definition ikcp_nodelay :: "ikcpcb \<Rightarrow> int \<Rightarrow> int \<Rightarrow> int \<Rightarrow> int \<Rightarrow> int \<times> ikcpcb" where
  "ikcp_nodelay kcp nd i resend nc =
     (let kcp = (if nd \<ge> 0
                 then kcp\<lparr>nodelay := word_of_int nd,
                          rx_minrto := (if nd \<noteq> 0 then IKCP_RTO_NDL else IKCP_RTO_MIN)\<rparr>
                 else kcp);
          kcp = (if i \<ge> 0 then kcp\<lparr>interval := word_of_int (clamp_interval i)\<rparr> else kcp);
          kcp = (if resend \<ge> 0 then kcp\<lparr>fastresend := word_of_int resend\<rparr> else kcp);
          kcp = (if nc \<ge> 0 then kcp\<lparr>nocwnd := word_of_int nc\<rparr> else kcp)
      in (0, kcp))"

definition ikcp_wndsize :: "ikcpcb \<Rightarrow> int \<Rightarrow> int \<Rightarrow> int \<times> ikcpcb" where
  "ikcp_wndsize kcp sndwnd rcvwnd =
     (let kcp = (if sndwnd > 0 then kcp\<lparr>snd_wnd := word_of_int sndwnd\<rparr> else kcp);
          kcp = (if rcvwnd > 0 then kcp\<lparr>rcv_wnd := imax (word_of_int rcvwnd) IKCP_WND_RCV\<rparr> else kcp)
      in (0, kcp))"

definition ikcp_waitsnd :: "ikcpcb \<Rightarrow> int" where
  "ikcp_waitsnd kcp = sint (nsnd_buf kcp + nsnd_que kcp)"

section \<open>Correctness\<close>

text \<open>What \<open>ikcp_encode_seg\<close> writes is read back by the header decoding of \<open>ikcp_input\<close> as the segment's
  fields, the command, the fragment number and the window narrowed to their wire widths.\<close>

theorem ikcp_encode_seg_read:
  "decode_header (ikcp_encode_seg seg @ rest) =
     Some (\<lparr>h_conv = seg_conv seg, h_cmd = ucast (seg_cmd seg), h_frg = ucast (seg_frg seg),
       h_wnd = ucast (seg_wnd seg), h_ts = seg_ts seg, h_sn = seg_sn seg, h_una = seg_una seg,
       h_len = seg_len seg\<rparr>, rest)"
  by (simp add: ikcp_encode_seg_header hdr.dec_enc seg_header_def)

end
