(* ===== verification/Seg_Order.thy ===== *)
theory Seg_Order
  imports Kcp_State
begin

text \<open>
  Queues ordered by serial number. \<open>seg_off b s\<close> is the distance of a segment's number from a
  base \<open>b\<close> (\<open>snd_una\<close> for \<open>snd_buf\<close>, \<open>rcv_nxt\<close> for \<open>rcv_buf\<close>), modulo \<open>2^32\<close>; a
  queue is \<open>ordered\<close> around the base when the distances rise strictly and stay below half the
  range, which is what makes the signed comparisons of ikcp.c agree with the order.
\<close>

definition seg_off :: "u32 \<Rightarrow> IKCPSEG \<Rightarrow> int" where
  "seg_off b s = uint (seg_sn s - b)"

definition ordered :: "u32 \<Rightarrow> IKCPSEG list \<Rightarrow> bool" where
  "ordered b xs \<longleftrightarrow> sorted_wrt (<) (map (seg_off b) xs) \<and> (\<forall>s\<in>set xs. seg_off b s < 2147483648)"

text \<open>A segment whose length field counts its data, as every queued segment's does.\<close>

definition seg_ok :: "IKCPSEG \<Rightarrow> bool" where
  "seg_ok s \<longleftrightarrow> unat (seg_len s) = length (seg_data s) \<and> length (seg_data s) < 2147483648 \<and> seg_frg s < 256"

lemma seg_off_nonneg [simp]: "0 \<le> seg_off b s"
  by (simp add: seg_off_def)

text \<open>Fields that play no part in the order.\<close>

lemma seg_off_update [simp]:
  "seg_off b (s\<lparr>seg_fastack := x\<rparr>) = seg_off b s"
  "seg_off b (s\<lparr>seg_xmit := x\<rparr>) = seg_off b s"
  "seg_off b (s\<lparr>seg_rto := x\<rparr>) = seg_off b s"
  "seg_off b (s\<lparr>seg_resendts := x\<rparr>) = seg_off b s"
  "seg_off b (s\<lparr>seg_ts := x\<rparr>) = seg_off b s"
  "seg_off b (s\<lparr>seg_wnd := x\<rparr>) = seg_off b s"
  "seg_off b (s\<lparr>seg_una := x\<rparr>) = seg_off b s"
  by (simp_all add: seg_off_def)

lemma seg_ok_update [simp]:
  "seg_ok (s\<lparr>seg_fastack := x\<rparr>) = seg_ok s"
  "seg_ok (s\<lparr>seg_xmit := x\<rparr>) = seg_ok s"
  "seg_ok (s\<lparr>seg_rto := x\<rparr>) = seg_ok s"
  "seg_ok (s\<lparr>seg_resendts := x\<rparr>) = seg_ok s"
  "seg_ok (s\<lparr>seg_ts := x\<rparr>) = seg_ok s"
  "seg_ok (s\<lparr>seg_wnd := x\<rparr>) = seg_ok s"
  "seg_ok (s\<lparr>seg_una := x\<rparr>) = seg_ok s"
  "seg_ok (s\<lparr>seg_sn := x\<rparr>) = seg_ok s"
  "seg_ok (s\<lparr>seg_cmd := x\<rparr>) = seg_ok s"
  "seg_ok (s\<lparr>seg_conv := x\<rparr>) = seg_ok s"
  by (simp_all add: seg_ok_def)

lemma seg_off_less: "seg_off b s < 4294967296"
  using uint32_range [of "seg_sn s - b"] by (simp add: seg_off_def)

lemma uint_diff_eq_iff: "uint (x - b) = uint (y - b) \<longleftrightarrow> x = (y :: u32)"
proof
  assume "uint (x - b) = uint (y - b)"
  then have "x - b = y - b" by (rule word_uint_eqI)
  then show "x = y" by simp
qed simp

lemma seg_off_eq_iff: "seg_off b s = uint (sn - b) \<longleftrightarrow> seg_sn s = sn"
  by (simp only: seg_off_def uint_diff_eq_iff)

lemma seg_off_inj_iff: "seg_off b s = seg_off b t \<longleftrightarrow> seg_sn s = seg_sn t"
  by (simp only: seg_off_def uint_diff_eq_iff)

lemma seg_off_0_iff: "seg_off b s = 0 \<longleftrightarrow> seg_sn s = b"
  using seg_off_eq_iff [of b s b] by simp

lemma itimediff_seg:
  "uint (sn - b) < 2147483648 \<Longrightarrow> seg_off b s < 2147483648 \<Longrightarrow>
    itimediff sn (seg_sn s) = uint (sn - b) - seg_off b s"
  by (simp add: seg_off_def itimediff_base)

lemma ordered_Nil [simp]: "ordered b []"
  by (simp add: ordered_def)

lemma ordered_Cons:
  "ordered b (x # xs) \<longleftrightarrow> seg_off b x < 2147483648 \<and> (\<forall>s\<in>set xs. seg_off b x < seg_off b s) \<and> ordered b xs"
  by (auto simp: ordered_def)

lemma ordered_append:
  "ordered b (xs @ ys) \<longleftrightarrow> ordered b xs \<and> ordered b ys \<and> (\<forall>x\<in>set xs. \<forall>y\<in>set ys. seg_off b x < seg_off b y)"
  by (auto simp: ordered_def sorted_wrt_append)

lemma ordered_bound: "ordered b xs \<Longrightarrow> s \<in> set xs \<Longrightarrow> seg_off b s < 2147483648"
  by (simp add: ordered_def)

lemma ordered_distinct_sn: "ordered b xs \<Longrightarrow> distinct (map seg_sn xs)"
  by (induction xs) (auto simp: ordered_Cons seg_off_def)

lemma ordered_filter: "ordered b xs \<Longrightarrow> ordered b (filter P xs)"
  by (induction xs) (auto simp: ordered_Cons)

lemma filter_sn_single:
  "distinct (map seg_sn xs) \<Longrightarrow> s \<in> set xs \<Longrightarrow> length (filter (\<lambda>t. seg_sn t = seg_sn s) xs) = 1"
proof (induction xs)
  case (Cons x xs)
  show ?case
  proof (cases "x = s")
    case True
    then have "filter (\<lambda>t. seg_sn t = seg_sn s) xs = []" using Cons.prems(1) by (auto simp: filter_empty_conv image_iff)
    with True show ?thesis by simp
  next
    case False
    then have "s \<in> set xs" using Cons.prems(2) by simp
    moreover from this have "seg_sn x \<noteq> seg_sn s" using Cons.prems(1) by force
    ultimately show ?thesis using Cons by simp
  qed
qed simp

lemma ordered_cong: "map seg_sn xs = map seg_sn ys \<Longrightarrow> ordered b xs = ordered b ys"
proof (induction xs arbitrary: ys)
  case (Cons x xs)
  then obtain y zs where ys: "ys = y # zs" and "seg_sn x = seg_sn y" and m: "map seg_sn xs = map seg_sn zs"
    by (cases ys) auto
  have "seg_sn ` set xs = seg_sn ` set zs" using m by (metis list.set_map)
  then have "(\<forall>s\<in>set xs. P (seg_sn s)) = (\<forall>s\<in>set zs. P (seg_sn s))" for P by (metis (mono_tags) imageE imageI)
  from this [of "\<lambda>sn. uint (seg_sn x - b) < uint (sn - b)"] Cons.IH [OF m] \<open>seg_sn x = seg_sn y\<close> show ?case
    by (simp add: ys ordered_Cons seg_off_def)
qed simp

lemma ordered_length:
  assumes "ordered b xs" and "\<forall>s\<in>set xs. seg_off b s < int n"
  shows "length xs \<le> n"
proof -
  let ?f = "\<lambda>s. nat (seg_off b s)"
  have "sorted_wrt (<) (map (seg_off b) xs)" using assms(1) by (simp add: ordered_def)
  then have "distinct (map (seg_off b) xs)" using strict_sorted_iff by blast
  then have "distinct (map ?f xs)"
    by (auto simp: distinct_map inj_on_def eq_nat_nat_iff)
  moreover have "set (map ?f xs) \<subseteq> {..<n}" using assms(2) by (auto simp: nat_less_iff)
  ultimately have "length (map ?f xs) \<le> card {..<n}"
    by (metis card_mono distinct_card finite_lessThan)
  then show ?thesis by simp
qed

text \<open>Moving the base one step forward past a front segment that sits on it.\<close>

lemma seg_off_Suc:
  assumes "0 < seg_off b s"
  shows "seg_off (b + 1) s = seg_off b s - 1"
proof -
  have "seg_sn s - (b + 1) = (seg_sn s - b) - 1" by simp
  then show ?thesis
    using assms uint_diff32 [of "seg_sn s - b" 1] by (simp only: seg_off_def) simp
qed

lemma ordered_advance:
  assumes "ordered b (x # xs)" and "seg_sn x = b"
  shows "ordered (b + 1) xs"
proof -
  have "\<forall>s\<in>set xs. 0 < seg_off b s" using assms by (auto simp: ordered_Cons seg_off_0_iff [THEN iffD2])
  then have "\<forall>s\<in>set xs. seg_off (b + 1) s = seg_off b s - 1" by (simp add: seg_off_Suc)
  then have m: "map (seg_off (b + 1)) xs = map (\<lambda>s. seg_off b s - 1) xs"
    and bd: "\<forall>s\<in>set xs. seg_off (b + 1) s < 2147483648"
    using assms(1) by (auto simp: ordered_Cons dest: ordered_bound)
  from assms(1) have "sorted_wrt (<) (map (\<lambda>s. seg_off b s - 1) xs)"
    by (simp add: ordered_def sorted_wrt_map)
  with bd show ?thesis by (simp add: ordered_def m)
qed

text \<open>A front segment is the only one that can sit on the base.\<close>

lemma ordered_front: "ordered b (x # xs) \<Longrightarrow> s \<in> set (x # xs) \<Longrightarrow> seg_sn s = b \<Longrightarrow> s = x"
proof (rule ccontr)
  assume o: "ordered b (x # xs)" and s: "s \<in> set (x # xs)" "seg_sn s = b" "s \<noteq> x"
  then have "seg_off b x < seg_off b s" by (auto simp: ordered_Cons)
  moreover have "seg_off b s = 0" using s(2) by (simp only: seg_off_0_iff)
  ultimately show False using seg_off_nonneg [of b x] by linarith
qed

end
