(* ===== verification/Kcp_Recv.thy ===== *)
theory Kcp_Recv
  imports Seg_Order "HOL-Library.Multiset"
begin

text \<open>
  The receiving side of ikcp.c: reassembly (\<open>ikcp_parse_data\<close>) and delivery
  (\<open>ikcp_peeksize\<close>, \<open>ikcp_recv\<close>).
\<close>

section \<open>Reassembly\<close>

text \<open>The loop that moves in-order segments from \<open>rcv_buf\<close> to \<open>rcv_queue\<close>.\<close>

function rcv_move :: "ikcpcb \<Rightarrow> ikcpcb" where
  "rcv_move kcp =
     (case rcv_buf kcp of
        [] \<Rightarrow> kcp
      | seg # rest \<Rightarrow>
          if seg_sn seg = rcv_nxt kcp \<and> nrcv_que kcp < rcv_wnd kcp
          then rcv_move (kcp\<lparr>rcv_buf := rest,
                             nrcv_buf := nrcv_buf kcp - 1,
                             rcv_queue := rcv_queue kcp @ [seg],
                             nrcv_que := nrcv_que kcp + 1,
                             rcv_nxt := rcv_nxt kcp + 1\<rparr>)
          else kcp)"
  by pat_completeness auto
termination
  by (relation "measure (\<lambda>kcp. length (rcv_buf kcp))") auto

declare rcv_move.simps [simp del]

text \<open>
  The search from the back of \<open>rcv_buf\<close> for the place of \<open>sn\<close>: the first list is what is
  still to visit, last segment first, the second what was passed. The result tells whether
  \<open>sn\<close> is there already, and the two parts of the queue front and behind the place.
\<close>

fun rcv_search :: "u32 \<Rightarrow> IKCPSEG list \<Rightarrow> IKCPSEG list \<Rightarrow> bool \<times> IKCPSEG list \<times> IKCPSEG list" where
  "rcv_search sn [] passed = (False, [], passed)"
| "rcv_search sn (seg # front) passed =
     (if seg_sn seg = sn then (True, rev (seg # front), passed)
      else if itimediff sn (seg_sn seg) > 0 then (False, rev (seg # front), passed)
      else rcv_search sn front (seg # passed))"

definition ikcp_parse_data :: "ikcpcb \<Rightarrow> IKCPSEG \<Rightarrow> ikcpcb" where
  "ikcp_parse_data kcp newseg =
     (let sn = seg_sn newseg in
      if itimediff sn (rcv_nxt kcp + rcv_wnd kcp) \<ge> 0 \<or> itimediff sn (rcv_nxt kcp) < 0 then kcp
      else let (repeat, front, after) = rcv_search sn (rev (rcv_buf kcp)) [];
               kcp = (if \<not> repeat
                      then kcp\<lparr>rcv_buf := front @ newseg # after, nrcv_buf := nrcv_buf kcp + 1\<rparr>
                      else kcp)
           in rcv_move kcp)"

section \<open>Delivery\<close>

fun peek_sum :: "IKCPSEG list \<Rightarrow> u32 \<Rightarrow> u32" where
  "peek_sum [] len = len"
| "peek_sum (seg # p) len =
     (if seg_frg seg = 0 then len + seg_len seg else peek_sum p (len + seg_len seg))"

definition ikcp_peeksize :: "ikcpcb \<Rightarrow> int" where
  "ikcp_peeksize kcp =
     (case rcv_queue kcp of
        [] \<Rightarrow> -1
      | seg # _ \<Rightarrow>
          if seg_frg seg = 0 then sint (seg_len seg)
          else if nrcv_que kcp < seg_frg seg + 1 then -1
          else sint (peek_sum (rcv_queue kcp) 0))"

text \<open>
  The merge loop of \<open>ikcp_recv\<close>: the bytes copied so far and their number \<open>len\<close>. Unless
  the call only peeks, the segment just copied is the front of the queue and is unlinked.
\<close>

fun recv_merge :: "bool \<Rightarrow> IKCPSEG list \<Rightarrow> ikcpcb \<Rightarrow> byte list \<Rightarrow> u32 \<Rightarrow> ikcpcb \<times> byte list \<times> u32" where
  "recv_merge ispeek [] kcp buf len = (kcp, buf, len)"
| "recv_merge ispeek (seg # p) kcp buf len =
     (let buf = buf @ take (unat (seg_len seg)) (seg_data seg);
          len = len + seg_len seg;
          kcp = (if \<not> ispeek then kcp\<lparr>rcv_queue := tl (rcv_queue kcp), nrcv_que := nrcv_que kcp - 1\<rparr>
                 else kcp)
      in if seg_frg seg = 0 then (kcp, buf, len) else recv_merge ispeek p kcp buf len)"

text \<open>
  The result is the return value and the bytes written to the caller's buffer (a NULL buffer
  receives none; nothing else depends on it).
\<close>

definition ikcp_recv :: "ikcpcb \<Rightarrow> int \<Rightarrow> (int \<times> byte list \<times> ikcpcb) result" where
  "ikcp_recv kcp len =
     (if rcv_queue kcp = [] then Inr (-1, [], kcp)
      else let ispeek = (len < 0);
               len = (if len < 0 then - len else len);
               peeksize = ikcp_peeksize kcp
      in if peeksize < 0 then Inr (-2, [], kcp)
      else if peeksize > len then Inr (-3, [], kcp)
      else let recover = (nrcv_que kcp \<ge> rcv_wnd kcp);
               (kcp, data, n) = recv_merge ispeek (rcv_queue kcp) kcp [] 0
      in if sint n \<noteq> peeksize then Inl Assertion_failed
      else let kcp = rcv_move kcp;
               kcp = (if nrcv_que kcp < rcv_wnd kcp \<and> recover
                      then kcp\<lparr>probe := probe kcp OR IKCP_ASK_TELL\<rparr> else kcp)
      in Inr (sint n, data, kcp))"

section \<open>The receiver's invariant\<close>

fun consec :: "u32 \<Rightarrow> IKCPSEG list \<Rightarrow> u32 \<Rightarrow> bool" where
  "consec a [] b \<longleftrightarrow> a = b"
| "consec a (s # ss) b \<longleftrightarrow> seg_sn s = a \<and> consec (a + 1) ss b"

lemma consec_append: "consec a (xs @ ys) b \<longleftrightarrow> (\<exists>m. consec a xs m \<and> consec m ys b)"
  by (induction xs arbitrary: a) auto

text \<open>
  \<open>rcv_queue\<close> holds consecutive numbers up to \<open>rcv_nxt\<close>, \<open>rcv_buf\<close> is ordered around
  \<open>rcv_nxt\<close>, the counters count, and every segment's length field is the length of its data.
\<close>

definition rcv_ok :: "ikcpcb \<Rightarrow> bool" where
  "rcv_ok kcp \<longleftrightarrow>
     nrcv_que kcp = of_nat (length (rcv_queue kcp)) \<and> length (rcv_queue kcp) < 2147483648 \<and>
     nrcv_buf kcp = of_nat (length (rcv_buf kcp)) \<and>
     unat (rcv_wnd kcp) < 2147483648 \<and>
     (\<forall>s\<in>set (rcv_queue kcp @ rcv_buf kcp). seg_ok s) \<and>
     (\<exists>a. consec a (rcv_queue kcp) (rcv_nxt kcp)) \<and>
     ordered (rcv_nxt kcp) (rcv_buf kcp)"

lemma rcv_okD:
  assumes "rcv_ok kcp"
  shows "nrcv_que kcp = of_nat (length (rcv_queue kcp))" "length (rcv_queue kcp) < 2147483648"
    "nrcv_buf kcp = of_nat (length (rcv_buf kcp))" "unat (rcv_wnd kcp) < 2147483648"
    "\<And>s. s \<in> set (rcv_queue kcp) \<Longrightarrow> seg_ok s" "\<And>s. s \<in> set (rcv_buf kcp) \<Longrightarrow> seg_ok s"
    "ordered (rcv_nxt kcp) (rcv_buf kcp)"
  using assms by (auto simp: rcv_ok_def)

lemma rcv_ok_nrcv: "rcv_ok kcp \<Longrightarrow> unat (nrcv_que kcp) = length (rcv_queue kcp)"
  using rcv_okD(1,2) [of kcp] by (simp add: unat_of_nat32)

section \<open>Reassembly: lemmas\<close>

text \<open>Case distinction for one round of the loop.\<close>

lemma rcv_move_stop:
  assumes "\<And>seg rest. rcv_buf kcp = seg # rest \<Longrightarrow> seg_sn seg = rcv_nxt kcp \<Longrightarrow> \<not> nrcv_que kcp < rcv_wnd kcp"
  shows "rcv_move kcp = kcp"
  using assms by (subst rcv_move.simps) (auto split: list.splits)

lemma rcv_move_step:
  assumes "rcv_buf kcp = seg # rest" and "seg_sn seg = rcv_nxt kcp" and "nrcv_que kcp < rcv_wnd kcp"
  shows "rcv_move kcp = rcv_move (kcp\<lparr>rcv_buf := rest, nrcv_buf := nrcv_buf kcp - 1,
    rcv_queue := rcv_queue kcp @ [seg], nrcv_que := nrcv_que kcp + 1, rcv_nxt := rcv_nxt kcp + 1\<rparr>)"
  using assms by (subst rcv_move.simps) simp

lemma rcv_move_induct [case_names stop step]:
  assumes "\<And>kcp. rcv_move kcp = kcp \<Longrightarrow>
      (\<And>seg rest. rcv_buf kcp = seg # rest \<Longrightarrow> seg_sn seg = rcv_nxt kcp \<Longrightarrow> \<not> nrcv_que kcp < rcv_wnd kcp)
      \<Longrightarrow> P kcp"
    and "\<And>kcp seg rest kcp'. rcv_buf kcp = seg # rest \<Longrightarrow> seg_sn seg = rcv_nxt kcp \<Longrightarrow>
      nrcv_que kcp < rcv_wnd kcp \<Longrightarrow>
      kcp' = kcp\<lparr>rcv_buf := rest, nrcv_buf := nrcv_buf kcp - 1, rcv_queue := rcv_queue kcp @ [seg],
        nrcv_que := nrcv_que kcp + 1, rcv_nxt := rcv_nxt kcp + 1\<rparr> \<Longrightarrow>
      rcv_move kcp = rcv_move kcp' \<Longrightarrow> P kcp' \<Longrightarrow> P kcp"
  shows "P kcp"
proof (induction kcp rule: rcv_move.induct)
  case (1 kcp)
  show ?case
  proof (cases "\<exists>seg rest. rcv_buf kcp = seg # rest \<and> seg_sn seg = rcv_nxt kcp \<and> nrcv_que kcp < rcv_wnd kcp")
    case True
    then obtain seg rest where b: "rcv_buf kcp = seg # rest" "seg_sn seg = rcv_nxt kcp" "nrcv_que kcp < rcv_wnd kcp"
      by blast
    show ?thesis by (rule assms(2) [OF b refl rcv_move_step [OF b]]) (rule 1 [OF b(1) conjI [OF b(2,3)]])
  next
    case False
    then show ?thesis by (intro assms(1) rcv_move_stop) auto
  qed
qed

lemma rcv_move_keeps: "rcv_queue (rcv_move kcp) @ rcv_buf (rcv_move kcp) = rcv_queue kcp @ rcv_buf kcp"
  by (induction kcp rule: rcv_move_induct) simp_all

lemma rcv_move_prefix: "\<exists>moved. rcv_queue (rcv_move kcp) = rcv_queue kcp @ moved"
  by (induction kcp rule: rcv_move_induct) auto

lemma rcv_move_frame:
  "\<exists>b nb q nq nx. rcv_move kcp = kcp\<lparr>rcv_buf := b, nrcv_buf := nb, rcv_queue := q, nrcv_que := nq, rcv_nxt := nx\<rparr>"
proof (induction kcp rule: rcv_move_induct)
  case (stop kcp)
  show ?case
    by (rule exI [of _ "rcv_buf kcp"], rule exI [of _ "nrcv_buf kcp"], rule exI [of _ "rcv_queue kcp"],
        rule exI [of _ "nrcv_que kcp"], rule exI [of _ "rcv_nxt kcp"]) (simp add: stop(1))
next
  case (step kcp seg rest kcp')
  then show ?case by auto
qed

lemma rcv_move_done:
  assumes "rcv_buf (rcv_move kcp) = seg # rest"
  shows "seg_sn seg \<noteq> rcv_nxt (rcv_move kcp) \<or> \<not> nrcv_que (rcv_move kcp) < rcv_wnd kcp"
  using assms
proof (induction kcp rule: rcv_move_induct)
  case (stop kcp)
  then show ?case by auto
next
  case (step kcp seg rest kcp')
  then show ?case by simp
qed

lemma rcv_move_ok: "rcv_ok kcp \<Longrightarrow> rcv_ok (rcv_move kcp)"
proof (induction kcp rule: rcv_move_induct)
  case (stop kcp)
  then show ?case by simp
next
  case (step kcp seg rest kcp')
  have "length (rcv_queue kcp) < unat (rcv_wnd kcp)"
    using step.hyps(3) rcv_ok_nrcv [OF step.prems] by (simp add: word_less_nat_alt)
  moreover have "ordered (rcv_nxt kcp + 1) rest"
    using ordered_advance step.hyps(1,2) rcv_okD(7) [OF step.prems] by metis
  ultimately have "rcv_ok kcp'"
    using step.prems step.hyps(1,2) by (auto simp: rcv_ok_def step.hyps(4) consec_append)
  then show ?case using step.IH step.hyps(5) by simp
qed

lemma rcv_search_parts:
  "rcv_search sn ys passed = (rep, front, after) \<Longrightarrow> front @ after = rev ys @ passed"
  by (induction ys arbitrary: passed) (auto split: if_splits)

lemma rcv_search_place:
  assumes "rcv_search sn ys passed = (rep, front, after)"
    and "ordered b (rev ys @ passed)" and "uint (sn - b) < 2147483648"
    and "\<forall>s\<in>set passed. uint (sn - b) < seg_off b s"
  shows "(rep \<longleftrightarrow> (\<exists>s\<in>set (rev ys @ passed). seg_sn s = sn)) \<and>
    (\<not> rep \<longrightarrow> (\<forall>s\<in>set front. seg_off b s < uint (sn - b)) \<and> (\<forall>s\<in>set after. uint (sn - b) < seg_off b s))"
  using assms
proof (induction ys arbitrary: passed)
  case Nil
  then show ?case by (auto simp: seg_off_def)
next
  case (Cons y ys)
  have y: "seg_off b y < 2147483648" using Cons.prems(2) by (auto dest: ordered_bound)
  note d = itimediff_seg [OF Cons.prems(3) y]
  have y_off: "seg_off b y = uint (sn - b) \<longleftrightarrow> seg_sn y = sn" by (rule seg_off_eq_iff)
  consider (hit) "seg_sn y = sn" | (below) "seg_sn y \<noteq> sn" "itimediff sn (seg_sn y) > 0"
    | (above) "seg_sn y \<noteq> sn" "\<not> itimediff sn (seg_sn y) > 0" by blast
  then show ?case
  proof cases
    case hit
    then have "rep" using Cons.prems(1) by simp
    with hit show ?thesis by simp
  next
    case below
    then have r: "\<not> rep" "front = rev (y # ys)" "after = passed" using Cons.prems(1) by simp_all
    have "\<forall>s\<in>set ys. seg_off b s < seg_off b y" using Cons.prems(2) by (simp add: ordered_append)
    with below(2) d have lo: "\<forall>s\<in>set (y # ys). seg_off b s < uint (sn - b)" by fastforce
    have "seg_sn s \<noteq> sn" if "s \<in> set (rev (y # ys) @ passed)" for s
    proof -
      have "s \<in> set (y # ys) \<or> s \<in> set passed" using that by simp
      then have "seg_off b s \<noteq> uint (sn - b)" using lo Cons.prems(4) by (elim disjE) (metis less_irrefl)+
      then show ?thesis by (simp add: seg_off_eq_iff)
    qed
    with lo Cons.prems(4) r show ?thesis by simp
  next
    case above
    then have lt: "uint (sn - b) < seg_off b y" using d y_off by linarith
    have "rcv_search sn ys (y # passed) = (rep, front, after)" using Cons.prems(1) above by simp
    from Cons.IH [OF this] Cons.prems(2-4) lt show ?thesis by simp
  qed
qed

text \<open>The queue after the search and the insertion, and what it holds.\<close>

definition rcv_insert :: "IKCPSEG \<Rightarrow> IKCPSEG list \<Rightarrow> IKCPSEG list" where
  "rcv_insert newseg xs =
     (let (repeat, front, after) = rcv_search (seg_sn newseg) (rev xs) []
      in if repeat then xs else front @ newseg # after)"

lemma rcv_insert_cases:
  assumes "ordered b xs" and "uint (seg_sn new - b) < 2147483648"
  obtains (known) "\<exists>s\<in>set xs. seg_sn s = seg_sn new"
      "fst (rcv_search (seg_sn new) (rev xs) [])" "rcv_insert new xs = xs"
    | (fresh) front after where "\<forall>s\<in>set xs. seg_sn s \<noteq> seg_sn new"
      "\<not> fst (rcv_search (seg_sn new) (rev xs) [])"
      "rcv_search (seg_sn new) (rev xs) [] = (False, front, after)"
      "xs = front @ after" "rcv_insert new xs = front @ new # after"
      "ordered b (rcv_insert new xs)"
proof -
  obtain rep front after where r: "rcv_search (seg_sn new) (rev xs) [] = (rep, front, after)"
    by (metis prod_cases3)
  have xs: "front @ after = xs" using rcv_search_parts [OF r] by simp
  have p: "(rep \<longleftrightarrow> (\<exists>s\<in>set xs. seg_sn s = seg_sn new)) \<and>
    (\<not> rep \<longrightarrow> (\<forall>s\<in>set front. seg_off b s < uint (seg_sn new - b)) \<and>
      (\<forall>s\<in>set after. uint (seg_sn new - b) < seg_off b s))"
    using rcv_search_place [OF r, of b] assms by simp
  show thesis
  proof (cases rep)
    case True
    with p r known show ?thesis by (simp add: rcv_insert_def)
  next
    case False
    then have i: "rcv_insert new xs = front @ new # after" by (simp add: rcv_insert_def r)
    have "ordered b (front @ new # after)"
      using False p assms xs [symmetric]
      by (simp add: ordered_append ordered_Cons seg_off_def [of b new])
    with False p r xs i fresh show ?thesis by auto
  qed
qed

lemma ikcp_parse_data_insert:
  "ikcp_parse_data kcp new =
     (if itimediff (seg_sn new) (rcv_nxt kcp + rcv_wnd kcp) \<ge> 0 \<or> itimediff (seg_sn new) (rcv_nxt kcp) < 0
      then kcp
      else rcv_move (kcp\<lparr>rcv_buf := rcv_insert new (rcv_buf kcp),
        nrcv_buf := (if fst (rcv_search (seg_sn new) (rev (rcv_buf kcp)) []) then nrcv_buf kcp
                     else nrcv_buf kcp + 1)\<rparr>))"
  by (simp add: ikcp_parse_data_def rcv_insert_def Let_def split: prod.splits)

lemma ikcp_parse_data_frame:
  "\<exists>b nb q nq nx. ikcp_parse_data kcp new =
     kcp\<lparr>rcv_buf := b, nrcv_buf := nb, rcv_queue := q, nrcv_que := nq, rcv_nxt := nx\<rparr>"
proof (cases "itimediff (seg_sn new) (rcv_nxt kcp + rcv_wnd kcp) \<ge> 0 \<or> itimediff (seg_sn new) (rcv_nxt kcp) < 0")
  case True
  then show ?thesis
    by (intro exI [of _ "rcv_buf kcp"] exI [of _ "nrcv_buf kcp"] exI [of _ "rcv_queue kcp"]
        exI [of _ "nrcv_que kcp"] exI [of _ "rcv_nxt kcp"]) (simp add: ikcp_parse_data_insert)
next
  case False
  then show ?thesis
    using rcv_move_frame [of "kcp\<lparr>rcv_buf := rcv_insert new (rcv_buf kcp),
        nrcv_buf := (if fst (rcv_search (seg_sn new) (rev (rcv_buf kcp)) []) then nrcv_buf kcp
                     else nrcv_buf kcp + 1)\<rparr>"]
    by (auto simp: ikcp_parse_data_insert)
qed

lemma rcv_insert_ok:
  assumes "rcv_ok kcp" and "seg_ok new" and "\<not> itimediff (seg_sn new) (rcv_nxt kcp) < 0"
  shows "rcv_ok (kcp\<lparr>rcv_buf := rcv_insert new (rcv_buf kcp),
        nrcv_buf := (if fst (rcv_search (seg_sn new) (rev (rcv_buf kcp)) []) then nrcv_buf kcp
                     else nrcv_buf kcp + 1)\<rparr>)"
proof -
  have d: "uint (seg_sn new - rcv_nxt kcp) < 2147483648"
    using assms(3) by (simp add: itimediff_nonneg_iff [symmetric])
  from rcv_okD(7) [OF assms(1)] d show ?thesis
    by (cases rule: rcv_insert_cases) (use assms(1,2) in \<open>auto simp: rcv_ok_def\<close>)
qed

lemma ikcp_parse_data_ok: "rcv_ok kcp \<Longrightarrow> seg_ok new \<Longrightarrow> rcv_ok (ikcp_parse_data kcp new)"
  using rcv_move_ok [OF rcv_insert_ok] by (simp add: ikcp_parse_data_insert)

text \<open>A segment in the window is kept once, nothing else is lost.\<close>

lemma ikcp_parse_data_segments:
  assumes "rcv_ok kcp" and "itimediff (seg_sn new) (rcv_nxt kcp + rcv_wnd kcp) < 0"
    and "0 \<le> itimediff (seg_sn new) (rcv_nxt kcp)"
  shows "mset (rcv_queue (ikcp_parse_data kcp new) @ rcv_buf (ikcp_parse_data kcp new)) =
    mset (rcv_queue kcp @ rcv_buf kcp) +
    (if \<exists>s\<in>set (rcv_buf kcp). seg_sn s = seg_sn new then {#} else {#new#})"
proof -
  have d: "uint (seg_sn new - rcv_nxt kcp) < 2147483648" using assms(3) by (simp add: itimediff_nonneg_iff)
  have "mset (rcv_insert new (rcv_buf kcp)) = mset (rcv_buf kcp) +
    (if \<exists>s\<in>set (rcv_buf kcp). seg_sn s = seg_sn new then {#} else {#new#})"
    using rcv_okD(7) [OF assms(1)] d by (cases rule: rcv_insert_cases) auto
  moreover have "rcv_queue (ikcp_parse_data kcp new) @ rcv_buf (ikcp_parse_data kcp new) =
      rcv_queue kcp @ rcv_insert new (rcv_buf kcp)"
    using assms(2,3) by (simp add: ikcp_parse_data_insert rcv_move_keeps)
  ultimately show ?thesis by (simp only: mset_append) (simp add: ac_simps)
qed

section \<open>Delivery: lemmas\<close>

text \<open>The first message of a queue (up to its last fragment, number 0) and what follows it.\<close>

fun split_message :: "IKCPSEG list \<Rightarrow> IKCPSEG list \<times> IKCPSEG list" where
  "split_message [] = ([], [])"
| "split_message (s # p) =
     (if seg_frg s = 0 then ([s], p) else let (m, rest) = split_message p in (s # m, rest))"

definition payload :: "IKCPSEG list \<Rightarrow> byte list" where
  "payload segs = concat (map seg_data segs)"

lemma payload_simps [simp]:
  "payload [] = []"
  "payload (s # segs) = seg_data s @ payload segs"
  "payload (xs @ ys) = payload xs @ payload ys"
  by (simp_all add: payload_def)

lemma split_message_append: "fst (split_message q) @ snd (split_message q) = q"
  by (induction q) (auto split: prod.splits)

lemma peek_sum_message: "peek_sum q len = len + sum_list (map seg_len (fst (split_message q)))"
  by (induction q arbitrary: len) (auto split: prod.splits simp: add.assoc)

lemma sum_seg_len: "\<forall>s\<in>set segs. seg_ok s \<Longrightarrow> sum_list (map seg_len segs) = of_nat (length (payload segs))"
proof (induction segs)
  case (Cons s segs)
  have "unat (seg_len s) = length (seg_data s)" using Cons.prems by (simp add: seg_ok_def)
  then have "seg_len s = of_nat (length (seg_data s))" by (simp flip: \<open>unat (seg_len s) = _\<close>)
  with Cons show ?case by simp
qed simp

lemma recv_merge_message:
  "recv_merge ispeek q kcp buf len =
     (let m = fst (split_message q) in
      (if ispeek then kcp
       else kcp\<lparr>rcv_queue := drop (length m) (rcv_queue kcp), nrcv_que := nrcv_que kcp - of_nat (length m)\<rparr>,
       buf @ concat (map (\<lambda>s. take (unat (seg_len s)) (seg_data s)) m),
       len + sum_list (map seg_len m)))"
proof (induction ispeek q kcp buf len rule: recv_merge.induct)
  case (2 ispeek seg p kcp buf len)
  show ?case
  proof (cases "seg_frg seg = 0")
    case True
    then show ?thesis by (simp add: Let_def drop_Suc)
  next
    case False
    then show ?thesis
      using "2.IH" [OF refl refl refl False]
      by (simp add: Let_def drop_Suc split: prod.splits)
  qed
qed simp

lemma concat_take_payload:
  "\<forall>s\<in>set m. seg_ok s \<Longrightarrow> concat (map (\<lambda>s. take (unat (seg_len s)) (seg_data s)) m) = payload m"
  by (induction m) (auto simp: seg_ok_def)

lemma ikcp_peeksize_message:
  assumes "rcv_queue kcp \<noteq> []"
  shows "ikcp_peeksize kcp =
    (if seg_frg (hd (rcv_queue kcp)) \<noteq> 0 \<and> nrcv_que kcp < seg_frg (hd (rcv_queue kcp)) + 1 then -1
     else sint (sum_list (map seg_len (fst (split_message (rcv_queue kcp))))))"
  using assms by (cases "rcv_queue kcp") (auto simp: ikcp_peeksize_def peek_sum_message)

definition recv_finish :: "bool \<Rightarrow> ikcpcb \<Rightarrow> ikcpcb" where
  "recv_finish recover kcp =
     (let kcp = rcv_move kcp in
      if nrcv_que kcp < rcv_wnd kcp \<and> recover then kcp\<lparr>probe := probe kcp OR IKCP_ASK_TELL\<rparr> else kcp)"

definition recv_take :: "bool \<Rightarrow> ikcpcb \<Rightarrow> ikcpcb" where
  "recv_take ispeek kcp =
     (let n = length (fst (split_message (rcv_queue kcp))) in
      if ispeek then kcp
      else kcp\<lparr>rcv_queue := drop n (rcv_queue kcp), nrcv_que := nrcv_que kcp - of_nat n\<rparr>)"

text \<open>Every outcome of \<open>ikcp_recv\<close>: its assertion never fails.\<close>

lemma ikcp_recv_outcome:
  "ikcp_recv kcp len = Inr
     (if rcv_queue kcp = [] then (-1, [], kcp)
      else if ikcp_peeksize kcp < 0 then (-2, [], kcp)
      else if ikcp_peeksize kcp > \<bar>len\<bar> then (-3, [], kcp)
      else (ikcp_peeksize kcp,
            concat (map (\<lambda>s. take (unat (seg_len s)) (seg_data s)) (fst (split_message (rcv_queue kcp)))),
            recv_finish (nrcv_que kcp \<ge> rcv_wnd kcp) (recv_take (len < 0) kcp)))"
proof -
  have "(if len < 0 then - len else len) = \<bar>len\<bar>" by simp
  then show ?thesis
    unfolding ikcp_recv_def recv_merge_message
    by (auto simp: ikcp_peeksize_message recv_finish_def recv_take_def Let_def)
qed

lemma recv_take_ok: "rcv_ok kcp \<Longrightarrow> rcv_ok (recv_take ispeek kcp)"
proof -
  assume ok: "rcv_ok kcp"
  let ?n = "length (fst (split_message (rcv_queue kcp)))"
  have q: "fst (split_message (rcv_queue kcp)) @ snd (split_message (rcv_queue kcp)) = rcv_queue kcp"
    by (rule split_message_append)
  then have le: "?n \<le> length (rcv_queue kcp)" by (metis le_add1 length_append)
  obtain a where "consec a (rcv_queue kcp) (rcv_nxt kcp)" using ok by (auto simp: rcv_ok_def)
  then have "\<exists>a. consec a (drop ?n (rcv_queue kcp)) (rcv_nxt kcp)"
    by (metis append_take_drop_id consec_append)
  with ok le show ?thesis
    by (auto simp: recv_take_def rcv_ok_def Let_def of_nat_diff dest!: in_set_dropD)
qed

lemma recv_finish_ok: "rcv_ok kcp \<Longrightarrow> rcv_ok (recv_finish recover kcp)"
  using rcv_move_ok [of kcp] by (auto simp: recv_finish_def rcv_ok_def Let_def)

lemma ikcp_recv_ok: "rcv_ok kcp \<Longrightarrow> ikcp_recv kcp len = Inr (r, data, kcp') \<Longrightarrow> rcv_ok kcp'"
  by (auto simp: ikcp_recv_outcome recv_finish_ok recv_take_ok split: if_splits)

text \<open>The front message is complete when as many segments as its first fragment number announces are there.\<close>

definition message_complete :: "ikcpcb \<Rightarrow> bool" where
  "message_complete kcp \<longleftrightarrow> rcv_queue kcp \<noteq> [] \<and> unat (seg_frg (hd (rcv_queue kcp))) < length (rcv_queue kcp)"

lemma frg_incomplete:
  assumes "rcv_ok kcp" and "rcv_queue kcp \<noteq> []"
  shows "(seg_frg (hd (rcv_queue kcp)) \<noteq> 0 \<and> nrcv_que kcp < seg_frg (hd (rcv_queue kcp)) + 1) \<longleftrightarrow> \<not> message_complete kcp"
proof -
  let ?f = "seg_frg (hd (rcv_queue kcp))"
  have "seg_ok (hd (rcv_queue kcp))" using rcv_okD(5) [OF assms(1)] assms(2) by simp
  then have "?f < 256" by (simp add: seg_ok_def)
  then have "unat ?f < 256" by (simp add: word_less_nat_alt)
  then have "unat (?f + 1) = Suc (unat ?f)" by (simp add: unat_word_ariths)
  then have "nrcv_que kcp < ?f + 1 \<longleftrightarrow> \<not> unat ?f < length (rcv_queue kcp)"
    using rcv_ok_nrcv [OF assms(1)] by (simp add: word_less_nat_alt less_Suc_eq_le not_less)
  moreover have "unat ?f < length (rcv_queue kcp)" if "?f = 0" using that assms(2) by simp
  ultimately show ?thesis using assms(2) by (auto simp: message_complete_def)
qed

lemma peeksize_value:
  assumes ok: "rcv_ok kcp" and q: "rcv_queue kcp \<noteq> []" and b: "length (payload (rcv_queue kcp)) < 2147483648"
  shows "ikcp_peeksize kcp =
    (if message_complete kcp then int (length (payload (fst (split_message (rcv_queue kcp))))) else -1)"
proof -
  let ?m = "fst (split_message (rcv_queue kcp))"
  have a: "?m @ snd (split_message (rcv_queue kcp)) = rcv_queue kcp" by (rule split_message_append)
  then have "length (payload ?m) \<le> length (payload (rcv_queue kcp))" by (metis le_add1 length_append payload_simps(3))
  then have l: "length (payload ?m) < 2147483648" using b by linarith
  have "\<forall>s\<in>set ?m. seg_ok s" using rcv_okD(5) [OF ok] a by (metis Un_iff set_append)
  then have "sum_list (map seg_len ?m) = of_nat (length (payload ?m))" by (rule sum_seg_len)
  then have "sint (sum_list (map seg_len ?m)) = int (length (payload ?m))"
    using l by (simp add: sint32_eq uint_of_nat32)
  then show ?thesis
    unfolding ikcp_peeksize_message [OF q] frg_incomplete [OF ok q] by simp
qed

text \<open>Delivery of a complete message.\<close>

lemma ikcp_recv_complete:
  assumes "rcv_ok kcp" and "length (payload (rcv_queue kcp)) < 2147483648" and c: "message_complete kcp"
    and m: "split_message (rcv_queue kcp) = (msg, rest)" and "int (length (payload msg)) \<le> \<bar>len\<bar>"
  shows "\<exists>k. ikcp_recv kcp len = Inr (int (length (payload msg)), payload msg, k) \<and> rcv_ok k \<and>
    rcv_queue k @ rcv_buf k = (if len < 0 then rcv_queue kcp else rest) @ rcv_buf kcp"
proof -
  have q: "rcv_queue kcp \<noteq> []" using c by (simp add: message_complete_def)
  have p: "ikcp_peeksize kcp = int (length (payload msg))" using peeksize_value [OF assms(1) q assms(2)] c by (simp add: m)
  have a: "msg @ rest = rcv_queue kcp" using split_message_append [of "rcv_queue kcp"] by (simp add: m)
  then have "\<forall>s\<in>set msg. seg_ok s" using rcv_okD(5) [OF assms(1)] by (metis Un_iff set_append)
  then have t: "concat (map (\<lambda>s. take (unat (seg_len s)) (seg_data s)) msg) = payload msg" by (rule concat_take_payload)
  define k where "k = recv_finish (nrcv_que kcp \<ge> rcv_wnd kcp) (recv_take (len < 0) kcp)"
  have r: "ikcp_recv kcp len = Inr (int (length (payload msg)), payload msg, k)"
    using q assms(5) by (simp add: ikcp_recv_outcome p m t k_def)
  have "rcv_queue k @ rcv_buf k = rcv_queue (recv_take (len < 0) kcp) @ rcv_buf (recv_take (len < 0) kcp)"
    using rcv_move_keeps [of "recv_take (len < 0) kcp"] by (simp add: k_def recv_finish_def Let_def)
  also have "\<dots> = (if len < 0 then rcv_queue kcp else rest) @ rcv_buf kcp"
    using a by (simp add: recv_take_def m Let_def) (metis append_eq_conv_conj)
  finally show ?thesis using r ikcp_recv_ok [OF assms(1) r] by blast
qed

section \<open>Correctness\<close>

text \<open>A receiver that holds a message of two fragments, the first fragment of the next message, and a segment
  received ahead of its turn.\<close>

definition arrived :: "u32 \<Rightarrow> u32 \<Rightarrow> byte list \<Rightarrow> IKCPSEG" where
  "arrived sn frg bs = ikcp_segment_new\<lparr>seg_conv := 7, seg_cmd := IKCP_CMD_PUSH, seg_sn := sn, seg_frg := frg,
     seg_len := of_nat (length bs), seg_data := bs\<rparr>"

definition sample_receiver :: ikcpcb where
  "sample_receiver = (the (ikcp_create True True 7))
     \<lparr>rcv_nxt := 3, nrcv_que := 3, nrcv_buf := 1,
      rcv_queue := [arrived 0 1 [1, 2], arrived 1 0 [3], arrived 2 1 [4]], rcv_buf := [arrived 4 0 [6]]\<rparr>"

lemma sample_receiver_ok: "rcv_ok sample_receiver"
  by (simp add: sample_receiver_def ikcp_create_def rcv_ok_def ordered_def seg_off_def seg_ok_def arrived_def
    ikcp_segment_new_def ikcp_consts)

text \<open>C16: A data segment outside the receive window changes nothing; one inside is kept exactly once, whatever
  order or duplication it arrives in, no other segment is lost, the invariant holds again, and afterwards
  every segment whose turn has come is in the receive queue unless that is full.\<close>

theorem ikcp_parse_data_correct:
  assumes "rcv_ok kcp" and "seg_ok new"
  shows "rcv_ok (ikcp_parse_data kcp new) \<and>
    (if itimediff (seg_sn new) (rcv_nxt kcp + rcv_wnd kcp) \<ge> 0 \<or> itimediff (seg_sn new) (rcv_nxt kcp) < 0
     then ikcp_parse_data kcp new = kcp
     else mset (rcv_queue (ikcp_parse_data kcp new) @ rcv_buf (ikcp_parse_data kcp new)) =
            mset (rcv_queue kcp @ rcv_buf kcp) +
            (if \<exists>s\<in>set (rcv_buf kcp). seg_sn s = seg_sn new then {#} else {#new#}) \<and>
          (\<exists>moved. rcv_queue (ikcp_parse_data kcp new) = rcv_queue kcp @ moved) \<and>
          (\<forall>s rest. rcv_buf (ikcp_parse_data kcp new) = s # rest \<longrightarrow>
             seg_sn s \<noteq> rcv_nxt (ikcp_parse_data kcp new) \<or>
             \<not> nrcv_que (ikcp_parse_data kcp new) < rcv_wnd kcp))"
proof (cases "itimediff (seg_sn new) (rcv_nxt kcp + rcv_wnd kcp) \<ge> 0 \<or> itimediff (seg_sn new) (rcv_nxt kcp) < 0")
  case True
  then show ?thesis using assms(1) by (simp add: ikcp_parse_data_insert)
next
  case False
  define k where "k = kcp\<lparr>rcv_buf := rcv_insert new (rcv_buf kcp),
        nrcv_buf := (if fst (rcv_search (seg_sn new) (rev (rcv_buf kcp)) []) then nrcv_buf kcp else nrcv_buf kcp + 1)\<rparr>"
  have k: "ikcp_parse_data kcp new = rcv_move k" "rcv_queue k = rcv_queue kcp" "rcv_wnd k = rcv_wnd kcp"
    using False by (simp_all add: ikcp_parse_data_insert k_def)
  have "\<exists>moved. rcv_queue (rcv_move k) = rcv_queue kcp @ moved" using rcv_move_prefix [of k] by (simp add: k(2))
  moreover have "\<forall>s rest. rcv_buf (rcv_move k) = s # rest \<longrightarrow>
      seg_sn s \<noteq> rcv_nxt (rcv_move k) \<or> \<not> nrcv_que (rcv_move k) < rcv_wnd kcp"
    using rcv_move_done [of k] by (simp add: k(3))
  moreover note ikcp_parse_data_segments [OF assms(1), of new] ikcp_parse_data_ok [OF assms]
  ultimately show ?thesis using False by (simp add: k(1))
qed

theorem ikcp_parse_data_correct_witness:
  "rcv_ok (ikcp_parse_data sample_receiver (arrived 3 0 [5])) \<and>
   mset (map seg_sn (rcv_queue (ikcp_parse_data sample_receiver (arrived 3 0 [5])) @
     rcv_buf (ikcp_parse_data sample_receiver (arrived 3 0 [5])))) = {#0, 1, 2, 4, 3#}"
proof -
  have new: "seg_ok (arrived 3 0 [5])" by (simp add: arrived_def seg_ok_def ikcp_segment_new_def)
  have sn: "seg_sn (arrived n f bs) = n" for n f bs by (simp add: arrived_def)
  have r: "rcv_nxt sample_receiver = 3" "rcv_wnd sample_receiver = 128"
    "rcv_queue sample_receiver = [arrived 0 1 [1, 2], arrived 1 0 [3], arrived 2 1 [4]]"
    "rcv_buf sample_receiver = [arrived 4 0 [6]]"
    by (simp_all add: sample_receiver_def ikcp_create_def ikcp_consts)
  have w: "\<not> (itimediff (seg_sn (arrived 3 0 [5])) (rcv_nxt sample_receiver + rcv_wnd sample_receiver) \<ge> 0 \<or>
      itimediff (seg_sn (arrived 3 0 [5])) (rcv_nxt sample_receiver) < 0)"
    by (simp add: r sn itimediff_def)
  note c = ikcp_parse_data_correct [OF sample_receiver_ok new, unfolded if_not_P [OF w]]
  have "mset (rcv_queue (ikcp_parse_data sample_receiver (arrived 3 0 [5])) @
      rcv_buf (ikcp_parse_data sample_receiver (arrived 3 0 [5]))) =
    mset [arrived 0 1 [1, 2], arrived 1 0 [3], arrived 2 1 [4], arrived 4 0 [6], arrived 3 0 [5]]"
    using c by (simp add: r sn)
  then have "image_mset seg_sn (mset (rcv_queue (ikcp_parse_data sample_receiver (arrived 3 0 [5])) @
      rcv_buf (ikcp_parse_data sample_receiver (arrived 3 0 [5])))) = {#0, 1, 2, 4, 3#}"
    by (simp only: mset.simps image_mset_add_mset image_mset_empty sn)
  then show ?thesis using c by (simp only: mset_map)
qed

text \<open>C24: \<open>ikcp_recv\<close> always returns (its assertion never fails). It refuses an empty queue with -1, an incomplete
  message with -2 and a short buffer with -3, changing nothing; otherwise it returns the length and the
  bytes of the whole front message, and takes exactly its segments off the queue unless it only peeks.\<close>

theorem ikcp_recv_correct:
  assumes "rcv_ok kcp" and "length (payload (rcv_queue kcp)) < 2147483648"
  shows "\<exists>r data kcp'. ikcp_recv kcp len = Inr (r, data, kcp') \<and> rcv_ok kcp' \<and>
    (let (msg, rest) = split_message (rcv_queue kcp) in
     if rcv_queue kcp = [] then r = -1 \<and> kcp' = kcp
     else if \<not> message_complete kcp then r = -2 \<and> kcp' = kcp
     else if int (length (payload msg)) > \<bar>len\<bar> then r = -3 \<and> kcp' = kcp
     else r = int (length (payload msg)) \<and> data = payload msg \<and>
       rcv_queue kcp' @ rcv_buf kcp' = (if len < 0 then rcv_queue kcp else rest) @ rcv_buf kcp)"
proof (cases "rcv_queue kcp = [] \<or> \<not> message_complete kcp \<or> int (length (payload (fst (split_message (rcv_queue kcp))))) > \<bar>len\<bar>")
  case True
  then show ?thesis using assms(1) peeksize_value [OF assms(1) _ assms(2)]
    by (auto simp: ikcp_recv_outcome split: prod.split)
next
  case False
  then have c: "message_complete kcp"
    and le: "int (length (payload (fst (split_message (rcv_queue kcp))))) \<le> \<bar>len\<bar>" by auto
  obtain msg rest where m: "split_message (rcv_queue kcp) = (msg, rest)" by (cases "split_message (rcv_queue kcp)")
  have "int (length (payload msg)) \<le> \<bar>len\<bar>" using le by (simp add: m)
  from ikcp_recv_complete [OF assms c m this] show ?thesis using False c le by (auto simp: m)
qed

theorem ikcp_recv_correct_witness:
  "\<exists>kcp'. ikcp_recv sample_receiver 10 = Inr (3, [1, 2, 3], kcp') \<and> rcv_ok kcp'"
proof -
  have q: "rcv_queue sample_receiver = [arrived 0 1 [1, 2], arrived 1 0 [3], arrived 2 1 [4]]"
    by (simp add: sample_receiver_def)
  have f: "seg_frg (arrived n f bs) = f" "seg_data (arrived n f bs) = bs" for n f bs by (simp_all add: arrived_def)
  have m: "split_message (rcv_queue sample_receiver) = ([arrived 0 1 [1, 2], arrived 1 0 [3]], [arrived 2 1 [4]])"
    by (simp add: q f)
  have c: "message_complete sample_receiver" by (simp add: message_complete_def q f)
  have "length (payload (rcv_queue sample_receiver)) < 2147483648" by (simp add: q f)
  from ikcp_recv_correct [OF sample_receiver_ok this, of 10] show ?thesis
    using c unfolding m Let_def prod.case by (auto simp: q f split: if_splits)
qed

end
