(* ===== verification/Kcp_Ack.thy ===== *)
theory Kcp_Ack
  imports Seg_Order
begin

text \<open>
  What the sender does with acknowledgements, and the receiver's list of acknowledgements to send:
  \<open>ikcp_update_ack\<close>, \<open>ikcp_shrink_buf\<close>, \<open>ikcp_parse_ack\<close>, \<open>ikcp_parse_una\<close>,
  \<open>ikcp_parse_fastack\<close>, \<open>ikcp_ack_push\<close>, \<open>ikcp_ack_get\<close>.
\<close>

section \<open>Round-trip time\<close>

text \<open>
  The smoothed round-trip time and its deviation; then the timeout they give. Products and sums wrap at 32 bits here; in C a signed
  overflow is undefined. At the end of this theory it is shown that none occurs below a bound on the samples.
\<close>

definition update_srtt :: "ikcpcb \<Rightarrow> int \<Rightarrow> ikcpcb" where
  "update_srtt kcp rtt =
     (if rx_srtt kcp = 0
      then kcp\<lparr>rx_srtt := word_of_int rtt, rx_rttval := word_of_int (c_div rtt 2)\<rparr>
      else let delta = sint (word_of_int rtt - rx_srtt kcp);
               delta = (if delta < 0 then - delta else delta);
               kcp = kcp\<lparr>rx_rttval := word_of_int (c_div (sint (3 * rx_rttval kcp) + delta) 4)\<rparr>;
               kcp = kcp\<lparr>rx_srtt := word_of_int (c_div (sint (7 * rx_srtt kcp + word_of_int rtt)) 8)\<rparr>
           in if sint (rx_srtt kcp) < 1 then kcp\<lparr>rx_srtt := 1\<rparr> else kcp)"

definition ikcp_update_ack :: "ikcpcb \<Rightarrow> int \<Rightarrow> ikcpcb" where
  "ikcp_update_ack kcp rtt =
     (let kcp = update_srtt kcp rtt;
          rto = rx_srtt kcp + imax (interval kcp) (4 * rx_rttval kcp)
      in kcp\<lparr>rx_rto := ibound (rx_minrto kcp) rto IKCP_RTO_MAX\<rparr>)"

section \<open>The send buffer\<close>

definition ikcp_shrink_buf :: "ikcpcb \<Rightarrow> ikcpcb" where
  "ikcp_shrink_buf kcp =
     (case snd_buf kcp of
        seg # _ \<Rightarrow> kcp\<lparr>snd_una := seg_sn seg\<rparr>
      | [] \<Rightarrow> kcp\<lparr>snd_una := snd_nxt kcp\<rparr>)"

text \<open>The loop of \<open>ikcp_parse_ack\<close>: the queue it leaves, and whether it removed a segment.\<close>

fun parse_ack_loop :: "u32 \<Rightarrow> IKCPSEG list \<Rightarrow> IKCPSEG list \<times> bool" where
  "parse_ack_loop sn [] = ([], False)"
| "parse_ack_loop sn (seg # p) =
     (if sn = seg_sn seg then (p, True)
      else if itimediff sn (seg_sn seg) < 0 then (seg # p, False)
      else let (p', removed) = parse_ack_loop sn p in (seg # p', removed))"

definition ikcp_parse_ack :: "ikcpcb \<Rightarrow> u32 \<Rightarrow> ikcpcb" where
  "ikcp_parse_ack kcp sn =
     (if itimediff sn (snd_una kcp) < 0 \<or> itimediff sn (snd_nxt kcp) \<ge> 0 then kcp
      else let (buf, removed) = parse_ack_loop sn (snd_buf kcp)
           in kcp\<lparr>snd_buf := buf, nsnd_buf := (if removed then nsnd_buf kcp - 1 else nsnd_buf kcp)\<rparr>)"

text \<open>The loop of \<open>ikcp_parse_una\<close>: the queue it leaves, and how many segments it removed.\<close>

fun parse_una_loop :: "u32 \<Rightarrow> IKCPSEG list \<Rightarrow> IKCPSEG list \<times> nat" where
  "parse_una_loop una [] = ([], 0)"
| "parse_una_loop una (seg # p) =
     (if itimediff una (seg_sn seg) > 0
      then let (p', removed) = parse_una_loop una p in (p', Suc removed)
      else (seg # p, 0))"

definition ikcp_parse_una :: "ikcpcb \<Rightarrow> u32 \<Rightarrow> ikcpcb" where
  "ikcp_parse_una kcp una =
     (let (buf, removed) = parse_una_loop una (snd_buf kcp)
      in kcp\<lparr>snd_buf := buf, nsnd_buf := nsnd_buf kcp - of_nat removed\<rparr>)"

fun parse_fastack_loop :: "u32 \<Rightarrow> IKCPSEG list \<Rightarrow> IKCPSEG list" where
  "parse_fastack_loop sn [] = []"
| "parse_fastack_loop sn (seg # p) =
     (if itimediff sn (seg_sn seg) < 0 then seg # p
      else (if sn \<noteq> seg_sn seg then seg\<lparr>seg_fastack := seg_fastack seg + 1\<rparr> else seg)
           # parse_fastack_loop sn p)"

text \<open>Built without \<open>IKCP_FASTACK_CONSERVE\<close>, so the timestamp argument is not read.\<close>

definition ikcp_parse_fastack :: "ikcpcb \<Rightarrow> u32 \<Rightarrow> u32 \<Rightarrow> ikcpcb" where
  "ikcp_parse_fastack kcp sn ts =
     (if itimediff sn (snd_una kcp) < 0 \<or> itimediff sn (snd_nxt kcp) \<ge> 0 then kcp
      else kcp\<lparr>snd_buf := parse_fastack_loop sn (snd_buf kcp)\<rparr>)"

section \<open>The acknowledgement list\<close>

text \<open>
  The block size doubles from 8 until it holds \<open>newsize\<close> entries. The counter is 32 bits
  wide: for more than \<open>2^31\<close> entries it falls to 0 and the loop never ends.
\<close>

partial_function (option) ack_grow :: "u32 \<Rightarrow> u32 \<Rightarrow> u32 option" where
  "ack_grow newblock newsize =
     (if newblock < newsize then ack_grow (push_bit 1 newblock) newsize else Some newblock)"

declare ack_grow.simps [code]

text \<open>
  The fresh block keeps the old entries; the rest of it is indeterminate (0 here). Its allocation succeeds: the code aborts when it
  does not. Entry \<open>i\<close>
  is stored at the indices \<open>2i\<close> and \<open>2i+1\<close>.
\<close>

definition ack_reserve :: "ikcpcb \<Rightarrow> u32 \<Rightarrow> ikcpcb result" where
  "ack_reserve kcp newsize =
     (if newsize > ackblock kcp
      then case ack_grow 8 newsize of
             None \<Rightarrow> Inl No_return
           | Some newblock \<Rightarrow>
               let old = take (2 * unat (ackcount kcp)) (acklist kcp)
               in Inr (kcp\<lparr>acklist := old @ replicate (2 * unat newblock - length old) 0,
                           ackblock := newblock\<rparr>)
      else Inr kcp)"

definition ack_write :: "ikcpcb \<Rightarrow> u32 \<Rightarrow> u32 \<Rightarrow> ikcpcb result" where
  "ack_write kcp sn ts =
     (let i = unat (ackcount kcp) * 2 in
      if i + 1 < length (acklist kcp)
      then Inr (kcp\<lparr>acklist := (acklist kcp)[i := sn, i + 1 := ts], ackcount := ackcount kcp + 1\<rparr>)
      else Inl Buffer_overflow)"

definition ikcp_ack_push :: "ikcpcb \<Rightarrow> u32 \<Rightarrow> u32 \<Rightarrow> ikcpcb result" where
  "ikcp_ack_push kcp sn ts =
     bind (ack_reserve kcp (ackcount kcp + 1)) (\<lambda>kcp. ack_write kcp sn ts)"

definition ikcp_ack_get :: "ikcpcb \<Rightarrow> nat \<Rightarrow> u32 \<times> u32" where
  "ikcp_ack_get kcp p = (acklist kcp ! (p * 2 + 0), acklist kcp ! (p * 2 + 1))"

section \<open>The sender's invariant\<close>

text \<open>
  The window of the sender: \<open>snd_buf\<close> is ordered around \<open>snd_una\<close>, its numbers lie
  between \<open>snd_una\<close> and \<open>snd_nxt\<close>, which are at most \<open>65535\<close> apart (the widest
  window a header can announce); the counters count; every queued segment fits a datagram.
  \<open>snd_una\<close> itself is the number of the first unacknowledged segment.
\<close>

definition snd_window_ok :: "ikcpcb \<Rightarrow> bool" where
  "snd_window_ok kcp \<longleftrightarrow>
     nsnd_buf kcp = of_nat (length (snd_buf kcp)) \<and>
     nsnd_que kcp = of_nat (length (snd_queue kcp)) \<and>
     (\<forall>s\<in>set (snd_queue kcp @ snd_buf kcp). seg_ok s \<and> seg_len s \<le> mss kcp) \<and>
     (\<forall>s\<in>set (snd_buf kcp). seg_cmd s = IKCP_CMD_PUSH \<and> seg_conv s = conv kcp) \<and>
     ordered (snd_una kcp) (snd_buf kcp) \<and>
     (\<forall>s\<in>set (snd_buf kcp). seg_off (snd_una kcp) s < uint (snd_nxt kcp - snd_una kcp)) \<and>
     uint (snd_nxt kcp - snd_una kcp) \<le> 65535 \<and>
     uint (rmt_wnd kcp) \<le> 65535"

definition first_unacked :: "ikcpcb \<Rightarrow> u32" where
  "first_unacked kcp = (case snd_buf kcp of [] \<Rightarrow> snd_nxt kcp | s # _ \<Rightarrow> seg_sn s)"

definition snd_ok :: "ikcpcb \<Rightarrow> bool" where
  "snd_ok kcp \<longleftrightarrow> snd_window_ok kcp \<and> snd_una kcp = first_unacked kcp"

section \<open>The send buffer: lemmas\<close>

lemma seg_off_rebase:
  assumes "uint (c - b) \<le> seg_off b s"
  shows "seg_off c s = seg_off b s - uint (c - b)"
proof -
  have "seg_sn s - c = (seg_sn s - b) - (c - b)" by simp
  then have "uint (seg_sn s - c) = uint ((seg_sn s - b) - (c - b))" by (rule arg_cong)
  then show ?thesis using assms by (simp only: seg_off_def uint_diff32) simp
qed

lemma ordered_rebase:
  assumes "ordered b xs" and "\<forall>s\<in>set xs. uint (c - b) \<le> seg_off b s"
  shows "ordered c xs"
proof -
  have m: "map (seg_off c) xs = map (\<lambda>s. seg_off b s - uint (c - b)) xs"
    using assms(2) by (simp add: seg_off_rebase)
  have "\<forall>s\<in>set xs. seg_off c s < 2147483648"
  proof
    fix s assume s: "s \<in> set xs"
    then have "seg_off c s = seg_off b s - uint (c - b)" using assms(2) by (simp add: seg_off_rebase)
    moreover have "seg_off b s < 2147483648" using assms(1) s by (rule ordered_bound)
    ultimately show "seg_off c s < 2147483648" using uint32_range [of "c - b"] by linarith
  qed
  moreover have "sorted_wrt (<) (map (\<lambda>s. seg_off b s - uint (c - b)) xs)"
    using assms(1) by (simp add: ordered_def sorted_wrt_map)
  ultimately show ?thesis by (simp add: ordered_def m)
qed

lemma ikcp_shrink_buf_eq: "ikcp_shrink_buf kcp = kcp\<lparr>snd_una := first_unacked kcp\<rparr>"
  by (simp add: ikcp_shrink_buf_def first_unacked_def split: list.splits)

lemma snd_window_okD:
  assumes "snd_window_ok kcp"
  shows "nsnd_buf kcp = of_nat (length (snd_buf kcp))" "nsnd_que kcp = of_nat (length (snd_queue kcp))"
    "ordered (snd_una kcp) (snd_buf kcp)"
    "\<And>s. s \<in> set (snd_buf kcp) \<Longrightarrow> seg_off (snd_una kcp) s < uint (snd_nxt kcp - snd_una kcp)"
    "uint (snd_nxt kcp - snd_una kcp) \<le> 65535" "uint (rmt_wnd kcp) \<le> 65535"
    "\<And>s. s \<in> set (snd_buf kcp) \<Longrightarrow> seg_ok s \<and> seg_len s \<le> mss kcp \<and> seg_cmd s = IKCP_CMD_PUSH \<and> seg_conv s = conv kcp"
    "\<And>s. s \<in> set (snd_queue kcp) \<Longrightarrow> seg_ok s \<and> seg_len s \<le> mss kcp"
  using assms by (auto simp: snd_window_ok_def)

lemma first_unacked_le:
  assumes "snd_window_ok kcp"
  shows "\<forall>s\<in>set (snd_buf kcp). uint (first_unacked kcp - snd_una kcp) \<le> seg_off (snd_una kcp) s"
    and "uint (first_unacked kcp - snd_una kcp) \<le> uint (snd_nxt kcp - snd_una kcp)"
proof -
  note w = snd_window_okD [OF assms]
  show "\<forall>s\<in>set (snd_buf kcp). uint (first_unacked kcp - snd_una kcp) \<le> seg_off (snd_una kcp) s"
    using w(3) by (cases "snd_buf kcp") (simp_all add: first_unacked_def ordered_Cons seg_off_def less_imp_le)
  show "uint (first_unacked kcp - snd_una kcp) \<le> uint (snd_nxt kcp - snd_una kcp)"
    using w(4) by (cases "snd_buf kcp") (simp_all add: first_unacked_def seg_off_def less_imp_le)
qed

lemma ikcp_shrink_buf_ok:
  assumes "snd_window_ok kcp"
  shows "snd_ok (ikcp_shrink_buf kcp)"
proof -
  let ?u = "snd_una kcp" and ?n = "snd_nxt kcp" and ?c = "first_unacked kcp"
  note w = snd_window_okD [OF assms] and le = first_unacked_le [OF assms]
  have "?n - ?c = (?n - ?u) - (?c - ?u)" by simp
  then have d: "uint (?n - ?c) = uint (?n - ?u) - uint (?c - ?u)" using le(2) by (simp only: uint_diff32) simp
  have "seg_off ?c s < uint (?n - ?c)" if "s \<in> set (snd_buf kcp)" for s
  proof -
    have "seg_off ?c s = seg_off ?u s - uint (?c - ?u)" using that le(1) by (intro seg_off_rebase) simp
    then show ?thesis using d w(4) [OF that] by linarith
  qed
  moreover have "ordered ?c (snd_buf kcp)" by (rule ordered_rebase [OF w(3) le(1)])
  moreover have "uint (?n - ?c) \<le> 65535" using d w(5) uint32_range [of "?c - ?u"] by linarith
  moreover have "first_unacked (kcp\<lparr>snd_una := ?c\<rparr>) = ?c"
    by (cases "snd_buf kcp") (simp_all add: first_unacked_def)
  ultimately show ?thesis
    using w(1,2,6-8) by (auto simp: ikcp_shrink_buf_eq snd_ok_def snd_window_ok_def)
qed

text \<open>The two removal loops are filters on the ordered queue.\<close>

lemma parse_ack_loop_filter:
  assumes "ordered b xs" and "uint (sn - b) < 2147483648"
  shows "parse_ack_loop sn xs = (filter (\<lambda>s. seg_sn s \<noteq> sn) xs, \<exists>s\<in>set xs. seg_sn s = sn)"
  using assms(1)
proof (induction xs)
  case (Cons x xs)
  have x: "seg_off b x < 2147483648" "\<forall>s\<in>set xs. seg_off b x < seg_off b s" "ordered b xs"
    using Cons.prems by (auto simp: ordered_Cons)
  note d = itimediff_seg [OF assms(2) x(1)]
  consider (hit) "seg_sn x = sn" | (below) "seg_sn x \<noteq> sn" "itimediff sn (seg_sn x) < 0"
    | (above) "seg_sn x \<noteq> sn" "\<not> itimediff sn (seg_sn x) < 0" by blast
  then show ?case
  proof cases
    case hit
    then have "\<forall>s\<in>set xs. seg_sn s \<noteq> sn" using x(2) seg_off_inj_iff by (metis less_irrefl)
    with hit show ?thesis by (simp add: filter_id_conv)
  next
    case below
    with d have "uint (sn - b) < seg_off b x" by linarith
    then have "\<forall>s\<in>set xs. seg_off b s \<noteq> uint (sn - b)" using x(2) by fastforce
    then have "\<forall>s\<in>set xs. seg_sn s \<noteq> sn" by (simp add: seg_off_eq_iff)
    with below show ?thesis by (auto simp: filter_id_conv)
  next
    case above
    with Cons.IH [OF x(3)] show ?thesis by auto
  qed
qed simp

lemma parse_una_loop_dropWhile:
  "parse_una_loop una xs =
     (dropWhile (\<lambda>s. itimediff una (seg_sn s) > 0) xs,
      length (takeWhile (\<lambda>s. itimediff una (seg_sn s) > 0) xs))"
  by (induction xs) auto

lemma parse_una_loop_filter:
  assumes "ordered b xs" and "uint (una - b) < 2147483648"
  shows "fst (parse_una_loop una xs) = filter (\<lambda>s. uint (una - b) \<le> seg_off b s) xs"
  using assms(1)
proof (induction xs)
  case (Cons x xs)
  have x: "seg_off b x < 2147483648" "\<forall>s\<in>set xs. seg_off b x < seg_off b s" "ordered b xs"
    using Cons.prems by (auto simp: ordered_Cons)
  note d = itimediff_seg [OF assms(2) x(1)]
  show ?case
  proof (cases "itimediff una (seg_sn x) > 0")
    case True
    with d Cons.IH [OF x(3)] show ?thesis by (cases "parse_una_loop una xs") simp
  next
    case False
    with d have "uint (una - b) \<le> seg_off b x" by linarith
    with x(2) have "\<forall>s\<in>set xs. uint (una - b) \<le> seg_off b s" by fastforce
    with False d show ?thesis by (simp add: filter_id_conv)
  qed
qed simp

lemma parse_una_suffix: "\<exists>gone. xs = gone @ fst (parse_una_loop una xs) \<and> length gone = snd (parse_una_loop una xs)"
  by (metis fst_conv parse_una_loop_dropWhile snd_conv takeWhile_dropWhile_id)

lemma parse_fastack_loop_map:
  assumes "ordered b xs" and "uint (sn - b) < 2147483648"
  shows "parse_fastack_loop sn xs =
    map (\<lambda>s. if seg_off b s < uint (sn - b) then s\<lparr>seg_fastack := seg_fastack s + 1\<rparr> else s) xs"
  using assms(1)
proof (induction xs)
  case (Cons x xs)
  have x: "seg_off b x < 2147483648" "\<forall>s\<in>set xs. seg_off b x < seg_off b s" "ordered b xs"
    using Cons.prems by (auto simp: ordered_Cons)
  note d = itimediff_seg [OF assms(2) x(1)]
  show ?case
  proof (cases "itimediff sn (seg_sn x) < 0")
    case True
    with d have "uint (sn - b) < seg_off b x" by linarith
    with x(2) have "\<forall>s\<in>set (x # xs). \<not> seg_off b s < uint (sn - b)" by fastforce
    then have "map (\<lambda>s. if seg_off b s < uint (sn - b) then s\<lparr>seg_fastack := seg_fastack s + 1\<rparr> else s) (x # xs) = x # xs"
      by (simp add: map_idI)
    with True show ?thesis by simp
  next
    case False
    with d have le: "seg_off b x \<le> uint (sn - b)" by linarith
    have "seg_off b x < uint (sn - b) \<longleftrightarrow> sn \<noteq> seg_sn x"
      using le seg_off_eq_iff [of b x sn] by auto
    with False Cons.IH [OF x(3)] show ?thesis by simp
  qed
qed simp

text \<open>The operations keep the window.\<close>

lemma snd_window_subset:
  assumes "snd_window_ok kcp" and "ordered (snd_una kcp) buf" and "set buf \<subseteq> set (snd_buf kcp)"
  shows "snd_window_ok (kcp\<lparr>snd_buf := buf, nsnd_buf := of_nat (length buf)\<rparr>)"
  using assms by (auto simp: snd_window_ok_def subset_iff)

lemma ikcp_parse_una_eq:
  "ikcp_parse_una kcp una = kcp\<lparr>snd_buf := fst (parse_una_loop una (snd_buf kcp)),
     nsnd_buf := nsnd_buf kcp - of_nat (snd (parse_una_loop una (snd_buf kcp)))\<rparr>"
  by (simp add: ikcp_parse_una_def split: prod.splits)

lemma ikcp_parse_una_ok:
  assumes "snd_window_ok kcp"
  shows "snd_window_ok (ikcp_parse_una kcp una)"
proof -
  obtain gone where g: "snd_buf kcp = gone @ fst (parse_una_loop una (snd_buf kcp))"
    "length gone = snd (parse_una_loop una (snd_buf kcp))"
    using parse_una_suffix by blast
  let ?b = "fst (parse_una_loop una (snd_buf kcp))"
  have "length (snd_buf kcp) = length gone + length ?b" using g(1) by (metis length_append)
  then have "nsnd_buf kcp - of_nat (snd (parse_una_loop una (snd_buf kcp))) = of_nat (length ?b)"
    using assms g(2) by (simp add: snd_window_ok_def)
  moreover have "snd_window_ok (kcp\<lparr>snd_buf := ?b, nsnd_buf := of_nat (length ?b)\<rparr>)"
  proof (rule snd_window_subset [OF assms])
    have "ordered (snd_una kcp) (gone @ ?b)" using assms g(1) by (simp add: snd_window_ok_def)
    then show "ordered (snd_una kcp) ?b" by (simp add: ordered_append)
    show "set ?b \<subseteq> set (snd_buf kcp)" by (subst (2) g(1)) simp
  qed
  ultimately show ?thesis by (simp add: ikcp_parse_una_eq)
qed

lemma ikcp_parse_ack_eq:
  assumes "snd_window_ok kcp"
  shows "ikcp_parse_ack kcp sn =
    (if itimediff sn (snd_una kcp) < 0 \<or> itimediff sn (snd_nxt kcp) \<ge> 0 then kcp
     else kcp\<lparr>snd_buf := filter (\<lambda>s. seg_sn s \<noteq> sn) (snd_buf kcp),
              nsnd_buf := of_nat (length (filter (\<lambda>s. seg_sn s \<noteq> sn) (snd_buf kcp)))\<rparr>)"
proof (cases "itimediff sn (snd_una kcp) < 0 \<or> itimediff sn (snd_nxt kcp) \<ge> 0")
  case False
  then have d: "uint (sn - snd_una kcp) < 2147483648" by (simp add: itimediff_nonneg_iff [symmetric])
  have o: "ordered (snd_una kcp) (snd_buf kcp)" and n: "nsnd_buf kcp = of_nat (length (snd_buf kcp))"
    using assms by (auto simp: snd_window_ok_def)
  note f = parse_ack_loop_filter [OF o d]
  have "of_nat (length (filter (\<lambda>s. seg_sn s \<noteq> sn) (snd_buf kcp))) =
      (if \<exists>s\<in>set (snd_buf kcp). seg_sn s = sn then nsnd_buf kcp - 1 else nsnd_buf kcp)"
  proof (cases "\<exists>s\<in>set (snd_buf kcp). seg_sn s = sn")
    case True
    then obtain s where s: "s \<in> set (snd_buf kcp)" "seg_sn s = sn" by blast
    have "distinct (map seg_sn (snd_buf kcp))" by (rule ordered_distinct_sn [OF o])
    then have "length (filter (\<lambda>s. seg_sn s = sn) (snd_buf kcp)) = 1"
      using filter_sn_single [OF _ s(1)] by (simp add: s(2))
    moreover have "length (filter (\<lambda>s. seg_sn s = sn) (snd_buf kcp)) +
        length (filter (\<lambda>s. seg_sn s \<noteq> sn) (snd_buf kcp)) = length (snd_buf kcp)"
      by (rule sum_length_filter_compl)
    ultimately have "nsnd_buf kcp = of_nat (Suc (length (filter (\<lambda>s. seg_sn s \<noteq> sn) (snd_buf kcp))))"
      by (simp add: n)
    with True show ?thesis by simp
  next
    case False
    then have "filter (\<lambda>s. seg_sn s \<noteq> sn) (snd_buf kcp) = snd_buf kcp" by (simp add: filter_id_conv)
    with False n show ?thesis by simp
  qed
  with False f show ?thesis by (simp add: ikcp_parse_ack_def)
qed (simp add: ikcp_parse_ack_def)

lemma ikcp_parse_ack_ok:
  assumes "snd_window_ok kcp"
  shows "snd_window_ok (ikcp_parse_ack kcp sn)"
proof -
  have "snd_window_ok (kcp\<lparr>snd_buf := filter (\<lambda>s. seg_sn s \<noteq> sn) (snd_buf kcp),
      nsnd_buf := of_nat (length (filter (\<lambda>s. seg_sn s \<noteq> sn) (snd_buf kcp)))\<rparr>)"
    by (rule snd_window_subset [OF assms]) (use assms in \<open>auto simp: snd_window_ok_def ordered_filter\<close>)
  then show ?thesis by (simp add: ikcp_parse_ack_eq [OF assms] assms)
qed

definition bump_fastack :: "u32 \<Rightarrow> u32 \<Rightarrow> IKCPSEG \<Rightarrow> IKCPSEG" where
  "bump_fastack una sn s = (if seg_off una s < uint (sn - una) then s\<lparr>seg_fastack := seg_fastack s + 1\<rparr> else s)"

lemma bump_fastack_fields [simp]:
  "seg_sn (bump_fastack u sn s) = seg_sn s" "seg_cmd (bump_fastack u sn s) = seg_cmd s"
  "seg_conv (bump_fastack u sn s) = seg_conv s" "seg_ok (bump_fastack u sn s) = seg_ok s"
  "seg_len (bump_fastack u sn s) = seg_len s" "seg_off b (bump_fastack u sn s) = seg_off b s"
  "seg_data (bump_fastack u sn s) = seg_data s" "seg_frg (bump_fastack u sn s) = seg_frg s"
  by (simp_all add: bump_fastack_def)

lemma ikcp_parse_fastack_eq:
  assumes "snd_window_ok kcp"
  shows "ikcp_parse_fastack kcp sn ts =
    (if itimediff sn (snd_una kcp) < 0 \<or> itimediff sn (snd_nxt kcp) \<ge> 0 then kcp
     else kcp\<lparr>snd_buf := map (bump_fastack (snd_una kcp) sn) (snd_buf kcp)\<rparr>)"
proof (cases "itimediff sn (snd_una kcp) < 0 \<or> itimediff sn (snd_nxt kcp) \<ge> 0")
  case False
  then have "uint (sn - snd_una kcp) < 2147483648" by (simp add: itimediff_nonneg_iff [symmetric])
  from parse_fastack_loop_map [OF snd_window_okD(3) [OF assms] this] False show ?thesis
    by (simp add: ikcp_parse_fastack_def bump_fastack_def cong: map_cong)
qed (simp add: ikcp_parse_fastack_def)

lemma snd_ok_map:
  assumes "snd_ok kcp" and "\<And>s. s \<in> set (snd_buf kcp) \<Longrightarrow> seg_sn (g s) = seg_sn s \<and> seg_cmd (g s) = seg_cmd s \<and>
    seg_conv (g s) = seg_conv s \<and> seg_ok (g s) = seg_ok s \<and> seg_len (g s) = seg_len s"
  shows "snd_ok (kcp\<lparr>snd_buf := map g (snd_buf kcp)\<rparr>)"
proof -
  have w: "snd_window_ok kcp" and u: "snd_una kcp = first_unacked kcp" using assms(1) by (simp_all add: snd_ok_def)
  have m: "map seg_sn (map g (snd_buf kcp)) = map seg_sn (snd_buf kcp)" using assms(2) by simp
  have "ordered (snd_una kcp) (map g (snd_buf kcp))" using ordered_cong [OF m] snd_window_okD(3) [OF w] by simp
  moreover have "seg_off b (g s) = seg_off b s" if "s \<in> set (snd_buf kcp)" for b s
    using assms(2) [OF that] by (simp add: seg_off_def)
  moreover have "first_unacked (kcp\<lparr>snd_buf := map g (snd_buf kcp)\<rparr>) = first_unacked kcp"
    using assms(2) by (cases "snd_buf kcp") (simp_all add: first_unacked_def)
  ultimately show ?thesis
    using u assms(2) snd_window_okD [OF w] by (auto simp: snd_ok_def snd_window_ok_def)
qed

lemma ikcp_parse_fastack_ok:
  assumes "snd_ok kcp"
  shows "snd_ok (ikcp_parse_fastack kcp sn ts)"
proof -
  have "snd_window_ok kcp" using assms by (simp add: snd_ok_def)
  then show ?thesis using assms snd_ok_map [OF assms] by (simp add: ikcp_parse_fastack_eq)
qed

section \<open>The acknowledgement list: lemmas\<close>

lemma uint_double: "uint (x :: u32) < 2147483648 \<Longrightarrow> uint (push_bit 1 x) = 2 * uint x"
proof -
  assume "uint x < 2147483648"
  moreover have "push_bit 1 x = x + x" by (simp add: push_bit_eq_mult)
  ultimately show ?thesis by (simp only: uint_add32) simp
qed

lemma ack_grow_some:
  assumes "uint x = 2 ^ j" and "j + k = 31" and "uint n \<le> 2147483648"
  shows "\<exists>b. ack_grow x n = Some b \<and> n \<le> b"
  using assms(1,2)
proof (induction k arbitrary: x j)
  case 0
  then have "n \<le> x" using assms(3) by (simp add: word_le_def)
  then show ?case by (subst ack_grow.simps) auto
next
  case (Suc k)
  show ?case
  proof (cases "x < n")
    case True
    have "(2::int) ^ j < 2 ^ 31" using Suc.prems(2) by (intro power_strict_increasing) auto
    then have "uint (push_bit 1 x) = 2 ^ Suc j" using Suc.prems(1) by (subst uint_double) auto
    from Suc.IH [OF this] Suc.prems(2) True show ?thesis by (subst ack_grow.simps) auto
  next
    case False
    then show ?thesis by (subst ack_grow.simps) auto
  qed
qed

text \<open>
  The array behind the list, and its entries: the pairs \<open>(sn, ts)\<close> in the order they were
  pushed.
\<close>

definition ack_ok :: "ikcpcb \<Rightarrow> bool" where
  "ack_ok kcp \<longleftrightarrow> unat (ackcount kcp) \<le> unat (ackblock kcp) \<and> length (acklist kcp) = 2 * unat (ackblock kcp)"

definition acks :: "ikcpcb \<Rightarrow> (u32 \<times> u32) list" where
  "acks kcp = map (ikcp_ack_get kcp) [0..<unat (ackcount kcp)]"

lemma acks_store:
  assumes "2 * n + 1 < length l" and "ack = ackcount kcp" and "n = unat ack" and "unat (ack + 1) = Suc n"
    and "take (2 * n) l = take (2 * n) (acklist kcp)"
  shows "acks (kcp\<lparr>acklist := l[n * 2 := sn, n * 2 + 1 := ts], ackblock := b, ackcount := ack + 1\<rparr>) =
    acks kcp @ [(sn, ts)]"
proof -
  let ?k = "kcp\<lparr>acklist := l[n * 2 := sn, n * 2 + 1 := ts], ackblock := b, ackcount := ack + 1\<rparr>"
  have e: "l ! i = acklist kcp ! i" if "i < 2 * n" for i
    using that arg_cong [OF assms(5), of "\<lambda>xs. xs ! i"] by simp
  have "ikcp_ack_get ?k i = ikcp_ack_get kcp i" if "i < n" for i
    using that e [of "i * 2"] e [of "i * 2 + 1"] by (simp add: ikcp_ack_get_def)
  moreover have "ikcp_ack_get ?k n = (sn, ts)" using assms(1) by (simp add: ikcp_ack_get_def mult.commute)
  moreover have "unat (ackcount ?k) = Suc n" using assms(4) by simp
  moreover have "n = unat (ackcount kcp)" using assms(2,3) by simp
  ultimately show ?thesis by (simp add: acks_def)
qed

lemma unat_Suc_small: "unat (x :: u32) < 2147483648 \<Longrightarrow> unat (x + 1) = Suc (unat x)"
  by (simp add: unat_word_ariths)

lemma ack_reserve_room:
  assumes "ack_ok kcp" and "unat (ackcount kcp) < 2147483648"
  shows "\<exists>l b. ack_reserve kcp (ackcount kcp + 1) = Inr (kcp\<lparr>acklist := l, ackblock := b\<rparr>) \<and>
    Suc (unat (ackcount kcp)) \<le> unat b \<and> length l = 2 * unat b \<and>
    take (2 * unat (ackcount kcp)) l = take (2 * unat (ackcount kcp)) (acklist kcp)"
proof (cases "ackcount kcp + 1 > ackblock kcp")
  case False
  then have "Suc (unat (ackcount kcp)) \<le> unat (ackblock kcp)"
    by (simp only: not_less word_le_nat_alt unat_Suc_small [OF assms(2)])
  then show ?thesis
    using False assms(1) by (intro exI [of _ "acklist kcp"] exI [of _ "ackblock kcp"]) (simp add: ack_reserve_def ack_ok_def)
next
  case True
  let ?n = "unat (ackcount kcp)"
  note suc = unat_Suc_small [OF assms(2)]
  have "int (unat (ackcount kcp + 1)) \<le> 2147483648" using assms(2) suc by linarith
  then have "uint (ackcount kcp + 1) \<le> 2147483648" by simp
  from ack_grow_some [of 8 3 28, OF _ _ this] obtain b where
    b: "ack_grow 8 (ackcount kcp + 1) = Some b" "ackcount kcp + 1 \<le> b" by auto
  have bl: "Suc ?n \<le> unat b" using b(2) by (simp only: word_le_nat_alt suc)
  let ?old = "take (2 * ?n) (acklist kcp)"
  have lo: "length ?old = 2 * ?n" using assms(1) by (simp only: ack_ok_def length_take) simp
  let ?l = "?old @ replicate (2 * unat b - length ?old) 0"
  have "length ?l = 2 * unat b" using bl by (simp only: lo length_append length_replicate)
  moreover have "take (2 * ?n) ?l = ?old" by (simp only: take_append lo) simp
  moreover have "ack_reserve kcp (ackcount kcp + 1) = Inr (kcp\<lparr>acklist := ?l, ackblock := b\<rparr>)"
    using True by (simp only: ack_reserve_def Let_def b(1) if_True option.case)
  ultimately show ?thesis using bl by blast
qed

lemma ikcp_ack_push_stores:
  assumes "ack_ok kcp" and "unat (ackcount kcp) < 2147483648"
  shows "\<exists>l b. ikcp_ack_push kcp sn ts = Inr (kcp\<lparr>acklist := l, ackblock := b, ackcount := ackcount kcp + 1\<rparr>) \<and>
    Suc (unat (ackcount kcp)) \<le> unat b \<and> length l = 2 * unat b \<and>
    acks (kcp\<lparr>acklist := l, ackblock := b, ackcount := ackcount kcp + 1\<rparr>) = acks kcp @ [(sn, ts)]"
proof -
  let ?n = "unat (ackcount kcp)"
  obtain l b where r: "ack_reserve kcp (ackcount kcp + 1) = Inr (kcp\<lparr>acklist := l, ackblock := b\<rparr>)"
    and bl: "Suc ?n \<le> unat b" and l: "length l = 2 * unat b" "take (2 * ?n) l = take (2 * ?n) (acklist kcp)"
    using ack_reserve_room [OF assms] by blast
  have lt: "2 * ?n + 1 < length l" using bl l(1) by linarith
  then have "?n * 2 + 1 < length l" by (simp only: mult.commute)
  then have "ikcp_ack_push kcp sn ts = Inr (kcp\<lparr>acklist := l[?n * 2 := sn, ?n * 2 + 1 := ts], ackblock := b,
      ackcount := ackcount kcp + 1\<rparr>)"
    by (simp add: ikcp_ack_push_def r ack_write_def Let_def)
  with acks_store [OF lt refl refl unat_Suc_small [OF assms(2)] l(2)] bl l(1) show ?thesis
    by (intro exI [of _ "l[?n * 2 := sn, ?n * 2 + 1 := ts]"] exI [of _ b]) (simp only: length_list_update simp_thms)
qed

lemma ikcp_ack_push_appends:
  assumes "ack_ok kcp" and "unat (ackcount kcp) < 2147483648"
  shows "\<exists>l b. ikcp_ack_push kcp sn ts = Inr (kcp\<lparr>acklist := l, ackblock := b, ackcount := ackcount kcp + 1\<rparr>) \<and>
    ack_ok (kcp\<lparr>acklist := l, ackblock := b, ackcount := ackcount kcp + 1\<rparr>) \<and>
    acks (kcp\<lparr>acklist := l, ackblock := b, ackcount := ackcount kcp + 1\<rparr>) = acks kcp @ [(sn, ts)]"
proof -
  obtain l b where p: "ikcp_ack_push kcp sn ts = Inr (kcp\<lparr>acklist := l, ackblock := b, ackcount := ackcount kcp + 1\<rparr>)"
    "Suc (unat (ackcount kcp)) \<le> unat b" "length l = 2 * unat b"
    "acks (kcp\<lparr>acklist := l, ackblock := b, ackcount := ackcount kcp + 1\<rparr>) = acks kcp @ [(sn, ts)]"
    using ikcp_ack_push_stores [OF assms] by blast
  then have "ack_ok (kcp\<lparr>acklist := l, ackblock := b, ackcount := ackcount kcp + 1\<rparr>)"
    by (simp add: ack_ok_def unat_Suc_small [OF assms(2)])
  with p show ?thesis by blast
qed

section \<open>Round-trip time: lemmas\<close>

lemma update_srtt_frame: "update_srtt kcp rtt = kcp\<lparr>rx_srtt := rx_srtt (update_srtt kcp rtt), rx_rttval := rx_rttval (update_srtt kcp rtt)\<rparr>"
  by (simp add: update_srtt_def Let_def)

lemma update_ack_frame:
  "\<exists>a b c. ikcp_update_ack kcp rtt = kcp\<lparr>rx_srtt := a, rx_rttval := b, rx_rto := ibound (rx_minrto kcp) c IKCP_RTO_MAX\<rparr>"
proof -
  obtain a b where k: "update_srtt kcp rtt = kcp\<lparr>rx_srtt := a, rx_rttval := b\<rparr>" using update_srtt_frame by blast
  have "ikcp_update_ack kcp rtt = kcp\<lparr>rx_srtt := a, rx_rttval := b,
      rx_rto := ibound (rx_minrto kcp) (a + imax (interval kcp) (4 * b)) IKCP_RTO_MAX\<rparr>"
    by (simp add: ikcp_update_ack_def k Let_def)
  then show ?thesis by blast
qed

text \<open>
  Samples below \<open>2^27\<close> ms keep all intermediate values inside 32 bits, so the fields are the
  integer averages the code means.
\<close>

definition rtt_bounded :: "int \<Rightarrow> ikcpcb \<Rightarrow> bool" where
  "rtt_bounded m kcp \<longleftrightarrow> 0 \<le> sint (rx_srtt kcp) \<and> sint (rx_srtt kcp) \<le> m \<and>
     0 \<le> sint (rx_rttval kcp) \<and> sint (rx_rttval kcp) \<le> m"

definition next_rttval :: "ikcpcb \<Rightarrow> int \<Rightarrow> int" where
  "next_rttval kcp rtt =
     (if sint (rx_srtt kcp) = 0 then rtt div 2
      else (3 * sint (rx_rttval kcp) + \<bar>rtt - sint (rx_srtt kcp)\<bar>) div 4)"

definition next_srtt :: "ikcpcb \<Rightarrow> int \<Rightarrow> int" where
  "next_srtt kcp rtt =
     (if sint (rx_srtt kcp) = 0 then rtt else max 1 ((7 * sint (rx_srtt kcp) + rtt) div 8))"

lemma sint_mul32:
  assumes "- 2147483648 \<le> c * sint (w :: u32)" and "c * sint w < 2147483648"
  shows "sint (word_of_int c * w) = c * sint w"
proof -
  have "word_of_int c * w = (word_of_int (c * sint w) :: u32)" by simp
  then show ?thesis using sint_of_int32 [OF assms] by simp
qed

lemma sint_add32:
  assumes "- 2147483648 \<le> sint (v :: u32) + sint w" and "sint v + sint w < 2147483648"
  shows "sint (v + w) = sint v + sint w"
proof -
  have "v + w = (word_of_int (sint v + sint w) :: u32)" by simp
  then show ?thesis using sint_of_int32 [OF assms] by simp
qed

lemma sint_sub32:
  assumes "- 2147483648 \<le> sint (v :: u32) - sint w" and "sint v - sint w < 2147483648"
  shows "sint (v - w) = sint v - sint w"
proof -
  have "v - w = (word_of_int (sint v - sint w) :: u32)" by simp
  then show ?thesis using sint_of_int32 [OF assms] by simp
qed

lemma sint_zero_iff: "sint (w :: u32) = 0 \<longleftrightarrow> w = 0"
  by (rule signed_eq_0_iff)

lemma update_srtt_values:
  assumes "rtt_bounded m kcp" and "1 \<le> m" and "m \<le> 134217728" and "0 \<le> rtt" and "rtt \<le> m"
  shows "sint (rx_srtt (update_srtt kcp rtt)) = next_srtt kcp rtt"
    and "sint (rx_rttval (update_srtt kcp rtt)) = next_rttval kcp rtt"
proof -
  have b: "0 \<le> sint (rx_srtt kcp)" "sint (rx_srtt kcp) \<le> m" "0 \<le> sint (rx_rttval kcp)" "sint (rx_rttval kcp) \<le> m"
    using assms(1) by (simp_all only: rtt_bounded_def)
  have r: "sint (word_of_int rtt :: u32) = rtt" using assms(3-5) by (intro sint_of_int32) linarith+
  have h: "sint (word_of_int (rtt div 2) :: u32) = rtt div 2" using assms(3-5) by (intro sint_of_int32) linarith+
  have d: "sint (word_of_int rtt - rx_srtt kcp) = rtt - sint (rx_srtt kcp)"
    using b assms(3-5) sint_sub32 [of "word_of_int rtt" "rx_srtt kcp"] by (simp only: r)
  have t3: "sint (3 * rx_rttval kcp) = 3 * sint (rx_rttval kcp)"
    using b assms(3) sint_mul32 [of 3 "rx_rttval kcp"] by simp
  have t7: "sint (7 * rx_srtt kcp) = 7 * sint (rx_srtt kcp)"
    using b assms(3) sint_mul32 [of 7 "rx_srtt kcp"] by simp
  have s7: "sint (7 * rx_srtt kcp + word_of_int rtt) = 7 * sint (rx_srtt kcp) + rtt"
    using b assms(3-5) sint_add32 [of "7 * rx_srtt kcp" "word_of_int rtt"] by (simp only: r t7)
  have v: "sint (word_of_int ((3 * sint (rx_rttval kcp) + \<bar>rtt - sint (rx_srtt kcp)\<bar>) div 4) :: u32) =
      (3 * sint (rx_rttval kcp) + \<bar>rtt - sint (rx_srtt kcp)\<bar>) div 4"
    using b assms(3-5) by (intro sint_of_int32) linarith+
  have w: "sint (word_of_int ((7 * sint (rx_srtt kcp) + rtt) div 8) :: u32) = (7 * sint (rx_srtt kcp) + rtt) div 8"
    using b assms(3-5) by (intro sint_of_int32) linarith+
  have ab: "(if x < 0 then - x else x) = \<bar>x\<bar>" for x :: int by simp
  have cd: "c_div rtt 2 = rtt div 2"
    "c_div (3 * sint (rx_rttval kcp) + \<bar>rtt - sint (rx_srtt kcp)\<bar>) 4 = (3 * sint (rx_rttval kcp) + \<bar>rtt - sint (rx_srtt kcp)\<bar>) div 4"
    "c_div (7 * sint (rx_srtt kcp) + rtt) 8 = (7 * sint (rx_srtt kcp) + rtt) div 8"
    using b assms(4) by (simp_all add: c_div_nonneg)
  show "sint (rx_srtt (update_srtt kcp rtt)) = next_srtt kcp rtt"
    unfolding update_srtt_def Let_def d ab t3 cd next_srtt_def sint_zero_iff
    by (simp add: s7 w r cd max_def)
  show "sint (rx_rttval (update_srtt kcp rtt)) = next_rttval kcp rtt"
    unfolding update_srtt_def Let_def d ab t3 cd next_rttval_def sint_zero_iff
    by (simp add: v h)
qed

lemma next_bounds:
  assumes "rtt_bounded m kcp" and "1 \<le> m" and "0 \<le> rtt" and "rtt \<le> m"
  shows "0 \<le> next_srtt kcp rtt" "next_srtt kcp rtt \<le> m" "0 \<le> next_rttval kcp rtt" "next_rttval kcp rtt \<le> m"
proof -
  have b: "0 \<le> sint (rx_srtt kcp)" "sint (rx_srtt kcp) \<le> m" "0 \<le> sint (rx_rttval kcp)" "sint (rx_rttval kcp) \<le> m"
    using assms(1) by (simp_all only: rtt_bounded_def)
  have "(7 * sint (rx_srtt kcp) + rtt) div 8 \<le> m" using b assms by linarith
  moreover have "0 \<le> (7 * sint (rx_srtt kcp) + rtt) div 8" using b assms by linarith
  ultimately show "0 \<le> next_srtt kcp rtt" "next_srtt kcp rtt \<le> m" using assms by (simp_all add: next_srtt_def max_def)
  have "\<bar>rtt - sint (rx_srtt kcp)\<bar> \<le> m" using b assms by linarith
  then have "(3 * sint (rx_rttval kcp) + \<bar>rtt - sint (rx_srtt kcp)\<bar>) div 4 \<le> m"
    "0 \<le> (3 * sint (rx_rttval kcp) + \<bar>rtt - sint (rx_srtt kcp)\<bar>) div 4"
    using b by linarith+
  moreover have "0 \<le> rtt div 2" "rtt div 2 \<le> m" using assms by linarith+
  ultimately show "0 \<le> next_rttval kcp rtt" "next_rttval kcp rtt \<le> m" by (simp_all add: next_rttval_def)
qed

lemma sint_uint_nonneg: "0 \<le> k \<Longrightarrow> sint (w :: u32) = k \<Longrightarrow> uint w = k"
  using sint_nonneg [of w] by simp

lemma uint_imin: "uint (imin a b) = min (uint a) (uint b)"
  by (simp add: imin_def min_def word_le_def)

lemma uint_imax: "uint (imax a b) = max (uint a) (uint b)"
  by (auto simp: imax_def max_def word_le_def)

lemma update_ack_rto:
  assumes "rtt_bounded m kcp" and "1 \<le> m" and "m \<le> 134217728" and "0 \<le> rtt" and "rtt \<le> m"
    and "uint (interval kcp) \<le> 5000"
  shows "uint (rx_rto (ikcp_update_ack kcp rtt)) =
    min (max (uint (rx_minrto kcp)) (next_srtt kcp rtt + max (uint (interval kcp)) (4 * next_rttval kcp rtt))) 60000"
proof -
  note b = next_bounds [OF assms(1,2,4,5)] and v = update_srtt_values [OF assms(1-5)]
  let ?k = "update_srtt kcp rtt"
  have k: "interval ?k = interval kcp" "rx_minrto ?k = rx_minrto kcp" by (subst update_srtt_frame, simp)+
  have s: "uint (rx_srtt ?k) = next_srtt kcp rtt" by (rule sint_uint_nonneg [OF b(1) v(1)])
  have "sint (4 * rx_rttval ?k) = 4 * next_rttval kcp rtt"
    using b(3,4) assms(3) sint_mul32 [of 4 "rx_rttval ?k"] by (simp add: v(2))
  then have r: "uint (4 * rx_rttval ?k) = 4 * next_rttval kcp rtt" using b(3) by (intro sint_uint_nonneg) linarith+
  let ?x = "max (uint (interval kcp)) (4 * next_rttval kcp rtt)"
  have x: "uint (imax (interval kcp) (4 * rx_rttval ?k)) = ?x" by (simp only: uint_imax r)
  have "?x \<le> 536870912" using b(4) assms(3,6) by linarith
  then have "next_srtt kcp rtt + ?x < 4294967296" using b(2) assms(3) by linarith
  then have "uint (rx_srtt ?k + imax (interval kcp) (4 * rx_rttval ?k)) = next_srtt kcp rtt + ?x"
    by (simp only: uint_add32 s x if_True)
  moreover have "rx_rto (ikcp_update_ack kcp rtt) =
      ibound (rx_minrto kcp) (rx_srtt ?k + imax (interval kcp) (4 * rx_rttval ?k)) IKCP_RTO_MAX"
    by (simp add: ikcp_update_ack_def Let_def k)
  moreover have "uint IKCP_RTO_MAX = 60000" by (simp add: IKCP_RTO_MAX_def)
  ultimately show ?thesis by (simp only: ibound_def uint_imin uint_imax)
qed

lemma update_ack_srtt:
  "rx_srtt (ikcp_update_ack kcp rtt) = rx_srtt (update_srtt kcp rtt)"
  "rx_rttval (ikcp_update_ack kcp rtt) = rx_rttval (update_srtt kcp rtt)"
  by (simp_all add: ikcp_update_ack_def Let_def)

section \<open>Correctness\<close>

text \<open>A sender with three segments in flight around the wrap of the serial numbers, the second of them
  not numbered consecutively with the first.\<close>

definition sample_segment :: "u32 \<Rightarrow> IKCPSEG" where
  "sample_segment sn = ikcp_segment_new\<lparr>seg_conv := 7, seg_cmd := IKCP_CMD_PUSH, seg_sn := sn, seg_len := 1, seg_data := [42]\<rparr>"

definition sample_sender :: ikcpcb where
  "sample_sender = (the (ikcp_create True True 7))
     \<lparr>snd_una := 4294967295, snd_nxt := 3, nsnd_buf := 3,
      snd_buf := [sample_segment 4294967295, sample_segment 1, sample_segment 2]\<rparr>"

lemma sample_sender_ok: "snd_ok sample_sender" "ack_ok sample_sender" "rtt_bounded 1000 sample_sender"
  by (simp_all add: sample_sender_def ikcp_create_def snd_ok_def snd_window_ok_def first_unacked_def ordered_def
    seg_off_def seg_ok_def sample_segment_def ikcp_segment_new_def ikcp_consts ack_ok_def rtt_bounded_def)

text \<open>C36: With round-trip samples and estimates of at most \<open>m \<le> 2^27\<close> ms no intermediate value leaves 32 bits: the
  new estimates are the integer averages (7/8 and 3/4 weights, the smoothed time at least 1), they stay
  within the bound, and the timeout is their combination clamped between the minimum and 60000 ms.\<close>

theorem ikcp_update_ack_correct:
  assumes "rtt_bounded m kcp" and "1 \<le> m" and "m \<le> 134217728" and "0 \<le> rtt" and "rtt \<le> m"
    and "uint (interval kcp) \<le> 5000"
  shows "sint (rx_srtt (ikcp_update_ack kcp rtt)) = next_srtt kcp rtt \<and>
    sint (rx_rttval (ikcp_update_ack kcp rtt)) = next_rttval kcp rtt \<and>
    rtt_bounded m (ikcp_update_ack kcp rtt) \<and>
    uint (rx_rto (ikcp_update_ack kcp rtt)) =
      min (max (uint (rx_minrto kcp)) (next_srtt kcp rtt + max (uint (interval kcp)) (4 * next_rttval kcp rtt))) 60000"
  using update_srtt_values [OF assms(1-5)] next_bounds [OF assms(1,2,4,5)] update_ack_rto [OF assms]
  by (simp only: update_ack_srtt rtt_bounded_def simp_thms)

theorem ikcp_update_ack_correct_witness:
  "sint (rx_srtt (ikcp_update_ack sample_sender 40)) = 40 \<and> uint (rx_rto (ikcp_update_ack sample_sender 40)) = 140"
proof -
  have "next_srtt sample_sender 40 = 40" "next_rttval sample_sender 40 = 20" "uint (interval sample_sender) = 100"
    "uint (rx_minrto sample_sender) = 100"
    by (simp_all add: next_srtt_def next_rttval_def sample_sender_def ikcp_create_def ikcp_consts)
  then show ?thesis using ikcp_update_ack_correct [OF sample_sender_ok(3), of 40] by simp
qed

text \<open>An acknowledgement of a single number removes from the send buffer exactly the segment with that number
  when it lies between \<open>snd_una\<close> and \<open>snd_nxt\<close>, and nothing otherwise; the counter follows.\<close>

theorem ikcp_parse_ack_correct:
  assumes "snd_ok kcp"
  shows "snd_buf (ikcp_parse_ack kcp sn) =
      (if itimediff sn (snd_una kcp) < 0 \<or> itimediff sn (snd_nxt kcp) \<ge> 0 then snd_buf kcp
       else filter (\<lambda>s. seg_sn s \<noteq> sn) (snd_buf kcp)) \<and>
    nsnd_buf (ikcp_parse_ack kcp sn) = of_nat (length (snd_buf (ikcp_parse_ack kcp sn))) \<and>
    snd_ok (ikcp_shrink_buf (ikcp_parse_ack kcp sn))"
proof -
  have w: "snd_window_ok kcp" using assms by (simp add: snd_ok_def)
  show ?thesis
    using snd_window_okD(1) [OF w] ikcp_shrink_buf_ok [OF ikcp_parse_ack_ok [OF w]]
    by (simp add: ikcp_parse_ack_eq [OF w])
qed

theorem ikcp_parse_ack_correct_witness:
  "map seg_sn (snd_buf (ikcp_parse_ack sample_sender 1)) = [4294967295, 2]"
  using ikcp_parse_ack_correct [OF sample_sender_ok(1), of 1]
  by (simp add: sample_sender_def sample_segment_def ikcp_segment_new_def itimediff_def ikcp_create_def)

text \<open>A cumulative acknowledgement at most half the range ahead of \<open>snd_una\<close> removes exactly the segments
  numbered below it, though the loop stops at the first that is not, and leaves a consistent send side.\<close>

theorem ikcp_parse_una_correct:
  assumes "snd_ok kcp" and "0 \<le> itimediff una (snd_una kcp)"
  shows "snd_buf (ikcp_parse_una kcp una) = filter (\<lambda>s. itimediff una (seg_sn s) \<le> 0) (snd_buf kcp) \<and>
    snd_ok (ikcp_shrink_buf (ikcp_parse_una kcp una))"
proof -
  have w: "snd_window_ok kcp" using assms(1) by (simp add: snd_ok_def)
  have u: "uint (una - snd_una kcp) < 2147483648" using assms(2) by (simp only: itimediff_nonneg_iff)
  have "uint (una - snd_una kcp) \<le> seg_off (snd_una kcp) s \<longleftrightarrow> itimediff una (seg_sn s) \<le> 0"
    if "s \<in> set (snd_buf kcp)" for s
    using itimediff_seg [OF u ordered_bound [OF snd_window_okD(3) [OF w] that]] by auto
  then have "filter (\<lambda>s. uint (una - snd_una kcp) \<le> seg_off (snd_una kcp) s) (snd_buf kcp) =
      filter (\<lambda>s. itimediff una (seg_sn s) \<le> 0) (snd_buf kcp)" by (rule filter_cong [OF refl])
  then have "snd_buf (ikcp_parse_una kcp una) = filter (\<lambda>s. itimediff una (seg_sn s) \<le> 0) (snd_buf kcp)"
    using parse_una_loop_filter [OF snd_window_okD(3) [OF w] u] by (simp add: ikcp_parse_una_eq)
  then show ?thesis using ikcp_shrink_buf_ok [OF ikcp_parse_una_ok [OF w]] by blast
qed

theorem ikcp_parse_una_correct_witness:
  "map seg_sn (snd_buf (ikcp_parse_una sample_sender 2)) = [2]"
proof -
  have "0 \<le> itimediff 2 (snd_una sample_sender)" by (simp add: sample_sender_def itimediff_def)
  from ikcp_parse_una_correct [OF sample_sender_ok(1) this] show ?thesis
    by (simp add: sample_sender_def sample_segment_def ikcp_segment_new_def itimediff_def ikcp_create_def)
qed

text \<open>\<open>ikcp_ack_push\<close> returns and does not write outside its array while fewer than \<open>2^31\<close> acknowledgements
  are pending, and \<open>ikcp_ack_get\<close> then reads back the earlier entries unchanged followed by the new pair,
  also across the growth of the array.\<close>

theorem ikcp_ack_push_correct:
  assumes "ack_ok kcp" and "unat (ackcount kcp) < 2147483648"
  shows "\<exists>kcp'. ikcp_ack_push kcp sn ts = Inr kcp' \<and> ack_ok kcp' \<and>
    map (ikcp_ack_get kcp') [0..<unat (ackcount kcp')] =
      map (ikcp_ack_get kcp) [0..<unat (ackcount kcp)] @ [(sn, ts)]"
  using ikcp_ack_push_appends [OF assms] unfolding acks_def by blast

theorem ikcp_ack_push_correct_witness:
  "\<exists>kcp'. ikcp_ack_push sample_sender 5 9 = Inr kcp' \<and>
    map (ikcp_ack_get kcp') [0..<unat (ackcount kcp')] = [(5, 9)]"
proof -
  have "ackcount sample_sender = 0" by (simp add: sample_sender_def ikcp_create_def)
  then show ?thesis using ikcp_ack_push_correct [OF sample_sender_ok(2), of 5 9] by auto
qed

text \<open>The fast-acknowledgement pass adds one to the counter of exactly the segments numbered before the highest
  acknowledged number, when that lies in flight, and changes nothing else.\<close>

theorem ikcp_parse_fastack_correct:
  assumes "snd_ok kcp"
  shows "snd_buf (ikcp_parse_fastack kcp sn ts) =
      (if itimediff sn (snd_una kcp) < 0 \<or> itimediff sn (snd_nxt kcp) \<ge> 0 then snd_buf kcp
       else map (\<lambda>s. if itimediff (seg_sn s) sn < 0 then s\<lparr>seg_fastack := seg_fastack s + 1\<rparr> else s) (snd_buf kcp)) \<and>
    snd_ok (ikcp_parse_fastack kcp sn ts)"
proof -
  have w: "snd_window_ok kcp" using assms by (simp add: snd_ok_def)
  have "bump_fastack (snd_una kcp) sn s = (if itimediff (seg_sn s) sn < 0 then s\<lparr>seg_fastack := seg_fastack s + 1\<rparr> else s)"
    if "0 \<le> itimediff sn (snd_una kcp)" and "s \<in> set (snd_buf kcp)" for s
  proof -
    have "uint (sn - snd_una kcp) < 2147483648" using that(1) by (simp only: itimediff_nonneg_iff)
    moreover have "seg_off (snd_una kcp) s < 2147483648" by (rule ordered_bound [OF snd_window_okD(3) [OF w] that(2)])
    ultimately have "itimediff (seg_sn s) sn = seg_off (snd_una kcp) s - uint (sn - snd_una kcp)"
      by (simp add: seg_off_def itimediff_base)
    then show ?thesis by (simp add: bump_fastack_def)
  qed
  then show ?thesis using ikcp_parse_fastack_ok [OF assms, of sn ts] by (simp add: ikcp_parse_fastack_eq [OF w])
qed

theorem ikcp_parse_fastack_correct_witness:
  "map seg_fastack (snd_buf (ikcp_parse_fastack sample_sender 2 0)) = [1, 1, 0]"
  using ikcp_parse_fastack_correct [OF sample_sender_ok(1), of 2 0]
  by (simp add: sample_sender_def sample_segment_def ikcp_segment_new_def itimediff_def ikcp_create_def)

end
