(* ===== verification/Kcp_Config.thy ===== *)
theory Kcp_Config
  imports Kcp_Recv Kcp_Ack
begin

text \<open>
  The invariant of a control block, in four parts (\<open>cfg_ok\<close>, \<open>rcv_ok\<close>, \<open>snd_ok\<close>,
  \<open>ack_ok\<close>): a fresh block satisfies it, and the configuration calls keep it.
\<close>

section \<open>The invariant\<close>

text \<open>
  The configuration: a datagram of \<open>mtu\<close> bytes fits the output block, the clock and the
  retransmission timeout are within their bounds.
\<close>

definition cfg_ok :: "ikcpcb \<Rightarrow> bool" where
  "cfg_ok kcp \<longleftrightarrow>
     50 \<le> uint (mtu kcp) \<and> uint (mtu kcp) < 2147483648 \<and>
     mss kcp = mtu kcp - IKCP_OVERHEAD \<and>
     uint (mtu kcp) \<le> uint (buffer kcp) \<and>
     10 \<le> uint (interval kcp) \<and> uint (interval kcp) \<le> 5000 \<and>
     30 \<le> uint (rx_minrto kcp) \<and> uint (rx_minrto kcp) \<le> 100 \<and>
     30 \<le> uint (rx_rto kcp) \<and> uint (rx_rto kcp) \<le> 60000"

definition kcp_ok :: "ikcpcb \<Rightarrow> bool" where
  "kcp_ok kcp \<longleftrightarrow> cfg_ok kcp \<and> rcv_ok kcp \<and> snd_ok kcp \<and> ack_ok kcp"

lemma kcp_okD:
  assumes "kcp_ok kcp"
  shows "cfg_ok kcp" "rcv_ok kcp" "snd_ok kcp" "ack_ok kcp"
  using assms by (simp_all add: kcp_ok_def)

lemma snd_okD: "snd_ok kcp \<Longrightarrow> snd_window_ok kcp" "snd_ok kcp \<Longrightarrow> snd_una kcp = first_unacked kcp"
  by (simp_all add: snd_ok_def)

lemma cfg_mss:
  assumes "cfg_ok kcp"
  shows "uint (mss kcp) = uint (mtu kcp) - 24" and "sint (mss kcp) = uint (mtu kcp) - 24"
proof -
  show u: "uint (mss kcp) = uint (mtu kcp) - 24"
    using assms by (simp add: cfg_ok_def IKCP_OVERHEAD_def uint_diff32)
  show "sint (mss kcp) = uint (mtu kcp) - 24"
    using assms by (simp add: sint32_eq u) (simp add: cfg_ok_def)
qed

lemma cfg_mtu: "cfg_ok kcp \<Longrightarrow> sint (mtu kcp) = uint (mtu kcp)"
  by (simp add: cfg_ok_def sint32_eq)

text \<open>The fields each part of the invariant reads.\<close>

lemma cfg_ok_cong:
  "mtu k = mtu k' \<Longrightarrow> mss k = mss k' \<Longrightarrow> buffer k = buffer k' \<Longrightarrow> interval k = interval k' \<Longrightarrow>
    rx_minrto k = rx_minrto k' \<Longrightarrow> rx_rto k = rx_rto k' \<Longrightarrow> cfg_ok k = cfg_ok k'"
  by (simp add: cfg_ok_def)

lemma rcv_ok_cong:
  "rcv_queue k = rcv_queue k' \<Longrightarrow> rcv_buf k = rcv_buf k' \<Longrightarrow> nrcv_que k = nrcv_que k' \<Longrightarrow>
    nrcv_buf k = nrcv_buf k' \<Longrightarrow> rcv_wnd k = rcv_wnd k' \<Longrightarrow> rcv_nxt k = rcv_nxt k' \<Longrightarrow> rcv_ok k = rcv_ok k'"
  by (simp add: rcv_ok_def)

lemma snd_window_ok_cong:
  "snd_queue k = snd_queue k' \<Longrightarrow> snd_buf k = snd_buf k' \<Longrightarrow> nsnd_que k = nsnd_que k' \<Longrightarrow>
    nsnd_buf k = nsnd_buf k' \<Longrightarrow> mss k = mss k' \<Longrightarrow> conv k = conv k' \<Longrightarrow> snd_una k = snd_una k' \<Longrightarrow>
    snd_nxt k = snd_nxt k' \<Longrightarrow> rmt_wnd k = rmt_wnd k' \<Longrightarrow> snd_window_ok k = snd_window_ok k'"
  by (simp add: snd_window_ok_def)

lemma first_unacked_cong: "snd_buf k = snd_buf k' \<Longrightarrow> snd_nxt k = snd_nxt k' \<Longrightarrow> first_unacked k = first_unacked k'"
  by (simp add: first_unacked_def split: list.splits)

lemma snd_ok_cong:
  assumes "snd_queue k = snd_queue k'" "snd_buf k = snd_buf k'" "nsnd_que k = nsnd_que k'"
    "nsnd_buf k = nsnd_buf k'" "mss k = mss k'" "conv k = conv k'" "snd_una k = snd_una k'"
    "snd_nxt k = snd_nxt k'" "rmt_wnd k = rmt_wnd k'"
  shows "snd_ok k = snd_ok k'"
  unfolding snd_ok_def snd_window_ok_cong [OF assms] first_unacked_cong [OF assms(2,8)] assms(7) by (rule refl)

lemma ack_ok_cong:
  "ackcount k = ackcount k' \<Longrightarrow> ackblock k = ackblock k' \<Longrightarrow> acklist k = acklist k' \<Longrightarrow> ack_ok k = ack_ok k'"
  by (simp add: ack_ok_def)

lemmas ok_cong = cfg_ok_cong rcv_ok_cong snd_ok_cong ack_ok_cong

section \<open>A fresh block\<close>

lemma ikcp_create_cases:
  "ikcp_create a b cv = None \<longleftrightarrow> \<not> (a \<and> b)"
  by (simp add: ikcp_create_def)

lemma ikcp_create_kcp_ok:
  assumes "ikcp_create a b cv = Some kcp"
  shows "kcp_ok kcp"
proof -
  have "cfg_ok kcp" "rcv_ok kcp" "snd_ok kcp" "ack_ok kcp"
    using assms
    by (auto simp: ikcp_create_def cfg_ok_def rcv_ok_def snd_ok_def snd_window_ok_def first_unacked_def
      ack_ok_def ikcp_consts split: if_splits)
  then show ?thesis by (simp add: kcp_ok_def)
qed

section \<open>Configuration calls\<close>

lemma uint_add_mul3:
  "0 \<le> m \<Longrightarrow> m \<le> 1431655741 \<Longrightarrow> uint ((word_of_int m + 24) * 3 :: u32) = (m + 24) * 3"
proof -
  assume m: "0 \<le> m" "m \<le> 1431655741"
  have "(word_of_int m + 24) * 3 = (word_of_int ((m + 24) * 3) :: u32)" by simp
  then show ?thesis using m by (simp only: uint_of_int32) (rule uint_of_int32, auto)
qed

lemma setmtu_cfg_ok:
  assumes "cfg_ok kcp" and "m \<le> 1431655741" and "ikcp_setmtu a kcp m = (r, kcp')"
  shows "cfg_ok kcp'"
proof (cases "r = 0")
  case True
  then have m: "50 \<le> m" and k: "kcp' = kcp\<lparr>mtu := word_of_int m, mss := word_of_int m - IKCP_OVERHEAD,
      buffer := (word_of_int m + IKCP_OVERHEAD) * 3\<rparr>"
    using assms(3) by (auto simp: ikcp_setmtu_def split: if_splits)
  have "uint (word_of_int m :: u32) = m" using m assms(2) by (intro uint_of_int32) auto
  moreover have "uint ((word_of_int m + IKCP_OVERHEAD) * 3) = (m + 24) * 3"
    using m assms(2) by (simp only: IKCP_OVERHEAD_def) (intro uint_add_mul3, auto)
  ultimately show ?thesis using assms(1,2) m by (simp add: cfg_ok_def k)
next
  case False
  then show ?thesis using assms(1,3) by (auto simp: ikcp_setmtu_def split: if_splits)
qed

lemma setmtu_snd_ok:
  assumes "snd_ok kcp" and "50 \<le> m" and "m < 2147483648"
    and "\<forall>s\<in>set (snd_queue kcp @ snd_buf kcp). uint (seg_len s) \<le> m - 24"
    and "ikcp_setmtu a kcp m = (r, kcp')"
  shows "snd_ok kcp'"
proof (cases "r = 0")
  case True
  then have k: "kcp' = kcp\<lparr>mtu := word_of_int m, mss := word_of_int m - IKCP_OVERHEAD,
      buffer := (word_of_int m + IKCP_OVERHEAD) * 3\<rparr>"
    using assms(5) by (auto simp: ikcp_setmtu_def split: if_splits)
  have "uint (word_of_int m :: u32) = m" using assms(2,3) by (intro uint_of_int32) auto
  then have "uint (word_of_int m - IKCP_OVERHEAD :: u32) = m - 24"
    using assms(2) by (simp add: IKCP_OVERHEAD_def uint_diff32)
  then have "\<forall>s\<in>set (snd_queue kcp @ snd_buf kcp). seg_len s \<le> word_of_int m - IKCP_OVERHEAD"
    using assms(4) by (simp add: word_le_def)
  then have "snd_window_ok kcp'" using snd_okD(1) [OF assms(1)] by (simp add: snd_window_ok_def k)
  moreover have "first_unacked kcp' = first_unacked kcp" by (rule first_unacked_cong) (simp_all add: k)
  moreover have "snd_una kcp' = snd_una kcp" by (simp add: k)
  ultimately show ?thesis using snd_okD(2) [OF assms(1)] by (simp add: snd_ok_def)
next
  case False
  then show ?thesis using assms(1,5) by (auto simp: ikcp_setmtu_def split: if_splits)
qed

lemma setmtu_kcp_ok:
  assumes "kcp_ok kcp" and "m \<le> 1431655741"
    and "\<forall>s\<in>set (snd_queue kcp @ snd_buf kcp). uint (seg_len s) \<le> m - 24"
    and "ikcp_setmtu a kcp m = (r, kcp')"
  shows "kcp_ok kcp'"
proof (cases "50 \<le> m")
  case True
  have "cfg_ok kcp'" by (rule setmtu_cfg_ok [OF kcp_okD(1) [OF assms(1)] assms(2,4)])
  moreover have "snd_ok kcp'"
    using True assms(2) by (intro setmtu_snd_ok [OF kcp_okD(3) [OF assms(1)] _ _ assms(3,4)]) auto
  moreover have "rcv_ok kcp' = rcv_ok kcp"
    by (rule rcv_ok_cong) (use assms(4) in \<open>auto simp: ikcp_setmtu_def split: if_splits\<close>)
  moreover have "ack_ok kcp' = ack_ok kcp"
    by (rule ack_ok_cong) (use assms(4) in \<open>auto simp: ikcp_setmtu_def split: if_splits\<close>)
  ultimately show ?thesis using assms(1) by (simp add: kcp_ok_def)
next
  case False
  then show ?thesis using assms(1,4) by (simp add: ikcp_setmtu_def)
qed

lemma clamp_interval_range: "10 \<le> clamp_interval i \<and> clamp_interval i \<le> 5000"
  by (simp add: clamp_interval_def)

lemma uint_clamp: "uint (word_of_int (clamp_interval i) :: u32) = clamp_interval i"
  using clamp_interval_range [of i] by (intro uint_of_int32) auto

lemma ikcp_interval_ok: "kcp_ok kcp \<Longrightarrow> kcp_ok (snd (ikcp_interval kcp i))"
proof -
  assume ok: "kcp_ok kcp"
  let ?k = "snd (ikcp_interval kcp i)"
  have "cfg_ok ?k"
    using kcp_okD(1) [OF ok] clamp_interval_range [of i] by (simp add: ikcp_interval_def cfg_ok_def uint_clamp)
  moreover have "rcv_ok ?k = rcv_ok kcp" by (rule rcv_ok_cong) (simp_all add: ikcp_interval_def)
  moreover have "snd_ok ?k = snd_ok kcp" by (rule snd_ok_cong) (simp_all add: ikcp_interval_def)
  moreover have "ack_ok ?k = ack_ok kcp" by (rule ack_ok_cong) (simp_all add: ikcp_interval_def)
  ultimately show ?thesis using ok by (simp add: kcp_ok_def)
qed

lemma if_update:
  "(if c then k\<lparr>nodelay := x, rx_minrto := y\<rparr> else k) =
    k\<lparr>nodelay := (if c then x else nodelay k), rx_minrto := (if c then y else rx_minrto k)\<rparr>"
  "(if c then k\<lparr>interval := x\<rparr> else k) = k\<lparr>interval := (if c then x else interval k)\<rparr>"
  "(if c then k\<lparr>fastresend := x\<rparr> else k) = k\<lparr>fastresend := (if c then x else fastresend k)\<rparr>"
  "(if c then k\<lparr>nocwnd := x\<rparr> else k) = k\<lparr>nocwnd := (if c then x else nocwnd k)\<rparr>"
  by simp_all

lemma ikcp_nodelay_fields:
  "ikcp_nodelay kcp nd i resend nc =
    (0, kcp\<lparr>nodelay := (if nd \<ge> 0 then word_of_int nd else nodelay kcp),
      rx_minrto := (if nd \<ge> 0 then if nd \<noteq> 0 then IKCP_RTO_NDL else IKCP_RTO_MIN else rx_minrto kcp),
      interval := (if i \<ge> 0 then word_of_int (clamp_interval i) else interval kcp),
      fastresend := (if resend \<ge> 0 then word_of_int resend else fastresend kcp),
      nocwnd := (if nc \<ge> 0 then word_of_int nc else nocwnd kcp)\<rparr>)"
  unfolding ikcp_nodelay_def Let_def if_update by simp

lemma ikcp_nodelay_ok: "kcp_ok kcp \<Longrightarrow> kcp_ok (snd (ikcp_nodelay kcp nd i resend nc))"
proof -
  assume ok: "kcp_ok kcp"
  define nd' mr iv fr nc' where f: "nd' = (if nd \<ge> 0 then word_of_int nd else nodelay kcp)"
    "mr = (if nd \<ge> 0 then if nd \<noteq> 0 then IKCP_RTO_NDL else IKCP_RTO_MIN else rx_minrto kcp)"
    "iv = (if i \<ge> 0 then word_of_int (clamp_interval i) else interval kcp)"
    "fr = (if resend \<ge> 0 then word_of_int resend else fastresend kcp)"
    "nc' = (if nc \<ge> 0 then word_of_int nc else nocwnd kcp)"
  let ?k = "kcp\<lparr>nodelay := nd', rx_minrto := mr, interval := iv, fastresend := fr, nocwnd := nc'\<rparr>"
  have k: "ikcp_nodelay kcp nd i resend nc = (0, ?k)" unfolding ikcp_nodelay_fields f by (rule refl)
  have "30 \<le> uint mr \<and> uint mr \<le> 100" "10 \<le> uint iv \<and> uint iv \<le> 5000"
    using kcp_okD(1) [OF ok] clamp_interval_range [of i]
    by (auto simp: cfg_ok_def ikcp_consts uint_clamp f(2,3))
  then have "cfg_ok ?k" using kcp_okD(1) [OF ok] by (simp add: cfg_ok_def)
  moreover have "rcv_ok ?k = rcv_ok kcp" by (rule rcv_ok_cong) simp_all
  moreover have "snd_ok ?k = snd_ok kcp" by (rule snd_ok_cong) simp_all
  moreover have "ack_ok ?k = ack_ok kcp" by (rule ack_ok_cong) simp_all
  ultimately show ?thesis using ok by (simp add: kcp_ok_def k)
qed

lemma ikcp_wndsize_ok:
  assumes "kcp_ok kcp" and "rcvwnd < 2147483648"
  shows "kcp_ok (snd (ikcp_wndsize kcp sndwnd rcvwnd))"
proof -
  let ?k = "snd (ikcp_wndsize kcp sndwnd rcvwnd)"
  have "unat (rcv_wnd ?k) < 2147483648"
    using rcv_okD(4) [OF kcp_okD(2) [OF assms(1)]] assms(2)
    by (simp add: ikcp_wndsize_def Let_def unat_imax unat_of_int32 IKCP_WND_RCV_def nat_less_iff)
  then have "rcv_ok ?k" using kcp_okD(2) [OF assms(1)] by (simp add: ikcp_wndsize_def rcv_ok_def Let_def)
  moreover have "cfg_ok ?k = cfg_ok kcp" by (rule cfg_ok_cong) (simp_all add: ikcp_wndsize_def Let_def)
  moreover have "snd_ok ?k = snd_ok kcp" by (rule snd_ok_cong) (simp_all add: ikcp_wndsize_def Let_def)
  moreover have "ack_ok ?k = ack_ok kcp" by (rule ack_ok_cong) (simp_all add: ikcp_wndsize_def Let_def)
  ultimately show ?thesis using assms(1) by (simp add: kcp_ok_def)
qed

section \<open>Correctness\<close>

text \<open>A created block with a callback, for the concrete instances of the theorems.\<close>

definition fresh :: "u32 \<Rightarrow> ikcpcb" where
  "fresh cv = ikcp_setoutput (the (ikcp_create True True cv))"

lemma fresh_ok: "kcp_ok (fresh cv)"
proof -
  obtain k where k: "ikcp_create True True cv = Some k" by (auto simp: ikcp_create_def)
  have "cfg_ok (k\<lparr>output_cb := True\<rparr>) = cfg_ok k" by (rule cfg_ok_cong) simp_all
  moreover have "rcv_ok (k\<lparr>output_cb := True\<rparr>) = rcv_ok k" by (rule rcv_ok_cong) simp_all
  moreover have "snd_ok (k\<lparr>output_cb := True\<rparr>) = snd_ok k" by (rule snd_ok_cong) simp_all
  moreover have "ack_ok (k\<lparr>output_cb := True\<rparr>) = ack_ok k" by (rule ack_ok_cong) simp_all
  ultimately show ?thesis using ikcp_create_kcp_ok [OF k] by (simp add: fresh_def ikcp_setoutput_def k kcp_ok_def)
qed

lemma fresh_eq:
  "fresh cv = \<lparr>conv = cv, mtu = 1400, mss = 1376, state = 0, snd_una = 0, snd_nxt = 0, rcv_nxt = 0,
     ts_recent = 0, ts_lastack = 0, ssthresh = 2, rx_rttval = 0, rx_srtt = 0, rx_rto = 200, rx_minrto = 100,
     snd_wnd = 32, rcv_wnd = 128, rmt_wnd = 128, cwnd = 0, probe = 0, current = 0, interval = 100,
     ts_flush = 100, xmit = 0, nrcv_buf = 0, nsnd_buf = 0, nrcv_que = 0, nsnd_que = 0, nodelay = 0,
     updated = 0, ts_probe = 0, probe_wait = 0, dead_link = 20, incr = 0, snd_queue = [], rcv_queue = [],
     snd_buf = [], rcv_buf = [], acklist = [], ackcount = 0, ackblock = 0, buffer = 4272, fastresend = 0,
     fastlimit = 5, nocwnd = 0, stream = 0, output_cb = True\<rparr>"
  by (simp add: fresh_def ikcp_create_def ikcp_setoutput_def ikcp_consts)

text \<open>\<open>ikcp_create\<close> returns NULL exactly when one of its two allocations fails; otherwise the new block satisfies
  the whole invariant (configuration in range, both queues of each side and their counters consistent,
  room for the acknowledgements) and carries the conversation number.\<close>

theorem ikcp_create_correct:
  "case ikcp_create malloc_kcp malloc_buffer cv of
     None \<Rightarrow> \<not> (malloc_kcp \<and> malloc_buffer)
   | Some kcp \<Rightarrow> malloc_kcp \<and> malloc_buffer \<and> kcp_ok kcp \<and> conv kcp = cv"
proof (cases "ikcp_create malloc_kcp malloc_buffer cv")
  case None
  then show ?thesis by (simp add: ikcp_create_def split: if_splits)
next
  case (Some kcp)
  then have "malloc_kcp \<and> malloc_buffer \<and> conv kcp = cv" by (auto simp: ikcp_create_def split: if_splits)
  with Some ikcp_create_kcp_ok [OF Some] show ?thesis by simp
qed

text \<open>The configuration calls \<open>ikcp_interval\<close>, \<open>ikcp_nodelay\<close> and \<open>ikcp_wndsize\<close> return 0 and keep the
  invariant whatever their arguments; the interval stays between 10 and 5000 ms, the receive window never
  falls below 128 when it is set.\<close>

theorem config_calls_safe:
  assumes "kcp_ok kcp" and "rcvwnd < 2147483648"
  shows "kcp_ok (snd (ikcp_interval kcp i)) \<and> kcp_ok (snd (ikcp_nodelay kcp nd i resend nc)) \<and>
    kcp_ok (snd (ikcp_wndsize kcp sndwnd rcvwnd)) \<and>
    (\<exists>iv. interval (snd (ikcp_interval kcp i)) = word_of_int iv \<and> 10 \<le> iv \<and> iv \<le> 5000) \<and>
    (0 < rcvwnd \<longrightarrow> 128 \<le> rcv_wnd (snd (ikcp_wndsize kcp sndwnd rcvwnd)))"
proof -
  have "128 \<le> rcv_wnd (snd (ikcp_wndsize kcp sndwnd rcvwnd))" if "0 < rcvwnd"
    using that by (simp add: ikcp_wndsize_def Let_def imax_eq_max IKCP_WND_RCV_def)
  moreover have "\<exists>iv. interval (snd (ikcp_interval kcp i)) = word_of_int iv \<and> 10 \<le> iv \<and> iv \<le> 5000"
    using clamp_interval_range [of i] by (auto simp: ikcp_interval_def)
  ultimately show ?thesis
    using ikcp_interval_ok [OF assms(1)] ikcp_nodelay_ok [OF assms(1)] ikcp_wndsize_ok [OF assms] by blast
qed

theorem config_calls_safe_witness:
  "kcp_ok (snd (ikcp_nodelay (fresh 7) 1 0 2 1)) \<and> 128 \<le> rcv_wnd (snd (ikcp_wndsize (fresh 7) 0 20))"
  using config_calls_safe [OF fresh_ok, of 20 7 0 1 2 1 0] by simp

text \<open>\<open>ikcp_setmtu\<close> rejects an MTU below 50 and reports a failed allocation without changing the block; an MTU
  of at most 1431655741 keeps the invariant, so a datagram fits the output block, provided no queued
  segment is longer than the new segment size.\<close>

theorem ikcp_setmtu_correct:
  assumes "kcp_ok kcp" and "m \<le> 1431655741"
    and "\<forall>s\<in>set (snd_queue kcp @ snd_buf kcp). uint (seg_len s) \<le> m - 24"
  shows "(m < 50 \<longrightarrow> ikcp_setmtu a kcp m = (-1, kcp)) \<and> (50 \<le> m \<and> \<not> a \<longrightarrow> ikcp_setmtu a kcp m = (-2, kcp)) \<and>
    (50 \<le> m \<and> a \<longrightarrow> fst (ikcp_setmtu a kcp m) = 0 \<and> uint (mtu (snd (ikcp_setmtu a kcp m))) = m) \<and>
    kcp_ok (snd (ikcp_setmtu a kcp m))"
proof -
  obtain r k where r: "ikcp_setmtu a kcp m = (r, k)" by (cases "ikcp_setmtu a kcp m")
  have "uint (word_of_int m :: u32) = m" if "50 \<le> m" using that assms(2) by (intro uint_of_int32) auto
  then show ?thesis using setmtu_kcp_ok [OF assms r] r by (auto simp: ikcp_setmtu_def IKCP_OVERHEAD_def)
qed

theorem ikcp_setmtu_correct_witness:
  "kcp_ok (snd (ikcp_setmtu True (fresh 7) 512)) \<and> ikcp_setmtu True (fresh 7) 49 = (-1, fresh 7)"
proof -
  have q: "snd_queue (fresh 7) @ snd_buf (fresh 7) = []" by (simp add: fresh_eq)
  show ?thesis
    using ikcp_setmtu_correct [OF fresh_ok, of 512 7 True] ikcp_setmtu_correct [OF fresh_ok, of 49 7 True] by (simp add: q)
qed

text \<open>The block that \<open>ikcp_setmtu\<close> allocates for an MTU between 1431655742 and 2147483611 is smaller than one
  datagram: the size \<open>(mtu + 24) * 3\<close> wraps around at \<open>2^32\<close> and the call still reports success.\<close>

theorem ikcp_setmtu_wraps:
  assumes "1431655741 < m" and "m < 2147483612"
  shows "fst (ikcp_setmtu True kcp m) = 0 \<and>
    uint (buffer (snd (ikcp_setmtu True kcp m))) < uint (mtu (snd (ikcp_setmtu True kcp m)))"
proof -
  have w: "uint (word_of_int m :: u32) = m" using assms by (intro uint_of_int32) auto
  have "(word_of_int m + 24) * 3 = (word_of_int ((m + 24) * 3 - 4294967296) :: u32)" by simp
  moreover have "uint (word_of_int ((m + 24) * 3 - 4294967296) :: u32) = (m + 24) * 3 - 4294967296"
    using assms by (intro uint_of_int32) auto
  ultimately have "uint ((word_of_int m + 24) * 3 :: u32) = (m + 24) * 3 - 4294967296" by (simp only:)
  then show ?thesis using assms w by (simp add: ikcp_setmtu_def IKCP_OVERHEAD_def)
qed

theorem ikcp_setmtu_wraps_witness:
  "uint (buffer (snd (ikcp_setmtu True (fresh 7) 1431655742))) < uint (mtu (snd (ikcp_setmtu True (fresh 7) 1431655742)))"
  using ikcp_setmtu_wraps [of 1431655742 "fresh 7"] by simp

end
