(* ===== verification/Kcp_Flush.thy ===== *)
theory Kcp_Flush
  imports Kcp_Config
begin

text \<open>
  \<open>ikcp_flush\<close>: acknowledgements, window probes and data segments are packed into datagrams of at
  most \<open>mtu\<close> bytes and handed to the output callback; then the congestion window is
  adjusted.

  The emission state is the list of datagrams handed out so far and the bytes from \<open>buffer\<close>
  to \<open>ptr\<close>. A store behind the end of the output block is a fault. What the callback
  returns is ignored by \<open>ikcp_flush\<close>, and it is taken not to call back into the control block
  (\<open>Kcp::KcpOutput\<close> does not).
\<close>

type_synonym emission = "byte list list \<times> byte list"

section \<open>The output buffer\<close>

definition ikcp_output :: "ikcpcb \<Rightarrow> byte list \<Rightarrow> byte list list \<Rightarrow> byte list list result" where
  "ikcp_output kcp data out =
     (if \<not> output_cb kcp then Inl Assertion_failed
      else if data = [] then Inr out
      else Inr (out @ [data]))"

definition buffer_put :: "ikcpcb \<Rightarrow> byte list \<Rightarrow> byte list \<Rightarrow> byte list result" where
  "buffer_put kcp buf bs =
     (if length buf + length bs \<le> unat (buffer kcp) then Inr (buf @ bs) else Inl Buffer_overflow)"

text \<open>The test before every segment: hand out the buffer if \<open>need\<close> more bytes pass the MTU.\<close>

definition flush_reserve :: "ikcpcb \<Rightarrow> int \<Rightarrow> emission \<Rightarrow> emission result" where
  "flush_reserve kcp need eb =
     (let (out, buf) = eb; size = int (length buf) in
      if size + need > sint (mtu kcp)
      then bind (ikcp_output kcp buf out) (\<lambda>out. Inr (out, []))
      else Inr (out, buf))"

definition flush_encode :: "ikcpcb \<Rightarrow> IKCPSEG \<Rightarrow> emission \<Rightarrow> emission result" where
  "flush_encode kcp seg eb =
     (let (out, buf) = eb in
      bind (buffer_put kcp buf (ikcp_encode_seg seg)) (\<lambda>buf. Inr (out, buf)))"

section \<open>Acknowledgements and probes\<close>

definition ikcp_wnd_unused :: "ikcpcb \<Rightarrow> u32" where
  "ikcp_wnd_unused kcp = (if nrcv_que kcp < rcv_wnd kcp then rcv_wnd kcp - nrcv_que kcp else 0)"

definition flush_template :: "ikcpcb \<Rightarrow> IKCPSEG" where
  "flush_template kcp = ikcp_segment_new
     \<lparr>seg_conv := conv kcp, seg_cmd := IKCP_CMD_ACK, seg_frg := 0, seg_wnd := ikcp_wnd_unused kcp,
      seg_una := rcv_nxt kcp, seg_len := 0, seg_sn := 0, seg_ts := 0\<rparr>"

fun flush_acks :: "nat list \<Rightarrow> ikcpcb \<Rightarrow> IKCPSEG \<Rightarrow> emission \<Rightarrow> (IKCPSEG \<times> emission) result" where
  "flush_acks [] kcp seg eb = Inr (seg, eb)"
| "flush_acks (i # is) kcp seg eb =
     bind (flush_reserve kcp (sint IKCP_OVERHEAD) eb) (\<lambda>eb.
       let (sn, ts) = ikcp_ack_get kcp i;
           seg = seg\<lparr>seg_sn := sn, seg_ts := ts\<rparr>
       in bind (flush_encode kcp seg eb) (\<lambda>eb. flush_acks is kcp seg eb))"

definition flush_probe_timer :: "ikcpcb \<Rightarrow> ikcpcb" where
  "flush_probe_timer kcp =
     (if rmt_wnd kcp = 0
      then if probe_wait kcp = 0
           then kcp\<lparr>probe_wait := IKCP_PROBE_INIT, ts_probe := current kcp + IKCP_PROBE_INIT\<rparr>
           else if itimediff (current kcp) (ts_probe kcp) \<ge> 0
           then let w = (if probe_wait kcp < IKCP_PROBE_INIT then IKCP_PROBE_INIT else probe_wait kcp);
                    w = w + w div 2;
                    w = (if w > IKCP_PROBE_LIMIT then IKCP_PROBE_LIMIT else w)
                in kcp\<lparr>probe_wait := w, ts_probe := current kcp + w,
                       probe := probe kcp OR IKCP_ASK_SEND\<rparr>
           else kcp
      else kcp\<lparr>ts_probe := 0, probe_wait := 0\<rparr>)"

definition flush_probe :: "ikcpcb \<Rightarrow> u32 \<Rightarrow> u32 \<Rightarrow> IKCPSEG \<Rightarrow> emission \<Rightarrow> (IKCPSEG \<times> emission) result" where
  "flush_probe kcp ask cmd seg eb =
     (if probe kcp AND ask \<noteq> 0
      then let seg = seg\<lparr>seg_cmd := cmd\<rparr> in
           bind (flush_reserve kcp (sint IKCP_OVERHEAD) eb) (\<lambda>eb.
           bind (flush_encode kcp seg eb) (\<lambda>eb. Inr (seg, eb)))
      else Inr (seg, eb))"

section \<open>Moving segments into the send buffer\<close>

definition flush_window :: "ikcpcb \<Rightarrow> u32" where
  "flush_window kcp =
     (let w = imin (snd_wnd kcp) (rmt_wnd kcp)
      in if nocwnd kcp = 0 then imin (cwnd kcp) w else w)"

definition number_segment :: "ikcpcb \<Rightarrow> u32 \<Rightarrow> IKCPSEG \<Rightarrow> IKCPSEG" where
  "number_segment kcp wnd seg = seg
     \<lparr>seg_conv := conv kcp, seg_cmd := IKCP_CMD_PUSH, seg_wnd := wnd, seg_ts := current kcp,
      seg_sn := snd_nxt kcp, seg_una := rcv_nxt kcp, seg_resendts := current kcp,
      seg_rto := rx_rto kcp, seg_fastack := 0, seg_xmit := 0\<rparr>"

function flush_move :: "u32 \<Rightarrow> u32 \<Rightarrow> ikcpcb \<Rightarrow> ikcpcb" where
  "flush_move w wnd kcp =
     (if itimediff (snd_nxt kcp) (snd_una kcp + w) < 0
      then case snd_queue kcp of
             [] \<Rightarrow> kcp
           | newseg # rest \<Rightarrow>
               flush_move w wnd
                 (kcp\<lparr>snd_queue := rest,
                      snd_buf := snd_buf kcp @ [number_segment kcp wnd newseg],
                      nsnd_que := nsnd_que kcp - 1,
                      nsnd_buf := nsnd_buf kcp + 1,
                      snd_nxt := snd_nxt kcp + 1\<rparr>)
      else kcp)"
  by pat_completeness auto
termination
  by (relation "measure (\<lambda>(w, wnd, kcp). length (snd_queue kcp))") auto

declare flush_move.simps [simp del]

section \<open>Data segments\<close>

text \<open>
  Whether a segment of the send buffer is due, and its new state: first transmission, timeout,
  fast retransmission. The last two components are \<open>change\<close> and \<open>lost\<close>.
\<close>

definition flush_mark ::
    "ikcpcb \<Rightarrow> u32 \<Rightarrow> u32 \<Rightarrow> IKCPSEG \<Rightarrow> bool \<times> IKCPSEG \<times> ikcpcb \<times> int \<times> bool" where
  "flush_mark kcp resent rtomin segment =
     (if seg_xmit segment = 0
      then (True,
            segment\<lparr>seg_xmit := seg_xmit segment + 1, seg_rto := rx_rto kcp,
                    seg_resendts := current kcp + rx_rto kcp + rtomin\<rparr>,
            kcp, 0, False)
      else if itimediff (current kcp) (seg_resendts segment) \<ge> 0
      then let step = (if nodelay kcp < 2 then seg_rto segment else rx_rto kcp);
               rto = (if nodelay kcp = 0
                      then seg_rto segment + imax (seg_rto segment) (rx_rto kcp)
                      else seg_rto segment + word_of_int (c_div (sint step) 2))
           in (True,
               segment\<lparr>seg_xmit := seg_xmit segment + 1, seg_rto := rto,
                       seg_resendts := current kcp + rto\<rparr>,
               kcp\<lparr>xmit := xmit kcp + 1\<rparr>, 0, True)
      else if seg_fastack segment \<ge> resent \<and>
              (sint (seg_xmit segment) \<le> sint (fastlimit kcp) \<or> sint (fastlimit kcp) \<le> 0)
      then (True,
            segment\<lparr>seg_xmit := seg_xmit segment + 1, seg_fastack := 0,
                    seg_resendts := current kcp + seg_rto segment\<rparr>,
            kcp, 1, False)
      else (False, segment, kcp, 0, False))"

text \<open>The emission of a segment that is due.\<close>

definition flush_segment :: "ikcpcb \<Rightarrow> IKCPSEG \<Rightarrow> emission \<Rightarrow> emission result" where
  "flush_segment kcp segment eb =
     bind (flush_reserve kcp (sint (IKCP_OVERHEAD + seg_len segment)) eb) (\<lambda>eb.
     bind (flush_encode kcp segment eb) (\<lambda>(out, buf).
       if seg_len segment > 0
       then bind (buffer_put kcp buf (take (unat (seg_len segment)) (seg_data segment)))
              (\<lambda>buf. Inr (out, buf))
       else Inr (out, buf)))"

fun flush_data ::
    "u32 \<Rightarrow> u32 \<Rightarrow> u32 \<Rightarrow> IKCPSEG list \<Rightarrow> ikcpcb \<Rightarrow> int \<Rightarrow> bool \<Rightarrow> emission
     \<Rightarrow> (IKCPSEG list \<times> ikcpcb \<times> int \<times> bool \<times> emission) result" where
  "flush_data wnd resent rtomin [] kcp change lost eb = Inr ([], kcp, change, lost, eb)"
| "flush_data wnd resent rtomin (segment # p) kcp change lost eb =
     (let (needsend, segment, kcp, dchange, dlost) = flush_mark kcp resent rtomin segment;
          change = change + dchange;
          lost = (lost \<or> dlost)
      in bind
        (if needsend
         then let segment = segment\<lparr>seg_ts := current kcp, seg_wnd := wnd, seg_una := rcv_nxt kcp\<rparr>
              in bind (flush_segment kcp segment eb)
                   (\<lambda>eb. Inr (segment,
                              if seg_xmit segment \<ge> dead_link kcp then kcp\<lparr>state := -1\<rparr> else kcp, eb))
         else Inr (segment, kcp, eb))
        (\<lambda>(segment, kcp, eb).
           bind (flush_data wnd resent rtomin p kcp change lost eb)
             (\<lambda>(p, kcp, change, lost, eb). Inr (segment # p, kcp, change, lost, eb))))"

section \<open>The whole flush\<close>

definition flush_remain :: "ikcpcb \<Rightarrow> emission \<Rightarrow> byte list list result" where
  "flush_remain kcp eb = (let (out, buf) = eb in if length buf > 0 then ikcp_output kcp buf out else Inr out)"

definition flush_cwnd :: "u32 \<Rightarrow> u32 \<Rightarrow> int \<Rightarrow> bool \<Rightarrow> ikcpcb \<Rightarrow> ikcpcb" where
  "flush_cwnd w resent change lost kcp =
     (let kcp = (if change \<noteq> 0
                 then let inflight = snd_nxt kcp - snd_una kcp;
                          kcp = kcp\<lparr>ssthresh := imax (inflight div 2) IKCP_THRESH_MIN\<rparr>;
                          kcp = kcp\<lparr>cwnd := ssthresh kcp + resent\<rparr>
                      in kcp\<lparr>incr := cwnd kcp * mss kcp\<rparr>
                 else kcp);
          kcp = (if lost
                 then kcp\<lparr>ssthresh := imax (w div 2) IKCP_THRESH_MIN, cwnd := 1, incr := mss kcp\<rparr>
                 else kcp)
      in if cwnd kcp < 1 then kcp\<lparr>cwnd := 1, incr := mss kcp\<rparr> else kcp)"

definition flush_resent :: "ikcpcb \<Rightarrow> u32" where
  "flush_resent kcp = (if sint (fastresend kcp) > 0 then fastresend kcp else 0xffffffff)"

definition flush_rtomin :: "ikcpcb \<Rightarrow> u32" where
  "flush_rtomin kcp = (if nodelay kcp = 0 then signed_drop_bit 3 (rx_rto kcp) else 0)"

definition ikcp_flush :: "ikcpcb \<Rightarrow> (ikcpcb \<times> byte list list) result" where
  "ikcp_flush kcp =
     (if updated kcp = 0 then Inr (kcp, [])
      else
        let seg = flush_template kcp;
            wnd = seg_wnd seg;
            count = sint (ackcount kcp)
        in
        bind (flush_acks [0..<nat count] kcp seg ([], [])) (\<lambda>(seg, eb).
        let kcp = kcp\<lparr>ackcount := 0\<rparr>;
            kcp = flush_probe_timer kcp
        in
        bind (flush_probe kcp IKCP_ASK_SEND IKCP_CMD_WASK seg eb) (\<lambda>(seg, eb).
        bind (flush_probe kcp IKCP_ASK_TELL IKCP_CMD_WINS seg eb) (\<lambda>(seg, eb).
        let kcp = kcp\<lparr>probe := 0\<rparr>;
            w = flush_window kcp;
            kcp = flush_move w wnd kcp;
            resent = flush_resent kcp;
            rtomin = flush_rtomin kcp
        in
        bind (flush_data wnd resent rtomin (snd_buf kcp) kcp 0 False eb)
          (\<lambda>(segs, kcp, change, lost, eb).
        let kcp = kcp\<lparr>snd_buf := segs\<rparr>
        in
        bind (flush_remain kcp eb) (\<lambda>out.
        Inr (flush_cwnd w resent change lost kcp, out)))))))"

section \<open>Moving segments into the send buffer: lemmas\<close>

definition move_one :: "u32 \<Rightarrow> ikcpcb \<Rightarrow> IKCPSEG \<Rightarrow> IKCPSEG list \<Rightarrow> ikcpcb" where
  "move_one wnd kcp newseg rest =
     kcp\<lparr>snd_queue := rest, snd_buf := snd_buf kcp @ [number_segment kcp wnd newseg],
         nsnd_que := nsnd_que kcp - 1, nsnd_buf := nsnd_buf kcp + 1, snd_nxt := snd_nxt kcp + 1\<rparr>"

lemma flush_move_induct [case_names stop step]:
  assumes "\<And>kcp. flush_move w wnd kcp = kcp \<Longrightarrow>
      \<not> itimediff (snd_nxt kcp) (snd_una kcp + w) < 0 \<or> snd_queue kcp = [] \<Longrightarrow> P kcp"
    and "\<And>kcp newseg rest. itimediff (snd_nxt kcp) (snd_una kcp + w) < 0 \<Longrightarrow> snd_queue kcp = newseg # rest \<Longrightarrow>
      flush_move w wnd kcp = flush_move w wnd (move_one wnd kcp newseg rest) \<Longrightarrow>
      P (move_one wnd kcp newseg rest) \<Longrightarrow> P kcp"
  shows "P kcp"
proof (induction "length (snd_queue kcp)" arbitrary: kcp)
  case 0
  then have "flush_move w wnd kcp = kcp" by (subst flush_move.simps) simp
  with 0 assms(1) show ?case by simp
next
  case (Suc n)
  then obtain newseg rest where q: "snd_queue kcp = newseg # rest" by (cases "snd_queue kcp") auto
  show ?case
  proof (cases "itimediff (snd_nxt kcp) (snd_una kcp + w) < 0")
    case True
    then have "flush_move w wnd kcp = flush_move w wnd (move_one wnd kcp newseg rest)"
      using q by (subst flush_move.simps) (simp add: move_one_def)
    moreover have "P (move_one wnd kcp newseg rest)" by (rule Suc.hyps(1)) (use Suc.hyps(2) q in \<open>simp add: move_one_def\<close>)
    ultimately show ?thesis using assms(2) True q by blast
  next
    case False
    then have "flush_move w wnd kcp = kcp" by (subst flush_move.simps) simp
    with False assms(1) show ?thesis by blast
  qed
qed

lemma number_segment_fields [simp]:
  "seg_sn (number_segment kcp wnd s) = snd_nxt kcp" "seg_cmd (number_segment kcp wnd s) = IKCP_CMD_PUSH"
  "seg_conv (number_segment kcp wnd s) = conv kcp" "seg_len (number_segment kcp wnd s) = seg_len s"
  "seg_data (number_segment kcp wnd s) = seg_data s" "seg_frg (number_segment kcp wnd s) = seg_frg s"
  "seg_xmit (number_segment kcp wnd s) = 0" "seg_fastack (number_segment kcp wnd s) = 0"
  by (simp_all add: number_segment_def)

lemma number_segment_ok [simp]: "seg_ok (number_segment kcp wnd s) = seg_ok s"
  by (simp add: seg_ok_def)

lemma window_room:
  assumes "uint (n - u) \<le> 65535" and "uint (w :: u32) \<le> 65535"
  shows "itimediff n (u + w) < 0 \<longleftrightarrow> uint (n - u) < uint w"
  using itimediff_base [of n u "u + w"] assms by simp

lemma uint_Suc_diff:
  assumes "uint (n - u :: u32) < 4294967295"
  shows "uint (n + 1 - u) = uint (n - u) + 1"
proof -
  have "n + 1 - u = (n - u) + 1" by simp
  then show ?thesis using assms by (simp only: uint_add32) simp
qed

lemma move_one_ok:
  assumes "snd_ok kcp" and "uint w \<le> 65535" and "itimediff (snd_nxt kcp) (snd_una kcp + w) < 0"
    and "snd_queue kcp = newseg # rest"
  shows "snd_ok (move_one wnd kcp newseg rest)"
proof -
  let ?k = "move_one wnd kcp newseg rest" and ?u = "snd_una kcp"
  note w = snd_window_okD [OF snd_okD(1) [OF assms(1)]]
  have room: "uint (snd_nxt kcp - ?u) < uint w" using assms(3) w(5) assms(2) by (simp add: window_room)
  have suc: "uint (snd_nxt kcp + 1 - ?u) = uint (snd_nxt kcp - ?u) + 1" by (rule uint_Suc_diff) (use w(5) in linarith)
  have off: "seg_off ?u (number_segment kcp wnd newseg) = uint (snd_nxt kcp - ?u)" by (simp add: seg_off_def)
  have "ordered ?u (snd_buf kcp @ [number_segment kcp wnd newseg])"
    using w(3,4,5) by (auto simp: ordered_append ordered_Cons off)
  moreover have "\<forall>s\<in>set (snd_buf kcp @ [number_segment kcp wnd newseg]). seg_off ?u s < uint (snd_nxt kcp + 1 - ?u)"
    using w(4) by (auto simp: off suc intro: less_imp_le)
  moreover have "uint (snd_nxt kcp + 1 - ?u) \<le> 65535" using room assms(2) suc by linarith
  moreover have "\<forall>s\<in>set (rest @ snd_buf kcp @ [number_segment kcp wnd newseg]). seg_ok s \<and> seg_len s \<le> mss kcp"
    using w(7,8) by (auto simp: assms(4))
  moreover have "\<forall>s\<in>set (snd_buf kcp @ [number_segment kcp wnd newseg]). seg_cmd s = IKCP_CMD_PUSH \<and> seg_conv s = conv kcp"
    using w(7) by auto
  moreover have "nsnd_que kcp - 1 = of_nat (length rest)" "nsnd_buf kcp + 1 = of_nat (length (snd_buf kcp @ [number_segment kcp wnd newseg]))"
    using w(1,2) by (simp_all add: assms(4))
  ultimately have "snd_window_ok ?k" using w(6) by (simp add: snd_window_ok_def move_one_def)
  moreover have "first_unacked ?k = first_unacked kcp"
    by (cases "snd_buf kcp") (simp_all add: first_unacked_def move_one_def)
  moreover have "snd_una ?k = snd_una kcp" by (simp add: move_one_def)
  ultimately show ?thesis using snd_okD(2) [OF assms(1)] by (simp add: snd_ok_def)
qed

lemma flush_move_ok: "snd_ok kcp \<Longrightarrow> uint w \<le> 65535 \<Longrightarrow> snd_ok (flush_move w wnd kcp)"
proof (induction kcp rule: flush_move_induct [where w = w and wnd = wnd])
  case (stop kcp)
  then show ?case by simp
next
  case (step kcp newseg rest)
  then show ?case using move_one_ok [OF step.prems step.hyps(1,2)] by simp
qed

text \<open>The numbered segments, and how many there are.\<close>

fun numbered :: "u32 \<Rightarrow> ikcpcb \<Rightarrow> IKCPSEG list \<Rightarrow> IKCPSEG list" where
  "numbered wnd kcp [] = []"
| "numbered wnd kcp (s # ss) = number_segment kcp wnd s # numbered wnd (kcp\<lparr>snd_nxt := snd_nxt kcp + 1\<rparr>) ss"

definition move_count :: "u32 \<Rightarrow> ikcpcb \<Rightarrow> nat" where
  "move_count w kcp = min (length (snd_queue kcp)) (nat (uint w - uint (snd_nxt kcp - snd_una kcp)))"

lemma numbered_cong:
  "conv k = conv k' \<Longrightarrow> current k = current k' \<Longrightarrow> snd_nxt k = snd_nxt k' \<Longrightarrow> rcv_nxt k = rcv_nxt k' \<Longrightarrow>
    rx_rto k = rx_rto k' \<Longrightarrow> numbered wnd k ss = numbered wnd k' ss"
  by (induction ss arbitrary: k k') (simp_all add: number_segment_def)

definition moved :: "u32 \<Rightarrow> ikcpcb \<Rightarrow> nat \<Rightarrow> ikcpcb" where
  "moved wnd kcp n =
     kcp\<lparr>snd_queue := drop n (snd_queue kcp), snd_buf := snd_buf kcp @ numbered wnd kcp (take n (snd_queue kcp)),
         nsnd_que := nsnd_que kcp - of_nat n, nsnd_buf := nsnd_buf kcp + of_nat n, snd_nxt := snd_nxt kcp + of_nat n\<rparr>"

lemma flush_move_moved:
  "snd_ok kcp \<Longrightarrow> uint w \<le> 65535 \<Longrightarrow> flush_move w wnd kcp = moved wnd kcp (move_count w kcp)"
proof (induction kcp rule: flush_move_induct [where w = w and wnd = wnd])
  case (stop kcp)
  note w = snd_window_okD [OF snd_okD(1) [OF stop.prems(1)]]
  have "move_count w kcp = 0"
    using stop.hyps(2) w(5) stop.prems(2) by (auto simp: move_count_def window_room)
  then show ?case by (simp add: stop.hyps(1) moved_def)
next
  case (step kcp newseg rest)
  let ?k = "move_one wnd kcp newseg rest"
  note w = snd_window_okD [OF snd_okD(1) [OF step.prems(1)]]
  have room: "uint (snd_nxt kcp - snd_una kcp) < uint w" using step.hyps(1) w(5) step.prems(2) by (simp add: window_room)
  have f: "snd_nxt ?k = snd_nxt kcp + 1" "snd_una ?k = snd_una kcp" "snd_queue ?k = rest"
    "snd_buf ?k = snd_buf kcp @ [number_segment kcp wnd newseg]" by (simp_all add: move_one_def)
  have "uint (snd_nxt ?k - snd_una ?k) = uint (snd_nxt kcp - snd_una kcp) + 1"
    unfolding f by (rule uint_Suc_diff) (use w(5) in linarith)
  then have c: "move_count w kcp = Suc (move_count w ?k)"
    using room by (simp add: move_count_def step.hyps(2) f min_def) arith
  have "numbered wnd ?k ss = numbered wnd (kcp\<lparr>snd_nxt := snd_nxt kcp + 1\<rparr>) ss" for ss
    by (rule numbered_cong) (simp_all add: move_one_def)
  then have "moved wnd kcp (Suc n) = moved wnd ?k n" for n
    by (simp add: moved_def f step.hyps(2)) (simp add: move_one_def add.assoc diff_diff_eq)
  then show ?case
    using step.IH [OF move_one_ok [OF step.prems step.hyps(1,2)] step.prems(2)] by (simp add: step.hyps(3) c)
qed

section \<open>Frames and datagrams\<close>

text \<open>
  A frame is a header with its payload; a datagram is the encoding of a sequence of frames.
  \<open>emitted m fs eb\<close>: the datagrams handed out and the buffer hold exactly the frames
  \<open>fs\<close>, in order, no datagram is empty or longer than \<open>m\<close>.
\<close>

type_synonym frame = "header \<times> byte list"

definition encode_frame :: "frame \<Rightarrow> byte list" where
  "encode_frame f = encode_header (fst f) @ snd f"

definition encode_frames :: "frame list \<Rightarrow> byte list" where
  "encode_frames fs = concat (map encode_frame fs)"

lemma encode_frames_simps [simp]:
  "encode_frames [] = []"
  "encode_frames (f # fs) = encode_frame f @ encode_frames fs"
  "encode_frames (fs @ gs) = encode_frames fs @ encode_frames gs"
  by (simp_all add: encode_frames_def)

lemma length_encode_frame: "length (encode_frame f) = 24 + length (snd f)"
  by (simp add: encode_frame_def hdr.enc_length)

lemma encode_frames_Nil_iff: "encode_frames fs = [] \<longleftrightarrow> fs = []"
  using length_encode_frame by (cases fs) (simp, metis add_eq_0_iff_both_eq_0 append_is_Nil_conv encode_frames_simps(2) list.size(3) numeral_neq_zero neq_Nil_conv)

definition datagrams :: "int \<Rightarrow> frame list \<Rightarrow> byte list list \<Rightarrow> bool" where
  "datagrams m fs out \<longleftrightarrow> (\<exists>fss. out = map encode_frames fss \<and> concat fss = fs \<and>
     (\<forall>gs\<in>set fss. gs \<noteq> [] \<and> int (length (encode_frames gs)) \<le> m))"

definition emitted :: "int \<Rightarrow> frame list \<Rightarrow> emission \<Rightarrow> bool" where
  "emitted m fs eb \<longleftrightarrow> (\<exists>gs hs. fs = gs @ hs \<and> datagrams m gs (fst eb) \<and> snd eb = encode_frames hs \<and>
     int (length (snd eb)) \<le> m)"

lemma datagrams_bound: "datagrams m fs out \<Longrightarrow> d \<in> set out \<Longrightarrow> d \<noteq> [] \<and> int (length d) \<le> m"
  by (auto simp: datagrams_def) (metis encode_frames_Nil_iff)

lemma datagrams_snoc:
  assumes "datagrams m gs out" and "hs \<noteq> []" and "int (length (encode_frames hs)) \<le> m"
  shows "datagrams m (gs @ hs) (out @ [encode_frames hs])"
proof -
  obtain fss where "out = map encode_frames fss" "concat fss = gs"
    "\<forall>gs\<in>set fss. gs \<noteq> [] \<and> int (length (encode_frames gs)) \<le> m"
    using assms(1) by (auto simp: datagrams_def)
  then show ?thesis using assms(2,3) unfolding datagrams_def by (intro exI [of _ "fss @ [hs]"]) auto
qed

lemma emitted_init: "0 \<le> m \<Longrightarrow> emitted m [] ([], [])"
  unfolding emitted_def datagrams_def by (intro exI [of _ "[]"]) auto

text \<open>What the emission relies on: a callback, and an output block as large as the MTU.\<close>

definition out_ok :: "ikcpcb \<Rightarrow> bool" where
  "out_ok kcp \<longleftrightarrow> output_cb kcp \<and> sint (mtu kcp) \<le> uint (buffer kcp)"

lemma flush_reserve_emitted:
  assumes "out_ok kcp" and "emitted (sint (mtu kcp)) fs eb" and "need \<le> sint (mtu kcp)"
  shows "yields (flush_reserve kcp need eb)
    (\<lambda>eb. emitted (sint (mtu kcp)) fs eb \<and> int (length (snd eb)) + need \<le> sint (mtu kcp))"
proof -
  obtain out buf where eb: "eb = (out, buf)" by (cases eb)
  obtain gs hs where e: "fs = gs @ hs" "datagrams (sint (mtu kcp)) gs out" "buf = encode_frames hs"
    "int (length buf) \<le> sint (mtu kcp)" using assms(2) by (auto simp: emitted_def eb)
  show ?thesis
  proof (cases "int (length buf) + need > sint (mtu kcp)")
    case True
    then have "hs \<noteq> []" using assms(3) e(3) by auto
    then have "buf \<noteq> []" using e(3) by (simp add: encode_frames_Nil_iff)
    then have r: "flush_reserve kcp need eb = Inr (out @ [buf], [])"
      using True assms(1) by (simp add: flush_reserve_def eb ikcp_output_def out_ok_def)
    have "datagrams (sint (mtu kcp)) fs (out @ [buf])"
      using datagrams_snoc [OF e(2) \<open>hs \<noteq> []\<close>] e(1,3,4) by simp
    then have "emitted (sint (mtu kcp)) fs (out @ [buf], [])" using e(4) unfolding emitted_def
      by (intro exI [of _ fs] exI [of _ "[]"]) simp
    then show ?thesis using assms(3) unfolding r by simp
  next
    case False
    then show ?thesis using assms(2) by (simp add: flush_reserve_def eb)
  qed
qed

lemma emitted_append:
  assumes "emitted m fs (out, buf)" and "int (length buf) + int (length (encode_frame f)) \<le> m"
  shows "emitted m (fs @ [f]) (out, buf @ encode_frame f)"
proof -
  obtain gs hs where "fs = gs @ hs" "datagrams m gs out" "buf = encode_frames hs"
    using assms(1) by (auto simp: emitted_def)
  then show ?thesis using assms(2) unfolding emitted_def
    by (intro exI [of _ gs] exI [of _ "hs @ [f]"]) simp
qed

text \<open>The frame of a segment.\<close>

definition seg_frame :: "IKCPSEG \<Rightarrow> frame" where
  "seg_frame s = (seg_header s, take (unat (seg_len s)) (seg_data s))"

definition control_frame :: "IKCPSEG \<Rightarrow> frame" where
  "control_frame s = (seg_header s, [])"

lemma encode_control_frame: "encode_frame (control_frame s) = ikcp_encode_seg s"
  by (simp add: encode_frame_def control_frame_def ikcp_encode_seg_header)

lemma buffer_put_fits:
  "out_ok kcp \<Longrightarrow> int (length buf) + int (length bs) \<le> sint (mtu kcp) \<Longrightarrow> buffer_put kcp buf bs = Inr (buf @ bs)"
proof -
  assume "out_ok kcp" "int (length buf) + int (length bs) \<le> sint (mtu kcp)"
  then have "int (length buf + length bs) \<le> int (unat (buffer kcp))" by (simp add: out_ok_def)
  then have "length buf + length bs \<le> unat (buffer kcp)" by (simp only: of_nat_le_iff)
  then show ?thesis by (simp only: buffer_put_def if_True)
qed

lemma emit_control:
  assumes "out_ok kcp" and "24 \<le> sint (mtu kcp)" and "emitted (sint (mtu kcp)) fs eb"
  shows "yields (bind (flush_reserve kcp (sint IKCP_OVERHEAD) eb) (flush_encode kcp seg))
    (emitted (sint (mtu kcp)) (fs @ [control_frame seg]))"
proof (rule yields_bind)
  show "yields (flush_reserve kcp (sint IKCP_OVERHEAD) eb)
    (\<lambda>eb. emitted (sint (mtu kcp)) fs eb \<and> int (length (snd eb)) + 24 \<le> sint (mtu kcp))"
    using flush_reserve_emitted [OF assms(1,3), of 24] assms(2) by (simp add: IKCP_OVERHEAD_def)
next
  fix eb assume "emitted (sint (mtu kcp)) fs eb \<and> int (length (snd eb)) + 24 \<le> sint (mtu kcp)"
  moreover obtain out buf where eb: "eb = (out, buf)" by (cases eb)
  ultimately have e: "emitted (sint (mtu kcp)) fs (out, buf)" "int (length buf) + int (length (ikcp_encode_seg seg)) \<le> sint (mtu kcp)"
    by simp_all
  have "emitted (sint (mtu kcp)) (fs @ [control_frame seg]) (out, buf @ ikcp_encode_seg seg)"
    using emitted_append [OF e(1), of "control_frame seg"] e(2) by (simp add: encode_control_frame)
  then show "yields (flush_encode kcp seg eb) (emitted (sint (mtu kcp)) (fs @ [control_frame seg]))"
    by (simp add: flush_encode_def eb buffer_put_fits [OF assms(1) e(2)])
qed

lemma emit_segment:
  assumes "out_ok kcp" and "seg_ok seg" and "24 + uint (seg_len seg) \<le> sint (mtu kcp)"
    and "emitted (sint (mtu kcp)) fs eb"
  shows "yields (flush_segment kcp seg eb) (emitted (sint (mtu kcp)) (fs @ [seg_frame seg]))"
proof -
  have "uint (seg_len seg) + 24 < 2147483648" using assms(3) sint32_range [of "mtu kcp"] by linarith
  then have "uint (IKCP_OVERHEAD + seg_len seg) = 24 + uint (seg_len seg)"
    by (simp add: IKCP_OVERHEAD_def uint_add32)
  then have need: "sint (IKCP_OVERHEAD + seg_len seg) = 24 + uint (seg_len seg)"
    using \<open>uint (seg_len seg) + 24 < 2147483648\<close> by (simp add: sint32_eq)
  have data: "take (unat (seg_len seg)) (seg_data seg) = seg_data seg" "int (length (seg_data seg)) = uint (seg_len seg)"
    using assms(2) by (simp_all add: seg_ok_def) (metis uint_nat)
  have r: "yields (flush_reserve kcp (24 + uint (seg_len seg)) eb)
    (\<lambda>eb. emitted (sint (mtu kcp)) fs eb \<and> int (length (snd eb)) + (24 + uint (seg_len seg)) \<le> sint (mtu kcp))"
    by (rule flush_reserve_emitted [OF assms(1,4,3)])
  show ?thesis unfolding flush_segment_def need
  proof (rule yields_bind [OF r])
    fix eb assume "emitted (sint (mtu kcp)) fs eb \<and> int (length (snd eb)) + (24 + uint (seg_len seg)) \<le> sint (mtu kcp)"
    moreover obtain out buf where eb: "eb = (out, buf)" by (cases eb)
    ultimately have e: "emitted (sint (mtu kcp)) fs (out, buf)"
      "int (length buf) + (24 + int (length (seg_data seg))) \<le> sint (mtu kcp)"
      using data(2) by simp_all
    have p1: "buffer_put kcp buf (ikcp_encode_seg seg) = Inr (buf @ ikcp_encode_seg seg)"
      using e(2) by (intro buffer_put_fits [OF assms(1)]) simp
    have p2: "buffer_put kcp (buf @ ikcp_encode_seg seg) (seg_data seg) = Inr ((buf @ ikcp_encode_seg seg) @ seg_data seg)"
      using e(2) by (intro buffer_put_fits [OF assms(1)]) simp
    have f: "encode_frame (seg_frame seg) = ikcp_encode_seg seg @ seg_data seg"
      by (simp add: encode_frame_def seg_frame_def ikcp_encode_seg_header data(1))
    have em: "emitted (sint (mtu kcp)) (fs @ [seg_frame seg]) (out, buf @ ikcp_encode_seg seg @ seg_data seg)"
      using emitted_append [OF e(1), of "seg_frame seg"] e(2) by (simp add: f)
    have "seg_len seg > 0 \<longleftrightarrow> seg_data seg \<noteq> []"
      using assms(2) by (auto simp: seg_ok_def word_neq_0_conv [symmetric] unat_eq_0 [symmetric])
    then show "yields (bind (flush_encode kcp seg eb) (\<lambda>(out, buf).
       if seg_len seg > 0
       then bind (buffer_put kcp buf (take (unat (seg_len seg)) (seg_data seg))) (\<lambda>buf. Inr (out, buf))
       else Inr (out, buf))) (emitted (sint (mtu kcp)) (fs @ [seg_frame seg]))"
      using em by (cases "seg_data seg = []") (simp_all add: flush_encode_def eb p1 p2 data(1))
  qed
qed

section \<open>The frames of a flush\<close>

text \<open>Acknowledgements: one frame each, in the order they were pushed.\<close>

definition ack_seg :: "IKCPSEG \<Rightarrow> u32 \<times> u32 \<Rightarrow> IKCPSEG" where
  "ack_seg seg a = seg\<lparr>seg_sn := fst a, seg_ts := snd a\<rparr>"

lemma ack_seg_twice: "ack_seg (ack_seg seg a) b = ack_seg seg b"
  by (simp add: ack_seg_def)

lemma flush_acks_emitted:
  assumes "out_ok kcp" and "24 \<le> sint (mtu kcp)" and "emitted (sint (mtu kcp)) fs eb"
  shows "yields (flush_acks is kcp seg eb) (\<lambda>(seg', eb').
    (seg' = (if is = [] then seg else ack_seg seg (ikcp_ack_get kcp (last is)))) \<and>
    emitted (sint (mtu kcp)) (fs @ map (\<lambda>i. control_frame (ack_seg seg (ikcp_ack_get kcp i))) is) eb')"
  using assms(3)
proof (induction "is" arbitrary: seg eb fs)
  case (Cons i "is")
  let ?seg = "ack_seg seg (ikcp_ack_get kcp i)"
  have unf: "flush_acks (i # is) kcp seg eb =
      bind (bind (flush_reserve kcp (sint IKCP_OVERHEAD) eb) (flush_encode kcp ?seg)) (flush_acks is kcp ?seg)"
    by (cases "flush_reserve kcp (sint IKCP_OVERHEAD) eb") (simp_all add: ack_seg_def Let_def split: prod.split)
  show ?case unfolding unf
  proof (rule yields_bind [OF emit_control [OF assms(1,2) Cons.prems]])
    fix eb assume "emitted (sint (mtu kcp)) (fs @ [control_frame ?seg]) eb"
    from Cons.IH [OF this, of ?seg]
    show "yields (flush_acks is kcp ?seg eb) (\<lambda>(seg', eb').
        (seg' = (if i # is = [] then seg else ack_seg seg (ikcp_ack_get kcp (last (i # is))))) \<and>
        emitted (sint (mtu kcp)) (fs @ map (\<lambda>i. control_frame (ack_seg seg (ikcp_ack_get kcp i))) (i # is)) eb')"
      by (rule yields_mono) (auto simp: ack_seg_twice)
  qed
qed simp

lemma flush_probe_emitted:
  assumes "out_ok kcp" and "24 \<le> sint (mtu kcp)" and "emitted (sint (mtu kcp)) fs eb"
  shows "yields (flush_probe kcp ask cmd seg eb) (\<lambda>(seg', eb').
    seg' = (if probe kcp AND ask \<noteq> 0 then seg\<lparr>seg_cmd := cmd\<rparr> else seg) \<and>
    emitted (sint (mtu kcp)) (fs @ (if probe kcp AND ask \<noteq> 0 then [control_frame (seg\<lparr>seg_cmd := cmd\<rparr>)] else [])) eb')"
proof (cases "probe kcp AND ask \<noteq> 0")
  case True
  let ?seg = "seg\<lparr>seg_cmd := cmd\<rparr>"
  have "flush_probe kcp ask cmd seg eb =
      bind (bind (flush_reserve kcp (sint IKCP_OVERHEAD) eb) (flush_encode kcp ?seg)) (\<lambda>eb. Inr (?seg, eb))"
    using True by (cases "flush_reserve kcp (sint IKCP_OVERHEAD) eb") (simp_all add: flush_probe_def Let_def)
  moreover have "yields \<dots> (\<lambda>(seg', eb'). seg' = ?seg \<and> emitted (sint (mtu kcp)) (fs @ [control_frame ?seg]) eb')"
    by (rule yields_bind [OF emit_control [OF assms]]) simp
  ultimately show ?thesis using True by simp
next
  case False
  then show ?thesis using assms(3) by (simp add: flush_probe_def)
qed

text \<open>
  Data segments. Which segments are due, and what becomes of them, depends on fields the loop
  does not change.
\<close>

definition timed_out :: "ikcpcb \<Rightarrow> IKCPSEG \<Rightarrow> bool" where
  "timed_out kcp s \<longleftrightarrow> seg_xmit s \<noteq> 0 \<and> itimediff (current kcp) (seg_resendts s) \<ge> 0"

definition fast_resent :: "ikcpcb \<Rightarrow> u32 \<Rightarrow> IKCPSEG \<Rightarrow> bool" where
  "fast_resent kcp resent s \<longleftrightarrow> seg_xmit s \<noteq> 0 \<and> \<not> timed_out kcp s \<and> seg_fastack s \<ge> resent \<and>
     (sint (seg_xmit s) \<le> sint (fastlimit kcp) \<or> sint (fastlimit kcp) \<le> 0)"

definition due :: "ikcpcb \<Rightarrow> u32 \<Rightarrow> IKCPSEG \<Rightarrow> bool" where
  "due kcp resent s \<longleftrightarrow> seg_xmit s = 0 \<or> timed_out kcp s \<or> fast_resent kcp resent s"

definition marked :: "ikcpcb \<Rightarrow> u32 \<Rightarrow> u32 \<Rightarrow> IKCPSEG \<Rightarrow> IKCPSEG" where
  "marked kcp resent rtomin s = fst (snd (flush_mark kcp resent rtomin s))"

definition sent_seg :: "ikcpcb \<Rightarrow> u32 \<Rightarrow> u32 \<Rightarrow> u32 \<Rightarrow> IKCPSEG \<Rightarrow> IKCPSEG" where
  "sent_seg kcp wnd resent rtomin s =
     (if due kcp resent s
      then (marked kcp resent rtomin s)\<lparr>seg_ts := current kcp, seg_wnd := wnd, seg_una := rcv_nxt kcp\<rparr>
      else s)"

lemma flush_mark_cases:
  obtains (first) "seg_xmit s = 0"
    | (timeout) "seg_xmit s \<noteq> 0" "itimediff (current kcp) (seg_resendts s) \<ge> 0"
    | (fast) "seg_xmit s \<noteq> 0" "\<not> itimediff (current kcp) (seg_resendts s) \<ge> 0"
        "seg_fastack s \<ge> resent \<and> (sint (seg_xmit s) \<le> sint (fastlimit kcp) \<or> sint (fastlimit kcp) \<le> 0)"
    | (wait) "seg_xmit s \<noteq> 0" "\<not> itimediff (current kcp) (seg_resendts s) \<ge> 0"
        "\<not> (seg_fastack s \<ge> resent \<and> (sint (seg_xmit s) \<le> sint (fastlimit kcp) \<or> sint (fastlimit kcp) \<le> 0))"
  by blast

lemma flush_mark_eq:
  "flush_mark kcp resent rtomin s =
     (due kcp resent s, marked kcp resent rtomin s,
      if timed_out kcp s then kcp\<lparr>xmit := xmit kcp + 1\<rparr> else kcp,
      if fast_resent kcp resent s then 1 else 0, timed_out kcp s)"
  by (cases rule: flush_mark_cases [where s = s and kcp = kcp and resent = resent])
    (simp_all only: flush_mark_def due_def marked_def timed_out_def fast_resent_def Let_def
      if_True if_False simp_thms fst_conv snd_conv)

definition timeout_rto :: "ikcpcb \<Rightarrow> IKCPSEG \<Rightarrow> u32" where
  "timeout_rto kcp s =
     (if nodelay kcp = 0 then seg_rto s + imax (seg_rto s) (rx_rto kcp)
      else seg_rto s + word_of_int (c_div (sint (if nodelay kcp < 2 then seg_rto s else rx_rto kcp)) 2))"

lemma marked_eq:
  "marked kcp resent rtomin s =
     (if seg_xmit s = 0 then s\<lparr>seg_xmit := seg_xmit s + 1, seg_rto := rx_rto kcp,
        seg_resendts := current kcp + rx_rto kcp + rtomin\<rparr>
      else if timed_out kcp s then s\<lparr>seg_xmit := seg_xmit s + 1, seg_rto := timeout_rto kcp s,
        seg_resendts := current kcp + timeout_rto kcp s\<rparr>
      else if fast_resent kcp resent s then s\<lparr>seg_xmit := seg_xmit s + 1, seg_fastack := 0,
        seg_resendts := current kcp + seg_rto s\<rparr>
      else s)"
  by (cases rule: flush_mark_cases [where s = s and kcp = kcp and resent = resent])
    (simp_all only: flush_mark_def due_def marked_def timed_out_def fast_resent_def Let_def timeout_rto_def
      if_True if_False simp_thms fst_conv snd_conv)

lemma marked_not_due: "\<not> due kcp resent s \<Longrightarrow> marked kcp resent rtomin s = s"
  by (cases rule: flush_mark_cases [where s = s and kcp = kcp and resent = resent])
    (simp_all only: flush_mark_def due_def marked_def timed_out_def fast_resent_def Let_def
      if_True if_False simp_thms fst_conv snd_conv)

lemma marked_fields [simp]:
  "seg_sn (marked kcp resent rtomin s) = seg_sn s" "seg_cmd (marked kcp resent rtomin s) = seg_cmd s"
  "seg_conv (marked kcp resent rtomin s) = seg_conv s" "seg_len (marked kcp resent rtomin s) = seg_len s"
  "seg_data (marked kcp resent rtomin s) = seg_data s" "seg_frg (marked kcp resent rtomin s) = seg_frg s"
  "seg_ok (marked kcp resent rtomin s) = seg_ok s"
  by (simp_all add: marked_eq)

lemma sent_seg_fields [simp]:
  "seg_sn (sent_seg kcp wnd resent rtomin s) = seg_sn s" "seg_cmd (sent_seg kcp wnd resent rtomin s) = seg_cmd s"
  "seg_conv (sent_seg kcp wnd resent rtomin s) = seg_conv s" "seg_len (sent_seg kcp wnd resent rtomin s) = seg_len s"
  "seg_data (sent_seg kcp wnd resent rtomin s) = seg_data s" "seg_frg (sent_seg kcp wnd resent rtomin s) = seg_frg s"
  "seg_ok (sent_seg kcp wnd resent rtomin s) = seg_ok s"
  by (simp_all add: sent_seg_def)

text \<open>The fields the loop changes do not matter to it.\<close>

lemma mark_frame:
  "timed_out (kcp\<lparr>xmit := x, state := y\<rparr>) s = timed_out kcp s"
  "fast_resent (kcp\<lparr>xmit := x, state := y\<rparr>) resent s = fast_resent kcp resent s"
  "due (kcp\<lparr>xmit := x, state := y\<rparr>) resent s = due kcp resent s"
  "marked (kcp\<lparr>xmit := x, state := y\<rparr>) resent rtomin s = marked kcp resent rtomin s"
  "sent_seg (kcp\<lparr>xmit := x, state := y\<rparr>) wnd resent rtomin s = sent_seg kcp wnd resent rtomin s"
proof -
  let ?k = "kcp\<lparr>xmit := x, state := y\<rparr>"
  show t: "timed_out ?k s = timed_out kcp s" by (simp add: timed_out_def)
  show f: "fast_resent ?k resent s = fast_resent kcp resent s" by (simp add: fast_resent_def t)
  show d: "due ?k resent s = due kcp resent s" by (simp add: due_def t f)
  show m: "marked ?k resent rtomin s = marked kcp resent rtomin s"
    unfolding marked_eq t f timeout_rto_def by simp
  show "sent_seg ?k wnd resent rtomin s = sent_seg kcp wnd resent rtomin s" by (simp add: sent_seg_def d m)
qed

definition dead :: "ikcpcb \<Rightarrow> u32 \<Rightarrow> u32 \<Rightarrow> u32 \<Rightarrow> IKCPSEG list \<Rightarrow> bool" where
  "dead kcp wnd resent rtomin segs \<longleftrightarrow>
     (\<exists>s\<in>set segs. due kcp resent s \<and> seg_xmit (sent_seg kcp wnd resent rtomin s) \<ge> dead_link kcp)"

definition data_state :: "ikcpcb \<Rightarrow> u32 \<Rightarrow> u32 \<Rightarrow> u32 \<Rightarrow> IKCPSEG list \<Rightarrow> ikcpcb" where
  "data_state kcp wnd resent rtomin segs =
     kcp\<lparr>xmit := xmit kcp + of_nat (length (filter (timed_out kcp) segs)),
         state := (if dead kcp wnd resent rtomin segs then -1 else state kcp)\<rparr>"

lemma data_state_Nil [simp]: "data_state kcp wnd resent rtomin [] = kcp"
  by (simp add: data_state_def dead_def)

lemma data_state_frame:
  "timed_out (data_state kcp wnd resent rtomin segs) = timed_out kcp"
  "fast_resent (data_state kcp wnd resent rtomin segs) = fast_resent kcp"
  "due (data_state kcp wnd resent rtomin segs) = due kcp"
  "sent_seg (data_state kcp wnd resent rtomin segs) = sent_seg kcp"
  "dead_link (data_state kcp wnd resent rtomin segs) = dead_link kcp"
  "out_ok (data_state kcp wnd resent rtomin segs) = out_ok kcp"
  "mtu (data_state kcp wnd resent rtomin segs) = mtu kcp"
  by (simp_all add: fun_eq_iff data_state_def mark_frame out_ok_def)

lemma dead_frame: "dead (data_state kcp wnd resent rtomin segs) = dead kcp"
  by (simp add: fun_eq_iff dead_def data_state_frame)

lemma data_state_append:
  "data_state kcp wnd resent rtomin (xs @ ys) = data_state (data_state kcp wnd resent rtomin xs) wnd resent rtomin ys"
  unfolding data_state_def [of "data_state kcp wnd resent rtomin xs"] dead_frame data_state_frame
  by (auto simp: data_state_def dead_def add.assoc)

lemma data_state_single:
  "data_state kcp wnd resent rtomin [s] =
     (let k = (if timed_out kcp s then kcp\<lparr>xmit := xmit kcp + 1\<rparr> else kcp) in
      if due kcp resent s \<and> seg_xmit (sent_seg kcp wnd resent rtomin s) \<ge> dead_link kcp then k\<lparr>state := -1\<rparr> else k)"
  by (simp add: data_state_def dead_def Let_def)

definition data_frames :: "ikcpcb \<Rightarrow> u32 \<Rightarrow> u32 \<Rightarrow> u32 \<Rightarrow> IKCPSEG list \<Rightarrow> frame list" where
  "data_frames kcp wnd resent rtomin segs =
     map (\<lambda>s. seg_frame (sent_seg kcp wnd resent rtomin s)) (filter (due kcp resent) segs)"

text \<open>One round of the loop, and the whole loop.\<close>

lemma flush_data_Cons:
  "flush_data wnd resent rtomin (s # p) kcp change lost eb =
     bind (if due kcp resent s then flush_segment kcp (sent_seg kcp wnd resent rtomin s) eb else Inr eb)
       (\<lambda>eb. bind (flush_data wnd resent rtomin p (data_state kcp wnd resent rtomin [s])
                (change + (if fast_resent kcp resent s then 1 else 0)) (lost \<or> timed_out kcp s) eb)
          (\<lambda>(p, k, change, lost, eb). Inr (sent_seg kcp wnd resent rtomin s # p, k, change, lost, eb)))"
proof -
  let ?k = "if timed_out kcp s then kcp\<lparr>xmit := xmit kcp + 1\<rparr> else kcp"
  have k: "current ?k = current kcp" "rcv_nxt ?k = rcv_nxt kcp" "dead_link ?k = dead_link kcp"
    "flush_segment ?k = flush_segment kcp"
    by (simp_all add: fun_eq_iff flush_segment_def flush_reserve_def flush_encode_def buffer_put_def ikcp_output_def)
  show ?thesis
  proof (cases "due kcp resent s")
    case True
    then have sent: "(marked kcp resent rtomin s)\<lparr>seg_ts := current kcp, seg_wnd := wnd, seg_una := rcv_nxt kcp\<rparr> =
        sent_seg kcp wnd resent rtomin s" by (simp add: sent_seg_def)
    show ?thesis unfolding flush_data.simps(2) flush_mark_eq prod.case Let_def k sent data_state_single
      using True by (cases "flush_segment kcp (sent_seg kcp wnd resent rtomin s) eb") (simp_all add: Let_def)
  next
    case False
    then have sent: "sent_seg kcp wnd resent rtomin s = s" by (simp add: sent_seg_def)
    show ?thesis unfolding flush_data.simps(2) flush_mark_eq prod.case Let_def data_state_single
        marked_not_due [OF False] sent
      using False by (simp add: Let_def)
  qed
qed

text \<open>What the loop returns for the segments \<open>segs\<close>, with \<open>fs\<close> emitted before.\<close>

definition data_done ::
    "ikcpcb \<Rightarrow> u32 \<Rightarrow> u32 \<Rightarrow> u32 \<Rightarrow> IKCPSEG list \<Rightarrow> int \<Rightarrow> bool \<Rightarrow> frame list \<Rightarrow>
     IKCPSEG list \<times> ikcpcb \<times> int \<times> bool \<times> emission \<Rightarrow> bool" where
  "data_done kcp wnd resent rtomin segs change lost fs = (\<lambda>(segs', kcp', change', lost', eb).
     segs' = map (sent_seg kcp wnd resent rtomin) segs \<and>
     kcp' = data_state kcp wnd resent rtomin segs \<and>
     change' = change + int (length (filter (fast_resent kcp resent) segs)) \<and>
     lost' = (lost \<or> (\<exists>s\<in>set segs. timed_out kcp s)) \<and>
     emitted (sint (mtu kcp)) (fs @ data_frames kcp wnd resent rtomin segs) eb)"

lemma data_done_Cons:
  assumes "data_done (data_state kcp wnd resent rtomin [s]) wnd resent rtomin p
      (change + (if fast_resent kcp resent s then 1 else 0)) (lost \<or> timed_out kcp s)
      (fs @ data_frames kcp wnd resent rtomin [s]) (segs, k, c, l, eb)"
  shows "data_done kcp wnd resent rtomin (s # p) change lost fs (sent_seg kcp wnd resent rtomin s # segs, k, c, l, eb)"
proof -
  let ?k = "data_state kcp wnd resent rtomin [s]"
  have "data_state kcp wnd resent rtomin (s # p) = data_state ?k wnd resent rtomin p"
    using data_state_append [of kcp wnd resent rtomin "[s]" p] by simp
  moreover have "data_frames kcp wnd resent rtomin (s # p) = data_frames kcp wnd resent rtomin [s] @ data_frames ?k wnd resent rtomin p"
    by (simp add: data_frames_def data_state_frame)
  ultimately show ?thesis using assms by (auto simp: data_done_def data_state_frame)
qed

lemma flush_data_emitted:
  assumes "out_ok kcp" and "\<forall>s\<in>set segs. seg_ok s \<and> 24 + uint (seg_len s) \<le> sint (mtu kcp)"
    and "emitted (sint (mtu kcp)) fs eb"
  shows "yields (flush_data wnd resent rtomin segs kcp change lost eb) (data_done kcp wnd resent rtomin segs change lost fs)"
  using assms
proof (induction segs arbitrary: kcp change lost eb fs)
  case Nil
  then show ?case by (simp add: data_done_def data_frames_def)
next
  case (Cons s p)
  let ?k = "data_state kcp wnd resent rtomin [s]" and ?s = "sent_seg kcp wnd resent rtomin s"
  let ?fs = "fs @ data_frames kcp wnd resent rtomin [s]"
  have "yields (flush_segment kcp ?s eb) (emitted (sint (mtu kcp)) (fs @ [seg_frame ?s]))"
    using Cons.prems by (intro emit_segment) simp_all
  then have one: "yields (if due kcp resent s then flush_segment kcp ?s eb else Inr eb) (emitted (sint (mtu kcp)) ?fs)"
    using Cons.prems(3) by (simp add: data_frames_def)
  show ?case unfolding flush_data_Cons
  proof (rule yields_bind [OF one])
    fix eb assume "emitted (sint (mtu kcp)) ?fs eb"
    then have "yields (flush_data wnd resent rtomin p ?k (change + (if fast_resent kcp resent s then 1 else 0)) (lost \<or> timed_out kcp s) eb)
      (data_done ?k wnd resent rtomin p (change + (if fast_resent kcp resent s then 1 else 0)) (lost \<or> timed_out kcp s) ?fs)"
      using Cons.prems(1,2) by (intro Cons.IH) (simp_all add: data_state_frame)
    then show "yields (bind (flush_data wnd resent rtomin p ?k (change + (if fast_resent kcp resent s then 1 else 0)) (lost \<or> timed_out kcp s) eb)
        (\<lambda>(p, k, change, lost, eb). Inr (?s # p, k, change, lost, eb))) (data_done kcp wnd resent rtomin (s # p) change lost fs)"
      by (rule yields_bind) (auto intro: data_done_Cons)
  qed
qed

end
