(* ===== verification/Kcp_Host.thy ===== *)
theory Kcp_Host
  imports Iqueue Kcp_Flush
begin

text \<open>
  What ikcp.c asks of the program around it: memory, log output and the output callback. A function pointer set by the caller is a name (\<open>'f\<close>), and a call
  of it is a value that says which function gets which argument. \<open>ikcp_release\<close> is complete here, on the heap of theory
  Iqueue: the four queues by the addresses of their heads, the other blocks by their addresses. A segment has the address of its queue node, its first field.
\<close>

section \<open>Memory\<close>

record 'f allocator =
  ikcp_malloc_hook :: "'f option"
  ikcp_free_hook :: "'f option"

datatype 'f malloc_call = Std_malloc nat | Hook_malloc 'f nat

datatype 'f free_call = Std_free addr | Hook_free 'f addr

definition allocator_new :: "'f allocator" where
  "allocator_new = \<lparr>ikcp_malloc_hook = None, ikcp_free_hook = None\<rparr>"

definition ikcp_malloc :: "'f allocator \<Rightarrow> nat \<Rightarrow> 'f malloc_call" where
  "ikcp_malloc a n = (case ikcp_malloc_hook a of Some f \<Rightarrow> Hook_malloc f n | None \<Rightarrow> Std_malloc n)"

definition ikcp_free :: "'f allocator \<Rightarrow> addr \<Rightarrow> 'f free_call" where
  "ikcp_free a p = (case ikcp_free_hook a of Some f \<Rightarrow> Hook_free f p | None \<Rightarrow> Std_free p)"

definition ikcp_allocator :: "'f option \<Rightarrow> 'f option \<Rightarrow> 'f allocator \<Rightarrow> 'f allocator" where
  "ikcp_allocator new_malloc new_free a = a\<lparr>ikcp_malloc_hook := new_malloc, ikcp_free_hook := new_free\<rparr>"

definition ikcp_segment_delete :: "'f allocator \<Rightarrow> addr \<Rightarrow> 'f free_call" where
  "ikcp_segment_delete a seg = ikcp_free a seg"

section \<open>Callbacks\<close>

text \<open>The fields of the control block that reach callbacks, as \<open>ikcp_create\<close> and \<open>ikcp_setoutput\<close> set them; \<open>output_hook\<close> is the field \<open>output\<close>.\<close>

record ('f, 'u) callbacks =
  user :: 'u
  logmask :: i32
  writelog :: "'f option"
  output_hook :: "'f option"

datatype ('f, 'u) host_call = Writelog 'f string 'u | Output 'f "byte list" 'u

definition IKCP_LOG_OUTPUT :: i32 where "IKCP_LOG_OUTPUT = 1"

definition callbacks_new :: "'u \<Rightarrow> ('f, 'u) callbacks" where
  "callbacks_new u = \<lparr>user = u, logmask = 0, writelog = None, output_hook = None\<rparr>"

definition callbacks_setoutput :: "'f \<Rightarrow> ('f, 'u) callbacks \<Rightarrow> ('f, 'u) callbacks" where
  "callbacks_setoutput f kcp = kcp\<lparr>output_hook := Some f\<rparr>"

definition ikcp_canlog :: "('f, 'u) callbacks \<Rightarrow> i32 \<Rightarrow> i32" where
  "ikcp_canlog kcp lm = (if lm AND logmask kcp = 0 \<or> writelog kcp = None then 0 else 1)"

text \<open>
  \<open>text\<close> is what \<open>fmt\<close> and the arguments give. \<open>vsprintf\<close> writes it with a terminating 0 into an array of
  1024 bytes.
\<close>

definition ikcp_log :: "('f, 'u) callbacks \<Rightarrow> i32 \<Rightarrow> string \<Rightarrow> ('f, 'u) host_call list result" where
  "ikcp_log kcp lm text =
     (if lm AND logmask kcp = 0 then Inr []
      else case writelog kcp of
        None \<Rightarrow> Inr []
      | Some f \<Rightarrow> if length text + 1 > 1024 then Inl Buffer_overflow else Inr [Writelog f text (user kcp)])"

text \<open>What \<open>%ld\<close> prints of a size.\<close>

fun decimal :: "nat \<Rightarrow> string" where
  "decimal n = (if n < 10 then [char_of (48 + n)] else decimal (n div 10) @ [char_of (48 + n mod 10)])"

definition output_line :: "byte list \<Rightarrow> string" where
  "output_line data = ''[RO] '' @ decimal (length data) @ '' bytes''"

text \<open>\<open>ikcp_output\<close> with all its calls; in theory Kcp_Flush it only collects the datagrams.\<close>

definition output_calls :: "('f, 'u) callbacks \<Rightarrow> byte list \<Rightarrow> ('f, 'u) host_call list result" where
  "output_calls kcp data =
     (case output_hook kcp of
        None \<Rightarrow> Inl Assertion_failed
      | Some f \<Rightarrow>
          bind (if ikcp_canlog kcp IKCP_LOG_OUTPUT \<noteq> 0 then ikcp_log kcp IKCP_LOG_OUTPUT (output_line data) else Inr [])
            (\<lambda>calls. if data = [] then Inr calls else Inr (calls @ [Output f data (user kcp)])))"

fun datagrams :: "('f, 'u) host_call list \<Rightarrow> byte list list" where
  "datagrams [] = []"
| "datagrams (Writelog f s u # calls) = datagrams calls"
| "datagrams (Output f d u # calls) = d # datagrams calls"

lemma datagrams_append [simp]: "datagrams (xs @ ys) = datagrams xs @ datagrams ys"
  by (induction xs rule: datagrams.induct) simp_all

declare decimal.simps [simp del]

lemma decimal_length: "n < 10 ^ Suc k \<Longrightarrow> length (decimal n) \<le> Suc k"
proof (induction k arbitrary: n)
  case 0
  then show ?case by (simp add: decimal.simps [of n])
next
  case (Suc k)
  have "n div 10 < 10 ^ Suc k" using Suc.prems by (simp add: less_mult_imp_div_less)
  from Suc.IH [OF this] show ?case by (simp add: decimal.simps [of n])
qed

lemma output_line_fits: "length data < 2 ^ 31 \<Longrightarrow> length (output_line data) \<le> 24"
  using decimal_length [of "length data" 9] by (simp add: output_line_def)

text \<open>
  The line \<open>ikcp_output\<close> logs always fits the array; whatever is logged, the output callback gets the datagrams of
  the model of theory Kcp_Flush.
\<close>

theorem output_calls_correct:
  assumes "output_cb k = (output_hook kcp \<noteq> None)" and "length data < 2 ^ 31"
  shows "ikcp_output k data out = bind (output_calls kcp data) (\<lambda>calls. Inr (out @ datagrams calls))"
proof (cases "output_hook kcp")
  case None
  then show ?thesis using assms(1) by (simp add: ikcp_output_def output_calls_def)
next
  case (Some f)
  have "length (output_line data) + 1 \<le> 1024" using output_line_fits [OF assms(2)] by simp
  then show ?thesis using assms(1) Some
    by (auto simp: ikcp_output_def output_calls_def ikcp_log_def ikcp_canlog_def split: option.split)
qed

text \<open>A caller's log line of 1024 characters or more overruns the array.\<close>

theorem ikcp_log_overflows:
  assumes "ikcp_canlog kcp lm = 1" and "length text \<ge> 1024"
  shows "ikcp_log kcp lm text = Inl Buffer_overflow"
  using assms by (auto simp: ikcp_canlog_def ikcp_log_def split: if_splits)

section \<open>Release\<close>

record kcp_blocks =
  blk_kcp :: addr
  blk_snd_queue :: addr
  blk_rcv_queue :: addr
  blk_snd_buf :: addr
  blk_rcv_buf :: addr
  blk_buffer :: "addr option"
  blk_acklist :: "addr option"

text \<open>What the caller can still see: the calls of the deallocator, in order. None is a loop that does not end.\<close>

definition ikcp_release :: "'f allocator \<Rightarrow> heap \<Rightarrow> kcp_blocks \<Rightarrow> (heap \<times> 'f free_call list) option" where
  "ikcp_release a h kcp =
     (case ikcp_release_queues h (blk_snd_buf kcp) (blk_rcv_buf kcp) (blk_snd_queue kcp) (blk_rcv_queue kcp) of
        None \<Rightarrow> None
      | Some (h, segs) \<Rightarrow>
          Some (h, map (ikcp_segment_delete a) segs @
            (case blk_buffer kcp of None \<Rightarrow> [] | Some p \<Rightarrow> [ikcp_free a p]) @
            (case blk_acklist kcp of None \<Rightarrow> [] | Some p \<Rightarrow> [ikcp_free a p]) @
            [ikcp_free a (blk_kcp kcp)]))"

definition freed_block :: "'f free_call \<Rightarrow> addr" where
  "freed_block c = (case c of Std_free p \<Rightarrow> p | Hook_free f p \<Rightarrow> p)"

lemma freed_block_free [simp]: "freed_block (ikcp_free a p) = p"
  by (simp add: freed_block_def ikcp_free_def split: option.split)

text \<open>The blocks besides the segments.\<close>

definition other_blocks :: "kcp_blocks \<Rightarrow> addr list" where
  "other_blocks kcp = (case blk_buffer kcp of None \<Rightarrow> [] | Some p \<Rightarrow> [p]) @ (case blk_acklist kcp of None \<Rightarrow> [] | Some p \<Rightarrow> [p]) @ [blk_kcp kcp]"

lemma ikcp_release_eq:
  "ikcp_release a h kcp =
     (case ikcp_release_queues h (blk_snd_buf kcp) (blk_rcv_buf kcp) (blk_snd_queue kcp) (blk_rcv_queue kcp) of
        None \<Rightarrow> None | Some (h, segs) \<Rightarrow> Some (h, map (ikcp_free a) (segs @ other_blocks kcp)))"
  by (auto simp: ikcp_release_def other_blocks_def ikcp_segment_delete_def [abs_def] split: option.splits)

text \<open>C35: \<open>ikcp_release\<close> ends and frees everything the control block owns, each block exactly once and the control block last: the
  segments of the four queues in the order of the queues, the output block, the list of acknowledgements if there is one. All calls go to the installed
  deallocator, and the queues are empty when the control block is freed.\<close>

theorem ikcp_release_correct:
  assumes "iqueue h (blk_snd_buf kcp) a" and "iqueue h (blk_rcv_buf kcp) b" and "iqueue h (blk_snd_queue kcp) c" and "iqueue h (blk_rcv_queue kcp) d"
    and "distinct ((blk_snd_buf kcp # a) @ (blk_rcv_buf kcp # b) @ (blk_snd_queue kcp # c) @ (blk_rcv_queue kcp # d))"
    and "distinct (a @ b @ c @ d @ other_blocks kcp)"
  shows "\<exists>h' calls. ikcp_release al h kcp = Some (h', calls) \<and> map freed_block calls = a @ b @ c @ d @ other_blocks kcp \<and>
    distinct (map freed_block calls) \<and> last (map freed_block calls) = blk_kcp kcp \<and> (\<forall>call\<in>set calls. call = ikcp_free al (freed_block call)) \<and>
    iqueue h' (blk_snd_buf kcp) [] \<and> iqueue h' (blk_rcv_buf kcp) [] \<and> iqueue h' (blk_snd_queue kcp) [] \<and> iqueue h' (blk_rcv_queue kcp) []"
proof -
  obtain h' where h': "ikcp_release_queues h (blk_snd_buf kcp) (blk_rcv_buf kcp) (blk_snd_queue kcp) (blk_rcv_queue kcp) = Some (h', a @ b @ c @ d)"
    "iqueue h' (blk_snd_buf kcp) []" "iqueue h' (blk_rcv_buf kcp) []" "iqueue h' (blk_snd_queue kcp) []" "iqueue h' (blk_rcv_queue kcp) []"
    using ikcp_release_frees [OF assms(1-5)] by blast
  let ?calls = "map (ikcp_free al) (a @ b @ c @ d @ other_blocks kcp)"
  have "ikcp_release al h kcp = Some (h', ?calls)" by (simp add: ikcp_release_eq h'(1))
  moreover have "map freed_block ?calls = a @ b @ c @ d @ other_blocks kcp" by (simp add: comp_def)
  moreover have "last (a @ b @ c @ d @ other_blocks kcp) = blk_kcp kcp" by (simp add: other_blocks_def)
  ultimately show ?thesis using h'(2-5) assms(6) by (intro exI [of _ h'] exI [of _ ?calls]) auto
qed

section \<open>Instances\<close>

theorem ikcp_release_correct_witness:
  "\<exists>h'. ikcp_release (ikcp_allocator (Some 1) (Some 2) allocator_new) (iqueue_init (iqueue_init sample_heap 3) 4)
      \<lparr>blk_kcp = 9, blk_snd_queue = 3, blk_rcv_queue = 4, blk_snd_buf = 1, blk_rcv_buf = 2, blk_buffer = Some 8, blk_acklist = None\<rparr> =
    Some (h', [Hook_free (2 :: nat) 5, Hook_free 2 6, Hook_free 2 8, Hook_free 2 9])"
proof -
  let ?h = "iqueue_init (iqueue_init sample_heap 3) 4" and ?al = "ikcp_allocator (Some 1) (Some (2 :: nat)) allocator_new"
  let ?k = "\<lparr>blk_kcp = 9, blk_snd_queue = 3, blk_rcv_queue = 4, blk_snd_buf = 1, blk_rcv_buf = 2, blk_buffer = Some 8, blk_acklist = None\<rparr>"
  have "iqueue ?h (blk_snd_buf ?k) [5, 6]" "iqueue ?h (blk_rcv_buf ?k) []" "iqueue ?h (blk_snd_queue ?k) []" "iqueue ?h (blk_rcv_queue ?k) []"
    by (simp_all add: sample_heap_def iqueue_def iqueue_add_tail_def iqueue_init_def set_next_def set_prev_def Let_def)
  from ikcp_release_correct [OF this, of ?al] obtain h' calls where
    c: "ikcp_release ?al ?h ?k = Some (h', calls)" "map freed_block calls = [5, 6, 8, 9]" "\<forall>call\<in>set calls. call = ikcp_free ?al (freed_block call)"
    by (auto simp: other_blocks_def)
  have "calls = map (\<lambda>call. ikcp_free ?al (freed_block call)) calls" using c(3) by (simp add: map_idI)
  also have "\<dots> = map (ikcp_free ?al) (map freed_block calls)" by simp
  finally show ?thesis using c(1) by (simp add: c(2) ikcp_free_def ikcp_allocator_def)
qed

end
