(* ===== verification/Kcp_Send.thy ===== *)
theory Kcp_Send
  imports Kcp_Config
begin

text \<open>
  The sending side's entry of ikcp.c: \<open>ikcp_send\<close> cuts the caller's bytes into segments and
  appends them to \<open>snd_queue\<close>; in stream mode it first fills up the last segment. The
  allocation of a segment succeeds: the code asserts it.
\<close>

text \<open>
  Stream mode: extend the last queued segment as far as the segment size allows. The new segment
  takes the place of the old one at the end of the queue. Returns what is left of the buffer.
\<close>

definition send_extend :: "ikcpcb \<Rightarrow> byte list \<Rightarrow> int \<Rightarrow> ikcpcb \<times> byte list \<times> int" where
  "send_extend kcp buf len =
     (if snd_queue kcp = [] then (kcp, buf, len)
      else let old = last (snd_queue kcp) in
           if seg_len old < mss kcp
           then let capacity = sint (mss kcp - seg_len old);
                    extend = (if len < capacity then len else capacity);
                    seg = ikcp_segment_new
                      \<lparr>seg_data := take (unat (seg_len old)) (seg_data old) @ take (nat extend) buf,
                       seg_len := seg_len old + word_of_int extend,
                       seg_frg := 0\<rparr>
                in (kcp\<lparr>snd_queue := butlast (snd_queue kcp) @ [seg]\<rparr>, drop (nat extend) buf, len - extend)
           else (kcp, buf, len))"

definition send_count :: "ikcpcb \<Rightarrow> int \<Rightarrow> int" where
  "send_count kcp len =
     (if len \<le> sint (mss kcp) then 1
      else sint ((word_of_int len + mss kcp - 1) div mss kcp))"

text \<open>The fragment loop; the first argument is the number of fragments still to make.\<close>

fun send_fragments :: "nat \<Rightarrow> ikcpcb \<Rightarrow> byte list \<Rightarrow> int \<Rightarrow> ikcpcb" where
  "send_fragments 0 kcp buf len = kcp"
| "send_fragments (Suc left) kcp buf len =
     (let size = (if len > sint (mss kcp) then sint (mss kcp) else len);
          seg = ikcp_segment_new
            \<lparr>seg_data := take (nat size) buf,
             seg_len := word_of_int size,
             seg_frg := (if stream kcp = 0 then of_nat left else 0)\<rparr>
      in send_fragments left
           (kcp\<lparr>snd_queue := snd_queue kcp @ [seg], nsnd_que := nsnd_que kcp + 1\<rparr>)
           (drop (nat size) buf) (len - size))"

definition ikcp_send :: "ikcpcb \<Rightarrow> byte list \<Rightarrow> int \<Rightarrow> (int \<times> ikcpcb) result" where
  "ikcp_send kcp buf len =
     (if \<not> mss kcp > 0 then Inl Assertion_failed
      else if len < 0 then Inr (-1, kcp)
      else let (kcp, buf, len) = (if stream kcp \<noteq> 0 then send_extend kcp buf len else (kcp, buf, len))
      in if stream kcp \<noteq> 0 \<and> len \<le> 0 then Inr (0, kcp)
      else let count = send_count kcp len
      in if count \<ge> sint IKCP_WND_RCV then Inr (-2, kcp)
      else let count = (if count = 0 then 1 else count)
      in Inr (0, send_fragments (nat count) kcp buf len))"

section \<open>Fragments\<close>

text \<open>The segments the fragment loop makes, \<open>m\<close> bytes each but the last.\<close>

definition fragment :: "bool \<Rightarrow> nat \<Rightarrow> byte list \<Rightarrow> IKCPSEG" where
  "fragment strm left bs = ikcp_segment_new
     \<lparr>seg_data := bs, seg_len := of_nat (length bs), seg_frg := (if strm then 0 else of_nat left)\<rparr>"

fun fragments :: "bool \<Rightarrow> nat \<Rightarrow> nat \<Rightarrow> byte list \<Rightarrow> IKCPSEG list" where
  "fragments strm m 0 bs = []"
| "fragments strm m (Suc left) bs = fragment strm left (take m bs) # fragments strm m left (drop m bs)"

lemma fragment_simps [simp]:
  "seg_data (fragment strm left bs) = bs"
  "seg_frg (fragment strm left bs) = (if strm then 0 else of_nat left)"
  "seg_len (fragment strm left bs) = of_nat (length bs)"
  by (simp_all add: fragment_def)

lemma length_fragments [simp]: "length (fragments strm m n bs) = n"
  by (induction n arbitrary: bs) auto

lemma payload_fragments: "length bs \<le> n * m \<Longrightarrow> payload (fragments strm m n bs) = bs"
  by (induction n arbitrary: bs) auto

lemma fragments_ok:
  "m < 2147483648 \<Longrightarrow> n \<le> 256 \<Longrightarrow> s \<in> set (fragments strm m n bs) \<Longrightarrow>
    seg_ok s \<and> length (seg_data s) \<le> m"
proof (induction n arbitrary: bs)
  case (Suc n)
  have "unat (of_nat n :: u32) < 256" using Suc.prems(2) by (simp add: unat_of_nat32)
  then have "(of_nat n :: u32) < 256" by (simp add: word_less_nat_alt)
  with Suc show ?case by (auto simp: seg_ok_def unat_of_nat32)
qed simp

lemma fragments_frg: "map seg_frg (fragments False m n bs) = rev (map of_nat [0..<n])"
  by (induction n arbitrary: bs) auto

lemma fragments_frg_stream: "map seg_frg (fragments True m n bs) = replicate n 0"
  by (induction n arbitrary: bs) auto

lemma split_message_fragments:
  "0 < n \<Longrightarrow> n \<le> 256 \<Longrightarrow> split_message (fragments False m n bs @ rest) = (fragments False m n bs, rest)"
proof (induction n arbitrary: bs)
  case (Suc n)
  have "(of_nat n :: u32) = 0 \<longleftrightarrow> n = 0" using Suc.prems(2) of_nat32_inject [of n 0] by simp
  moreover have "split_message (fragments False m n (drop m bs) @ rest) = (fragments False m n (drop m bs), rest)"
    if "0 < n" using Suc.IH [OF that] Suc.prems(2) by simp
  ultimately show ?case by (cases "n = 0") simp_all
qed simp

lemma send_fragments_eq:
  assumes "0 < sint (mss kcp)"
  shows "send_fragments n kcp buf (int (length buf)) =
    kcp\<lparr>snd_queue := snd_queue kcp @ fragments (stream kcp \<noteq> 0) (nat (sint (mss kcp))) n buf,
        nsnd_que := nsnd_que kcp + of_nat n\<rparr>"
  using assms
proof (induction n arbitrary: kcp buf)
  case (Suc n)
  let ?m = "nat (sint (mss kcp))"
  define sz where "sz = (if int (length buf) > sint (mss kcp) then sint (mss kcp) else int (length buf))"
  have size: "word_of_int sz = (of_nat (length (take ?m buf)) :: u32)" "int (length buf) - sz = int (length (drop ?m buf))"
    "take (nat sz) buf = take ?m buf" "drop (nat sz) buf = drop ?m buf"
    using Suc.prems by (auto simp: sz_def min_def)
  let ?k = "kcp\<lparr>snd_queue := snd_queue kcp @ [fragment (stream kcp \<noteq> 0) n (take ?m buf)],
        nsnd_que := nsnd_que kcp + 1\<rparr>"
  have "(if stream kcp = 0 then of_nat n else 0) = (if stream kcp \<noteq> 0 then 0 else of_nat n :: u32)" by simp
  then have "send_fragments (Suc n) kcp buf (int (length buf)) =
      send_fragments n ?k (drop ?m buf) (int (length (drop ?m buf)))"
    unfolding send_fragments.simps(2) Let_def sz_def [symmetric] size fragment_def by (rule arg_cong)
  then show ?case using Suc.IH [of ?k "drop ?m buf"] Suc.prems by (simp add: add.assoc)
qed simp

lemma send_count_eq:
  assumes "0 < sint (mss kcp)" and "0 \<le> len" and "len < 2147483648"
  shows "send_count kcp len = (if len \<le> sint (mss kcp) then 1 else (len + sint (mss kcp) - 1) div sint (mss kcp))"
proof (cases "len \<le> sint (mss kcp)")
  case False
  note m = sint_lt_uint [OF assms(1)]
  let ?m = "uint (mss kcp)"
  have w: "uint (word_of_int len :: u32) = len" using assms(2,3) by (intro uint_of_int32) auto
  have "uint (word_of_int len + mss kcp :: u32) = len + ?m" using m assms(2,3) by (simp only: uint_add32 w) simp
  then have "uint (word_of_int len + mss kcp - 1 :: u32) = len + ?m - 1" using m assms(2) by (simp only: uint_diff32) simp
  then have q: "uint ((word_of_int len + mss kcp - 1) div mss kcp) = (len + ?m - 1) div ?m"
    by (simp only: uint_div)
  have "0 \<le> (len - 1) * (?m - 1)" using m False by (intro mult_nonneg_nonneg) linarith+
  then have "len + ?m - 1 \<le> len * ?m" by (simp add: algebra_simps)
  then have "(len + ?m - 1) div ?m \<le> len * ?m div ?m" using m by (intro zdiv_mono1) linarith+
  then have "(len + ?m - 1) div ?m \<le> len" using m by simp
  then have "(len + ?m - 1) div ?m < 2147483648" using assms(3) by linarith
  with q m False show ?thesis by (simp add: send_count_def sint32_eq)
qed (simp add: send_count_def)

section \<open>The whole call\<close>

text \<open>Filling up the last segment keeps the bytes of the queue and its invariant.\<close>

lemma payload_butlast_last: "q \<noteq> [] \<Longrightarrow> payload q = payload (butlast q) @ seg_data (last q)"
  by (metis append_butlast_last_id payload_simps(1,2,3) append_Nil2)

lemma send_extend_step:
  assumes "seg_ok old" and "seg_len old < mss kcp" and "0 < sint (mss kcp)"
  shows "\<exists>e seg. e \<le> length buf \<and> seg_ok seg \<and> seg_len seg \<le> mss kcp \<and> seg_data seg = seg_data old @ take e buf \<and>
    (if int (length buf) < sint (mss kcp - seg_len old) then int (length buf) else sint (mss kcp - seg_len old)) = int e \<and>
    ikcp_segment_new\<lparr>seg_data := take (unat (seg_len old)) (seg_data old) @ take e buf,
      seg_len := seg_len old + word_of_int (int e), seg_frg := 0\<rparr> = seg"
proof -
  have o: "unat (seg_len old) = length (seg_data old)" using assms(1) by (simp only: seg_ok_def)
  then have ou: "uint (seg_len old) = int (length (seg_data old))" by (metis uint_nat)
  note m = sint_lt_uint [OF assms(3)]
  have lt: "uint (seg_len old) < uint (mss kcp)" using assms(2) by (simp only: word_less_def)
  obtain c where c: "uint (mss kcp) - uint (seg_len old) = int c"
    using lt nonneg_eq_int [of "uint (mss kcp) - uint (seg_len old)"] by auto
  have "int c < 2147483648" using m c ou by linarith
  moreover have "uint (mss kcp - seg_len old) = int c" using lt c by (simp only: uint_diff32) simp
  ultimately have cap: "sint (mss kcp - seg_len old) = int c" by (simp only: sint32_eq if_True)
  define e where "e = min (length buf) c"
  have ext: "(if int (length buf) < sint (mss kcp - seg_len old) then int (length buf) else sint (mss kcp - seg_len old)) = int e"
    unfolding cap e_def by (simp add: min_def)
  have e: "e \<le> length buf" "e \<le> c" by (simp_all add: e_def)
  define seg where "seg = ikcp_segment_new\<lparr>seg_data := take (unat (seg_len old)) (seg_data old) @ take e buf,
      seg_len := seg_len old + word_of_int (int e), seg_frg := 0\<rparr>"
  have data: "seg_data seg = seg_data old @ take e buf" unfolding seg_def o by simp
  have "int (length (seg_data old)) + int e \<le> uint (mss kcp)" using e(2) c ou by linarith
  then have b: "int (length (seg_data old)) + int e < 2147483648" using m by linarith
  have "uint (word_of_int (int e) :: u32) = int e" using b by (intro uint_of_int32) linarith+
  then have len: "uint (seg_len seg) = int (length (seg_data old) + e)"
    using b by (simp add: seg_def uint_add32 ou)
  have ld: "length (seg_data seg) = length (seg_data old) + e" using e(1) by (simp add: data)
  have "seg_len seg \<le> mss kcp" using e(2) c ou len by (simp only: word_le_def)
  moreover have "unat (seg_len seg) = length (seg_data seg)" by (simp only: unat_eq_nat_uint len ld nat_int)
  moreover have "length (seg_data seg) < 2147483648" using b ld by linarith
  moreover have "seg_frg seg = 0" by (simp add: seg_def)
  ultimately show ?thesis
    using e(1) data ext seg_def by (intro exI [of _ e] exI [of _ seg]) (simp add: seg_ok_def)
qed

lemma snd_queue_change_ok:
  assumes "snd_ok kcp" and "\<forall>s\<in>set q. seg_ok s \<and> seg_len s \<le> mss kcp" and "n = of_nat (length q)"
  shows "snd_ok (kcp\<lparr>snd_queue := q, nsnd_que := n\<rparr>)" (is "snd_ok ?k")
proof -
  have "snd_window_ok ?k"
    using snd_okD(1) [OF assms(1)] assms(2,3) by (auto simp: snd_window_ok_def)
  moreover have "first_unacked ?k = first_unacked kcp" by (rule first_unacked_cong) simp_all
  ultimately show ?thesis using snd_okD(2) [OF assms(1)] by (simp add: snd_ok_def)
qed

lemma send_extend_spec:
  assumes "snd_ok kcp" and "0 < sint (mss kcp)" and "send_extend kcp buf (int (length buf)) = (kcp', buf', len')"
  shows "\<exists>q. kcp' = kcp\<lparr>snd_queue := q\<rparr> \<and> payload q @ buf' = payload (snd_queue kcp) @ buf \<and>
    len' = int (length buf') \<and> length buf' \<le> length buf \<and> snd_ok (kcp\<lparr>snd_queue := q\<rparr>)"
proof (cases "snd_queue kcp \<noteq> [] \<and> seg_len (last (snd_queue kcp)) < mss kcp")
  case False
  then show ?thesis using assms(1,3) by (intro exI [of _ "snd_queue kcp"]) (auto simp: send_extend_def split: if_splits)
next
  case True
  let ?q = "snd_queue kcp" and ?old = "last (snd_queue kcp)"
  note w = snd_window_okD [OF snd_okD(1) [OF assms(1)]]
  have "?old \<in> set ?q" using True by simp
  then have old: "seg_ok ?old" using w(8) by blast
  obtain e seg where s: "e \<le> length buf" "seg_ok seg" "seg_len seg \<le> mss kcp" "seg_data seg = seg_data ?old @ take e buf"
    and x: "(if int (length buf) < sint (mss kcp - seg_len ?old) then int (length buf) else sint (mss kcp - seg_len ?old)) = int e"
    "ikcp_segment_new\<lparr>seg_data := take (unat (seg_len ?old)) (seg_data ?old) @ take e buf,
      seg_len := seg_len ?old + word_of_int (int e), seg_frg := 0\<rparr> = seg"
    using send_extend_step [OF old _ assms(2)] True by blast
  have "send_extend kcp buf (int (length buf)) =
      (kcp\<lparr>snd_queue := butlast ?q @ [seg]\<rparr>, drop e buf, int (length buf) - int e)"
    using True unfolding send_extend_def Let_def by (simp only: x nat_int if_True if_False simp_thms)
  then have k: "kcp' = kcp\<lparr>snd_queue := butlast ?q @ [seg]\<rparr>" "buf' = drop e buf" "len' = int (length buf) - int e"
    using assms(3) by simp_all
  have "\<forall>t\<in>set (butlast ?q @ [seg]). seg_ok t \<and> seg_len t \<le> mss kcp"
    using w(8) s(2,3) by (auto dest: in_set_butlastD)
  moreover have "nsnd_que kcp = of_nat (length (butlast ?q @ [seg]))" using w(2) True by simp
  ultimately have "snd_ok (kcp\<lparr>snd_queue := butlast ?q @ [seg], nsnd_que := nsnd_que kcp\<rparr>)"
    by (rule snd_queue_change_ok [OF assms(1)])
  then have "snd_ok (kcp\<lparr>snd_queue := butlast ?q @ [seg]\<rparr>)" by simp
  moreover have "payload (butlast ?q @ [seg]) @ drop e buf = payload ?q @ buf"
    using True s(4) payload_butlast_last [of ?q] by simp
  ultimately show ?thesis using k s(1) by (intro exI [of _ "butlast ?q @ [seg]"]) auto
qed

text \<open>Appending fragments.\<close>

lemma append_fragments_ok:
  assumes "snd_ok kcp" and "0 < sint (mss kcp)" and "n \<le> 256"
  shows "snd_ok (kcp\<lparr>snd_queue := snd_queue kcp @ fragments st (nat (sint (mss kcp))) n buf,
    nsnd_que := nsnd_que kcp + of_nat n\<rparr>)" (is "snd_ok ?k")
proof -
  let ?m = "nat (sint (mss kcp))"
  obtain mm where m: "?m = mm" "uint (mss kcp) = int mm" "mm < 2147483648" using nat_sint_pos [OF assms(2)] by blast
  have f: "seg_ok s \<and> seg_len s \<le> mss kcp" if "s \<in> set (fragments st ?m n buf)" for s
  proof -
    have s: "seg_ok s" "length (seg_data s) \<le> mm" using fragments_ok [OF m(3) assms(3)] that by (auto simp only: m(1))
    then have "int (unat (seg_len s)) \<le> uint (mss kcp)" by (simp only: seg_ok_def m(2))
    then show ?thesis using s(1) by (simp add: word_le_def)
  qed
  note w = snd_window_okD [OF snd_okD(1) [OF assms(1)]]
  show ?thesis
    by (rule snd_queue_change_ok [OF assms(1)]) (use w(2,8) f in auto)
qed

text \<open>The number of fragments as a natural number, and that they hold all bytes.\<close>

definition fragment_count :: "nat \<Rightarrow> nat \<Rightarrow> nat" where
  "fragment_count m len = (if len \<le> m then 1 else (len + m - 1) div m)"

lemma fragment_count_enough: "0 < m \<Longrightarrow> len \<le> fragment_count m len * m"
proof -
  assume m: "0 < m"
  let ?q = "(len + m - 1) div m"
  have "(len + m - 1) mod m < m" using m by simp
  moreover have "?q * m + (len + m - 1) mod m = len + m - 1" by simp
  ultimately have "len \<le> ?q * m" using m by linarith
  then show ?thesis by (simp add: fragment_count_def)
qed

lemma fragment_count_pos: "0 < m \<Longrightarrow> 0 < fragment_count m len"
  by (auto simp: fragment_count_def div_greater_zero_iff)

lemma send_count_nat:
  assumes "0 < sint (mss kcp)" and "len < 2147483648"
  shows "send_count kcp (int len) = int (fragment_count (nat (sint (mss kcp))) len)"
proof -
  obtain m where m: "sint (mss kcp) = int m" "nat (sint (mss kcp)) = m" "0 < m" using nat_sint_pos [OF assms(1)] by blast
  have "int len + int m - 1 = int (len + m - 1)" using m(3) by linarith
  then have "(int len + int m - 1) div int m = int ((len + m - 1) div m)" by (simp only: zdiv_int)
  moreover have "send_count kcp (int len) =
      (if int len \<le> sint (mss kcp) then 1 else (int len + sint (mss kcp) - 1) div sint (mss kcp))"
    using assms by (intro send_count_eq) linarith+
  ultimately show ?thesis by (simp only: m fragment_count_def of_nat_le_iff if_distrib [of int] of_nat_1 nat_int)
qed

text \<open>What the tail of \<open>ikcp_send\<close> does once the number of fragments is known.\<close>

lemma send_tail:
  assumes "0 < sint (mss kcp)" and "length buf < 2147483648"
  shows "(let count = send_count kcp (int (length buf))
      in if count \<ge> sint IKCP_WND_RCV then Inr (-2, kcp)
      else let count = (if count = 0 then 1 else count)
      in Inr (0, send_fragments (nat count) kcp buf (int (length buf)))) =
    (let m = nat (sint (mss kcp)); n = fragment_count m (length buf) in
     if n \<ge> 128 then Inr (-2, kcp)
     else Inr (0, kcp\<lparr>snd_queue := snd_queue kcp @ fragments (stream kcp \<noteq> 0) m n buf, nsnd_que := nsnd_que kcp + of_nat n\<rparr>))"
proof -
  define n where "n = fragment_count (nat (sint (mss kcp))) (length buf)"
  have n: "0 < n" unfolding n_def using assms(1) by (intro fragment_count_pos) simp
  have c: "send_count kcp (int (length buf)) = int n" unfolding n_def by (rule send_count_nat [OF assms])
  have w: "int n \<ge> sint IKCP_WND_RCV \<longleftrightarrow> n \<ge> 128" by (simp add: IKCP_WND_RCV_def)
  have z: "(int n = 0) = False" using n by simp
  show ?thesis
    by (simp only: Let_def c w z if_False nat_int send_fragments_eq [OF assms(1)] n_def [symmetric])
qed

lemma ikcp_send_message_mode:
  assumes "0 < sint (mss kcp)" and "length buf < 2147483648" and "stream kcp = 0"
  shows "ikcp_send kcp buf (int (length buf)) =
    (let m = nat (sint (mss kcp)); n = fragment_count m (length buf) in
     if n \<ge> 128 then Inr (-2, kcp)
     else Inr (0, kcp\<lparr>snd_queue := snd_queue kcp @ fragments False m n buf, nsnd_que := nsnd_que kcp + of_nat n\<rparr>))"
proof -
  have pos: "mss kcp > 0" using sint_lt_uint [OF assms(1)] by (simp add: word_less_def)
  have neg: "(int (length buf) < 0) = False" by simp
  have "ikcp_send kcp buf (int (length buf)) =
    (let count = send_count kcp (int (length buf))
      in if count \<ge> sint IKCP_WND_RCV then Inr (-2, kcp)
      else let count = (if count = 0 then 1 else count)
      in Inr (0, send_fragments (nat count) kcp buf (int (length buf))))"
    by (simp only: ikcp_send_def pos neg assms(3) simp_thms if_True if_False Let_def prod.case)
  then show ?thesis unfolding send_tail [OF assms(1,2)] by (simp only: assms(3) simp_thms)
qed

text \<open>In stream mode the last queued segment is extended first; what is left goes the same way.\<close>

lemma append_eq_longer:
  assumes "a @ b = c @ d" and "length b \<le> length d"
  obtains u where "d = u @ b" and "a = c @ u"
proof -
  have "length a + length b = length c + length d" using arg_cong [OF assms(1), of length] by simp
  then have "length c \<le> length a" using assms(2) by linarith
  with assms(1) show thesis by (auto simp: append_eq_append_conv2 intro: that)
qed

lemma ikcp_send_stream_tail:
  assumes "0 < sint (mss kcp)" and "length buf' < 2147483648" and "stream kcp \<noteq> 0" and "stream k \<noteq> 0" and "mss k = mss kcp"
    and "send_extend kcp buf (int (length buf)) = (k, buf', int (length buf'))"
  shows "ikcp_send kcp buf (int (length buf)) =
     (let m = nat (sint (mss kcp)); n = fragment_count m (length buf') in
      if buf' = [] then Inr (0, k) else if n \<ge> 128 then Inr (-2, k)
      else Inr (0, k\<lparr>snd_queue := snd_queue k @ fragments True m n buf', nsnd_que := nsnd_que k + of_nat n\<rparr>))"
proof -
  have pos: "0 < mss kcp" using sint_lt_uint [OF assms(1)] by (simp add: word_less_def)
  have neg: "(int (length buf) < 0) = False" by simp
  have mk: "0 < sint (mss k)" using assms(1) by (simp only: assms(5))
  have "ikcp_send kcp buf (int (length buf)) = (if buf' = [] then Inr (0, k)
     else let count = send_count k (int (length buf'))
      in if count \<ge> sint IKCP_WND_RCV then Inr (-2, k)
      else let count = (if count = 0 then 1 else count)
      in Inr (0, send_fragments (nat count) k buf' (int (length buf'))))"
    using assms(3,4)
    by (simp only: ikcp_send_def pos neg simp_thms if_True if_False Let_def assms(6) prod.case of_nat_le_0_iff length_0_conv)
  then show ?thesis unfolding send_tail [OF mk assms(2)] using assms(4) by (simp only: Let_def assms(5) simp_thms)
qed

lemma ikcp_send_stream_mode:
  assumes "snd_ok kcp" and "0 < sint (mss kcp)" and "length buf < 2147483648" and "stream kcp \<noteq> 0"
  shows "\<exists>r kcp'. ikcp_send kcp buf (int (length buf)) = Inr (r, kcp') \<and> snd_ok kcp' \<and> (r = 0 \<or> r = -2) \<and>
    (r = 0 \<longrightarrow> payload (snd_queue kcp') = payload (snd_queue kcp) @ buf) \<and>
    (\<exists>done rest. buf = done @ rest \<and> payload (snd_queue kcp') = payload (snd_queue kcp) @ done) \<and>
    (\<exists>q n. kcp' = kcp\<lparr>snd_queue := q, nsnd_que := n\<rparr>)"
proof -
  let ?m = "nat (sint (mss kcp))"
  obtain k buf' len' where x: "send_extend kcp buf (int (length buf)) = (k, buf', len')" by (metis prod_cases3)
  obtain q where q: "k = kcp\<lparr>snd_queue := q\<rparr>" "payload q @ buf' = payload (snd_queue kcp) @ buf"
    "len' = int (length buf')" "length buf' \<le> length buf" "snd_ok k"
    using send_extend_spec [OF assms(1,2) x] by blast
  have k: "stream k \<noteq> 0" "mss k = mss kcp" "snd_queue k = q" using assms(4) by (simp_all add: q(1))
  obtain u where u: "buf = u @ buf'" "payload q = payload (snd_queue kcp) @ u" by (rule append_eq_longer [OF q(2,4)])
  let ?n = "fragment_count ?m (length buf')"
  let ?k = "k\<lparr>snd_queue := snd_queue k @ fragments True ?m ?n buf', nsnd_que := nsnd_que k + of_nat ?n\<rparr>"
  have r: "ikcp_send kcp buf (int (length buf)) =
      (if buf' = [] then Inr (0, k) else if ?n \<ge> 128 then Inr (-2, k) else Inr (0, ?k))"
    using ikcp_send_stream_tail [OF assms(2) _ assms(4) k(1,2) x [unfolded q(3)]] q(4) assms(3) unfolding Let_def by linarith
  show ?thesis
  proof (cases "buf' \<noteq> [] \<and> ?n < 128")
    case False
    then have "ikcp_send kcp buf (int (length buf)) = Inr (if buf' = [] then 0 else -2, k)" by (auto simp: r)
    moreover have "\<exists>q n. k = kcp\<lparr>snd_queue := q, nsnd_que := n\<rparr>"
      by (intro exI [of _ q] exI [of _ "nsnd_que kcp"]) (simp add: q(1))
    moreover have "\<exists>done rest. buf = done @ rest \<and> payload q = payload (snd_queue kcp) @ done" using u by blast
    moreover have "buf' = [] \<longrightarrow> payload q = payload (snd_queue kcp) @ buf" using q(2) by auto
    ultimately show ?thesis using q(5) k(3)
      by (intro exI [of _ "if buf' = [] then 0 else -2"] exI [of _ k]) auto
  next
    case True
    have "0 < sint (mss k)" using assms(2) by (simp only: k(2))
    then have "snd_ok ?k" using append_fragments_ok [OF q(5), of ?n True buf'] True unfolding k(2) by simp
    moreover have "payload (fragments True ?m ?n buf') = buf'"
      using assms(2) by (intro payload_fragments fragment_count_enough) simp
    then have "payload (snd_queue ?k) = payload (snd_queue kcp) @ buf" using q(2) by (simp add: k(3))
    moreover have "?k = kcp\<lparr>snd_queue := snd_queue k @ fragments True ?m ?n buf', nsnd_que := nsnd_que k + of_nat ?n\<rparr>"
      by (simp add: q(1))
    ultimately show ?thesis using True by (intro exI [of _ 0] exI [of _ ?k]) (auto simp: r)
  qed
qed

text \<open>The fragment numbers \<open>ikcp_send\<close> gives out: below 128, and 0 in stream mode.\<close>

lemma send_message_frg:
  assumes "0 < sint (mss kcp)" and "length buf < 2147483648" and "stream kcp = 0"
    and "ikcp_send kcp buf (int (length buf)) = Inr (ret, k)" and "s \<in> set (snd_queue k)"
  shows "s \<in> set (snd_queue kcp) \<or> seg_frg s < 128"
proof (cases "fragment_count (nat (sint (mss kcp))) (length buf) \<ge> 128")
  case True
  then have "k = kcp" using assms(4) unfolding ikcp_send_message_mode [OF assms(1-3)] by (simp add: Let_def)
  then show ?thesis using assms(5) by simp
next
  case False
  let ?m = "nat (sint (mss kcp))"
  let ?n = "fragment_count ?m (length buf)"
  have "snd_queue k = snd_queue kcp @ fragments False ?m ?n buf"
    using assms(4) False unfolding ikcp_send_message_mode [OF assms(1-3)] by (simp add: Let_def) (elim conjE, drule sym, simp)
  moreover have "seg_frg s < 128" if "s \<in> set (fragments False ?m ?n buf)"
  proof -
    have "seg_frg s \<in> set (map seg_frg (fragments False ?m ?n buf))" using that by simp
    then obtain i where "i < ?n" "seg_frg s = of_nat i" unfolding fragments_frg by auto
    then show ?thesis using False by (simp add: word_less_nat_alt unat_of_nat32)
  qed
  ultimately show ?thesis using assms(5) by auto
qed

lemma send_fragments_frg:
  "stream kcp \<noteq> 0 \<Longrightarrow> \<forall>s\<in>set (snd_queue kcp). seg_frg s = 0 \<Longrightarrow> \<forall>s\<in>set (snd_queue (send_fragments n kcp buf len)). seg_frg s = 0"
proof (induction n arbitrary: kcp buf len)
  case (Suc n)
  then show ?case unfolding send_fragments.simps Let_def by (intro Suc.IH) simp_all
qed simp

lemma send_stream_frg:
  assumes "stream kcp \<noteq> 0" and "ikcp_send kcp buf len = Inr (ret, k)" and "\<forall>s\<in>set (snd_queue kcp). seg_frg s = 0"
  shows "\<forall>s\<in>set (snd_queue k). seg_frg s = 0"
proof -
  obtain k1 buf1 len1 where e: "send_extend kcp buf len = (k1, buf1, len1)" by (metis prod_cases3)
  moreover have "\<forall>s\<in>set (butlast (snd_queue kcp)). seg_frg s = 0" using assms(3) in_set_butlastD by fast
  ultimately have k: "stream k1 \<noteq> 0" "\<forall>s\<in>set (snd_queue k1). seg_frg s = 0"
    using assms(1,3) by (auto simp: send_extend_def Let_def split: if_splits)
  have "k \<in> insert kcp (insert k1 (range (\<lambda>n. send_fragments n k1 buf1 len1)))"
    using assms(1,2) e by (auto simp: ikcp_send_def Let_def simp del: send_fragments.simps One_nat_def split: if_splits)
  then show ?thesis using k assms(3) send_fragments_frg [OF k] by blast
qed

section \<open>Correctness\<close>

lemma fresh_mss: "sint (mss (fresh cv)) = 1376"
  by (simp add: fresh_eq)

text \<open>C25: In message mode \<open>ikcp_send\<close> rejects a negative length with -1 and a message that needs 128 or more
  fragments with -2, changing nothing. Otherwise it appends at least one and less than 128 segments that
  hold exactly the bytes of the message, none longer than the segment size, their fragment numbers
  counting down to 0, and keeps the send side consistent.\<close>

theorem ikcp_send_correct:
  assumes "snd_ok kcp" and "0 < sint (mss kcp)" and "stream kcp = 0" and "length buf < 2147483648"
  shows "(len < 0 \<longrightarrow> ikcp_send kcp buf len = Inr (-1, kcp)) \<and>
    (if fragment_count (nat (sint (mss kcp))) (length buf) \<ge> 128
     then ikcp_send kcp buf (int (length buf)) = Inr (-2, kcp)
     else \<exists>kcp' fs. ikcp_send kcp buf (int (length buf)) = Inr (0, kcp') \<and> snd_ok kcp' \<and>
       snd_queue kcp' = snd_queue kcp @ fs \<and> snd_buf kcp' = snd_buf kcp \<and>
       concat (map seg_data fs) = buf \<and> 0 < length fs \<and> length fs < 128 \<and>
       map seg_frg fs = rev (map of_nat [0..<length fs]) \<and>
       (\<forall>s\<in>set fs. int (length (seg_data s)) \<le> sint (mss kcp)))"
proof -
  obtain m where m: "sint (mss kcp) = int m" "nat (sint (mss kcp)) = m" "0 < m" "m < 2147483648"
    using nat_sint_pos [OF assms(2)] by blast
  define n where "n = fragment_count m (length buf)"
  have pos: "mss kcp > 0" using sint_lt_uint [OF assms(2)] by (simp add: word_less_def)
  have neg: "ikcp_send kcp buf len = Inr (-1, kcp)" if "len < 0" using that pos by (simp add: ikcp_send_def)
  have r: "ikcp_send kcp buf (int (length buf)) =
    (if n \<ge> 128 then Inr (-2, kcp)
     else Inr (0, kcp\<lparr>snd_queue := snd_queue kcp @ fragments False m n buf, nsnd_que := nsnd_que kcp + of_nat n\<rparr>))"
    using ikcp_send_message_mode [OF assms(2,4,3)] by (simp add: m(2) n_def Let_def)
  show ?thesis
  proof (cases "n \<ge> 128")
    case True
    then show ?thesis using neg r by (simp add: m(2) n_def)
  next
    case False
    let ?fs = "fragments False m n buf"
    let ?k = "kcp\<lparr>snd_queue := snd_queue kcp @ ?fs, nsnd_que := nsnd_que kcp + of_nat n\<rparr>"
    have "snd_ok ?k" using append_fragments_ok [OF assms(1,2), of n False buf] False by (simp add: m(2))
    moreover have "concat (map seg_data ?fs) = buf"
      using payload_fragments [OF fragment_count_enough [OF m(3)]] by (simp add: payload_def n_def)
    moreover have "0 < n" unfolding n_def by (rule fragment_count_pos [OF m(3)])
    moreover have "\<forall>s\<in>set ?fs. length (seg_data s) \<le> m" using fragments_ok [OF m(4), of n _ False buf] False by auto
    ultimately have "\<exists>kcp' fs. ikcp_send kcp buf (int (length buf)) = Inr (0, kcp') \<and> snd_ok kcp' \<and>
       snd_queue kcp' = snd_queue kcp @ fs \<and> snd_buf kcp' = snd_buf kcp \<and>
       concat (map seg_data fs) = buf \<and> 0 < length fs \<and> length fs < 128 \<and>
       map seg_frg fs = rev (map of_nat [0..<length fs]) \<and>
       (\<forall>s\<in>set fs. int (length (seg_data s)) \<le> sint (mss kcp))"
      using False r by (intro exI [of _ ?k] exI [of _ ?fs]) (simp add: fragments_frg m(1))
    then show ?thesis using neg False by (simp add: m(2) n_def)
  qed
qed

theorem ikcp_send_correct_witness:
  "\<exists>kcp'. ikcp_send (fresh 7) [1, 2, 3] 3 = Inr (0, kcp') \<and> snd_ok kcp'"
proof -
  have "stream (fresh 7) = 0" by (simp add: fresh_eq)
  then show ?thesis
    using ikcp_send_correct [OF kcp_okD(3) [OF fresh_ok], of 7 "[1, 2, 3]" 0]
    by (auto simp: fresh_mss fragment_count_def)
qed

text \<open>In stream mode \<open>ikcp_send\<close> returns 0 or -2 and keeps the send side consistent; the bytes queued grow by a
  prefix of the caller's bytes, by all of them when it returns 0 (the last queued segment is filled up first).\<close>

theorem ikcp_send_stream_correct:
  assumes "snd_ok kcp" and "0 < sint (mss kcp)" and "stream kcp \<noteq> 0" and "length buf < 2147483648"
  shows "\<exists>r kcp' taken left. ikcp_send kcp buf (int (length buf)) = Inr (r, kcp') \<and> (r = 0 \<or> r = -2) \<and> snd_ok kcp' \<and>
    buf = taken @ left \<and> (r = 0 \<longrightarrow> left = []) \<and>
    concat (map seg_data (snd_queue kcp')) = concat (map seg_data (snd_queue kcp)) @ taken"
proof -
  obtain r kcp' a b where s: "ikcp_send kcp buf (int (length buf)) = Inr (r, kcp')" "snd_ok kcp'" "r = 0 \<or> r = -2"
    "r = 0 \<longrightarrow> payload (snd_queue kcp') = payload (snd_queue kcp) @ buf"
    "buf = a @ b" "payload (snd_queue kcp') = payload (snd_queue kcp) @ a"
    using ikcp_send_stream_mode [OF assms(1,2,4,3)] by blast
  then have "r = 0 \<longrightarrow> b = []" by simp
  with s show ?thesis unfolding payload_def by blast
qed

theorem ikcp_send_stream_correct_witness:
  "\<exists>r kcp'. ikcp_send ((fresh 7)\<lparr>stream := 1\<rparr>) [1, 2, 3] 3 = Inr (r, kcp') \<and> snd_ok kcp'"
proof -
  have "snd_ok ((fresh 7)\<lparr>stream := 1\<rparr>) = snd_ok (fresh 7)" by (rule snd_ok_cong) simp_all
  then have "snd_ok ((fresh 7)\<lparr>stream := 1\<rparr>)" using kcp_okD(3) [OF fresh_ok] by simp
  moreover have "0 < sint (mss ((fresh 7)\<lparr>stream := 1\<rparr>))" by (simp add: fresh_eq)
  ultimately show ?thesis using ikcp_send_stream_correct [of "(fresh 7)\<lparr>stream := 1\<rparr>" "[1, 2, 3]"] by auto
qed

text \<open>A stream-mode call that returns the error -2 may already have queued part of the caller's bytes: it does
  when the last queued segment has room and what is left still needs 128 fragments.\<close>

theorem ikcp_send_stream_partial:
  "\<exists>kcp buf. snd_ok kcp \<and> stream kcp \<noteq> 0 \<and>
     (\<exists>kcp'. ikcp_send kcp buf (int (length buf)) = Inr (-2, kcp') \<and>
        length (payload (snd_queue kcp')) > length (payload (snd_queue kcp)))"
proof -
  define seg where "seg = ikcp_segment_new\<lparr>seg_len := 1, seg_data := [9]\<rparr>"
  define kcp where "kcp = (fresh 7)\<lparr>stream := 1, mss := 26, mtu := 50, snd_queue := [seg], nsnd_que := 1\<rparr>"
  define buf :: "byte list" where "buf = replicate 4000 0"
  have ok: "snd_ok kcp"
    by (simp add: kcp_def seg_def fresh_eq snd_ok_def snd_window_ok_def first_unacked_def ordered_def seg_ok_def
      ikcp_segment_new_def)
  have x: "send_extend kcp buf 4000 = (kcp\<lparr>snd_queue := [ikcp_segment_new\<lparr>seg_data := [9] @ replicate 25 0, seg_len := 26, seg_frg := 0\<rparr>]\<rparr>,
      replicate 3975 0, 3975)"
    by (simp add: send_extend_def kcp_def seg_def buf_def Let_def)
  have "send_count (kcp\<lparr>snd_queue := q\<rparr>) 3975 = 153" for q by (simp add: send_count_def kcp_def)
  then have "ikcp_send kcp buf 4000 = Inr (-2, kcp\<lparr>snd_queue := [ikcp_segment_new\<lparr>seg_data := [9] @ replicate 25 0,
      seg_len := 26, seg_frg := 0\<rparr>]\<rparr>)"
    by (simp add: ikcp_send_def x) (simp add: kcp_def IKCP_WND_RCV_def)
  moreover have "int (length buf) = 4000" by (simp add: buf_def)
  moreover have "stream kcp \<noteq> 0" by (simp add: kcp_def)
  moreover have "length (payload (snd_queue kcp)) = 1" by (simp add: kcp_def seg_def)
  ultimately show ?thesis using ok by (intro exI [of _ kcp] exI [of _ buf]) simp
qed

text \<open>The split of a message depends on the fragment numbers only.\<close>

lemma split_message_cong:
  "map seg_frg gs = map seg_frg (fragments False m n bs) \<Longrightarrow> 0 < n \<Longrightarrow> n \<le> 256 \<Longrightarrow> split_message (gs @ rest) = (gs, rest)"
proof (induction n arbitrary: gs bs)
  case (Suc n)
  then obtain g gs' where gs: "gs = g # gs'" and e: "seg_frg g = of_nat n" "map seg_frg gs' = map seg_frg (fragments False m n (drop m bs))"
    by (cases gs) auto
  have z: "(of_nat n :: u32) = 0 \<longleftrightarrow> n = 0" using Suc.prems(3) of_nat32_inject [of n 0] by simp
  show ?case
  proof (cases "n = 0")
    case True
    then show ?thesis using e by (simp add: gs)
  next
    case False
    then have "split_message (gs' @ rest) = (gs', rest)" using Suc.prems(3) by (intro Suc.IH [OF e(2)]) auto
    with False z e(1) show ?thesis by (simp add: gs)
  qed
qed simp

text \<open>C17: Fragmentation and reassembly are inverse: when a receiver has the segments of a sent message at the front
  of its queue, with the fragment numbers and data \<open>ikcp_send\<close> gave them, one \<open>ikcp_recv\<close> with room for the
  message returns its length and exactly its bytes.\<close>

theorem send_recv_roundtrip:
  assumes "0 < sint (mss kcp)" and "stream kcp = 0" and "length buf < 2147483648"
    and "ikcp_send kcp buf (int (length buf)) = Inr (0, kcp')" and "snd_queue kcp' = snd_queue kcp @ fs"
    and "rcv_ok r" and "rcv_queue r = gs @ rest" and "map (\<lambda>s. (seg_frg s, seg_data s)) gs = map (\<lambda>s. (seg_frg s, seg_data s)) fs"
    and "length (payload (rcv_queue r)) < 2147483648"
  shows "\<exists>r'. ikcp_recv r (int (length buf)) = Inr (int (length buf), buf, r') \<and> rcv_queue r' @ rcv_buf r' = rest @ rcv_buf r"
proof -
  obtain m where m: "nat (sint (mss kcp)) = m" "0 < m" using nat_sint_pos [OF assms(1)] by blast
  define n where "n = fragment_count m (length buf)"
  have n: "0 < n" unfolding n_def by (rule fragment_count_pos [OF m(2)])
  have "ikcp_send kcp buf (int (length buf)) =
    (if n \<ge> 128 then Inr (-2, kcp)
     else Inr (0, kcp\<lparr>snd_queue := snd_queue kcp @ fragments False m n buf, nsnd_que := nsnd_que kcp + of_nat n\<rparr>))"
    using ikcp_send_message_mode [OF assms(1,3,2)] by (simp add: m(1) n_def Let_def)
  then have lt: "n < 128" and fs: "fs = fragments False m n buf" using assms(4,5) by (auto split: if_splits)
  have frg: "map seg_frg gs = map seg_frg fs" and data: "map seg_data gs = map seg_data fs"
    using arg_cong [OF assms(8), of "map fst"] arg_cong [OF assms(8), of "map snd"] by (simp_all add: o_def)
  have len: "length gs = n" using arg_cong [OF frg, of length] by (simp add: fs)
  have s: "split_message (rcv_queue r) = (gs, rest)"
    unfolding assms(7) by (rule split_message_cong [OF frg [unfolded fs] n]) (use lt in simp)
  have p: "payload gs = buf"
    using payload_fragments [OF fragment_count_enough [OF m(2)], where strm = False and bs = buf] data by (simp add: payload_def fs n_def)
  obtain g gs' where g: "gs = g # gs'" using len n by (cases gs) auto
  have "seg_frg g = hd (map seg_frg fs)" using frg by (metis g hd_map list.sel(1) list.simps(9))
  also have "\<dots> = of_nat (n - 1)" using n by (simp add: fs fragments_frg hd_rev last_map)
  finally have "unat (seg_frg g) = n - 1" using lt by (simp add: unat_of_nat32)
  then have "message_complete r" using n len by (simp add: message_complete_def assms(7) g)
  from ikcp_recv_complete [OF assms(6,9) this s, of "int (length buf)"] show ?thesis by (auto simp: p)
qed

theorem send_recv_roundtrip_witness:
  "\<exists>r'. ikcp_recv ((fresh 7)\<lparr>rcv_nxt := 1, nrcv_que := 1, rcv_queue := [arrived 0 0 [1, 2]]\<rparr>) 2 = Inr (2, [1, 2], r')"
proof -
  let ?r = "(fresh 7)\<lparr>rcv_nxt := 1, nrcv_que := 1, rcv_queue := [arrived 0 0 [1, 2]]\<rparr>"
  let ?fs = "fragments False 1376 1 [1, 2]"
  let ?k = "(fresh 7)\<lparr>snd_queue := snd_queue (fresh 7) @ ?fs, nsnd_que := nsnd_que (fresh 7) + of_nat 1\<rparr>"
  have st: "stream (fresh 7) = 0" and m: "0 < sint (mss (fresh 7))" by (simp_all add: fresh_eq)
  have s: "ikcp_send (fresh 7) [1, 2] (int (length [1, 2 :: byte])) = Inr (0, ?k)"
    using ikcp_send_message_mode [OF m _ st, of "[1, 2]"] by (simp add: fresh_mss fragment_count_def Let_def)
  have "rcv_ok ?r" by (simp add: fresh_eq rcv_ok_def seg_ok_def arrived_def ikcp_segment_new_def)
  from send_recv_roundtrip [OF m st _ s _ this, of ?fs "[arrived 0 0 [1, 2]]" "[]"] show ?thesis
    by (auto simp: arrived_def)
qed

end
