(* ===== verification/Kcp_Input.thy ===== *)
theory Kcp_Input
  imports Kcp_Config
begin

text \<open>
  \<open>ikcp_input\<close>: a datagram is read segment by segment; each segment's window, \<open>una\<close> and
  command are acted on; behind the loop come fast acknowledgement and the congestion window.
\<close>

text \<open>
  The locals \<open>flag\<close>, \<open>maxack\<close>, \<open>latest_ts\<close>: the highest acknowledged number of the
  datagram.
\<close>

type_synonym ack_state = "bool \<times> u32 \<times> u32"

definition input_maxack :: "ack_state \<Rightarrow> u32 \<Rightarrow> u32 \<Rightarrow> ack_state" where
  "input_maxack fa sn ts =
     (let (flag, maxack, latest_ts) = fa in
      if \<not> flag then (True, sn, ts)
      else if itimediff sn maxack > 0 then (flag, sn, ts)
      else fa)"

definition input_ack :: "ikcpcb \<Rightarrow> u32 \<Rightarrow> u32 \<Rightarrow> ikcpcb" where
  "input_ack kcp sn ts =
     (let kcp = (if itimediff (current kcp) ts \<ge> 0
                 then ikcp_update_ack kcp (itimediff (current kcp) ts) else kcp);
          kcp = ikcp_parse_ack kcp sn
      in ikcp_shrink_buf kcp)"

text \<open>The segment of a push frame. Its allocation succeeds: the code does not test the pointer.\<close>

definition input_seg :: "header \<Rightarrow> byte list \<Rightarrow> IKCPSEG" where
  "input_seg h bytes = ikcp_segment_new
     \<lparr>seg_conv := h_conv h, seg_cmd := ucast (h_cmd h), seg_frg := ucast (h_frg h),
      seg_wnd := ucast (h_wnd h), seg_ts := h_ts h, seg_sn := h_sn h, seg_una := h_una h,
      seg_len := h_len h, seg_data := bytes\<rparr>"

definition input_push :: "ikcpcb \<Rightarrow> header \<Rightarrow> byte list \<Rightarrow> ikcpcb result" where
  "input_push kcp h data =
     (if itimediff (h_sn h) (rcv_nxt kcp + rcv_wnd kcp) < 0
      then bind (ikcp_ack_push kcp (h_sn h) (h_ts h))
             (\<lambda>kcp. Inr (if itimediff (h_sn h) (rcv_nxt kcp) \<ge> 0
                         then ikcp_parse_data kcp (input_seg h (take (unat (h_len h)) data))
                         else kcp))
      else Inr kcp)"

text \<open>One segment, after the checks; \<open>data\<close> starts behind its header.\<close>

definition input_frame :: "ikcpcb \<Rightarrow> header \<Rightarrow> byte list \<Rightarrow> ack_state \<Rightarrow> (ikcpcb \<times> ack_state) result" where
  "input_frame kcp h data fa =
     (let kcp = kcp\<lparr>rmt_wnd := ucast (h_wnd h)\<rparr>;
          kcp = ikcp_parse_una kcp (h_una h);
          kcp = ikcp_shrink_buf kcp;
          cmd = ucast (h_cmd h)
      in if cmd = IKCP_CMD_ACK
         then Inr (input_ack kcp (h_sn h) (h_ts h), input_maxack fa (h_sn h) (h_ts h))
         else if cmd = IKCP_CMD_PUSH
         then bind (input_push kcp h data) (\<lambda>kcp. Inr (kcp, fa))
         else if cmd = IKCP_CMD_WASK
         then Inr (kcp\<lparr>probe := probe kcp OR IKCP_ASK_TELL\<rparr>, fa)
         else Inr (kcp, fa))"

definition known_cmd :: "byte \<Rightarrow> bool" where
  "known_cmd cmd \<longleftrightarrow> ucast cmd \<in> {IKCP_CMD_PUSH, IKCP_CMD_ACK, IKCP_CMD_WASK, IKCP_CMD_WINS}"

text \<open>
  The loop; \<open>data\<close> is what is left of the datagram, its length the C variable \<open>size\<close>. The
  result is the return code: 0 when the loop ends, negative when the function returns from
  inside it.
\<close>

function input_loop :: "ikcpcb \<Rightarrow> byte list \<Rightarrow> ack_state \<Rightarrow> (int \<times> ikcpcb \<times> ack_state) result" where
  "input_loop kcp data fa =
     (if int (length data) < uint IKCP_OVERHEAD then Inr (0, kcp, fa)
      else case decode_header data of
        None \<Rightarrow> Inr (0, kcp, fa)
      | Some (h, rest) \<Rightarrow>
          if h_conv h \<noteq> conv kcp then Inr (-1, kcp, fa)
          else if int (length rest) < uint (h_len h) \<or> sint (h_len h) < 0 then Inr (-2, kcp, fa)
          else if \<not> known_cmd (h_cmd h) then Inr (-3, kcp, fa)
          else bind (input_frame kcp h rest fa)
                 (\<lambda>(kcp, fa). input_loop kcp (drop (unat (h_len h)) rest) fa))"
  by pat_completeness auto
termination
  by (relation "measure (\<lambda>(kcp, data, fa). length data)")
    (auto dest!: hdr.dec_drop simp: IKCP_OVERHEAD_def)

declare input_loop.simps [simp del]

text \<open>The congestion window after an advance of \<open>snd_una\<close>.\<close>

definition input_cwnd :: "ikcpcb \<Rightarrow> u32 \<Rightarrow> ikcpcb result" where
  "input_cwnd kcp prev_una =
     (if itimediff (snd_una kcp) prev_una > 0 \<and> cwnd kcp < rmt_wnd kcp
      then let m = mss kcp in
        bind
          (if cwnd kcp < ssthresh kcp
           then Inr (kcp\<lparr>cwnd := cwnd kcp + 1, incr := incr kcp + m\<rparr>)
           else let kcp = (if incr kcp < m then kcp\<lparr>incr := m\<rparr> else kcp) in
             if incr kcp = 0 then Inl Division_by_zero
             else let kcp = kcp\<lparr>incr := incr kcp + ((m * m) div incr kcp + m div 16)\<rparr>
               in Inr (if (cwnd kcp + 1) * m \<le> incr kcp
                       then kcp\<lparr>cwnd := (incr kcp + m - 1) div (if m > 0 then m else 1)\<rparr>
                       else kcp))
          (\<lambda>kcp. Inr (if cwnd kcp > rmt_wnd kcp
                      then kcp\<lparr>cwnd := rmt_wnd kcp, incr := rmt_wnd kcp * m\<rparr>
                      else kcp))
      else Inr kcp)"

text \<open>None is a NULL \<open>data\<close>; otherwise \<open>size\<close> is the length of the datagram.\<close>

definition ikcp_input :: "ikcpcb \<Rightarrow> byte list option \<Rightarrow> (int \<times> ikcpcb) result" where
  "ikcp_input kcp data =
     (let prev_una = snd_una kcp in
      case data of
        None \<Rightarrow> Inr (-1, kcp)
      | Some d \<Rightarrow>
          if sint (of_nat (length d) :: i32) < sint IKCP_OVERHEAD then Inr (-1, kcp)
          else bind (input_loop kcp d (False, 0, 0))
            (\<lambda>(ret, kcp, flag, maxack, latest_ts).
               if ret < 0 then Inr (ret, kcp)
               else let kcp = (if flag then ikcp_parse_fastack kcp maxack latest_ts else kcp)
                    in bind (input_cwnd kcp prev_una) (\<lambda>kcp. Inr (0, kcp))))"

section \<open>One frame: lemmas\<close>

lemma update_ack_fields [simp]:
  "ackcount (ikcp_update_ack kcp rtt) = ackcount kcp" "snd_buf (ikcp_update_ack kcp rtt) = snd_buf kcp"
  "snd_una (ikcp_update_ack kcp rtt) = snd_una kcp" "snd_nxt (ikcp_update_ack kcp rtt) = snd_nxt kcp"
  "snd_queue (ikcp_update_ack kcp rtt) = snd_queue kcp" "conv (ikcp_update_ack kcp rtt) = conv kcp"
  "rcv_nxt (ikcp_update_ack kcp rtt) = rcv_nxt kcp" "rcv_buf (ikcp_update_ack kcp rtt) = rcv_buf kcp"
  "rcv_queue (ikcp_update_ack kcp rtt) = rcv_queue kcp" "acklist (ikcp_update_ack kcp rtt) = acklist kcp"
  using update_ack_frame [of kcp rtt] by auto

lemma ikcp_update_ack_ok:
  assumes "kcp_ok kcp"
  shows "kcp_ok (ikcp_update_ack kcp rtt)"
proof -
  obtain a b c where k: "ikcp_update_ack kcp rtt =
      kcp\<lparr>rx_srtt := a, rx_rttval := b, rx_rto := ibound (rx_minrto kcp) c IKCP_RTO_MAX\<rparr>"
    using update_ack_frame by blast
  note cfg = kcp_okD(1) [OF assms]
  have "rx_minrto kcp \<le> IKCP_RTO_MAX" using cfg by (simp add: cfg_ok_def IKCP_RTO_MAX_def word_le_def)
  from ibound_range [OF this, of c]
  have "uint (rx_minrto kcp) \<le> uint (ibound (rx_minrto kcp) c IKCP_RTO_MAX)"
    "uint (ibound (rx_minrto kcp) c IKCP_RTO_MAX) \<le> 60000"
    by (simp_all add: word_le_def IKCP_RTO_MAX_def)
  then have "cfg_ok (ikcp_update_ack kcp rtt)" using cfg by (simp add: k cfg_ok_def)
  moreover have "rcv_ok (ikcp_update_ack kcp rtt) = rcv_ok kcp" by (rule rcv_ok_cong) (simp_all add: k)
  moreover have "snd_ok (ikcp_update_ack kcp rtt) = snd_ok kcp" by (rule snd_ok_cong) (simp_all add: k)
  moreover have "ack_ok (ikcp_update_ack kcp rtt) = ack_ok kcp" by (rule ack_ok_cong) (simp_all add: k)
  ultimately show ?thesis using assms by (simp add: kcp_ok_def)
qed

text \<open>Changing the send buffer, \<open>snd_una\<close> or \<open>rmt_wnd\<close> leaves the other parts of the invariant alone.\<close>

lemma kcp_ok_send_side:
  assumes "kcp_ok kcp" and "snd_ok kcp'"
    and "kcp' = kcp\<lparr>snd_buf := b, nsnd_buf := nb, snd_una := u, rmt_wnd := r\<rparr>"
  shows "kcp_ok kcp'"
proof -
  have "cfg_ok kcp' = cfg_ok kcp" by (rule cfg_ok_cong) (simp_all add: assms(3))
  moreover have "rcv_ok kcp' = rcv_ok kcp" by (rule rcv_ok_cong) (simp_all add: assms(3))
  moreover have "ack_ok kcp' = ack_ok kcp" by (rule ack_ok_cong) (simp_all add: assms(3))
  ultimately show ?thesis using assms(1,2) by (simp add: kcp_ok_def)
qed

definition input_una :: "ikcpcb \<Rightarrow> header \<Rightarrow> ikcpcb" where
  "input_una kcp h = ikcp_shrink_buf (ikcp_parse_una (kcp\<lparr>rmt_wnd := ucast (h_wnd h)\<rparr>) (h_una h))"

lemma uint_wnd: "uint (ucast (w :: u16) :: u32) \<le> 65535"
proof -
  have "uint (ucast w :: u32) = uint w" by (rule uint_up_ucast) (simp add: is_up)
  then show ?thesis using unsigned_less [of w, where 'a = int] by simp
qed

lemma input_una_ok:
  assumes "kcp_ok kcp"
  shows "kcp_ok (input_una kcp h)"
    and "\<exists>b nb u. input_una kcp h = kcp\<lparr>snd_buf := b, nsnd_buf := nb, snd_una := u, rmt_wnd := ucast (h_wnd h)\<rparr>"
proof -
  let ?k = "kcp\<lparr>rmt_wnd := ucast (h_wnd h)\<rparr>"
  have "snd_window_ok ?k"
    using snd_okD(1) [OF kcp_okD(3) [OF assms]] by (simp add: snd_window_ok_def uint_wnd)
  then have ok: "snd_ok (input_una kcp h)" unfolding input_una_def by (intro ikcp_shrink_buf_ok ikcp_parse_una_ok)
  show "\<exists>b nb u. input_una kcp h = kcp\<lparr>snd_buf := b, nsnd_buf := nb, snd_una := u, rmt_wnd := ucast (h_wnd h)\<rparr>"
    by (rule exI [of _ "snd_buf (input_una kcp h)"], rule exI [of _ "nsnd_buf (input_una kcp h)"],
        rule exI [of _ "snd_una (input_una kcp h)"])
      (simp add: input_una_def ikcp_shrink_buf_eq ikcp_parse_una_eq)
  then obtain b nb u where "input_una kcp h = kcp\<lparr>snd_buf := b, nsnd_buf := nb, snd_una := u, rmt_wnd := ucast (h_wnd h)\<rparr>"
    by blast
  then show "kcp_ok (input_una kcp h)" using kcp_ok_send_side [OF assms ok] by blast
qed

lemma ikcp_parse_ack_frame: "\<exists>b nb. ikcp_parse_ack kcp sn = kcp\<lparr>snd_buf := b, nsnd_buf := nb\<rparr>"
proof -
  have "ikcp_parse_ack kcp sn =
      kcp\<lparr>snd_buf := snd_buf (ikcp_parse_ack kcp sn), nsnd_buf := nsnd_buf (ikcp_parse_ack kcp sn)\<rparr>"
    by (simp add: ikcp_parse_ack_def split: prod.split)
  then show ?thesis by blast
qed

lemma input_ack_ok:
  assumes "kcp_ok kcp"
  shows "kcp_ok (input_ack kcp sn ts)"
proof -
  define k where "k = (if itimediff (current kcp) ts \<ge> 0 then ikcp_update_ack kcp (itimediff (current kcp) ts) else kcp)"
  have k: "kcp_ok k" using assms ikcp_update_ack_ok by (simp add: k_def)
  have i: "input_ack kcp sn ts = ikcp_shrink_buf (ikcp_parse_ack k sn)" by (simp add: input_ack_def k_def Let_def)
  have ok: "snd_ok (input_ack kcp sn ts)" unfolding i
    by (intro ikcp_shrink_buf_ok ikcp_parse_ack_ok snd_okD(1) kcp_okD(3) k)
  obtain b nb where "ikcp_parse_ack k sn = k\<lparr>snd_buf := b, nsnd_buf := nb\<rparr>" using ikcp_parse_ack_frame by blast
  then have "input_ack kcp sn ts = k\<lparr>snd_buf := b, nsnd_buf := nb,
      snd_una := first_unacked (k\<lparr>snd_buf := b, nsnd_buf := nb\<rparr>), rmt_wnd := rmt_wnd k\<rparr>"
    by (simp add: i ikcp_shrink_buf_eq)
  then show ?thesis by (rule kcp_ok_send_side [OF k ok])
qed

lemma input_seg_ok:
  assumes "unat (h_len h) \<le> length data" and "0 \<le> sint (h_len h)"
  shows "seg_ok (input_seg h (take (unat (h_len h)) data))"
proof -
  have "uint (h_len h) < 2147483648" using assms(2) by (simp only: sint_nonneg_iff)
  then have "int (unat (h_len h)) < 2147483648" by simp
  then have "unat (h_len h) < 2147483648" by linarith
  moreover have "uint (ucast (h_frg h) :: u32) < 256"
    using unsigned_less [of "h_frg h", where 'a = int] by (simp add: unsigned_ucast_eq take_bit_int_eq_self)
  then have "(ucast (h_frg h) :: u32) < 256" by (simp add: word_less_def)
  ultimately show ?thesis using assms(1) by (simp add: seg_ok_def input_seg_def)
qed

lemma input_push_ok:
  assumes ok: "kcp_ok kcp" and n: "unat (ackcount kcp) < 2147483648"
    and len: "unat (h_len h) \<le> length data" "0 \<le> sint (h_len h)"
  shows "yields (input_push kcp h data) (\<lambda>kcp'. kcp_ok kcp' \<and> unat (ackcount kcp') \<le> Suc (unat (ackcount kcp)))"
proof (cases "itimediff (h_sn h) (rcv_nxt kcp + rcv_wnd kcp) < 0")
  case False
  then show ?thesis using ok by (simp add: input_push_def)
next
  case True
  obtain l b where p: "ikcp_ack_push kcp (h_sn h) (h_ts h) = Inr (kcp\<lparr>acklist := l, ackblock := b, ackcount := ackcount kcp + 1\<rparr>)"
    and ack: "ack_ok (kcp\<lparr>acklist := l, ackblock := b, ackcount := ackcount kcp + 1\<rparr>)"
    using ikcp_ack_push_appends [OF kcp_okD(4) [OF ok] n] by blast
  let ?k = "kcp\<lparr>acklist := l, ackblock := b, ackcount := ackcount kcp + 1\<rparr>"
  let ?seg = "input_seg h (take (unat (h_len h)) data)"
  have "cfg_ok ?k = cfg_ok kcp" by (rule cfg_ok_cong) simp_all
  moreover have rcv: "rcv_ok ?k = rcv_ok kcp" by (rule rcv_ok_cong) simp_all
  moreover have "snd_ok ?k = snd_ok kcp" by (rule snd_ok_cong) simp_all
  ultimately have k: "kcp_ok ?k" using ok ack by (simp add: kcp_ok_def)
  have c: "unat (ackcount ?k) = Suc (unat (ackcount kcp))" by (simp add: unat_Suc_small [OF n])
  obtain rb nb q nq nx where d: "ikcp_parse_data ?k ?seg =
      ?k\<lparr>rcv_buf := rb, nrcv_buf := nb, rcv_queue := q, nrcv_que := nq, rcv_nxt := nx\<rparr>"
    using ikcp_parse_data_frame by blast
  let ?d = "ikcp_parse_data ?k ?seg"
  have "cfg_ok ?d = cfg_ok ?k" by (rule cfg_ok_cong) (simp_all add: d)
  moreover have "snd_ok ?d = snd_ok ?k" by (rule snd_ok_cong) (simp_all add: d)
  moreover have "ack_ok ?d = ack_ok ?k" by (rule ack_ok_cong) (simp_all add: d)
  moreover have "rcv_ok ?d" by (rule ikcp_parse_data_ok [OF kcp_okD(2) [OF k] input_seg_ok [OF len]])
  ultimately have "kcp_ok ?d" using k by (simp add: kcp_ok_def)
  moreover have "ackcount ?d = ackcount ?k" by (simp add: d)
  ultimately show ?thesis using True k c by (simp add: input_push_def p)
qed

lemma input_frame_eq:
  "input_frame kcp h data fa =
     (let k = input_una kcp h; cmd = ucast (h_cmd h)
      in if cmd = IKCP_CMD_ACK
         then Inr (input_ack k (h_sn h) (h_ts h), input_maxack fa (h_sn h) (h_ts h))
         else if cmd = IKCP_CMD_PUSH
         then bind (input_push k h data) (\<lambda>kcp. Inr (kcp, fa))
         else if cmd = IKCP_CMD_WASK
         then Inr (k\<lparr>probe := probe k OR IKCP_ASK_TELL\<rparr>, fa)
         else Inr (k, fa))"
  by (simp add: input_frame_def input_una_def Let_def)

lemma input_ack_ackcount: "ackcount (input_ack kcp sn ts) = ackcount kcp"
proof -
  define k where "k = (if itimediff (current kcp) ts \<ge> 0 then ikcp_update_ack kcp (itimediff (current kcp) ts) else kcp)"
  have "ackcount k = ackcount kcp" by (simp add: k_def)
  moreover have "ackcount (ikcp_parse_ack k sn) = ackcount k" using ikcp_parse_ack_frame [of k sn] by auto
  moreover have "input_ack kcp sn ts = ikcp_shrink_buf (ikcp_parse_ack k sn)" by (simp add: input_ack_def k_def Let_def)
  ultimately show ?thesis by (simp add: ikcp_shrink_buf_eq)
qed

lemma probe_ok: "kcp_ok (kcp\<lparr>probe := p\<rparr>) = kcp_ok kcp"
proof -
  have "cfg_ok (kcp\<lparr>probe := p\<rparr>) = cfg_ok kcp" by (rule cfg_ok_cong) simp_all
  moreover have "rcv_ok (kcp\<lparr>probe := p\<rparr>) = rcv_ok kcp" by (rule rcv_ok_cong) simp_all
  moreover have "snd_ok (kcp\<lparr>probe := p\<rparr>) = snd_ok kcp" by (rule snd_ok_cong) simp_all
  moreover have "ack_ok (kcp\<lparr>probe := p\<rparr>) = ack_ok kcp" by (rule ack_ok_cong) simp_all
  ultimately show ?thesis by (simp add: kcp_ok_def)
qed

lemma input_frame_ok:
  assumes ok: "kcp_ok kcp" and n: "unat (ackcount kcp) < 2147483648"
    and len: "unat (h_len h) \<le> length data" "0 \<le> sint (h_len h)"
  shows "yields (input_frame kcp h data fa) (\<lambda>(kcp', fa'). kcp_ok kcp' \<and> unat (ackcount kcp') \<le> Suc (unat (ackcount kcp)))"
proof -
  let ?k = "input_una kcp h"
  have k: "kcp_ok ?k" by (rule input_una_ok(1) [OF ok])
  have c: "ackcount ?k = ackcount kcp" using input_una_ok(2) [OF ok, of h] by auto
  then have n': "unat (ackcount ?k) < 2147483648" using n by (simp only:)
  have push: "yields (bind (input_push ?k h data) (\<lambda>kcp. Inr (kcp, fa)))
      (\<lambda>(kcp', fa'). kcp_ok kcp' \<and> unat (ackcount kcp') \<le> Suc (unat (ackcount kcp)))"
    by (rule yields_bind [OF input_push_ok [OF k n' len]]) (simp add: c)
  show ?thesis
    unfolding input_frame_eq Let_def
    using push k input_ack_ok [OF k, of "h_sn h" "h_ts h"]
    by (simp add: input_ack_ackcount c probe_ok)
qed

section \<open>The loop\<close>

text \<open>
  The interface between the loop and the handling of one frame: an invariant that each accepted
  frame keeps, indexed by a budget of frames still to come, is kept by the loop.
\<close>

locale frame_handler =
  fixes I :: "nat \<Rightarrow> ikcpcb \<Rightarrow> bool"
  assumes frame: "\<lbrakk>I (Suc n) kcp; unat (h_len h) \<le> length data; 0 \<le> sint (h_len h); h_conv h = conv kcp; known_cmd (h_cmd h)\<rbrakk>
      \<Longrightarrow> yields (input_frame kcp h data fa) (\<lambda>(kcp', fa'). I n kcp')"
    and weaken: "I (Suc n) kcp \<Longrightarrow> I n kcp"
begin

lemma settle: "I n kcp \<Longrightarrow> I 0 kcp"
  by (induction n) (auto dest: weaken)

lemma loop_budget:
  "I n kcp \<Longrightarrow> length data < 24 * Suc n \<Longrightarrow>
    yields (input_loop kcp data fa) (\<lambda>(r, kcp', fa'). I 0 kcp' \<and> r \<in> {0, -1, -2, -3})"
proof (induction n arbitrary: kcp data fa)
  case 0
  then show ?case by (subst input_loop.simps) (simp add: IKCP_OVERHEAD_def)
next
  case (Suc n)
  have stop: "I 0 kcp" by (rule settle [OF Suc.prems(1)])
  show ?case
  proof (cases "decode_header data")
    case None
    then show ?thesis using stop by (subst input_loop.simps) simp
  next
    case (Some p)
    obtain h rest where p: "p = (h, rest)" by (cases p)
    note d = Some [unfolded p]
    have rest: "length rest < 24 * Suc n" using hdr.dec_drop [OF d] Suc.prems(2) by simp
    show ?thesis
    proof (cases "int (length data) < uint IKCP_OVERHEAD \<or> h_conv h \<noteq> conv kcp \<or>
        int (length rest) < uint (h_len h) \<or> sint (h_len h) < 0 \<or> \<not> known_cmd (h_cmd h)")
      case True
      then show ?thesis using stop d by (subst input_loop.simps) auto
    next
      case False
      have "int (unat (h_len h)) \<le> int (length rest)" using False by (simp only: uint_nat [symmetric]) simp
      then have "unat (h_len h) \<le> length rest" by linarith
      then have f: "yields (input_frame kcp h rest fa) (\<lambda>(kcp', fa'). I n kcp')"
        using False Suc.prems(1) by (intro frame) auto
      have "input_loop kcp data fa = bind (input_frame kcp h rest fa)
          (\<lambda>(kcp, fa). input_loop kcp (drop (unat (h_len h)) rest) fa)"
        using False d by (subst input_loop.simps) auto
      moreover have "yields \<dots> (\<lambda>(r, kcp', fa'). I 0 kcp' \<and> r \<in> {0, -1, -2, -3})"
      proof (rule yields_bind [OF f])
        fix r :: "ikcpcb \<times> ack_state" assume "case r of (kcp', fa') \<Rightarrow> I n kcp'"
        then obtain k fa' where r: "r = (k, fa')" "I n k" by (cases r) auto
        have "length (drop (unat (h_len h)) rest) < 24 * Suc n" using rest by simp
        from Suc.IH [OF r(2) this] show "yields (case r of (kcp, fa) \<Rightarrow> input_loop kcp (drop (unat (h_len h)) rest) fa)
            (\<lambda>(r, kcp', fa'). I 0 kcp' \<and> r \<in> {0, -1, -2, -3})" by (simp add: r(1))
      qed
      ultimately show ?thesis by simp
    qed
  qed
qed

end

text \<open>The invariant of the control block, with room for the acknowledgements of the frames to come.\<close>

definition input_ok :: "nat \<Rightarrow> ikcpcb \<Rightarrow> bool" where
  "input_ok n kcp \<longleftrightarrow> kcp_ok kcp \<and> unat (ackcount kcp) + n \<le> 2147483648"

interpretation block: frame_handler input_ok
proof
  fix n kcp fa and h :: header and data :: "byte list"
  assume i: "input_ok (Suc n) kcp" and len: "unat (h_len h) \<le> length data" "0 \<le> sint (h_len h)"
  have "kcp_ok kcp" "unat (ackcount kcp) < 2147483648" using i by (simp_all add: input_ok_def)
  from input_frame_ok [OF this len]
  show "yields (input_frame kcp h data fa) (\<lambda>(kcp', fa'). input_ok n kcp')"
    by (rule yields_mono) (use i in \<open>auto simp: input_ok_def\<close>)
qed (simp add: input_ok_def)

section \<open>The congestion window\<close>

definition cwnd_grow :: "ikcpcb \<Rightarrow> ikcpcb result" where
  "cwnd_grow kcp =
     (let m = mss kcp in
      if cwnd kcp < ssthresh kcp
      then Inr (kcp\<lparr>cwnd := cwnd kcp + 1, incr := incr kcp + m\<rparr>)
      else let kcp = (if incr kcp < m then kcp\<lparr>incr := m\<rparr> else kcp) in
        if incr kcp = 0 then Inl Division_by_zero
        else let kcp = kcp\<lparr>incr := incr kcp + ((m * m) div incr kcp + m div 16)\<rparr>
          in Inr (if (cwnd kcp + 1) * m \<le> incr kcp
                  then kcp\<lparr>cwnd := (incr kcp + m - 1) div (if m > 0 then m else 1)\<rparr>
                  else kcp))"

lemma input_cwnd_eq:
  "input_cwnd kcp prev_una =
     (if itimediff (snd_una kcp) prev_una > 0 \<and> cwnd kcp < rmt_wnd kcp
      then bind (cwnd_grow kcp)
          (\<lambda>k. Inr (if cwnd k > rmt_wnd k then k\<lparr>cwnd := rmt_wnd k, incr := rmt_wnd k * mss kcp\<rparr> else k))
      else Inr kcp)"
  unfolding input_cwnd_def cwnd_grow_def Let_def by (rule refl)

text \<open>Only \<open>cwnd\<close> and \<open>incr\<close> change.\<close>

definition cwnd_only :: "ikcpcb \<Rightarrow> ikcpcb \<Rightarrow> bool" where
  "cwnd_only kcp k \<longleftrightarrow> k = kcp\<lparr>cwnd := cwnd k, incr := incr k\<rparr>"

lemma cwnd_only_updates [simp]:
  "cwnd_only kcp kcp"
  "cwnd_only kcp (kcp\<lparr>cwnd := c, incr := i\<rparr>)"
  "cwnd_only kcp (kcp\<lparr>incr := i\<rparr>)"
  by (simp_all add: cwnd_only_def)

lemma cwnd_only_step:
  "cwnd_only kcp k \<Longrightarrow> cwnd_only kcp (k\<lparr>cwnd := c\<rparr>)"
  "cwnd_only kcp k \<Longrightarrow> cwnd_only kcp (k\<lparr>incr := i\<rparr>)"
proof -
  assume k: "cwnd_only kcp k"
  show "cwnd_only kcp (k\<lparr>cwnd := c\<rparr>)" by (subst k [unfolded cwnd_only_def]) (simp add: cwnd_only_def)
  show "cwnd_only kcp (k\<lparr>incr := i\<rparr>)" by (subst k [unfolded cwnd_only_def]) (simp add: cwnd_only_def)
qed

lemma cwnd_onlyE:
  assumes "cwnd_only kcp k"
  obtains c i where "k = kcp\<lparr>cwnd := c, incr := i\<rparr>"
  using assms unfolding cwnd_only_def by blast

lemma cwnd_grow_yields:
  assumes "mss kcp \<noteq> 0"
  shows "yields (cwnd_grow kcp) (cwnd_only kcp)"
proof (cases "cwnd kcp < ssthresh kcp")
  case True
  then show ?thesis by (simp add: cwnd_grow_def Let_def)
next
  case False
  define k where "k = (if incr kcp < mss kcp then kcp\<lparr>incr := mss kcp\<rparr> else kcp)"
  have k: "cwnd_only kcp k" by (simp add: k_def)
  have nz: "incr k \<noteq> 0"
  proof (cases "incr kcp < mss kcp")
    case True
    then show ?thesis using assms by (simp add: k_def)
  next
    case False
    then have "incr kcp \<noteq> 0" using assms by (metis word_gt_0_no word_neq_0_conv)
    with False show ?thesis by (simp add: k_def)
  qed
  define k' where "k' = k\<lparr>incr := incr k + ((mss kcp * mss kcp) div incr k + mss kcp div 16)\<rparr>"
  have k': "cwnd_only kcp k'" unfolding k'_def by (rule cwnd_only_step(2) [OF k])
  have "cwnd_grow kcp = Inr (if (cwnd k' + 1) * mss kcp \<le> incr k'
      then k'\<lparr>cwnd := (incr k' + mss kcp - 1) div (if mss kcp > 0 then mss kcp else 1)\<rparr> else k')"
    using False nz unfolding cwnd_grow_def Let_def k_def [symmetric] k'_def [symmetric]
    by (simp only: if_False)
  then show ?thesis using k' cwnd_only_step(1) [OF k']
    by (cases "(cwnd k' + 1) * mss kcp \<le> incr k'") (simp_all only: if_True if_False yields_simps)
qed

lemma input_cwnd_yields:
  assumes "mss kcp \<noteq> 0"
  shows "yields (input_cwnd kcp prev_una) (\<lambda>k. cwnd_only kcp k \<and> (cwnd k \<noteq> cwnd kcp \<longrightarrow> cwnd k \<le> rmt_wnd kcp))"
    (is "yields _ ?Q")
proof (cases "itimediff (snd_una kcp) prev_una > 0 \<and> cwnd kcp < rmt_wnd kcp")
  case True
  have "yields (bind (cwnd_grow kcp)
          (\<lambda>k. Inr (if cwnd k > rmt_wnd k then k\<lparr>cwnd := rmt_wnd k, incr := rmt_wnd k * mss kcp\<rparr> else k))) ?Q"
  proof (rule yields_bind [OF cwnd_grow_yields [OF assms]])
    fix k assume k: "cwnd_only kcp k"
    then have r: "rmt_wnd k = rmt_wnd kcp" by (rule cwnd_onlyE) simp
    show "yields (Inr (if rmt_wnd k < cwnd k then k\<lparr>cwnd := rmt_wnd k, incr := rmt_wnd k * mss kcp\<rparr> else k)) ?Q"
      using k r cwnd_only_step(2) [OF cwnd_only_step(1) [OF k]]
      by (cases "rmt_wnd k < cwnd k") (simp_all add: not_less)
  qed
  then show ?thesis unfolding input_cwnd_eq using True by (simp only: if_True simp_thms)
next
  case False
  then have "input_cwnd kcp prev_una = Inr kcp" unfolding input_cwnd_eq by (rule if_not_P)
  then show ?thesis by simp
qed

section \<open>The whole call\<close>

lemma cwnd_ok: "kcp_ok (kcp\<lparr>cwnd := c, incr := i\<rparr>) = kcp_ok kcp"
proof -
  let ?k = "kcp\<lparr>cwnd := c, incr := i\<rparr>"
  have "cfg_ok ?k = cfg_ok kcp" by (rule cfg_ok_cong) simp_all
  moreover have "rcv_ok ?k = rcv_ok kcp" by (rule rcv_ok_cong) simp_all
  moreover have "snd_ok ?k = snd_ok kcp" by (rule snd_ok_cong) simp_all
  moreover have "ack_ok ?k = ack_ok kcp" by (rule ack_ok_cong) simp_all
  ultimately show ?thesis by (simp add: kcp_ok_def)
qed

lemma ikcp_parse_fastack_frame: "\<exists>b. ikcp_parse_fastack kcp sn ts = kcp\<lparr>snd_buf := b\<rparr>"
proof (cases "itimediff sn (snd_una kcp) < 0 \<or> itimediff sn (snd_nxt kcp) \<ge> 0")
  case True
  then show ?thesis by (intro exI [of _ "snd_buf kcp"]) (simp add: ikcp_parse_fastack_def)
next
  case False
  then show ?thesis by (intro exI [of _ "parse_fastack_loop sn (snd_buf kcp)"]) (simp add: ikcp_parse_fastack_def)
qed

lemma parse_fastack_kcp_ok: "kcp_ok kcp \<Longrightarrow> kcp_ok (ikcp_parse_fastack kcp sn ts)"
proof -
  assume ok: "kcp_ok kcp"
  obtain b where "ikcp_parse_fastack kcp sn ts = kcp\<lparr>snd_buf := b\<rparr>" using ikcp_parse_fastack_frame by blast
  then have k: "ikcp_parse_fastack kcp sn ts =
      kcp\<lparr>snd_buf := b, nsnd_buf := nsnd_buf kcp, snd_una := snd_una kcp, rmt_wnd := rmt_wnd kcp\<rparr>" by simp
  show ?thesis by (rule kcp_ok_send_side [OF ok ikcp_parse_fastack_ok [OF kcp_okD(3) [OF ok]] k])
qed

lemma kcp_ok_mss: "kcp_ok kcp \<Longrightarrow> mss kcp \<noteq> 0"
proof
  assume ok: "kcp_ok kcp" and z: "mss kcp = 0"
  from cfg_mss(1) [OF kcp_okD(1) [OF ok]] have "uint (mtu kcp) - 24 = 0" by (simp add: z)
  with kcp_okD(1) [OF ok] show False by (simp add: cfg_ok_def)
qed

definition input_finish :: "u32 \<Rightarrow> int \<times> ikcpcb \<times> ack_state \<Rightarrow> (int \<times> ikcpcb) result" where
  "input_finish prev_una = (\<lambda>(ret, kcp, flag, maxack, latest_ts).
     if ret < 0 then Inr (ret, kcp)
     else bind (input_cwnd (if flag then ikcp_parse_fastack kcp maxack latest_ts else kcp) prev_una) (\<lambda>kcp. Inr (0, kcp)))"

lemma ikcp_input_eq:
  "ikcp_input kcp (Some d) =
     (if sint (of_nat (length d) :: i32) < sint IKCP_OVERHEAD then Inr (-1, kcp)
      else bind (input_loop kcp d (False, 0, 0)) (input_finish (snd_una kcp)))"
  unfolding ikcp_input_def input_finish_def Let_def option.case by (rule refl)

lemma input_finish_ok:
  assumes "kcp_ok kcp" and "r \<in> {0, -1, -2, -3}"
  shows "yields (input_finish u (r, kcp, fa)) (\<lambda>(r', kcp'). kcp_ok kcp' \<and> r' = r \<and> ackcount kcp' = ackcount kcp)"
proof -
  obtain flag maxack ts where fa: "fa = (flag, maxack, ts)" by (cases fa)
  define k where "k = (if flag then ikcp_parse_fastack kcp maxack ts else kcp)"
  have k: "kcp_ok k" using assms(1) parse_fastack_kcp_ok by (simp add: k_def)
  have c: "ackcount k = ackcount kcp" using ikcp_parse_fastack_frame [of kcp maxack ts] by (auto simp: k_def)
  show ?thesis
  proof (cases "r < 0")
    case True
    then show ?thesis using assms(1) by (simp add: input_finish_def fa)
  next
    case False
    then have "r = 0" using assms(2) by auto
    moreover have "yields (bind (input_cwnd k u) (\<lambda>kcp. Inr (0 :: int, kcp)))
        (\<lambda>(r', kcp'). kcp_ok kcp' \<and> r' = 0 \<and> ackcount kcp' = ackcount kcp)"
    proof (rule yields_bind [OF input_cwnd_yields [OF kcp_ok_mss [OF k]]])
      fix k' assume "cwnd_only k k' \<and> (cwnd k' \<noteq> cwnd k \<longrightarrow> cwnd k' \<le> rmt_wnd k)"
      then obtain cw i where "k' = k\<lparr>cwnd := cw, incr := i\<rparr>" using cwnd_onlyE by blast
      then show "yields (Inr (0, k')) (\<lambda>(r', kcp'). kcp_ok kcp' \<and> r' = (0 :: int) \<and> ackcount kcp' = ackcount kcp)"
        using cwnd_ok [where kcp = k and c = cw and i = i] k c by simp
    qed
    ultimately show ?thesis by (simp add: input_finish_def fa k_def)
  qed
qed

lemma ikcp_input_ok:
  assumes "kcp_ok kcp" and "unat (ackcount kcp) + length d div 24 \<le> 2147483648"
  shows "yields (ikcp_input kcp (Some d)) (\<lambda>(r, kcp'). kcp_ok kcp' \<and> r \<in> {0, -1, -2, -3})"
proof (cases "sint (of_nat (length d) :: i32) < sint IKCP_OVERHEAD")
  case True
  then show ?thesis using assms(1) by (simp add: ikcp_input_eq)
next
  case False
  have "input_ok (length d div 24) kcp" using assms by (simp add: input_ok_def)
  moreover have "length d < 24 * Suc (length d div 24)" using dividend_less_times_div [of 24 "length d"] by simp
  ultimately have l: "yields (input_loop kcp d (False, 0, 0)) (\<lambda>(r, kcp', fa'). input_ok 0 kcp' \<and> r \<in> {0, -1, -2, -3})"
    by (rule block.loop_budget)
  have "ikcp_input kcp (Some d) = bind (input_loop kcp d (False, 0, 0)) (input_finish (snd_una kcp))"
    using False by (simp add: ikcp_input_eq)
  moreover have "yields \<dots> (\<lambda>(r, kcp'). kcp_ok kcp' \<and> r \<in> {0, -1, -2, -3})"
  proof (rule yields_bind [OF l])
    fix x :: "int \<times> ikcpcb \<times> ack_state"
    assume "case x of (r, kcp', fa') \<Rightarrow> input_ok 0 kcp' \<and> r \<in> {0, -1, -2, -3}"
    then obtain r k fa where x: "x = (r, k, fa)" "kcp_ok k" "r \<in> {0, -1, -2, -3}" by (cases x) (auto simp: input_ok_def)
    show "yields (input_finish (snd_una kcp) x) (\<lambda>(r, kcp'). kcp_ok kcp' \<and> r \<in> {0, -1, -2, -3})"
      unfolding x(1) by (rule yields_mono [OF input_finish_ok [OF x(2,3)]]) (use x(3) in auto)
  qed
  ultimately show ?thesis by simp
qed

section \<open>What input does to the send side\<close>

definition seg_key :: "IKCPSEG \<Rightarrow> u32 \<times> u32 \<times> byte list" where
  "seg_key s = (seg_sn s, seg_frg s, seg_data s)"

text \<open>The send queue and \<open>snd_nxt\<close> stay, the send buffer only loses segments.\<close>

definition send_side :: "ikcpcb \<Rightarrow> ikcpcb \<Rightarrow> bool" where
  "send_side k0 k \<longleftrightarrow> snd_nxt k = snd_nxt k0 \<and> snd_queue k = snd_queue k0 \<and> conv k = conv k0 \<and>
     seg_key ` set (snd_buf k) \<subseteq> seg_key ` set (snd_buf k0)"

lemma send_side_refl: "send_side k k"
  by (simp add: send_side_def)

lemma send_side_trans:
  assumes "send_side a b" and "send_side b c"
  shows "send_side a c"
proof -
  have "seg_key ` set (snd_buf c) \<subseteq> seg_key ` set (snd_buf a)"
    by (rule subset_trans [of _ "seg_key ` set (snd_buf b)"]) (use assms in \<open>simp_all only: send_side_def\<close>)
  then show ?thesis using assms by (simp only: send_side_def simp_thms)
qed

lemma send_side_cong:
  "snd_nxt k = snd_nxt k' \<Longrightarrow> snd_queue k = snd_queue k' \<Longrightarrow> conv k = conv k' \<Longrightarrow> snd_buf k = snd_buf k' \<Longrightarrow> send_side k k'"
  by (simp add: send_side_def)

lemma send_side_una: "send_side kcp (input_una kcp h)"
proof -
  let ?b = "fst (parse_una_loop (h_una h) (snd_buf kcp))"
  obtain gone where "snd_buf kcp = gone @ ?b" using parse_una_suffix by blast
  then have "set ?b \<subseteq> set (snd_buf kcp)" by (metis Un_upper2 set_append)
  then show ?thesis by (auto simp: send_side_def input_una_def ikcp_shrink_buf_eq ikcp_parse_una_eq)
qed

lemma send_side_ack:
  assumes "kcp_ok kcp"
  shows "send_side kcp (input_ack kcp sn ts)"
proof -
  define k where "k = (if itimediff (current kcp) ts \<ge> 0 then ikcp_update_ack kcp (itimediff (current kcp) ts) else kcp)"
  have ok: "kcp_ok k" using assms ikcp_update_ack_ok by (simp add: k_def)
  have "send_side kcp k" by (rule send_side_cong) (simp_all add: k_def)
  moreover have "send_side k (ikcp_shrink_buf (ikcp_parse_ack k sn))"
    using ikcp_parse_ack_eq [OF snd_okD(1) [OF kcp_okD(3) [OF ok]], of sn]
    by (auto simp: send_side_def ikcp_shrink_buf_eq)
  moreover have "input_ack kcp sn ts = ikcp_shrink_buf (ikcp_parse_ack k sn)" by (simp add: input_ack_def k_def Let_def)
  ultimately show ?thesis by (metis send_side_trans)
qed

lemma send_side_push:
  assumes ok: "kcp_ok kcp" and n: "unat (ackcount kcp) < 2147483648"
  shows "yields (input_push kcp h data) (send_side kcp)"
proof (cases "itimediff (h_sn h) (rcv_nxt kcp + rcv_wnd kcp) < 0")
  case False
  then show ?thesis by (simp add: input_push_def send_side_refl)
next
  case True
  obtain l b where p: "ikcp_ack_push kcp (h_sn h) (h_ts h) = Inr (kcp\<lparr>acklist := l, ackblock := b, ackcount := ackcount kcp + 1\<rparr>)"
    using ikcp_ack_push_appends [OF kcp_okD(4) [OF ok] n] by blast
  let ?k = "kcp\<lparr>acklist := l, ackblock := b, ackcount := ackcount kcp + 1\<rparr>"
  obtain rb nb q nq nx where d: "ikcp_parse_data ?k (input_seg h (take (unat (h_len h)) data)) =
      ?k\<lparr>rcv_buf := rb, nrcv_buf := nb, rcv_queue := q, nrcv_que := nq, rcv_nxt := nx\<rparr>"
    using ikcp_parse_data_frame by blast
  show ?thesis using True by (simp add: input_push_def p d) (simp add: send_side_def)
qed

lemma send_side_frame:
  assumes ok: "kcp_ok kcp" and n: "unat (ackcount kcp) < 2147483648"
  shows "yields (input_frame kcp h data fa) (\<lambda>(kcp', fa'). send_side kcp kcp')"
proof -
  let ?k = "input_una kcp h"
  have k: "kcp_ok ?k" by (rule input_una_ok(1) [OF ok])
  have "ackcount ?k = ackcount kcp" using input_una_ok(2) [OF ok, of h] by auto
  then have n': "unat (ackcount ?k) < 2147483648" using n by (simp only:)
  note u = send_side_una [of kcp h]
  have push: "yields (bind (input_push ?k h data) (\<lambda>kcp. Inr (kcp, fa))) (\<lambda>(kcp', fa'). send_side kcp kcp')"
    by (rule yields_bind [OF send_side_push [OF k n']]) (simp add: send_side_trans [OF u])
  have "send_side kcp (?k\<lparr>probe := p\<rparr>)" for p
    using u by (simp add: send_side_def)
  then show ?thesis
    unfolding input_frame_eq Let_def
    using push u send_side_trans [OF u send_side_ack [OF k]] by simp
qed

text \<open>The loop contract again, for the send side relative to the block at the start.\<close>

definition sender_inv :: "ikcpcb \<Rightarrow> nat \<Rightarrow> ikcpcb \<Rightarrow> bool" where
  "sender_inv k0 n k \<longleftrightarrow> input_ok n k \<and> send_side k0 k"

interpretation sender: frame_handler "sender_inv k0" for k0
proof
  fix n kcp fa and h :: header and data :: "byte list"
  assume i: "sender_inv k0 (Suc n) kcp" and len: "unat (h_len h) \<le> length data" "0 \<le> sint (h_len h)"
    and cv: "h_conv h = conv kcp" "known_cmd (h_cmd h)"
  have b: "input_ok (Suc n) kcp" and s: "send_side k0 kcp" using i by (simp_all add: sender_inv_def)
  then have ok: "kcp_ok kcp" "unat (ackcount kcp) < 2147483648" by (simp_all add: input_ok_def)
  obtain k' fa' where r: "input_frame kcp h data fa = Inr (k', fa')" "input_ok n k'"
    using block.frame [OF b len cv, of fa] by (auto elim: yieldsE)
  have "send_side kcp k'" using send_side_frame [OF ok, of h data fa] by (simp add: r(1))
  then show "yields (input_frame kcp h data fa) (\<lambda>(kcp', fa'). sender_inv k0 n kcp')"
    using r send_side_trans [OF s] by (simp add: sender_inv_def)
qed (simp add: sender_inv_def input_ok_def)

lemma send_side_finish:
  assumes "kcp_ok kcp" and "r \<in> {0, -1, -2, -3}"
  shows "yields (input_finish u (r, kcp, fa)) (\<lambda>(r', kcp'). send_side kcp kcp')"
proof -
  obtain flag maxack ts where fa: "fa = (flag, maxack, ts)" by (cases fa)
  define k where "k = (if flag then ikcp_parse_fastack kcp maxack ts else kcp)"
  have ok: "kcp_ok k" using assms(1) parse_fastack_kcp_ok by (simp add: k_def)
  have "seg_key (bump_fastack x y s) = seg_key s" for x y s by (simp add: seg_key_def)
  then have "send_side kcp (ikcp_parse_fastack kcp maxack ts)"
    using ikcp_parse_fastack_eq [OF snd_okD(1) [OF kcp_okD(3) [OF assms(1)]], of maxack ts]
    by (auto simp: send_side_def)
  then have k: "send_side kcp k" by (simp add: k_def send_side_refl)
  show ?thesis
  proof (cases "r < 0")
    case True
    then show ?thesis by (simp add: input_finish_def fa send_side_refl)
  next
    case False
    have "yields (bind (input_cwnd k u) (\<lambda>kcp. Inr (0 :: int, kcp))) (\<lambda>(r', kcp'). send_side kcp kcp')"
    proof (rule yields_bind [OF input_cwnd_yields [OF kcp_ok_mss [OF ok]]])
      fix k' assume "cwnd_only k k' \<and> (cwnd k' \<noteq> cwnd k \<longrightarrow> cwnd k' \<le> rmt_wnd k)"
      then obtain cw i where "k' = k\<lparr>cwnd := cw, incr := i\<rparr>" using cwnd_onlyE by blast
      then show "yields (Inr (0, k')) (\<lambda>(r', kcp'). send_side kcp kcp')" using k by (simp add: send_side_def)
    qed
    then show ?thesis using False by (simp add: input_finish_def fa k_def)
  qed
qed

lemma ikcp_input_send_side:
  assumes "kcp_ok kcp" and "unat (ackcount kcp) + length d div 24 \<le> 2147483648"
  shows "yields (ikcp_input kcp (Some d)) (\<lambda>(r, kcp'). send_side kcp kcp')"
proof (cases "sint (of_nat (length d) :: i32) < sint IKCP_OVERHEAD")
  case True
  then show ?thesis by (simp add: ikcp_input_eq send_side_refl)
next
  case False
  have "sender_inv kcp (length d div 24) kcp" using assms by (simp add: sender_inv_def input_ok_def send_side_refl)
  moreover have "length d < 24 * Suc (length d div 24)" using dividend_less_times_div [of 24 "length d"] by simp
  ultimately have l: "yields (input_loop kcp d (False, 0, 0)) (\<lambda>(r, kcp', fa'). sender_inv kcp 0 kcp' \<and> r \<in> {0, -1, -2, -3})"
    by (rule sender.loop_budget)
  have "ikcp_input kcp (Some d) = bind (input_loop kcp d (False, 0, 0)) (input_finish (snd_una kcp))"
    using False by (simp add: ikcp_input_eq)
  moreover have "yields \<dots> (\<lambda>(r, kcp'). send_side kcp kcp')"
  proof (rule yields_bind [OF l])
    fix x :: "int \<times> ikcpcb \<times> ack_state"
    assume "case x of (r, kcp', fa') \<Rightarrow> sender_inv kcp 0 kcp' \<and> r \<in> {0, -1, -2, -3}"
    then obtain r k fa where x: "x = (r, k, fa)" "kcp_ok k" "send_side kcp k" "r \<in> {0, -1, -2, -3}"
      by (cases x) (auto simp: sender_inv_def input_ok_def)
    show "yields (input_finish (snd_una kcp) x) (\<lambda>(r, kcp'). send_side kcp kcp')"
      unfolding x(1) by (rule yields_mono [OF send_side_finish [OF x(2,4)]]) (use send_side_trans [OF x(3)] in auto)
  qed
  ultimately show ?thesis by simp
qed

end
