(* ===== verification/Kcp_Input_Spec.thy ===== *)
theory Kcp_Input_Spec
  imports Kcp_Input
begin

text \<open>
  What \<open>ikcp_input\<close> does, as a whole: its error codes, a datagram that holds one acknowledgement
  or one data segment, and the growth of the congestion window. The general datagram is the
  iteration of these (\<open>input_loop\<close>), whose invariant is the locale \<open>frame_handler\<close>.
\<close>

section \<open>A datagram of one segment\<close>

lemma yields_zero: "yields x (\<lambda>(r, k). r = (0 :: int) \<and> P k) \<Longrightarrow> \<exists>k. x = Inr (0, k) \<and> P k"
  by (cases x) auto

text \<open>What remains after the loop keeps every field but the counters of the send buffer and the window.\<close>

lemma fastack_keys:
  assumes "snd_window_ok kcp"
  obtains b where "ikcp_parse_fastack kcp sn ts = kcp\<lparr>snd_buf := b\<rparr>" "map seg_key b = map seg_key (snd_buf kcp)"
proof (cases "itimediff sn (snd_una kcp) < 0 \<or> itimediff sn (snd_nxt kcp) \<ge> 0")
  case True
  show ?thesis by (rule that [of "snd_buf kcp"]) (use True in \<open>simp_all add: ikcp_parse_fastack_eq [OF assms]\<close>)
next
  case False
  show ?thesis
    by (rule that [of "map (bump_fastack (snd_una kcp) sn) (snd_buf kcp)"])
      (use False in \<open>simp_all add: ikcp_parse_fastack_eq [OF assms] seg_key_def\<close>)
qed

lemma input_finish_keeps:
  assumes ok: "kcp_ok kcp"
  obtains b c i where "input_finish u (0, kcp, fa) = Inr (0, kcp\<lparr>snd_buf := b, cwnd := c, incr := i\<rparr>)"
    "map seg_key b = map seg_key (snd_buf kcp)" "kcp_ok (kcp\<lparr>snd_buf := b, cwnd := c, incr := i\<rparr>)"
proof -
  obtain flag maxack ts where fa: "fa = (flag, maxack, ts)" by (cases fa)
  define k where "k = (if flag then ikcp_parse_fastack kcp maxack ts else kcp)"
  have kok: "kcp_ok k" using ok parse_fastack_kcp_ok by (simp add: k_def)
  obtain b where b: "k = kcp\<lparr>snd_buf := b\<rparr>" "map seg_key b = map seg_key (snd_buf kcp)"
  proof (cases flag)
    case True
    obtain b where "ikcp_parse_fastack kcp maxack ts = kcp\<lparr>snd_buf := b\<rparr>" "map seg_key b = map seg_key (snd_buf kcp)"
      by (rule fastack_keys [OF snd_okD(1) [OF kcp_okD(3) [OF ok]]])
    then show ?thesis using True that by (simp add: k_def)
  next
    case False
    show ?thesis by (rule that [of "snd_buf kcp"]) (use False in \<open>simp_all add: k_def\<close>)
  qed
  obtain k' where k': "input_cwnd k u = Inr k'" "cwnd_only k k'"
    using input_cwnd_yields [OF kcp_ok_mss [OF kok], of u] by (auto elim: yieldsE)
  obtain c i where ci: "k' = k\<lparr>cwnd := c, incr := i\<rparr>" using k'(2) by (rule cwnd_onlyE)
  have "input_finish u (0, kcp, fa) = Inr (0, k')"
    by (simp add: input_finish_def fa k_def [symmetric] k'(1))
  moreover have "k' = kcp\<lparr>snd_buf := b, cwnd := c, incr := i\<rparr>" by (simp add: ci b(1))
  moreover have "kcp_ok k'" unfolding ci cwnd_ok by (rule kok)
  ultimately show ?thesis using that b(2) by simp
qed

lemma sint_of_nat32: "n < 2147483648 \<Longrightarrow> sint (of_nat n :: u32) = int n"
  using sint_of_int32 [of "int n"] by simp

lemma input_loop_end: "length data < 24 \<Longrightarrow> input_loop kcp data fa = Inr (0, kcp, fa)"
  by (subst input_loop.simps) (simp add: IKCP_OVERHEAD_def)

lemma input_loop_frame:
  assumes "length data = unat (h_len h)" and "0 \<le> sint (h_len h)" and "h_conv h = conv kcp" and "known_cmd (h_cmd h)"
  shows "input_loop kcp (encode_header h @ data @ rest) fa =
    bind (input_frame kcp h (data @ rest) fa) (\<lambda>(kcp, fa). input_loop kcp rest fa)"
proof -
  have l: "\<not> int (length (encode_header h @ data @ rest)) < uint IKCP_OVERHEAD"
    by (simp add: hdr.enc_length IKCP_OVERHEAD_def)
  have "uint (h_len h) = int (length data)" by (simp add: assms(1))
  then have n: "\<not> (int (length (data @ rest)) < uint (h_len h) \<or> sint (h_len h) < 0)" using assms(2) by simp
  have "drop (unat (h_len h)) (data @ rest) = rest" by (simp add: assms(1) [symmetric])
  then show ?thesis using l n assms(3,4) by (subst input_loop.simps) (simp add: hdr.dec_enc)
qed

lemma input_one_frame:
  assumes "length data = unat (h_len h)" and "24 + length data < 2147483648" and "h_conv h = conv kcp" and "known_cmd (h_cmd h)"
  shows "ikcp_input kcp (Some (encode_header h @ data)) =
    bind (input_frame kcp h data (False, 0, 0)) (\<lambda>(k, fa). input_finish (snd_una kcp) (0, k, fa))"
proof -
  let ?d = "encode_header h @ data"
  have len: "length ?d = 24 + length data" by (simp add: hdr.enc_length)
  have "length ?d < 2147483648" unfolding len by (rule assms(2))
  then have "sint (of_nat (length ?d) :: i32) = int (24 + length data)" by (simp only: sint_of_nat32 len)
  then have a: "\<not> sint (of_nat (length ?d) :: i32) < sint IKCP_OVERHEAD" by (simp only: IKCP_OVERHEAD_def) simp
  have "int (unat (h_len h)) < 2147483648" using assms(1,2) by linarith
  then have "uint (h_len h) < 2147483648" by simp
  then have s: "0 \<le> sint (h_len h)" by (simp only: sint_nonneg_iff)
  have l: "input_loop kcp ?d (False, 0, 0) =
      bind (input_frame kcp h data (False, 0, 0)) (\<lambda>(kcp, fa). Inr (0, kcp, fa))"
    using input_loop_frame [OF assms(1) s assms(3,4), of "[]" "(False, 0, 0)"] by (simp add: input_loop_end)
  show ?thesis
    unfolding ikcp_input_eq if_not_P [OF a] l
    by (cases "input_frame kcp h data (False, 0, 0)") auto
qed


section \<open>An acknowledgement\<close>

lemma snd_window_wnd: "snd_window_ok kcp \<Longrightarrow> snd_window_ok (kcp\<lparr>rmt_wnd := ucast (w :: u16)\<rparr>)"
  by (simp add: snd_window_ok_def uint_wnd)

lemma una_keeps:
  assumes w: "snd_window_ok kcp" and u: "0 \<le> itimediff una (snd_una kcp)"
  shows "fst (parse_una_loop una (snd_buf kcp)) = filter (\<lambda>s. itimediff una (seg_sn s) \<le> 0) (snd_buf kcp)"
proof -
  have d: "uint (una - snd_una kcp) < 2147483648" using u by (simp only: itimediff_nonneg_iff)
  have "fst (parse_una_loop una (snd_buf kcp)) = filter (\<lambda>s. uint (una - snd_una kcp) \<le> seg_off (snd_una kcp) s) (snd_buf kcp)"
    by (rule parse_una_loop_filter [OF snd_window_okD(3) [OF w] d])
  also have "\<dots> = filter (\<lambda>s. itimediff una (seg_sn s) \<le> 0) (snd_buf kcp)"
  proof (rule filter_cong [OF refl])
    fix s assume "s \<in> set (snd_buf kcp)"
    then have "seg_off (snd_una kcp) s < 2147483648" by (rule ordered_bound [OF snd_window_okD(3) [OF w]])
    then show "(uint (una - snd_una kcp) \<le> seg_off (snd_una kcp) s) = (itimediff una (seg_sn s) \<le> 0)"
      using itimediff_base [OF d, of "seg_sn s"] by (simp add: seg_off_def)
  qed
  finally show ?thesis .
qed

lemma input_una_buf:
  assumes w: "snd_window_ok kcp" and u: "0 \<le> itimediff (h_una h) (snd_una kcp)"
  shows "snd_buf (input_una kcp h) = filter (\<lambda>s. itimediff (h_una h) (seg_sn s) \<le> 0) (snd_buf kcp)"
  using una_keeps [OF w u] by (simp add: input_una_def ikcp_shrink_buf_eq ikcp_parse_una_eq)

text \<open>No segment of the send buffer has a number outside \<open>snd_una\<close> to \<open>snd_nxt\<close>.\<close>

lemma outside_window:
  assumes w: "snd_window_ok kcp" and o: "itimediff sn (snd_una kcp) < 0 \<or> itimediff sn (snd_nxt kcp) \<ge> 0"
    and s: "s \<in> set (snd_buf kcp)"
  shows "seg_sn s \<noteq> sn"
proof
  assume e: "seg_sn s = sn"
  have b: "uint (sn - snd_una kcp) < 2147483648"
    using ordered_bound [OF snd_window_okD(3) [OF w] s] by (simp add: seg_off_def e)
  then have "0 \<le> itimediff sn (snd_una kcp)" by (simp only: itimediff_nonneg_iff)
  moreover have "itimediff sn (snd_nxt kcp) = uint (sn - snd_una kcp) - uint (snd_nxt kcp - snd_una kcp)"
    by (rule itimediff_base [OF b]) (use snd_window_okD(5) [OF w] in linarith)
  moreover have "uint (sn - snd_una kcp) < uint (snd_nxt kcp - snd_una kcp)"
    using snd_window_okD(4) [OF w s] by (simp add: seg_off_def e)
  ultimately show False using o by linarith
qed

lemma parse_ack_buf:
  assumes "snd_window_ok kcp"
  shows "snd_buf (ikcp_parse_ack kcp sn) = filter (\<lambda>s. seg_sn s \<noteq> sn) (snd_buf kcp)"
proof (cases "itimediff sn (snd_una kcp) < 0 \<or> itimediff sn (snd_nxt kcp) \<ge> 0")
  case True
  then have "filter (\<lambda>s. seg_sn s \<noteq> sn) (snd_buf kcp) = snd_buf kcp"
    using outside_window [OF assms] by (intro filter_True) blast
  with True show ?thesis by (simp add: ikcp_parse_ack_eq [OF assms])
next
  case False
  then show ?thesis by (simp add: ikcp_parse_ack_eq [OF assms])
qed

lemma input_ack_buf:
  assumes "kcp_ok kcp"
  shows "snd_buf (input_ack kcp sn ts) = filter (\<lambda>s. seg_sn s \<noteq> sn) (snd_buf kcp)"
proof -
  define k where "k = (if itimediff (current kcp) ts \<ge> 0 then ikcp_update_ack kcp (itimediff (current kcp) ts) else kcp)"
  have ok: "kcp_ok k" using assms ikcp_update_ack_ok by (simp add: k_def)
  have "snd_buf k = snd_buf kcp" by (simp add: k_def)
  moreover have "input_ack kcp sn ts = ikcp_shrink_buf (ikcp_parse_ack k sn)" by (simp add: input_ack_def k_def Let_def)
  ultimately show ?thesis
    using parse_ack_buf [OF snd_okD(1) [OF kcp_okD(3) [OF ok]], of sn] by (simp add: ikcp_shrink_buf_eq)
qed

lemma input_ack_datagram:
  assumes ok: "kcp_ok kcp" and h: "h_conv h = conv kcp" "h_cmd h = 82" "h_len h = 0"
    and u: "0 \<le> itimediff (h_una h) (snd_una kcp)"
  shows "yields (ikcp_input kcp (Some (encode_header h))) (\<lambda>(r, kcp'). r = 0 \<and> kcp_ok kcp' \<and>
    map seg_key (snd_buf kcp') =
      map seg_key (filter (\<lambda>s. itimediff (h_una h) (seg_sn s) \<le> 0 \<and> seg_sn s \<noteq> h_sn h) (snd_buf kcp)))"
proof -
  let ?k = "input_una kcp h"
  have k: "kcp_ok ?k" by (rule input_una_ok(1) [OF ok])
  let ?a = "input_ack ?k (h_sn h) (h_ts h)"
  have cmd: "ucast (h_cmd h) = IKCP_CMD_ACK" by (simp add: h(2) IKCP_CMD_ACK_def)
  have known: "known_cmd (h_cmd h)" by (simp add: known_cmd_def cmd)
  have f: "input_frame kcp h [] (False, 0, 0) = Inr (?a, input_maxack (False, 0, 0) (h_sn h) (h_ts h))"
    by (simp add: input_frame_eq cmd Let_def)
  obtain b c i where fin: "input_finish (snd_una kcp) (0, ?a, input_maxack (False, 0, 0) (h_sn h) (h_ts h)) =
      Inr (0, ?a\<lparr>snd_buf := b, cwnd := c, incr := i\<rparr>)" "map seg_key b = map seg_key (snd_buf ?a)"
      "kcp_ok (?a\<lparr>snd_buf := b, cwnd := c, incr := i\<rparr>)"
    by (rule input_finish_keeps [OF input_ack_ok [OF k]])
  have "ikcp_input kcp (Some (encode_header h)) = Inr (0, ?a\<lparr>snd_buf := b, cwnd := c, incr := i\<rparr>)"
    using input_one_frame [of "[]" h kcp] h known by (simp add: f fin(1))
  moreover have "snd_buf ?a = filter (\<lambda>s. itimediff (h_una h) (seg_sn s) \<le> 0 \<and> seg_sn s \<noteq> h_sn h) (snd_buf kcp)"
    using input_una_buf [OF snd_okD(1) [OF kcp_okD(3) [OF ok]] u]
    by (simp add: input_ack_buf [OF k] conj_commute)
  ultimately show ?thesis using fin(2,3) by simp
qed

section \<open>A data segment\<close>

lemma acks_cong:
  "ackcount k = ackcount k' \<Longrightarrow> acklist k = acklist k' \<Longrightarrow> acks k = acks k'"
  by (simp add: acks_def ikcp_ack_get_def)

text \<open>The segments a receiver gains from a data segment numbered \<open>sn\<close>.\<close>

definition gained :: "ikcpcb \<Rightarrow> IKCPSEG \<Rightarrow> IKCPSEG multiset" where
  "gained kcp new =
     (if itimediff (seg_sn new) (rcv_nxt kcp) < 0 \<or> (\<exists>s\<in>set (rcv_buf kcp). seg_sn s = seg_sn new)
      then {#} else {#new#})"

lemma parse_data_gained:
  assumes "rcv_ok kcp" and "itimediff (seg_sn new) (rcv_nxt kcp + rcv_wnd kcp) < 0"
  shows "mset (rcv_queue (if itimediff (seg_sn new) (rcv_nxt kcp) \<ge> 0 then ikcp_parse_data kcp new else kcp) @
      rcv_buf (if itimediff (seg_sn new) (rcv_nxt kcp) \<ge> 0 then ikcp_parse_data kcp new else kcp)) =
    mset (rcv_queue kcp @ rcv_buf kcp) + gained kcp new"
proof (cases "itimediff (seg_sn new) (rcv_nxt kcp) \<ge> 0")
  case True
  then show ?thesis using ikcp_parse_data_segments [OF assms True] by (simp add: gained_def)
next
  case False
  then show ?thesis by (simp add: gained_def)
qed

lemma input_push_effect:
  assumes ok: "kcp_ok kcp" and n: "unat (ackcount kcp) < 2147483648" and len: "length data = unat (h_len h)"
  shows "yields (input_push kcp h data) (\<lambda>k. snd_buf k = snd_buf kcp \<and>
    (if itimediff (h_sn h) (rcv_nxt kcp + rcv_wnd kcp) \<ge> 0
     then acks k = acks kcp \<and> rcv_queue k = rcv_queue kcp \<and> rcv_buf k = rcv_buf kcp
     else acks k = acks kcp @ [(h_sn h, h_ts h)] \<and>
       mset (rcv_queue k @ rcv_buf k) = mset (rcv_queue kcp @ rcv_buf kcp) + gained kcp (input_seg h data)))"
proof (cases "itimediff (h_sn h) (rcv_nxt kcp + rcv_wnd kcp) < 0")
  case False
  then show ?thesis by (simp add: input_push_def)
next
  case True
  obtain l b where p: "ikcp_ack_push kcp (h_sn h) (h_ts h) = Inr (kcp\<lparr>acklist := l, ackblock := b, ackcount := ackcount kcp + 1\<rparr>)"
    and a: "acks (kcp\<lparr>acklist := l, ackblock := b, ackcount := ackcount kcp + 1\<rparr>) = acks kcp @ [(h_sn h, h_ts h)]"
    using ikcp_ack_push_appends [OF kcp_okD(4) [OF ok] n] by blast
  let ?k = "kcp\<lparr>acklist := l, ackblock := b, ackcount := ackcount kcp + 1\<rparr>"
  let ?new = "input_seg h data"
  let ?d = "if itimediff (seg_sn ?new) (rcv_nxt ?k) \<ge> 0 then ikcp_parse_data ?k ?new else ?k"
  have sn: "seg_sn ?new = h_sn h" by (simp add: input_seg_def)
  have all: "take (unat (h_len h)) data = data" by (simp add: len [symmetric])
  have r: "rcv_ok ?k" using rcv_ok_cong [of ?k kcp] kcp_okD(2) [OF ok] by simp
  have w: "itimediff (seg_sn ?new) (rcv_nxt ?k + rcv_wnd ?k) < 0" using True by (simp add: sn)
  have m: "mset (rcv_queue ?d @ rcv_buf ?d) = mset (rcv_queue ?k @ rcv_buf ?k) + gained ?k ?new"
    by (rule parse_data_gained [OF r w])
  obtain rb nb q nq nx where d: "ikcp_parse_data ?k ?new =
      ?k\<lparr>rcv_buf := rb, nrcv_buf := nb, rcv_queue := q, nrcv_que := nq, rcv_nxt := nx\<rparr>"
    using ikcp_parse_data_frame by blast
  have "acks ?d = acks ?k" and "snd_buf ?d = snd_buf kcp" by (auto intro: acks_cong simp: d)
  moreover have "gained ?k ?new = gained kcp ?new" by (simp add: gained_def)
  moreover have "input_push kcp h data = Inr ?d" using True by (simp add: input_push_def p all sn)
  ultimately show ?thesis using True m a by simp
qed

lemma input_una_receive:
  assumes "kcp_ok kcp"
  shows "rcv_nxt (input_una kcp h) = rcv_nxt kcp" "rcv_wnd (input_una kcp h) = rcv_wnd kcp"
    "rcv_queue (input_una kcp h) = rcv_queue kcp" "rcv_buf (input_una kcp h) = rcv_buf kcp"
    "acks (input_una kcp h) = acks kcp" "ackcount (input_una kcp h) = ackcount kcp"
proof -
  obtain b nb u where k: "input_una kcp h = kcp\<lparr>snd_buf := b, nsnd_buf := nb, snd_una := u, rmt_wnd := ucast (h_wnd h)\<rparr>"
    using input_una_ok(2) [OF assms] by blast
  show "rcv_nxt (input_una kcp h) = rcv_nxt kcp" "rcv_wnd (input_una kcp h) = rcv_wnd kcp"
    "rcv_queue (input_una kcp h) = rcv_queue kcp" "rcv_buf (input_una kcp h) = rcv_buf kcp"
    "ackcount (input_una kcp h) = ackcount kcp" by (simp_all add: k)
  show "acks (input_una kcp h) = acks kcp" by (rule acks_cong) (simp_all add: k)
qed

lemma input_push_datagram:
  assumes ok: "kcp_ok kcp" and n: "unat (ackcount kcp) < 2147483648"
    and h: "h_conv h = conv kcp" "h_cmd h = 81" "length data = unat (h_len h)" "24 + length data < 2147483648"
  shows "yields (ikcp_input kcp (Some (encode_header h @ data))) (\<lambda>(r, kcp'). r = 0 \<and> kcp_ok kcp' \<and>
    (if itimediff (h_sn h) (rcv_nxt kcp + rcv_wnd kcp) \<ge> 0
     then acks kcp' = acks kcp \<and> rcv_queue kcp' = rcv_queue kcp \<and> rcv_buf kcp' = rcv_buf kcp
     else acks kcp' = acks kcp @ [(h_sn h, h_ts h)] \<and>
       mset (rcv_queue kcp' @ rcv_buf kcp') = mset (rcv_queue kcp @ rcv_buf kcp) + gained kcp (input_seg h data)))"
    (is "yields _ (\<lambda>(r, kcp'). r = 0 \<and> kcp_ok kcp' \<and> ?P kcp')")
proof -
  let ?k = "input_una kcp h"
  note k = input_una_ok(1) [OF ok, of h] and same = input_una_receive [OF ok, of h]
  have n': "unat (ackcount ?k) < 2147483648" using n by (simp add: same)
  have "int (length data) < 2147483648" using h(4) by linarith
  then have "uint (h_len h) < 2147483648" by (simp add: h(3))
  then have len: "unat (h_len h) \<le> length data" "0 \<le> sint (h_len h)" by (simp_all only: sint_nonneg_iff h(3))
  obtain k' where p: "input_push ?k h data = Inr k'" "kcp_ok k'"
    using input_push_ok [OF k n' len] by (auto elim: yieldsE)
  have g: "gained ?k new = gained kcp new" for new by (simp add: gained_def same)
  have eff: "?P k'"
    using input_push_effect [OF k n' h(3)] unfolding p(1) yields_simps same g by (rule conjunct2)
  have cmd: "ucast (h_cmd h) = IKCP_CMD_PUSH" by (simp add: h(2) IKCP_CMD_PUSH_def)
  have f: "input_frame kcp h data (False, 0, 0) = Inr (k', False, 0, 0)"
    by (simp add: input_frame_eq Let_def cmd p(1)) (simp add: ikcp_consts)
  obtain b c i where fin: "input_finish (snd_una kcp) (0, k', False, 0, 0) =
      Inr (0, k'\<lparr>snd_buf := b, cwnd := c, incr := i\<rparr>)" "kcp_ok (k'\<lparr>snd_buf := b, cwnd := c, incr := i\<rparr>)"
    by (rule input_finish_keeps [OF p(2)])
  have "known_cmd (h_cmd h)" by (simp add: known_cmd_def cmd)
  then have "ikcp_input kcp (Some (encode_header h @ data)) = Inr (0, k'\<lparr>snd_buf := b, cwnd := c, incr := i\<rparr>)"
    using input_one_frame [OF h(3,4,1)] by (simp add: f fin(1))
  moreover have "acks (k'\<lparr>snd_buf := b, cwnd := c, incr := i\<rparr>) = acks k'" by (rule acks_cong) simp_all
  ultimately show ?thesis using fin(2) eff by (simp del: mset_append)
qed

section \<open>Correctness\<close>

definition sample_peer :: ikcpcb where
  "sample_peer = (fresh 7)\<lparr>snd_una := 4294967295, snd_nxt := 3, nsnd_buf := 3,
     snd_buf := [sample_segment 4294967295, sample_segment 1, sample_segment 2]\<rparr>"

definition sample_header :: "byte \<Rightarrow> u32 \<Rightarrow> u32 \<Rightarrow> u32 \<Rightarrow> header" where
  "sample_header cmd sn una len = \<lparr>h_conv = 7, h_cmd = cmd, h_frg = 0, h_wnd = 128, h_ts = 0, h_sn = sn, h_una = una, h_len = len\<rparr>"

lemma sample_peer_ok: "kcp_ok sample_peer"
proof -
  have "cfg_ok sample_peer = cfg_ok (fresh 7)" by (rule cfg_ok_cong) (simp_all add: sample_peer_def)
  moreover have "rcv_ok sample_peer = rcv_ok (fresh 7)" by (rule rcv_ok_cong) (simp_all add: sample_peer_def)
  moreover have "ack_ok sample_peer = ack_ok (fresh 7)" by (rule ack_ok_cong) (simp_all add: sample_peer_def)
  moreover have "snd_ok sample_peer"
    by (simp add: sample_peer_def fresh_eq sample_segment_def snd_ok_def snd_window_ok_def first_unacked_def ordered_def
      seg_off_def seg_ok_def ikcp_segment_new_def ikcp_consts)
  ultimately show ?thesis using fresh_ok [of 7] by (simp add: kcp_ok_def)
qed

text \<open>C14: \<open>ikcp_input\<close> returns on every datagram, whatever its bytes, while there is room for its acknowledgements: no
  write behind an array, no division by zero and no endless loop. The result is one of the documented codes,
  the whole invariant holds again, the send queue and \<open>snd_nxt\<close> are untouched, and the send buffer only loses
  segments, none of its payload being changed.\<close>

theorem ikcp_input_correct:
  assumes "kcp_ok kcp" and "unat (ackcount kcp) + length d div 24 \<le> 2147483648"
  shows "\<exists>r kcp'. ikcp_input kcp (Some d) = Inr (r, kcp') \<and> r \<in> {0, -1, -2, -3} \<and> kcp_ok kcp' \<and>
    snd_nxt kcp' = snd_nxt kcp \<and> snd_queue kcp' = snd_queue kcp \<and>
    seg_key ` set (snd_buf kcp') \<subseteq> seg_key ` set (snd_buf kcp)"
proof -
  obtain r kcp' where "ikcp_input kcp (Some d) = Inr (r, kcp')" "kcp_ok kcp'" "r \<in> {0, -1, -2, -3}"
    using ikcp_input_ok [OF assms] by (auto elim: yieldsE)
  moreover from this(1) have "send_side kcp kcp'" using ikcp_input_send_side [OF assms] by simp
  ultimately show ?thesis unfolding send_side_def by blast
qed

theorem ikcp_input_correct_witness:
  "\<exists>r kcp'. ikcp_input sample_peer (Some (replicate 100 81)) = Inr (r, kcp') \<and> kcp_ok kcp' \<and> snd_nxt kcp' = 3"
proof -
  have "unat (ackcount sample_peer) + length (replicate 100 (81 :: byte)) div 24 \<le> 2147483648" and "snd_nxt sample_peer = 3"
    by (simp_all add: sample_peer_def fresh_eq)
  then show ?thesis using ikcp_input_correct [OF sample_peer_ok, of "replicate 100 81"] by metis
qed

text \<open>C37: A missing or short datagram and one of another conversation are refused with -1, a length field larger than
  what follows with -2 and an unknown command with -3; when the first segment is refused the block is unchanged.\<close>

theorem ikcp_input_rejects:
  assumes "length d < 2147483648" and "decode_header d = Some (h, rest)"
  shows "ikcp_input kcp None = Inr (-1, kcp) \<and>
    (length short < 24 \<longrightarrow> ikcp_input kcp (Some short) = Inr (-1, kcp)) \<and>
    (h_conv h \<noteq> conv kcp \<longrightarrow> ikcp_input kcp (Some d) = Inr (-1, kcp)) \<and>
    (h_conv h = conv kcp \<and> length rest < unat (h_len h) \<longrightarrow> ikcp_input kcp (Some d) = Inr (-2, kcp)) \<and>
    (h_conv h = conv kcp \<and> unat (h_len h) \<le> length rest \<and> h_cmd h \<notin> {81, 82, 83, 84} \<longrightarrow>
       ikcp_input kcp (Some d) = Inr (-3, kcp))"
proof -
  have s: "ikcp_input kcp (Some short) = Inr (-1, kcp)" if "length short < 24"
    using that sint_of_nat32 [of "length short"] by (simp add: ikcp_input_eq IKCP_OVERHEAD_def)
  have d: "d = encode_header h @ rest" by (rule hdr.dec_Some [OF assms(2)])
  have long: "24 + length rest < 2147483648" using assms(1) by (simp add: d hdr.enc_length)
  have ge: "\<not> sint (of_nat (length d) :: i32) < sint IKCP_OVERHEAD" "\<not> int (length d) < uint IKCP_OVERHEAD"
    using sint_of_nat32 [OF assms(1)] by (simp_all add: d hdr.enc_length IKCP_OVERHEAD_def del: of_nat_add)
  have i: "ikcp_input kcp (Some d) = bind (input_loop kcp d (False, 0, 0)) (input_finish (snd_una kcp))"
    unfolding ikcp_input_eq using ge(1) by (rule if_not_P)
  have fin: "input_finish u (r, kcp, fa) = Inr (r, kcp)" if "r < 0" for r u fa
    using that by (simp add: input_finish_def split: prod.splits)
  have neg: "\<not> sint (h_len h) < 0" if "unat (h_len h) \<le> length rest"
  proof -
    have "int (unat (h_len h)) < 2147483648" using that long by linarith
    then have "uint (h_len h) < 2147483648" by simp
    then have "0 \<le> sint (h_len h)" by (simp only: sint_nonneg_iff)
    then show ?thesis by simp
  qed
  have len: "(int (length rest) < uint (h_len h)) = (length rest < unat (h_len h))"
    by (simp only: unat_eq_nat_uint zless_nat_eq_int_zless)
  have l: "input_loop kcp d (False, 0, 0) =
      (if h_conv h \<noteq> conv kcp then Inr (-1, kcp, False, 0, 0)
       else if length rest < unat (h_len h) \<or> sint (h_len h) < 0 then Inr (-2, kcp, False, 0, 0)
       else if \<not> known_cmd (h_cmd h) then Inr (-3, kcp, False, 0, 0)
       else bind (input_frame kcp h rest (False, 0, 0)) (\<lambda>(kcp, fa). input_loop kcp (drop (unat (h_len h)) rest) fa))"
    by (subst input_loop.simps) (simp add: assms(2) ge(2) len)
  have known: "known_cmd c \<longleftrightarrow> c \<in> {81, 82, 83, 84}" for c
  proof -
    have u: "uint (ucast b :: u32) = uint b" for b :: byte by (rule uint_up_ucast) (simp add: is_up)
    have "(ucast c :: u32) = ucast b \<longleftrightarrow> c = b" for b :: byte by (metis u word_uint_eqI)
    from this [of 81] this [of 82] this [of 83] this [of 84] show ?thesis by (auto simp: known_cmd_def ikcp_consts)
  qed
  have "ikcp_input kcp None = Inr (-1, kcp)" by (simp add: ikcp_input_def)
  then show ?thesis using s neg by (auto simp: i l fin known)
qed

theorem ikcp_input_rejects_witness:
  "ikcp_input sample_peer (Some (encode_header (sample_header 99 0 0 0))) = Inr (-3, sample_peer)"
proof -
  have "decode_header (encode_header (sample_header 99 0 0 0)) = Some (sample_header 99 0 0 0, [])"
    using hdr.dec_enc [of "sample_header 99 0 0 0" "[]"] by simp
  moreover have "length (encode_header (sample_header 99 0 0 0)) < 2147483648" by (simp add: hdr.enc_length)
  ultimately show ?thesis
    using ikcp_input_rejects [of "encode_header (sample_header 99 0 0 0)" "sample_header 99 0 0 0" "[]" sample_peer]
    by (simp add: sample_header_def sample_peer_def fresh_eq)
qed

text \<open>C27: A datagram with one acknowledgement whose \<open>una\<close> is not behind ours removes from the send buffer exactly
  the segments below \<open>una\<close> and the one it names, and keeps number, fragment and data of the others in order.\<close>

theorem ikcp_input_ack_correct:
  assumes "kcp_ok kcp" and "h_conv h = conv kcp" and "h_cmd h = 82" and "h_len h = 0"
    and "0 \<le> itimediff (h_una h) (snd_una kcp)"
  shows "\<exists>kcp'. ikcp_input kcp (Some (encode_header h)) = Inr (0, kcp') \<and> kcp_ok kcp' \<and>
    map (\<lambda>s. (seg_sn s, seg_frg s, seg_data s)) (snd_buf kcp') =
      map (\<lambda>s. (seg_sn s, seg_frg s, seg_data s))
        (filter (\<lambda>s. itimediff (h_una h) (seg_sn s) \<le> 0 \<and> seg_sn s \<noteq> h_sn h) (snd_buf kcp))"
proof -
  have k: "seg_key = (\<lambda>s. (seg_sn s, seg_frg s, seg_data s))" by (rule ext) (rule seg_key_def)
  show ?thesis by (rule yields_zero [OF input_ack_datagram [OF assms, unfolded k]])
qed

theorem ikcp_input_ack_correct_witness:
  "\<exists>kcp'. ikcp_input sample_peer (Some (encode_header (sample_header 82 2 1 0))) = Inr (0, kcp') \<and>
    map (\<lambda>s. (seg_sn s, seg_frg s, seg_data s)) (snd_buf kcp') = [(1, 0, [42])]"
proof -
  have "h_conv (sample_header 82 2 1 0) = conv sample_peer" "h_cmd (sample_header 82 2 1 0) = 82"
    "h_len (sample_header 82 2 1 0) = 0" "0 \<le> itimediff (h_una (sample_header 82 2 1 0)) (snd_una sample_peer)"
    by (simp_all add: sample_header_def sample_peer_def fresh_eq itimediff_def)
  note c = ikcp_input_ack_correct [OF sample_peer_ok this]
  have m: "map (\<lambda>s. (seg_sn s, seg_frg s, seg_data s)) (filter (\<lambda>s. itimediff (h_una (sample_header 82 2 1 0)) (seg_sn s) \<le> 0 \<and>
      seg_sn s \<noteq> h_sn (sample_header 82 2 1 0)) (snd_buf sample_peer)) = [(1, 0, [42])]"
    by (simp add: sample_header_def sample_peer_def sample_segment_def ikcp_segment_new_def itimediff_def)
  show ?thesis using c unfolding m by (elim exE conjE) (intro exI conjI, assumption+)
qed

text \<open>C26: A datagram with one data segment of our conversation: beyond the receive window it is neither stored nor
  acknowledged; otherwise its number and timestamp are appended to the acknowledgements, and the segment
  is stored exactly when it is neither delivered already nor waiting already.\<close>

theorem ikcp_input_push_correct:
  assumes "kcp_ok kcp" and "unat (ackcount kcp) < 2147483648" and "h_conv h = conv kcp" and "h_cmd h = 81"
    and "length data = unat (h_len h)" and "24 + length data < 2147483648"
  shows "\<exists>kcp'. ikcp_input kcp (Some (encode_header h @ data)) = Inr (0, kcp') \<and> kcp_ok kcp' \<and>
    (if itimediff (h_sn h) (rcv_nxt kcp + rcv_wnd kcp) \<ge> 0
     then acks kcp' = acks kcp \<and> rcv_queue kcp' = rcv_queue kcp \<and> rcv_buf kcp' = rcv_buf kcp
     else acks kcp' = acks kcp @ [(h_sn h, h_ts h)] \<and>
       mset (rcv_queue kcp' @ rcv_buf kcp') = mset (rcv_queue kcp @ rcv_buf kcp) +
         (if itimediff (h_sn h) (rcv_nxt kcp) < 0 \<or> (\<exists>s\<in>set (rcv_buf kcp). seg_sn s = h_sn h)
          then {#} else {#input_seg h data#}))"
proof -
  have "seg_sn (input_seg h data) = h_sn h" by (simp add: input_seg_def)
  then have g: "gained kcp (input_seg h data) =
      (if itimediff (h_sn h) (rcv_nxt kcp) < 0 \<or> (\<exists>s\<in>set (rcv_buf kcp). seg_sn s = h_sn h)
       then {#} else {#input_seg h data#})" by (simp add: gained_def)
  show ?thesis by (rule yields_zero [OF input_push_datagram [OF assms, unfolded g]])
qed

theorem ikcp_input_push_correct_witness:
  "\<exists>kcp'. ikcp_input sample_peer (Some (encode_header (sample_header 81 1 3 2) @ [5, 6])) = Inr (0, kcp') \<and>
    acks kcp' = [(1, 0)] \<and> map seg_data (rcv_queue kcp') @ map seg_data (rcv_buf kcp') = [[5, 6]]"
proof -
  let ?h = "sample_header 81 1 3 2"
  have h: "unat (ackcount sample_peer) < 2147483648" "h_conv ?h = conv sample_peer" "h_cmd ?h = 81"
    "length [5 :: byte, 6] = unat (h_len ?h)" "24 + length [5 :: byte, 6] < 2147483648"
    by (simp_all add: sample_header_def sample_peer_def fresh_eq)
  have w: "\<not> itimediff (h_sn ?h) (rcv_nxt sample_peer + rcv_wnd sample_peer) \<ge> 0"
    "\<not> (itimediff (h_sn ?h) (rcv_nxt sample_peer) < 0 \<or> (\<exists>s\<in>set (rcv_buf sample_peer). seg_sn s = h_sn ?h))"
    by (simp_all add: sample_header_def sample_peer_def fresh_eq itimediff_def)
  have e: "rcv_queue sample_peer @ rcv_buf sample_peer = []" "acks sample_peer = []"
    by (simp_all add: sample_peer_def fresh_eq acks_def)
  obtain kcp' where k: "ikcp_input sample_peer (Some (encode_header ?h @ [5, 6])) = Inr (0, kcp')"
    "acks kcp' = [(h_sn ?h, h_ts ?h)]" "mset (rcv_queue kcp' @ rcv_buf kcp') = {#input_seg ?h [5, 6]#}"
    using ikcp_input_push_correct [OF sample_peer_ok h] unfolding if_not_P [OF w(1)] if_not_P [OF w(2)] e by auto
  then have "rcv_queue kcp' @ rcv_buf kcp' = [input_seg ?h [5, 6]]" by (simp only: mset_single_iff)
  then have "map seg_data (rcv_queue kcp') @ map seg_data (rcv_buf kcp') = [[5, 6]]"
    unfolding map_append [symmetric] by (simp add: input_seg_def)
  with k(1,2) show ?thesis by (simp add: sample_header_def)
qed

text \<open>The congestion window changes only when \<open>snd_una\<close> has advanced and the window is below the peer's; it then
  never ends above the peer's window, and during slow start it grows by exactly one. The division by
  \<open>incr\<close> never divides by zero, and only \<open>cwnd\<close> and \<open>incr\<close> change.\<close>

theorem input_cwnd_correct:
  assumes "mss kcp \<noteq> 0"
  shows "\<exists>c i. input_cwnd kcp prev_una = Inr (kcp\<lparr>cwnd := c, incr := i\<rparr>) \<and>
    (c \<noteq> cwnd kcp \<longrightarrow> 0 < itimediff (snd_una kcp) prev_una \<and> cwnd kcp < rmt_wnd kcp \<and> c \<le> rmt_wnd kcp) \<and>
    (0 < itimediff (snd_una kcp) prev_una \<and> cwnd kcp < rmt_wnd kcp \<and> cwnd kcp < ssthresh kcp \<longrightarrow> c = cwnd kcp + 1)"
proof (cases "0 < itimediff (snd_una kcp) prev_una \<and> cwnd kcp < rmt_wnd kcp")
  case False
  then have "input_cwnd kcp prev_una = Inr kcp" unfolding input_cwnd_eq by (rule if_not_P)
  then show ?thesis using False by (intro exI [of _ "cwnd kcp"] exI [of _ "incr kcp"]) auto
next
  case adv: True
  obtain k where k: "input_cwnd kcp prev_una = Inr k" "cwnd_only kcp k" "cwnd k \<noteq> cwnd kcp \<longrightarrow> cwnd k \<le> rmt_wnd kcp"
    using input_cwnd_yields [OF assms, of prev_una] by (auto elim: yieldsE)
  have "cwnd k = cwnd kcp + 1" if "cwnd kcp < ssthresh kcp"
  proof -
    have "cwnd kcp + 1 \<le> rmt_wnd kcp" using adv by (simp add: inc_le)
    then have "\<not> rmt_wnd kcp < cwnd kcp + 1" by (simp add: not_less)
    then have "input_cwnd kcp prev_una = Inr (kcp\<lparr>cwnd := cwnd kcp + 1, incr := incr kcp + mss kcp\<rparr>)"
      unfolding input_cwnd_eq if_P [OF adv] using that by (simp add: cwnd_grow_def Let_def)
    then show ?thesis using k(1) by simp
  qed
  moreover have "input_cwnd kcp prev_una = Inr (kcp\<lparr>cwnd := cwnd k, incr := incr k\<rparr>)"
    using k(1) by (simp only: k(2) [unfolded cwnd_only_def, symmetric])
  ultimately show ?thesis using k(3) adv by blast
qed

theorem input_cwnd_correct_witness:
  "\<exists>i. input_cwnd sample_peer 4294967294 = Inr (sample_peer\<lparr>cwnd := 1, incr := i\<rparr>)"
proof -
  have f: "mss sample_peer \<noteq> 0" "0 < itimediff (snd_una sample_peer) 4294967294" "cwnd sample_peer = 0"
    "cwnd sample_peer < rmt_wnd sample_peer" "cwnd sample_peer < ssthresh sample_peer"
    by (simp_all add: sample_peer_def fresh_eq itimediff_def)
  obtain c i where c: "input_cwnd sample_peer 4294967294 = Inr (sample_peer\<lparr>cwnd := c, incr := i\<rparr>)" "c = cwnd sample_peer + 1"
    using input_cwnd_correct [OF f(1), of 4294967294] f(2,4,5) by blast
  show ?thesis unfolding c(1) c(2) by (rule exI [of _ i]) (simp add: f(3))
qed

end
