(* ===== verification/Kcp_Flush_Spec.thy ===== *)
theory Kcp_Flush_Spec
  imports Kcp_Flush
begin

text \<open>
  What a whole \<open>ikcp_flush\<close> does, as equations: the sequence of frames it emits
  (\<open>flush_frames\<close>) and the block it leaves (\<open>flush_final\<close>). \<open>ikcp_flush_spec\<close> shows that
  the packing into datagrams neither loses nor reorders frames nor writes past the output block;
  the other lemmas read facts off the two equations.
\<close>

section \<open>The whole flush: what it emits and what it leaves\<close>

definition flush_timed :: "ikcpcb \<Rightarrow> ikcpcb" where
  "flush_timed kcp = flush_probe_timer (kcp\<lparr>ackcount := 0\<rparr>)"

definition flush_ready :: "ikcpcb \<Rightarrow> ikcpcb" where
  "flush_ready kcp = (flush_timed kcp)\<lparr>probe := 0\<rparr>"

definition flush_loaded :: "ikcpcb \<Rightarrow> ikcpcb" where
  "flush_loaded kcp = flush_move (flush_window (flush_ready kcp)) (ikcp_wnd_unused kcp) (flush_ready kcp)"

definition last_ack_seg :: "ikcpcb \<Rightarrow> IKCPSEG" where
  "last_ack_seg kcp = (if acks kcp = [] then flush_template kcp else ack_seg (flush_template kcp) (last (acks kcp)))"

definition control_frames :: "ikcpcb \<Rightarrow> frame list" where
  "control_frames kcp =
     (let asks = probe (flush_timed kcp);
          wask = (last_ack_seg kcp)\<lparr>seg_cmd := IKCP_CMD_WASK\<rparr>;
          wins = (last_ack_seg kcp)\<lparr>seg_cmd := IKCP_CMD_WINS\<rparr>
      in map (\<lambda>a. control_frame (ack_seg (flush_template kcp) a)) (acks kcp) @
         (if asks AND IKCP_ASK_SEND \<noteq> 0 then [control_frame wask] else []) @
         (if asks AND IKCP_ASK_TELL \<noteq> 0 then [control_frame wins] else []))"

definition flush_frames :: "ikcpcb \<Rightarrow> frame list" where
  "flush_frames kcp =
     (let k = flush_loaded kcp in
      control_frames kcp @ data_frames k (ikcp_wnd_unused kcp) (flush_resent k) (flush_rtomin k) (snd_buf k))"

definition flush_final :: "ikcpcb \<Rightarrow> ikcpcb" where
  "flush_final kcp =
     (let k = flush_loaded kcp;
          resent = flush_resent k;
          sent = map (sent_seg k (ikcp_wnd_unused kcp) resent (flush_rtomin k)) (snd_buf k)
      in flush_cwnd (flush_window (flush_ready kcp)) resent
           (int (length (filter (fast_resent k resent) (snd_buf k))))
           (\<exists>s\<in>set (snd_buf k). timed_out k s)
           ((data_state k (ikcp_wnd_unused kcp) resent (flush_rtomin k) (snd_buf k))\<lparr>snd_buf := sent\<rparr>))"

lemma flush_timed_frame:
  "\<exists>pw tp pr. flush_timed kcp = kcp\<lparr>ackcount := 0, probe_wait := pw, ts_probe := tp, probe := pr\<rparr>"
proof -
  define k where "k = kcp\<lparr>ackcount := 0\<rparr>"
  have "flush_probe_timer k = k\<lparr>probe_wait := probe_wait (flush_probe_timer k),
      ts_probe := ts_probe (flush_probe_timer k), probe := probe (flush_probe_timer k)\<rparr>"
    by (simp add: flush_probe_timer_def Let_def)
  then show ?thesis unfolding flush_timed_def k_def [symmetric]
    by (intro exI [of _ "probe_wait (flush_probe_timer k)"] exI [of _ "ts_probe (flush_probe_timer k)"]
        exI [of _ "probe (flush_probe_timer k)"]) (simp add: k_def)
qed

lemma flush_ready_frame:
  "\<exists>pw tp. flush_ready kcp = kcp\<lparr>ackcount := 0, probe_wait := pw, ts_probe := tp, probe := 0\<rparr>"
proof -
  obtain pw tp pr where "flush_timed kcp = kcp\<lparr>ackcount := 0, probe_wait := pw, ts_probe := tp, probe := pr\<rparr>"
    using flush_timed_frame by blast
  then have "flush_ready kcp = kcp\<lparr>ackcount := 0, probe_wait := pw, ts_probe := tp, probe := 0\<rparr>"
    by (simp add: flush_ready_def)
  then show ?thesis by blast
qed

lemma flush_timed_fields [simp]:
  "mtu (flush_timed kcp) = mtu kcp" "buffer (flush_timed kcp) = buffer kcp"
  "output_cb (flush_timed kcp) = output_cb kcp"
  using flush_timed_frame [of kcp] by auto

lemma flush_ready_fields [simp]:
  "mtu (flush_ready kcp) = mtu kcp" "buffer (flush_ready kcp) = buffer kcp" "output_cb (flush_ready kcp) = output_cb kcp"
  "snd_wnd (flush_ready kcp) = snd_wnd kcp" "rmt_wnd (flush_ready kcp) = rmt_wnd kcp" "cwnd (flush_ready kcp) = cwnd kcp"
  "nocwnd (flush_ready kcp) = nocwnd kcp" "conv (flush_ready kcp) = conv kcp" "rcv_nxt (flush_ready kcp) = rcv_nxt kcp"
  "current (flush_ready kcp) = current kcp" "rx_rto (flush_ready kcp) = rx_rto kcp" "snd_nxt (flush_ready kcp) = snd_nxt kcp"
  "snd_una (flush_ready kcp) = snd_una kcp" "snd_queue (flush_ready kcp) = snd_queue kcp"
  "snd_buf (flush_ready kcp) = snd_buf kcp" "mss (flush_ready kcp) = mss kcp" "nsnd_que (flush_ready kcp) = nsnd_que kcp"
  "nsnd_buf (flush_ready kcp) = nsnd_buf kcp" "ackcount (flush_ready kcp) = 0"
  using flush_ready_frame [of kcp] by auto

lemma flush_window_ready: "flush_window (flush_ready kcp) = flush_window kcp"
  by (simp add: flush_window_def Let_def)

lemma flush_window_bound: "uint (rmt_wnd kcp) \<le> 65535 \<Longrightarrow> uint (flush_window kcp) \<le> 65535"
proof -
  assume "uint (rmt_wnd kcp) \<le> 65535"
  moreover have "flush_window kcp \<le> rmt_wnd kcp"
    by (simp add: flush_window_def imin_eq_min Let_def min_le_iff_disj)
  ultimately show ?thesis by (simp add: word_le_def)
qed

lemma snd_ok_ready: "snd_ok (flush_ready kcp) = snd_ok kcp"
  by (rule snd_ok_cong) simp_all

lemma flush_loaded_moved:
  assumes "snd_ok kcp"
  shows "flush_loaded kcp = moved (ikcp_wnd_unused kcp) (flush_ready kcp) (move_count (flush_window kcp) kcp)"
    and "snd_ok (flush_loaded kcp)"
proof -
  have w: "uint (flush_window (flush_ready kcp)) \<le> 65535"
    using snd_window_okD(6) [OF snd_okD(1) [OF assms]] by (intro flush_window_bound) simp
  have r: "snd_ok (flush_ready kcp)" using assms by (simp add: snd_ok_ready)
  have "move_count (flush_window (flush_ready kcp)) (flush_ready kcp) = move_count (flush_window kcp) kcp"
    by (simp add: move_count_def flush_window_ready)
  then show "flush_loaded kcp = moved (ikcp_wnd_unused kcp) (flush_ready kcp) (move_count (flush_window kcp) kcp)"
    unfolding flush_loaded_def flush_move_moved [OF r w] by simp
  show "snd_ok (flush_loaded kcp)" unfolding flush_loaded_def by (rule flush_move_ok [OF r w])
qed

lemma moved_fields [simp]:
  "mtu (moved wnd kcp n) = mtu kcp" "buffer (moved wnd kcp n) = buffer kcp" "output_cb (moved wnd kcp n) = output_cb kcp"
  "mss (moved wnd kcp n) = mss kcp" "interval (moved wnd kcp n) = interval kcp" "rx_rto (moved wnd kcp n) = rx_rto kcp"
  "current (moved wnd kcp n) = current kcp" "conv (moved wnd kcp n) = conv kcp" "rcv_nxt (moved wnd kcp n) = rcv_nxt kcp"
  "snd_una (moved wnd kcp n) = snd_una kcp"
  by (simp_all add: moved_def)

lemma flush_remain_datagrams:
  assumes "output_cb kcp" and "emitted m fs eb"
  shows "yields (flush_remain kcp eb) (datagrams m fs)"
proof -
  obtain out buf where eb: "eb = (out, buf)" by (cases eb)
  obtain gs hs where e: "fs = gs @ hs" "datagrams m gs out" "buf = encode_frames hs" "int (length buf) \<le> m"
    using assms(2) by (auto simp: emitted_def eb)
  show ?thesis
  proof (cases "hs = []")
    case True
    then show ?thesis using e by (simp add: flush_remain_def eb)
  next
    case False
    then have "buf \<noteq> []" using e(3) by (simp add: encode_frames_Nil_iff)
    then show ?thesis using datagrams_snoc [OF e(2) False] e(1,3,4) assms(1)
      by (simp add: flush_remain_def ikcp_output_def eb)
  qed
qed

lemma acks_upto:
  "map (\<lambda>i. f (ikcp_ack_get kcp i)) [0..<unat (ackcount kcp)] = map f (acks kcp)"
  "acks kcp \<noteq> [] \<Longrightarrow> ikcp_ack_get kcp (last [0..<unat (ackcount kcp)]) = last (acks kcp)"
  "acks kcp = [] \<longleftrightarrow> [0..<unat (ackcount kcp)] = []"
  by (simp_all add: acks_def last_map)

lemma ikcp_flush_unfold:
  assumes "updated kcp \<noteq> 0"
  shows "ikcp_flush kcp =
    bind (flush_acks [0..<nat (sint (ackcount kcp))] kcp (flush_template kcp) ([], [])) (\<lambda>(seg, eb).
    bind (flush_probe (flush_timed kcp) IKCP_ASK_SEND IKCP_CMD_WASK seg eb) (\<lambda>(seg, eb).
    bind (flush_probe (flush_timed kcp) IKCP_ASK_TELL IKCP_CMD_WINS seg eb) (\<lambda>(seg, eb).
    bind (flush_data (ikcp_wnd_unused kcp) (flush_resent (flush_loaded kcp)) (flush_rtomin (flush_loaded kcp))
            (snd_buf (flush_loaded kcp)) (flush_loaded kcp) 0 False eb) (\<lambda>(segs, k, change, lost, eb).
    bind (flush_remain (k\<lparr>snd_buf := segs\<rparr>) eb) (\<lambda>out.
    Inr (flush_cwnd (flush_window (flush_ready kcp)) (flush_resent (flush_loaded kcp)) change lost
           (k\<lparr>snd_buf := segs\<rparr>), out))))))"
proof -
  have wnd: "seg_wnd (flush_template kcp) = ikcp_wnd_unused kcp" by (simp add: flush_template_def)
  show ?thesis
    using assms by (simp only: ikcp_flush_def Let_def if_False wnd flush_loaded_def flush_ready_def flush_timed_def)
qed

text \<open>The acknowledgements and the two probes.\<close>

lemma flush_acks_stage:
  assumes "out_ok kcp" and "24 \<le> sint (mtu kcp)"
  shows "yields (flush_acks [0..<unat (ackcount kcp)] kcp (flush_template kcp) ([], []))
    (\<lambda>(seg, eb). seg = last_ack_seg kcp \<and>
      emitted (sint (mtu kcp)) (map (\<lambda>a. control_frame (ack_seg (flush_template kcp) a)) (acks kcp)) eb)"
proof -
  have init: "emitted (sint (mtu kcp)) [] ([], [])" using assms(2) by (intro emitted_init) simp
  have "(if [0..<unat (ackcount kcp)] = [] then flush_template kcp
      else ack_seg (flush_template kcp) (ikcp_ack_get kcp (last [0..<unat (ackcount kcp)]))) = last_ack_seg kcp"
    unfolding last_ack_seg_def acks_upto(3) [symmetric] by (simp add: acks_upto(2) del: upt_eq_Nil_conv)
  with flush_acks_emitted [OF assms init, of "[0..<unat (ackcount kcp)]" "flush_template kcp"]
  show ?thesis by (simp only: acks_upto(1) [of "\<lambda>a. control_frame (ack_seg (flush_template kcp) a)"] append_Nil)
qed

lemma flush_controls:
  assumes o: "out_ok kcp" and m: "24 \<le> sint (mtu kcp)"
  obtains eb1 seg2 eb2 seg3 eb3 where
    "flush_acks [0..<unat (ackcount kcp)] kcp (flush_template kcp) ([], []) = Inr (last_ack_seg kcp, eb1)"
    and "flush_probe (flush_timed kcp) IKCP_ASK_SEND IKCP_CMD_WASK (last_ack_seg kcp) eb1 = Inr (seg2, eb2)"
    and "flush_probe (flush_timed kcp) IKCP_ASK_TELL IKCP_CMD_WINS seg2 eb2 = Inr (seg3, eb3)"
    and "emitted (sint (mtu kcp)) (control_frames kcp) eb3"
proof -
  let ?t = "flush_timed kcp" and ?m = "sint (mtu kcp)" and ?l = "last_ack_seg kcp"
  have t: "out_ok ?t" "24 \<le> sint (mtu ?t)" using o m by (simp_all add: out_ok_def)
  note probe = flush_probe_emitted [OF t, unfolded flush_timed_fields]
  obtain eb1 where 1: "flush_acks [0..<unat (ackcount kcp)] kcp (flush_template kcp) ([], []) = Inr (?l, eb1)"
    "emitted ?m (map (\<lambda>a. control_frame (ack_seg (flush_template kcp) a)) (acks kcp)) eb1"
    by (rule yieldsE [OF flush_acks_stage [OF o m]]) auto
  obtain seg2 eb2 where 2: "flush_probe ?t IKCP_ASK_SEND IKCP_CMD_WASK ?l eb1 = Inr (seg2, eb2)" "seg2\<lparr>seg_cmd := IKCP_CMD_WINS\<rparr> = ?l\<lparr>seg_cmd := IKCP_CMD_WINS\<rparr>"
    "emitted ?m (map (\<lambda>a. control_frame (ack_seg (flush_template kcp) a)) (acks kcp) @
      (if probe ?t AND IKCP_ASK_SEND \<noteq> 0 then [control_frame (?l\<lparr>seg_cmd := IKCP_CMD_WASK\<rparr>)] else [])) eb2"
    by (rule yieldsE [OF probe [OF 1(2), of IKCP_ASK_SEND IKCP_CMD_WASK ?l]]) (auto split: if_splits)
  obtain seg3 eb3 where 3: "flush_probe ?t IKCP_ASK_TELL IKCP_CMD_WINS seg2 eb2 = Inr (seg3, eb3)" "emitted ?m (control_frames kcp) eb3"
    by (rule yieldsE [OF probe [OF 2(3), of IKCP_ASK_TELL IKCP_CMD_WINS seg2, unfolded 2(2)]]) (auto simp: control_frames_def Let_def)
  show thesis by (rule that [OF 1(1) 2(1) 3])
qed

text \<open>The data segments, out of the send buffer as it is after segments were moved into it.\<close>

lemma flush_loaded_fields:
  assumes "snd_ok kcp"
  shows "mtu (flush_loaded kcp) = mtu kcp" and "output_cb (flush_loaded kcp) = output_cb kcp"
    and "buffer (flush_loaded kcp) = buffer kcp" and "mss (flush_loaded kcp) = mss kcp"
  by (simp_all add: flush_loaded_moved(1) [OF assms])

lemma flush_data_stage:
  assumes ok: "kcp_ok kcp" and o: "out_ok kcp" and e: "emitted (sint (mtu kcp)) (control_frames kcp) eb"
  shows "let k = flush_loaded kcp; wnd = ikcp_wnd_unused kcp; re = flush_resent k; rm = flush_rtomin k in
    yields (flush_data wnd re rm (snd_buf k) k 0 False eb) (\<lambda>(segs, k', change, lost, eb).
      segs = map (sent_seg k wnd re rm) (snd_buf k) \<and> k' = data_state k wnd re rm (snd_buf k) \<and>
      change = int (length (filter (fast_resent k re) (snd_buf k))) \<and> lost = (\<exists>s\<in>set (snd_buf k). timed_out k s) \<and>
      emitted (sint (mtu kcp)) (flush_frames kcp) eb)"
proof -
  let ?k = "flush_loaded kcp"
  note cfg = kcp_okD(1) [OF ok] and so = kcp_okD(3) [OF ok]
  note km = flush_loaded_fields [OF so]
  have ok': "out_ok ?k" using o by (simp add: out_ok_def km)
  have segs: "\<forall>s\<in>set (snd_buf ?k). seg_ok s \<and> 24 + uint (seg_len s) \<le> sint (mtu ?k)"
    using snd_window_okD(7) [OF snd_okD(1) [OF flush_loaded_moved(2) [OF so]]] cfg_mss(1) [OF cfg]
    by (fastforce simp: km cfg_mtu [OF cfg] word_le_def)
  have "emitted (sint (mtu ?k)) (control_frames kcp) eb" using e by (simp add: km)
  from flush_data_emitted [OF ok' segs this, of "ikcp_wnd_unused kcp" "flush_resent ?k" "flush_rtomin ?k" 0 False]
  show ?thesis by (simp add: km flush_frames_def Let_def data_done_def)
qed

lemma ikcp_flush_spec:
  assumes ok: "kcp_ok kcp" and cb: "output_cb kcp" and upd: "updated kcp \<noteq> 0" and cnt: "unat (ackcount kcp) < 2147483648"
  shows "yields (ikcp_flush kcp) (\<lambda>(kcp', out). kcp' = flush_final kcp \<and> datagrams (uint (mtu kcp)) (flush_frames kcp) out)"
proof -
  let ?k = "flush_loaded kcp" and ?wnd = "ikcp_wnd_unused kcp"
  let ?re = "flush_resent ?k" and ?rm = "flush_rtomin ?k"
  let ?d = "data_state ?k ?wnd ?re ?rm (snd_buf ?k)" and ?s = "map (sent_seg ?k ?wnd ?re ?rm) (snd_buf ?k)"
  have m: "sint (mtu kcp) = uint (mtu kcp)" by (rule cfg_mtu [OF kcp_okD(1) [OF ok]])
  have o: "out_ok kcp" and m24: "24 \<le> sint (mtu kcp)" using kcp_okD(1) [OF ok] cb by (simp_all add: out_ok_def cfg_ok_def m)
  have "int (unat (ackcount kcp)) < 2147483648" using cnt by linarith
  then have count: "nat (sint (ackcount kcp)) = unat (ackcount kcp)" by (simp add: sint32_eq)
  obtain eb1 seg2 eb2 seg3 eb3 where controls:
    "flush_acks [0..<unat (ackcount kcp)] kcp (flush_template kcp) ([], []) = Inr (last_ack_seg kcp, eb1)"
    "flush_probe (flush_timed kcp) IKCP_ASK_SEND IKCP_CMD_WASK (last_ack_seg kcp) eb1 = Inr (seg2, eb2)"
    "flush_probe (flush_timed kcp) IKCP_ASK_TELL IKCP_CMD_WINS seg2 eb2 = Inr (seg3, eb3)"
    and e: "emitted (sint (mtu kcp)) (control_frames kcp) eb3" by (rule flush_controls [OF o m24])
  obtain eb4 where data: "flush_data ?wnd ?re ?rm (snd_buf ?k) ?k 0 False eb3 =
      Inr (?s, ?d, int (length (filter (fast_resent ?k ?re) (snd_buf ?k))), \<exists>s\<in>set (snd_buf ?k). timed_out ?k s, eb4)"
    and e': "emitted (sint (mtu kcp)) (flush_frames kcp) eb4"
    by (rule yieldsE [OF flush_data_stage [OF ok o e, unfolded Let_def]]) auto
  have "output_cb (?d\<lparr>snd_buf := ?s\<rparr>)" using cb by (simp add: data_state_def flush_loaded_fields [OF kcp_okD(3) [OF ok]])
  from yieldsE [OF flush_remain_datagrams [OF this e']] obtain out where
    rest: "flush_remain (?d\<lparr>snd_buf := ?s\<rparr>) eb4 = Inr out" "datagrams (sint (mtu kcp)) (flush_frames kcp) out" by metis
  have "ikcp_flush kcp = Inr (flush_final kcp, out)"
    by (simp only: ikcp_flush_unfold [OF upd] count controls data rest(1) bind_simps prod.case flush_final_def Let_def)
  then show ?thesis using rest(2) by (simp add: m)
qed

section \<open>The state after a flush\<close>

lemma flush_cwnd_frame:
  "\<exists>a b c. flush_cwnd w resent change lost kcp = kcp\<lparr>ssthresh := a, cwnd := b, incr := c\<rparr>"
proof -
  let ?k = "flush_cwnd w resent change lost kcp"
  have "?k = kcp\<lparr>ssthresh := ssthresh ?k, cwnd := cwnd ?k, incr := incr ?k\<rparr>"
    by (simp add: flush_cwnd_def Let_def)
  then show ?thesis by metis
qed

lemma flush_cwnd_fields [simp]:
  "snd_queue (flush_cwnd w r c l k) = snd_queue k" "snd_buf (flush_cwnd w r c l k) = snd_buf k"
  "nsnd_que (flush_cwnd w r c l k) = nsnd_que k" "nsnd_buf (flush_cwnd w r c l k) = nsnd_buf k"
  "mss (flush_cwnd w r c l k) = mss k" "conv (flush_cwnd w r c l k) = conv k" "snd_una (flush_cwnd w r c l k) = snd_una k"
  "snd_nxt (flush_cwnd w r c l k) = snd_nxt k" "rmt_wnd (flush_cwnd w r c l k) = rmt_wnd k"
  "mtu (flush_cwnd w r c l k) = mtu k" "buffer (flush_cwnd w r c l k) = buffer k" "interval (flush_cwnd w r c l k) = interval k"
  "rx_minrto (flush_cwnd w r c l k) = rx_minrto k" "rx_rto (flush_cwnd w r c l k) = rx_rto k"
  "rcv_queue (flush_cwnd w r c l k) = rcv_queue k" "rcv_buf (flush_cwnd w r c l k) = rcv_buf k"
  "nrcv_que (flush_cwnd w r c l k) = nrcv_que k" "nrcv_buf (flush_cwnd w r c l k) = nrcv_buf k"
  "rcv_wnd (flush_cwnd w r c l k) = rcv_wnd k" "rcv_nxt (flush_cwnd w r c l k) = rcv_nxt k"
  "ackcount (flush_cwnd w r c l k) = ackcount k" "ackblock (flush_cwnd w r c l k) = ackblock k"
  "acklist (flush_cwnd w r c l k) = acklist k" "current (flush_cwnd w r c l k) = current k"
  "output_cb (flush_cwnd w r c l k) = output_cb k" "probe (flush_cwnd w r c l k) = probe k"
  "updated (flush_cwnd w r c l k) = updated k" "ts_flush (flush_cwnd w r c l k) = ts_flush k"
  "snd_wnd (flush_cwnd w r c l k) = snd_wnd k" "nocwnd (flush_cwnd w r c l k) = nocwnd k"
  using flush_cwnd_frame [of w r c l k] by auto

lemma flush_cwnd_pos: "1 \<le> cwnd (flush_cwnd w resent change lost kcp)"
proof -
  have "1 \<le> x" if "x \<noteq> 0" for x :: u32 using that by (metis linorder_not_less word_less_1)
  then show ?thesis by (simp add: flush_cwnd_def Let_def not_less)
qed

definition loaded_fields :: "ikcpcb \<Rightarrow> ikcpcb \<Rightarrow> bool" where
  "loaded_fields k k' \<longleftrightarrow> mtu k = mtu k' \<and> mss k = mss k' \<and> buffer k = buffer k' \<and> interval k = interval k' \<and>
     rx_minrto k = rx_minrto k' \<and> rx_rto k = rx_rto k' \<and> rcv_queue k = rcv_queue k' \<and> rcv_buf k = rcv_buf k' \<and>
     nrcv_que k = nrcv_que k' \<and> nrcv_buf k = nrcv_buf k' \<and> rcv_wnd k = rcv_wnd k' \<and> rcv_nxt k = rcv_nxt k' \<and>
     ackblock k = ackblock k' \<and> acklist k = acklist k' \<and> output_cb k = output_cb k' \<and> updated k = updated k' \<and>
     conv k = conv k' \<and> snd_una k = snd_una k' \<and> rmt_wnd k = rmt_wnd k' \<and> current k = current k' \<and>
     ts_flush k = ts_flush k' \<and> snd_wnd k = snd_wnd k' \<and> nocwnd k = nocwnd k'"

lemma flush_ready_loaded_fields: "loaded_fields (flush_ready kcp) kcp"
proof -
  obtain pw tp where "flush_ready kcp = kcp\<lparr>ackcount := 0, probe_wait := pw, ts_probe := tp, probe := 0\<rparr>"
    using flush_ready_frame by blast
  then show ?thesis by (simp add: loaded_fields_def)
qed

lemma moved_loaded_fields: "loaded_fields (moved wnd kcp n) kcp"
  by (simp add: loaded_fields_def moved_def)

lemma loaded_fields_trans: "loaded_fields a b \<Longrightarrow> loaded_fields b c \<Longrightarrow> loaded_fields a c"
  by (simp add: loaded_fields_def)

lemma flush_final_fields:
  assumes "snd_ok kcp"
  shows "loaded_fields (flush_final kcp) kcp" "ackcount (flush_final kcp) = 0"
    "snd_buf (flush_final kcp) = map (sent_seg (flush_loaded kcp) (ikcp_wnd_unused kcp) (flush_resent (flush_loaded kcp))
       (flush_rtomin (flush_loaded kcp))) (snd_buf (flush_loaded kcp))"
    "snd_queue (flush_final kcp) = snd_queue (flush_loaded kcp)" "snd_nxt (flush_final kcp) = snd_nxt (flush_loaded kcp)"
    "nsnd_que (flush_final kcp) = nsnd_que (flush_loaded kcp)" "nsnd_buf (flush_final kcp) = nsnd_buf (flush_loaded kcp)"
proof -
  note ld = flush_loaded_moved(1) [OF assms]
  have l: "loaded_fields (flush_loaded kcp) kcp" unfolding ld
    by (rule loaded_fields_trans [OF moved_loaded_fields flush_ready_loaded_fields])
  have "loaded_fields (flush_final kcp) (flush_loaded kcp)"
    by (simp add: flush_final_def Let_def loaded_fields_def data_state_def)
  from loaded_fields_trans [OF this l] show "loaded_fields (flush_final kcp) kcp" .
  have "ackcount (flush_loaded kcp) = 0" by (simp add: ld) (simp add: moved_def)
  then show "ackcount (flush_final kcp) = 0" by (simp add: flush_final_def Let_def data_state_def)
qed (simp_all add: flush_final_def Let_def data_state_def)

lemma flush_final_ok:
  assumes "kcp_ok kcp"
  shows "kcp_ok (flush_final kcp)"
proof -
  note so = kcp_okD(3) [OF assms]
  note f = flush_final_fields [OF so]
  let ?k = "flush_loaded kcp" and ?f = "flush_final kcp"
  let ?g = "sent_seg ?k (ikcp_wnd_unused kcp) (flush_resent ?k) (flush_rtomin ?k)"
  have lf: "loaded_fields ?k kcp" unfolding flush_loaded_moved(1) [OF so]
    by (rule loaded_fields_trans [OF moved_loaded_fields flush_ready_loaded_fields])
  have "snd_ok (?k\<lparr>snd_buf := map ?g (snd_buf ?k)\<rparr>)"
    by (rule snd_ok_map [OF flush_loaded_moved(2) [OF so]]) simp
  moreover have "snd_ok ?f = snd_ok (?k\<lparr>snd_buf := map ?g (snd_buf ?k)\<rparr>)"
    using f(1) lf by (intro snd_ok_cong) (simp_all add: f(2-) loaded_fields_def)
  moreover have "cfg_ok ?f = cfg_ok kcp" using f(1) by (intro cfg_ok_cong) (simp_all add: loaded_fields_def)
  moreover have "rcv_ok ?f = rcv_ok kcp" using f(1) by (intro rcv_ok_cong) (simp_all add: loaded_fields_def)
  moreover have "ack_ok ?f" using f(1,2) kcp_okD(4) [OF assms] by (simp add: loaded_fields_def ack_ok_def)
  ultimately show ?thesis using assms by (simp add: kcp_ok_def)
qed

section \<open>What the frames say\<close>

lemma flush_template_fields [simp]:
  "seg_conv (flush_template kcp) = conv kcp" "seg_cmd (flush_template kcp) = IKCP_CMD_ACK"
  "seg_una (flush_template kcp) = rcv_nxt kcp" "seg_len (flush_template kcp) = 0" "seg_frg (flush_template kcp) = 0"
  by (simp_all add: flush_template_def)

lemma ack_seg_fields [simp]:
  "seg_conv (ack_seg s a) = seg_conv s" "seg_cmd (ack_seg s a) = seg_cmd s" "seg_una (ack_seg s a) = seg_una s"
  "seg_len (ack_seg s a) = seg_len s" "seg_sn (ack_seg s a) = fst a" "seg_ts (ack_seg s a) = snd a"
  by (simp_all add: ack_seg_def)

lemma last_ack_seg_fields [simp]:
  "seg_conv (last_ack_seg kcp) = conv kcp" "seg_una (last_ack_seg kcp) = rcv_nxt kcp" "seg_len (last_ack_seg kcp) = 0"
  by (simp_all add: last_ack_seg_def)

text \<open>
  The meaning of a frame \<open>ikcp_flush\<close> emits: it belongs to the conversation, carries the receiver's
  \<open>rcv_nxt\<close>, and is an acknowledgement from the list, a probe, or a segment of the send buffer.
\<close>

definition frame_of :: "ikcpcb \<Rightarrow> (u32 \<times> u32) list \<Rightarrow> IKCPSEG list \<Rightarrow> frame \<Rightarrow> bool" where
  "frame_of kcp as segs f \<longleftrightarrow>
     h_conv (fst f) = conv kcp \<and> h_una (fst f) = rcv_nxt kcp \<and> unat (h_len (fst f)) = length (snd f) \<and>
     length (snd f) < 2147483648 \<and>
     (h_cmd (fst f) = 82 \<and> snd f = [] \<and> (h_sn (fst f), h_ts (fst f)) \<in> set as \<or>
      h_cmd (fst f) \<in> {83, 84} \<and> snd f = [] \<or>
      h_cmd (fst f) = 81 \<and> (\<exists>s\<in>set segs. h_sn (fst f) = seg_sn s \<and> h_frg (fst f) = ucast (seg_frg s) \<and> snd f = seg_data s))"

lemma control_frames_of: "f \<in> set (control_frames kcp) \<Longrightarrow> frame_of kcp (acks kcp) segs f"
  by (auto simp: control_frames_def Let_def frame_of_def control_frame_def seg_header_def ikcp_consts split: if_splits)

lemma rcv_nxt_loaded: "snd_ok kcp \<Longrightarrow> rcv_nxt (flush_loaded kcp) = rcv_nxt kcp"
  by (simp add: flush_loaded_moved(1))

lemma conv_loaded: "snd_ok kcp \<Longrightarrow> conv (flush_loaded kcp) = conv kcp"
  by (simp add: flush_loaded_moved(1))

lemma data_frames_of:
  assumes "snd_ok kcp" and "f \<in> set (data_frames (flush_loaded kcp) wnd resent rtomin (snd_buf (flush_loaded kcp)))"
  shows "frame_of kcp as (snd_buf (flush_loaded kcp)) f"
proof -
  let ?k = "flush_loaded kcp"
  obtain s where s: "s \<in> set (snd_buf ?k)" "due ?k resent s" and f: "f = seg_frame (sent_seg ?k wnd resent rtomin s)"
    using assms(2) by (auto simp: data_frames_def)
  note w = snd_window_okD(7) [OF snd_okD(1) [OF flush_loaded_moved(2) [OF assms(1)]] s(1)]
  have l: "unat (seg_len s) = length (seg_data s)" "length (seg_data s) < 2147483648" using w by (simp_all add: seg_ok_def)
  have u: "seg_una (sent_seg ?k wnd resent rtomin s) = rcv_nxt kcp"
    using s(2) by (simp add: sent_seg_def rcv_nxt_loaded [OF assms(1)])
  show ?thesis using w s(1) l u unfolding frame_of_def f seg_frame_def
    by (auto simp: seg_header_def conv_loaded [OF assms(1)] ikcp_consts)
qed

lemma flush_frames_of:
  "snd_ok kcp \<Longrightarrow> f \<in> set (flush_frames kcp) \<Longrightarrow> frame_of kcp (acks kcp) (snd_buf (flush_loaded kcp)) f"
  unfolding flush_frames_def Let_def set_append by (blast intro: control_frames_of data_frames_of)

lemma data_frames_push:
  assumes "snd_ok kcp" and "f \<in> set (data_frames (flush_loaded kcp) wnd resent rtomin (snd_buf (flush_loaded kcp)))"
  shows "h_cmd (fst f) = 81"
proof -
  let ?k = "flush_loaded kcp"
  obtain s where s: "s \<in> set (snd_buf ?k)" and f: "f = seg_frame (sent_seg ?k wnd resent rtomin s)"
    using assms(2) by (auto simp: data_frames_def)
  then show ?thesis
    using snd_window_okD(7) [OF snd_okD(1) [OF flush_loaded_moved(2) [OF assms(1)]] s]
    by (simp add: seg_frame_def seg_header_def ikcp_consts)
qed

lemma flush_frames_acks:
  assumes "snd_ok kcp"
  shows "map (\<lambda>f. (h_sn (fst f), h_ts (fst f))) (filter (\<lambda>f. h_cmd (fst f) = 82) (flush_frames kcp)) = acks kcp"
proof -
  have "filter (\<lambda>f. h_cmd (fst f) = 82) (data_frames (flush_loaded kcp) wnd resent rtomin (snd_buf (flush_loaded kcp))) = []"
    for wnd resent rtomin
    using data_frames_push [OF assms] by (auto simp: filter_empty_conv)
  moreover have "map (\<lambda>f. (h_sn (fst f), h_ts (fst f))) (filter (\<lambda>f. h_cmd (fst f) = 82) (control_frames kcp)) = acks kcp"
    by (simp add: control_frames_def Let_def filter_map o_def control_frame_def seg_header_def ikcp_consts)
  ultimately show ?thesis by (simp add: flush_frames_def Let_def)
qed

section \<open>Correctness\<close>

lemma numbered_sn: "map seg_sn (numbered wnd kcp ss) = map (\<lambda>i. snd_nxt kcp + of_nat i) [0..<length ss]"
proof (induction ss arbitrary: kcp)
  case (Cons s ss)
  have "map (\<lambda>i. snd_nxt kcp + 1 + of_nat i) [0..<n] = map (\<lambda>i. snd_nxt kcp + of_nat i) [1..<Suc n]" for n
    by (simp add: map_Suc_upt [symmetric] add.assoc del: upt_Suc)
  then show ?case using Cons [of "kcp\<lparr>snd_nxt := snd_nxt kcp + 1\<rparr>"] by (simp add: upt_conv_Cons del: upt_Suc)
qed simp

lemma numbered_data: "map (\<lambda>s. (seg_frg s, seg_data s)) (numbered wnd kcp ss) = map (\<lambda>s. (seg_frg s, seg_data s)) ss"
  by (induction ss arbitrary: kcp) simp_all

lemma numbered_xmit: "s \<in> set (numbered wnd kcp ss) \<Longrightarrow> seg_xmit s = 0"
  by (induction ss arbitrary: kcp) auto

text \<open>A block with an expired and a waiting segment in flight, one segment queued, two acknowledgements
  pending, and the clock at 1000.\<close>

definition flight :: "u32 \<Rightarrow> u32 \<Rightarrow> IKCPSEG" where
  "flight sn resend = ikcp_segment_new\<lparr>seg_conv := 7, seg_cmd := IKCP_CMD_PUSH, seg_sn := sn, seg_len := 2,
     seg_data := [1, 2], seg_xmit := 1, seg_rto := 200, seg_resendts := resend\<rparr>"

definition sample_busy :: ikcpcb where
  "sample_busy = (fresh 7)\<lparr>updated := 1, current := 1000, cwnd := 4, snd_una := 5, snd_nxt := 7,
     snd_buf := [flight 5 900, flight 6 2000], nsnd_buf := 2,
     snd_queue := [ikcp_segment_new\<lparr>seg_len := 3, seg_data := [7, 8, 9]\<rparr>], nsnd_que := 1,
     acklist := [10, 900, 11, 901] @ replicate 12 0, ackblock := 8, ackcount := 2\<rparr>"

lemma sample_busy_ok: "kcp_ok sample_busy"
proof -
  have "cfg_ok sample_busy = cfg_ok (fresh 7)" by (rule cfg_ok_cong) (simp_all add: sample_busy_def)
  moreover have "rcv_ok sample_busy = rcv_ok (fresh 7)" by (rule rcv_ok_cong) (simp_all add: sample_busy_def)
  moreover have "snd_ok sample_busy"
    by (simp add: sample_busy_def fresh_eq flight_def snd_ok_def snd_window_ok_def first_unacked_def ordered_def
      seg_off_def seg_ok_def ikcp_segment_new_def)
  moreover have "ack_ok sample_busy" by (simp add: sample_busy_def ack_ok_def)
  ultimately show ?thesis using kcp_okD(1,2) [OF fresh_ok] by (simp add: kcp_ok_def)
qed

lemma sample_busy_fields:
  "output_cb sample_busy" "updated sample_busy \<noteq> 0" "unat (ackcount sample_busy) < 2147483648"
  "snd_buf sample_busy = [flight 5 900, flight 6 2000]" "current sample_busy = 1000" "mtu sample_busy = 1400"
  by (simp_all add: sample_busy_def fresh_eq)

lemma flush_result:
  assumes "kcp_ok kcp" and "output_cb kcp" and "updated kcp \<noteq> 0" and "unat (ackcount kcp) < 2147483648"
  shows "\<exists>fss. ikcp_flush kcp = Inr (flush_final kcp, map encode_frames fss) \<and> concat fss = flush_frames kcp \<and>
    (\<forall>fs\<in>set fss. fs \<noteq> [] \<and> int (length (encode_frames fs)) \<le> uint (mtu kcp))"
  using ikcp_flush_spec [OF assms] by (auto simp: datagrams_def elim!: yieldsE)

text \<open>C15: On a block that satisfies the invariant \<open>ikcp_flush\<close> always returns: no assertion fails and nothing is
  written past the output block. The datagrams it hands out are not empty and at most one MTU long;
  joined, they hold exactly the frames of \<open>flush_frames\<close> in order (every acknowledgement, the probes asked
  for, every segment that is due), so packing neither loses, splits nor reorders one. The invariant holds
  again and no acknowledgement is left pending.\<close>

theorem ikcp_flush_correct:
  assumes "kcp_ok kcp" and "output_cb kcp" and "updated kcp \<noteq> 0" and "unat (ackcount kcp) < 2147483648"
  shows "\<exists>kcp' fss. ikcp_flush kcp = Inr (kcp', map encode_frames fss) \<and> concat fss = flush_frames kcp \<and>
    (\<forall>fs\<in>set fss. fs \<noteq> [] \<and> int (length (encode_frames fs)) \<le> uint (mtu kcp)) \<and>
    kcp_ok kcp' \<and> ackcount kcp' = 0"
  using flush_result [OF assms] flush_final_ok [OF assms(1)] flush_final_fields(2) [OF kcp_okD(3) [OF assms(1)]] by blast

theorem ikcp_flush_correct_witness:
  "\<exists>kcp' fss. ikcp_flush sample_busy = Inr (kcp', map encode_frames fss) \<and> concat fss = flush_frames sample_busy \<and>
     kcp_ok kcp'"
  using ikcp_flush_correct [OF sample_busy_ok sample_busy_fields(1-3)] by blast

text \<open>Every pending acknowledgement leaves in a flush exactly once, in the order it was pushed; every frame
  belongs to the conversation, acknowledges everything below \<open>rcv_nxt\<close> and announces its payload's length.\<close>

theorem ikcp_flush_acknowledges:
  assumes "kcp_ok kcp" and "output_cb kcp" and "updated kcp \<noteq> 0" and "unat (ackcount kcp) < 2147483648"
  shows "\<exists>kcp' fss. ikcp_flush kcp = Inr (kcp', map encode_frames fss) \<and>
    map (\<lambda>f. (h_sn (fst f), h_ts (fst f))) (filter (\<lambda>f. h_cmd (fst f) = 82) (concat fss)) =
      map (ikcp_ack_get kcp) [0..<unat (ackcount kcp)] \<and>
    (\<forall>f\<in>set (concat fss). h_conv (fst f) = conv kcp \<and> h_una (fst f) = rcv_nxt kcp \<and>
       unat (h_len (fst f)) = length (snd f))"
proof -
  obtain fss where f: "ikcp_flush kcp = Inr (flush_final kcp, map encode_frames fss)" "concat fss = flush_frames kcp"
    using flush_result [OF assms] by blast
  note so = kcp_okD(3) [OF assms(1)]
  have "\<forall>f\<in>set (concat fss). h_conv (fst f) = conv kcp \<and> h_una (fst f) = rcv_nxt kcp \<and> unat (h_len (fst f)) = length (snd f)"
    unfolding f(2) using flush_frames_of [OF so] by (simp add: frame_of_def)
  then show ?thesis using f(1) flush_frames_acks [OF so, folded f(2)] unfolding acks_def by blast
qed

theorem ikcp_flush_acknowledges_witness:
  "\<exists>kcp' fss. ikcp_flush sample_busy = Inr (kcp', map encode_frames fss) \<and>
     map (\<lambda>f. (h_sn (fst f), h_ts (fst f))) (filter (\<lambda>f. h_cmd (fst f) = 82) (concat fss)) = [(10, 900), (11, 901)]"
proof -
  have "map (ikcp_ack_get sample_busy) [0..<unat (ackcount sample_busy)] = [(10, 900), (11, 901)]"
    by (simp add: sample_busy_def ikcp_ack_get_def upt_rec)
  with ikcp_flush_acknowledges [OF sample_busy_ok sample_busy_fields(1-3)] show ?thesis
    by (elim exE conjE) (intro exI conjI, assumption, simp only:)
qed

text \<open>A flush moves exactly as many segments from the send queue to the send buffer as the window (the least of
  the send window, the peer's window and, with congestion control, \<open>cwnd\<close>) leaves room for, numbers them
  consecutively from \<open>snd_nxt\<close> on, and keeps order, fragment numbers and data; the numbers in flight never
  exceed the window unless they did before.\<close>

theorem ikcp_flush_window:
  assumes "kcp_ok kcp" and "ikcp_flush kcp = Inr (kcp', out)" and "output_cb kcp" and "updated kcp \<noteq> 0"
    and "unat (ackcount kcp) < 2147483648"
  defines "n \<equiv> min (length (snd_queue kcp)) (nat (uint (flush_window kcp) - uint (snd_nxt kcp - snd_una kcp)))"
  shows "snd_queue kcp' = drop n (snd_queue kcp) \<and> snd_nxt kcp' = snd_nxt kcp + of_nat n \<and> snd_una kcp' = snd_una kcp \<and>
    map seg_sn (snd_buf kcp') = map seg_sn (snd_buf kcp) @ map (\<lambda>i. snd_nxt kcp + of_nat i) [0..<n] \<and>
    map (\<lambda>s. (seg_frg s, seg_data s)) (snd_buf kcp') =
      map (\<lambda>s. (seg_frg s, seg_data s)) (snd_buf kcp @ take n (snd_queue kcp)) \<and>
    uint (snd_nxt kcp' - snd_una kcp') \<le> max (uint (snd_nxt kcp - snd_una kcp)) (uint (flush_window kcp))"
proof -
  note so = kcp_okD(3) [OF assms(1)]
  have k: "kcp' = flush_final kcp" using flush_result [OF assms(1,3-5)] assms(2) by auto
  note f = flush_final_fields [OF so] and ld = flush_loaded_moved(1) [OF so]
  have mc: "move_count (flush_window kcp) kcp = n" by (simp add: move_count_def n_def)
  have lt: "length (take n (snd_queue kcp)) = n" by (simp add: n_def)
  have ud: "uint (snd_nxt kcp - snd_una kcp) \<le> 65535" by (rule snd_window_okD(5) [OF snd_okD(1) [OF so]])
  have wb: "uint (flush_window kcp) \<le> 65535" by (rule flush_window_bound [OF snd_window_okD(6) [OF snd_okD(1) [OF so]]])
  have nb: "int n \<le> max 0 (uint (flush_window kcp) - uint (snd_nxt kcp - snd_una kcp))" by (simp add: n_def)
  have "snd_nxt kcp + of_nat n - snd_una kcp = (snd_nxt kcp - snd_una kcp) + of_nat n" by simp
  moreover have "uint (of_nat n :: u32) = int n" 
    by (rule uint_of_nat32) (use nb wb uint32_range [of "snd_nxt kcp - snd_una kcp"] in linarith)
  ultimately have "uint (snd_nxt kcp + of_nat n - snd_una kcp) = uint (snd_nxt kcp - snd_una kcp) + int n"
    using nb ud wb by (simp only: uint_add32) simp
  moreover have "snd_una kcp' = snd_una kcp" using f(1) by (simp add: k loaded_fields_def)
  moreover have "snd_nxt kcp' = snd_nxt kcp + of_nat n" by (simp add: k f(5) ld) (simp add: moved_def mc)
  moreover have "snd_queue kcp' = drop n (snd_queue kcp)" by (simp add: k f(4) ld) (simp add: moved_def mc)
  moreover have b: "snd_buf (flush_loaded kcp) =
      snd_buf kcp @ numbered (ikcp_wnd_unused kcp) (flush_ready kcp) (take n (snd_queue kcp))"
    by (simp add: ld) (simp add: moved_def mc)
  moreover have "map seg_sn (snd_buf kcp') = map seg_sn (snd_buf kcp) @ map (\<lambda>i. snd_nxt kcp + of_nat i) [0..<n]"
    using numbered_sn [of "ikcp_wnd_unused kcp" "flush_ready kcp" "take n (snd_queue kcp)"] lt
    by (simp add: k f(3) b o_def)
  moreover have "map (\<lambda>s. (seg_frg s, seg_data s)) (snd_buf kcp') =
      map (\<lambda>s. (seg_frg s, seg_data s)) (snd_buf kcp @ take n (snd_queue kcp))"
    using numbered_data [of "ikcp_wnd_unused kcp" "flush_ready kcp" "take n (snd_queue kcp)"]
    by (simp add: k f(3) b o_def)
  ultimately show ?thesis using nb by simp
qed

theorem ikcp_flush_window_witness:
  "\<exists>kcp' out. ikcp_flush sample_busy = Inr (kcp', out) \<and> map seg_sn (snd_buf kcp') = [5, 6, 7] \<and> snd_queue kcp' = []"
proof -
  obtain kcp' out where r: "ikcp_flush sample_busy = Inr (kcp', out)"
    using flush_result [OF sample_busy_ok sample_busy_fields(1-3)] by blast
  have n: "min (length (snd_queue sample_busy)) (nat (uint (flush_window sample_busy) - uint (snd_nxt sample_busy - snd_una sample_busy))) = 1"
    by (simp add: sample_busy_def fresh_eq flush_window_def imin_def Let_def)
  have q: "length (snd_queue sample_busy) = 1" "snd_nxt sample_busy = 7" by (simp_all add: sample_busy_def)
  show ?thesis
    using ikcp_flush_window [OF sample_busy_ok r sample_busy_fields(1-3), unfolded n] r q
    by (simp add: sample_busy_fields(4) flight_def)
qed

lemma flush_buf:
  assumes "snd_ok kcp"
  shows "\<exists>new. snd_buf (flush_loaded kcp) = snd_buf kcp @ new \<and> (\<forall>s\<in>set new. seg_xmit s = 0)"
  using numbered_xmit by (auto simp: flush_loaded_moved(1) [OF assms] moved_def)

lemma flush_loaded_clock:
  assumes "snd_ok kcp"
  shows "current (flush_loaded kcp) = current kcp" "rx_rto (flush_loaded kcp) = rx_rto kcp"
  by (simp_all add: flush_loaded_moved(1) [OF assms])

lemma timed_out_loaded: "snd_ok kcp \<Longrightarrow> timed_out (flush_loaded kcp) s = timed_out kcp s"
  by (simp add: timed_out_def flush_loaded_clock)

lemma due_frame:
  assumes "snd_ok kcp" and "s \<in> set (snd_buf (flush_loaded kcp))" and "due (flush_loaded kcp) (flush_resent (flush_loaded kcp)) s"
  shows "\<exists>f\<in>set (flush_frames kcp). h_cmd (fst f) = 81 \<and> h_sn (fst f) = seg_sn s \<and>
    h_frg (fst f) = ucast (seg_frg s) \<and> snd f = seg_data s"
proof -
  let ?k = "flush_loaded kcp"
  let ?f = "seg_frame (sent_seg ?k (ikcp_wnd_unused kcp) (flush_resent ?k) (flush_rtomin ?k) s)"
  note w = snd_window_okD(7) [OF snd_okD(1) [OF flush_loaded_moved(2) [OF assms(1)]] assms(2)]
  have "?f \<in> set (flush_frames kcp)" using assms(2,3) by (auto simp: flush_frames_def Let_def data_frames_def)
  moreover have "unat (seg_len s) = length (seg_data s)" using w by (simp add: seg_ok_def)
  ultimately show ?thesis using w by (intro bexI [of _ ?f]) (simp_all add: seg_frame_def seg_header_def ikcp_consts)
qed

text \<open>Every segment of the send buffer whose retransmission timer has expired, and every segment moved into it for
  the first time, leaves in the flush with its own number, fragment number and data.\<close>

theorem ikcp_flush_sends_due:
  assumes "kcp_ok kcp" and "ikcp_flush kcp = Inr (kcp', out)" and "output_cb kcp" and "updated kcp \<noteq> 0"
    and "unat (ackcount kcp) < 2147483648"
  shows "\<exists>fss. out = map encode_frames fss \<and>
    (\<forall>s\<in>set (snd_buf kcp').
       s \<notin> set (snd_buf kcp) \<or> timed_out kcp s \<longrightarrow>
         (\<exists>f\<in>set (concat fss). h_cmd (fst f) = 81 \<and> h_sn (fst f) = seg_sn s \<and>
            h_frg (fst f) = ucast (seg_frg s) \<and> snd f = seg_data s))"
proof -
  note so = kcp_okD(3) [OF assms(1)]
  let ?k = "flush_loaded kcp"
  let ?g = "sent_seg ?k (ikcp_wnd_unused kcp) (flush_resent ?k) (flush_rtomin ?k)"
  obtain fss where f: "ikcp_flush kcp = Inr (flush_final kcp, map encode_frames fss)" "concat fss = flush_frames kcp"
    using flush_result [OF assms(1,3-5)] by blast
  then have k: "kcp' = flush_final kcp" and out: "out = map encode_frames fss" using assms(2) by auto
  have "\<exists>f\<in>set (concat fss). h_cmd (fst f) = 81 \<and> h_sn (fst f) = seg_sn s \<and>
            h_frg (fst f) = ucast (seg_frg s) \<and> snd f = seg_data s"
    if s: "s \<in> set (snd_buf kcp')" "s \<notin> set (snd_buf kcp) \<or> timed_out kcp s" for s
  proof -
    obtain t where t: "t \<in> set (snd_buf ?k)" "s = ?g t" using s(1) by (auto simp: k flush_final_fields(3) [OF so])
    have "due ?k (flush_resent ?k) t"
    proof (rule ccontr)
      assume nd: "\<not> due ?k (flush_resent ?k) t"
      then have "s = t" by (simp add: t(2) sent_seg_def)
      moreover obtain new where "snd_buf ?k = snd_buf kcp @ new" "\<forall>s\<in>set new. seg_xmit s = 0" using flush_buf [OF so] by blast
      ultimately have "s \<in> set (snd_buf kcp)" using nd t(1) by (auto simp: due_def)
      then have "timed_out kcp s" using s(2) by blast
      then show False using nd \<open>s = t\<close> by (simp add: due_def timed_out_loaded [OF so])
    qed
    from due_frame [OF so t(1) this] show ?thesis unfolding f(2) by (simp add: t(2))
  qed
  then show ?thesis using out by blast
qed

theorem ikcp_flush_sends_due_witness:
  "\<exists>kcp' fss. ikcp_flush sample_busy = Inr (kcp', map encode_frames fss) \<and>
     (\<forall>s\<in>set (snd_buf kcp'). seg_sn s = 7 \<longrightarrow> (\<exists>f\<in>set (concat fss). h_sn (fst f) = 7 \<and> snd f = seg_data s))"
proof -
  obtain kcp' out where r: "ikcp_flush sample_busy = Inr (kcp', out)"
    using flush_result [OF sample_busy_ok sample_busy_fields(1-3)] by blast
  have "s \<notin> set (snd_buf sample_busy)" if "seg_sn s = 7" for s
    using that by (auto simp: sample_busy_fields(4) flight_def)
  moreover obtain fss where "out = map encode_frames fss"
    and f: "\<And>s. s \<in> set (snd_buf kcp') \<Longrightarrow> s \<notin> set (snd_buf sample_busy) \<or> timed_out sample_busy s \<Longrightarrow>
      \<exists>f\<in>set (concat fss). h_cmd (fst f) = 81 \<and> h_sn (fst f) = seg_sn s \<and> h_frg (fst f) = ucast (seg_frg s) \<and> snd f = seg_data s"
    using ikcp_flush_sends_due [OF sample_busy_ok r sample_busy_fields(1-3)] by blast
  ultimately have "\<exists>f\<in>set (concat fss). h_sn (fst f) = 7 \<and> snd f = seg_data s"
    if "s \<in> set (snd_buf kcp')" "seg_sn s = 7" for s
    using f [OF that(1)] that(2) by metis
  then show ?thesis using r \<open>out = map encode_frames fss\<close> by blast
qed

text \<open>After a flush every segment of the send buffer has been transmitted at least once (as long as no transmission
  counter wraps around).\<close>

theorem ikcp_flush_transmits:
  assumes "kcp_ok kcp" and "ikcp_flush kcp = Inr (kcp', out)" and "output_cb kcp" and "updated kcp \<noteq> 0"
    and "unat (ackcount kcp) < 2147483648" and "\<forall>s\<in>set (snd_buf kcp). seg_xmit s < 4294967295"
  shows "\<forall>s\<in>set (snd_buf kcp'). 0 < seg_xmit s"
proof
  fix s assume s: "s \<in> set (snd_buf kcp')"
  note so = kcp_okD(3) [OF assms(1)]
  let ?k = "flush_loaded kcp"
  let ?g = "sent_seg ?k (ikcp_wnd_unused kcp) (flush_resent ?k) (flush_rtomin ?k)"
  have "kcp' = flush_final kcp" using flush_result [OF assms(1,3-5)] assms(2) by auto
  then obtain t where t: "t \<in> set (snd_buf ?k)" "s = ?g t" using s by (auto simp: flush_final_fields(3) [OF so])
  obtain new where "snd_buf ?k = snd_buf kcp @ new" "\<forall>s\<in>set new. seg_xmit s = 0" using flush_buf [OF so] by blast
  then have lt: "seg_xmit t < 4294967295" using t(1) assms(6) by auto
  have nz: "x + 1 \<noteq> 0" if "x < 4294967295" for x :: u32
  proof
    assume "x + 1 = 0"
    then have "x = - 1" by (simp add: eq_neg_iff_add_eq_0)
    with that show False by simp
  qed
  have "seg_xmit s \<noteq> 0"
  proof (cases "due ?k (flush_resent ?k) t")
    case True
    then have "seg_xmit s = seg_xmit t + 1" by (auto simp: t(2) sent_seg_def marked_eq due_def)
    then show ?thesis using nz [OF lt] by simp
  next
    case False
    then show ?thesis by (simp add: t(2) sent_seg_def due_def)
  qed
  then show "0 < seg_xmit s" by (simp add: word_neq_0_conv)
qed

theorem ikcp_flush_transmits_witness:
  "\<exists>kcp' out. ikcp_flush sample_busy = Inr (kcp', out) \<and> (\<forall>s\<in>set (snd_buf kcp'). 0 < seg_xmit s)"
proof -
  obtain kcp' out where r: "ikcp_flush sample_busy = Inr (kcp', out)"
    using flush_result [OF sample_busy_ok sample_busy_fields(1-3)] by blast
  have "\<forall>s\<in>set (snd_buf sample_busy). seg_xmit s < 4294967295" by (simp add: sample_busy_fields(4) flight_def)
  with ikcp_flush_transmits [OF sample_busy_ok r sample_busy_fields(1-3)] r show ?thesis by blast
qed

text \<open>The window probe. While the peer's window is open the timer is reset; once it closes, the first flush only
  arms it for 7000 ms, later flushes ask for a probe exactly when it has expired and then wait half as long
  again, never less than 7000 nor more than 120000 ms.\<close>

theorem flush_probe_timer_correct:
  assumes "uint (probe_wait kcp) \<le> 120000"
  shows "let kcp' = flush_probe_timer kcp; expired = (0 \<le> itimediff (current kcp) (ts_probe kcp)) in
    if rmt_wnd kcp \<noteq> 0 then probe_wait kcp' = 0 \<and> probe kcp' = probe kcp
    else if probe_wait kcp = 0
      then uint (probe_wait kcp') = 7000 \<and> ts_probe kcp' = current kcp + 7000 \<and> probe kcp' = probe kcp
    else if \<not> expired then kcp' = kcp
    else uint (probe_wait kcp') = min 120000 (max 7000 (uint (probe_wait kcp)) * 3 div 2) \<and>
      ts_probe kcp' = current kcp + probe_wait kcp' \<and> probe kcp' = probe kcp OR IKCP_ASK_SEND"
proof -
  define w where "w = (if probe_wait kcp < IKCP_PROBE_INIT then IKCP_PROBE_INIT else probe_wait kcp)"
  have w: "uint w = max 7000 (uint (probe_wait kcp))" by (simp add: w_def IKCP_PROBE_INIT_def word_less_def max_def)
  have "uint (w div 2) = uint w div 2" by (simp add: uint_div)
  then have s: "uint (w + w div 2) = uint w + uint w div 2" using w assms by (simp only: uint_add32) simp
  have "uint (if w + w div 2 > IKCP_PROBE_LIMIT then IKCP_PROBE_LIMIT else w + w div 2) = min 120000 (uint w + uint w div 2)"
    by (simp add: IKCP_PROBE_LIMIT_def word_less_def s min_def)
  moreover have "uint w + uint w div 2 = uint w * 3 div 2" by linarith
  ultimately have l: "uint (if w + w div 2 > IKCP_PROBE_LIMIT then IKCP_PROBE_LIMIT else w + w div 2) =
      min 120000 (max 7000 (uint (probe_wait kcp)) * 3 div 2)" by (simp only: w)
  consider (opened) "rmt_wnd kcp \<noteq> 0" | (arm) "rmt_wnd kcp = 0" "probe_wait kcp = 0"
    | (wait) "rmt_wnd kcp = 0" "probe_wait kcp \<noteq> 0" "\<not> 0 \<le> itimediff (current kcp) (ts_probe kcp)"
    | (ask) "rmt_wnd kcp = 0" "probe_wait kcp \<noteq> 0" "0 \<le> itimediff (current kcp) (ts_probe kcp)" by blast
  then show ?thesis
  proof cases
    case ask
    define v where "v = (if w + w div 2 > IKCP_PROBE_LIMIT then IKCP_PROBE_LIMIT else w + w div 2)"
    have "flush_probe_timer kcp = kcp\<lparr>probe_wait := v, ts_probe := current kcp + v, probe := probe kcp OR IKCP_ASK_SEND\<rparr>"
      unfolding flush_probe_timer_def Let_def v_def w_def using ask by (simp only: if_True if_False simp_thms)
    then show ?thesis using ask l by (simp add: v_def [symmetric])
  qed (simp_all add: flush_probe_timer_def IKCP_PROBE_INIT_def)
qed

theorem flush_probe_timer_correct_witness:
  "uint (probe_wait (flush_probe_timer (sample_busy\<lparr>rmt_wnd := 0, probe_wait := 7000, ts_probe := 900\<rparr>))) = 10500"
proof -
  let ?k = "sample_busy\<lparr>rmt_wnd := 0, probe_wait := 7000, ts_probe := 900\<rparr>"
  have "uint (probe_wait ?k) \<le> 120000" "rmt_wnd ?k = 0" "probe_wait ?k = 7000" "0 \<le> itimediff (current ?k) (ts_probe ?k)"
    by (simp_all add: sample_busy_fields(5) itimediff_def)
  with flush_probe_timer_correct [of ?k] show ?thesis by (simp add: Let_def)
qed

text \<open>Congestion control after a flush: a timeout sets the window to one segment and the threshold to half the
  window used, at least 2; a fast retransmission alone halves the number in flight; otherwise the window is
  only raised from 0 to 1. The window is never 0 afterwards.\<close>

theorem flush_cwnd_correct:
  "let kcp' = flush_cwnd w resent change lost kcp in
   1 \<le> cwnd kcp' \<and>
   (if lost then cwnd kcp' = 1 \<and> ssthresh kcp' = max (w div 2) 2 \<and> incr kcp' = mss kcp
    else if change \<noteq> 0
    then ssthresh kcp' = max ((snd_nxt kcp - snd_una kcp) div 2) 2 \<and>
      (ssthresh kcp' + resent \<noteq> 0 \<longrightarrow> cwnd kcp' = ssthresh kcp' + resent \<and> incr kcp' = cwnd kcp' * mss kcp)
    else ssthresh kcp' = ssthresh kcp \<and> (cwnd kcp \<noteq> 0 \<longrightarrow> kcp' = kcp))"
proof -
  have "1 \<le> cwnd (flush_cwnd w resent change lost kcp)" by (rule flush_cwnd_pos)
  then show ?thesis by (simp add: flush_cwnd_def Let_def imax_eq_max IKCP_THRESH_MIN_def)
qed

text \<open>The theorem at a state with a loss.\<close>

theorem flush_cwnd_correct_witness:
  "cwnd (flush_cwnd 10 2 0 True sample_busy) = 1 \<and> ssthresh (flush_cwnd 10 2 0 True sample_busy) = 5"
  using flush_cwnd_correct [of 10 2 0 True sample_busy] by (simp add: Let_def max_def)

text \<open>Backoff: on a timeout the retransmission timeout of a segment at least doubles without \<open>nodelay\<close>, and
  grows by half of itself (nodelay 1) or of the current estimate (nodelay 2 or more), as long as it stays
  below \<open>2^30\<close> ms; the segment's timer is set to that much after the current time.\<close>

theorem timeout_backoff:
  assumes "timed_out kcp s" and "uint (seg_rto s) < 1073741824" and "uint (rx_rto kcp) \<le> 60000"
  shows "let s' = marked kcp resent rtomin s in
    seg_xmit s' = seg_xmit s + 1 \<and> seg_resendts s' = current kcp + seg_rto s' \<and>
    uint (seg_rto s') = (if nodelay kcp = 0 then uint (seg_rto s) + max (uint (seg_rto s)) (uint (rx_rto kcp))
      else if nodelay kcp = 1 then uint (seg_rto s) + uint (seg_rto s) div 2
      else uint (seg_rto s) + uint (rx_rto kcp) div 2)"
proof -
  have nz: "seg_xmit s \<noteq> 0" using assms(1) by (simp add: timed_out_def)
  have half: "uint (seg_rto s + word_of_int (c_div (sint x) 2)) = uint (seg_rto s) + uint x div 2"
    if "uint x < 1073741824" for x :: u32
  proof -
    have "sint x = uint x" using that by (simp add: sint32_eq)
    then have "c_div (sint x) 2 = uint x div 2" by (simp add: c_div_nonneg)
    moreover have "uint (word_of_int (uint x div 2) :: u32) = uint x div 2"
      using that uint32_range [of x] by (intro uint_of_int32) linarith+
    ultimately show ?thesis using that assms(2) uint32_range [of x] by (simp only: uint_add32) simp
  qed
  have dbl: "uint (seg_rto s + imax (seg_rto s) (rx_rto kcp)) = uint (seg_rto s) + max (uint (seg_rto s)) (uint (rx_rto kcp))"
    using assms(2,3) by (simp only: uint_add32 uint_imax) simp
  have lt2: "nodelay kcp < 2 \<longleftrightarrow> nodelay kcp = 0 \<or> nodelay kcp = 1"
  proof -
    have "unat (nodelay kcp) < 2 \<longleftrightarrow> unat (nodelay kcp) = 0 \<or> unat (nodelay kcp) = 1" by auto
    then show ?thesis by (simp add: word_less_nat_alt word_unat_eq_iff)
  qed
  have "uint (rx_rto kcp) < 1073741824" using assms(3) by linarith
  note h = half [OF assms(2)] half [OF this] dbl
  have "uint (timeout_rto kcp s) = (if nodelay kcp = 0 then uint (seg_rto s) + max (uint (seg_rto s)) (uint (rx_rto kcp))
      else if nodelay kcp = 1 then uint (seg_rto s) + uint (seg_rto s) div 2
      else uint (seg_rto s) + uint (rx_rto kcp) div 2)"
    unfolding timeout_rto_def lt2 by (simp only: h split: if_split) simp
  then show ?thesis using nz assms(1) by (simp add: marked_eq Let_def)
qed

theorem timeout_backoff_witness:
  "uint (seg_rto (marked sample_busy 4294967295 0 (flight 5 900))) = 400"
proof -
  have "timed_out sample_busy (flight 5 900)" by (simp add: timed_out_def sample_busy_fields(5) flight_def itimediff_def)
  moreover have "uint (rx_rto sample_busy) = 200" "nodelay sample_busy = 0" by (simp_all add: sample_busy_def fresh_eq)
  moreover have "seg_rto (flight 5 900) = 200" by (simp add: flight_def)
  ultimately show ?thesis using timeout_backoff [of sample_busy "flight 5 900" 4294967295 0] by (simp add: Let_def)
qed

text \<open>When a segment that is due is longer than the output block allows (as after \<open>ikcp_setmtu\<close> has shrunk the block
  while longer segments were queued), its emission writes past the end of the block.\<close>

theorem flush_segment_overflows:
  assumes "output_cb kcp" and "seg_ok seg" and "uint (buffer kcp) < 24 + uint (seg_len seg)"
  shows "flush_segment kcp seg eb = Inl Buffer_overflow"
proof -
  obtain out buf where "eb = (out, buf)" by (cases eb)
  moreover have "\<exists>o' b'. flush_reserve kcp n (out, buf) = Inr (o', b')" for n
    using assms(1) by (simp add: flush_reserve_def ikcp_output_def)
  ultimately obtain o' b' where r: "flush_reserve kcp (sint (IKCP_OVERHEAD + seg_len seg)) eb = Inr (o', b')" by blast
  have l: "length (take (unat (seg_len seg)) (seg_data seg)) = unat (seg_len seg)" using assms(2) by (simp add: seg_ok_def)
  have "int (unat (buffer kcp)) < 24 + int (unat (seg_len seg))" using assms(3) by simp
  then have lt: "unat (buffer kcp) < 24 + unat (seg_len seg)" by linarith
  show ?thesis
  proof (cases "length b' + 24 \<le> unat (buffer kcp)")
    case True
    then have "0 < unat (seg_len seg)" using lt by linarith
    then have "seg_len seg > 0" by (simp add: word_less_nat_alt)
    then show ?thesis using True lt by (simp add: flush_segment_def r flush_encode_def buffer_put_def l del: length_take)
  next
    case False
    then show ?thesis by (simp add: flush_segment_def r flush_encode_def buffer_put_def)
  qed
qed

theorem flush_segment_overflows_witness:
  "flush_segment (snd (ikcp_setmtu True (fresh 7) 50)) (arrived 0 0 (replicate 300 1)) ([], []) = Inl Buffer_overflow"
proof -
  have "output_cb (snd (ikcp_setmtu True (fresh 7) 50))" "uint (buffer (snd (ikcp_setmtu True (fresh 7) 50))) = 222"
    by (simp_all add: fresh_eq ikcp_setmtu_def IKCP_OVERHEAD_def)
  moreover have "seg_ok (arrived 0 0 (replicate 300 1))" "uint (seg_len (arrived 0 0 (replicate 300 1))) = 300"
    by (simp_all add: arrived_def seg_ok_def ikcp_segment_new_def)
  ultimately show ?thesis using flush_segment_overflows by simp
qed

end
