(* ===== verification/Kcp_Update.thy ===== *)
theory Kcp_Update
  imports Kcp_Flush_Spec
begin

text \<open>
  The clock of ikcp.c: \<open>ikcp_update\<close> runs \<open>ikcp_flush\<close> once per interval, \<open>ikcp_check\<close>
  tells when to call it again.
\<close>

definition update_clock :: "ikcpcb \<Rightarrow> u32 \<Rightarrow> ikcpcb \<times> int" where
  "update_clock kcp now =
     (let kcp = kcp\<lparr>current := now\<rparr>;
          kcp = (if updated kcp = 0 then kcp\<lparr>updated := 1, ts_flush := current kcp\<rparr> else kcp);
          slap = itimediff (current kcp) (ts_flush kcp)
      in if slap \<ge> 10000 \<or> slap < -10000 then (kcp\<lparr>ts_flush := current kcp\<rparr>, 0) else (kcp, slap))"

definition update_schedule :: "ikcpcb \<Rightarrow> ikcpcb" where
  "update_schedule kcp =
     (let kcp = kcp\<lparr>ts_flush := ts_flush kcp + interval kcp\<rparr>
      in if itimediff (current kcp) (ts_flush kcp) \<ge> 0
         then kcp\<lparr>ts_flush := current kcp + interval kcp\<rparr> else kcp)"

definition ikcp_update :: "ikcpcb \<Rightarrow> u32 \<Rightarrow> (ikcpcb \<times> byte list list) result" where
  "ikcp_update kcp now =
     (let (kcp, slap) = update_clock kcp now
      in if slap \<ge> 0 then ikcp_flush (update_schedule kcp) else Inr (kcp, []))"

text \<open>
  The scan of \<open>ikcp_check\<close> over the send buffer: None when a segment is already due, else
  the least time to a retransmission, starting from \<open>tm_packet\<close>.
\<close>

fun check_packets :: "u32 \<Rightarrow> IKCPSEG list \<Rightarrow> int \<Rightarrow> int option" where
  "check_packets now [] tm_packet = Some tm_packet"
| "check_packets now (seg # p) tm_packet =
     (let diff = itimediff (seg_resendts seg) now in
      if diff \<le> 0 then None
      else check_packets now p (if diff < tm_packet then diff else tm_packet))"

definition ikcp_check :: "ikcpcb \<Rightarrow> u32 \<Rightarrow> u32" where
  "ikcp_check kcp now =
     (if updated kcp = 0 then now
      else let ts = (if itimediff now (ts_flush kcp) \<ge> 10000 \<or> itimediff now (ts_flush kcp) < -10000
                     then now else ts_flush kcp)
      in if itimediff now ts \<ge> 0 then now
      else let tm_flush = itimediff ts now
      in case check_packets now (snd_buf kcp) 0x7fffffff of
           None \<Rightarrow> now
         | Some tm_packet \<Rightarrow>
             let minimal = word_of_int (if tm_packet < tm_flush then tm_packet else tm_flush) :: u32;
                 minimal = (if minimal \<ge> interval kcp then interval kcp else minimal)
             in now + minimal)"

section \<open>The clock: lemmas\<close>

lemma clock_ok: "kcp_ok (kcp\<lparr>current := c, updated := u, ts_flush := t\<rparr>) = kcp_ok kcp"
proof -
  let ?k = "kcp\<lparr>current := c, updated := u, ts_flush := t\<rparr>"
  have "cfg_ok ?k = cfg_ok kcp" by (rule cfg_ok_cong) simp_all
  moreover have "rcv_ok ?k = rcv_ok kcp" by (rule rcv_ok_cong) simp_all
  moreover have "snd_ok ?k = snd_ok kcp" by (rule snd_ok_cong) simp_all
  moreover have "ack_ok ?k = ack_ok kcp" by (rule ack_ok_cong) simp_all
  ultimately show ?thesis by (simp add: kcp_ok_def)
qed

text \<open>The time since the last scheduled flush, after the clock was set.\<close>

definition clock_slap :: "ikcpcb \<Rightarrow> u32 \<Rightarrow> int" where
  "clock_slap kcp now =
     (if updated kcp = 0 then 0
      else let slap = itimediff now (ts_flush kcp) in if slap \<ge> 10000 \<or> slap < -10000 then 0 else slap)"

lemma update_clock_eq:
  "update_clock kcp now =
     (kcp\<lparr>current := now, updated := (if updated kcp = 0 then 1 else updated kcp),
          ts_flush := (if updated kcp = 0 \<or> itimediff now (ts_flush kcp) \<ge> 10000 \<or> itimediff now (ts_flush kcp) < -10000
                       then now else ts_flush kcp)\<rparr>, clock_slap kcp now)"
  by (simp add: update_clock_def clock_slap_def Let_def)

lemma clock_slap_range: "-10000 \<le> clock_slap kcp now \<and> clock_slap kcp now < 10000"
  by (simp add: clock_slap_def Let_def)

lemma clock_slap_diff: "clock_slap kcp now = itimediff now (ts_flush (fst (update_clock kcp now)))"
  by (simp add: update_clock_eq clock_slap_def Let_def)

lemma itimediff_minus:
  assumes "- 2147483648 < itimediff a b"
  shows "itimediff b a = - itimediff a b"
proof -
  have "b - a = - (a - b)" by simp
  moreover have "sint (- (a - b)) = - sint (a - b)"
  proof -
    have "- (a - b) = (word_of_int (- sint (a - b)) :: u32)" by simp
    moreover have "- 2147483648 \<le> - sint (a - b)" using sint32_range [of "a - b"] by linarith
    moreover have "- sint (a - b) < 2147483648" using assms by (simp add: itimediff_def)
    ultimately show ?thesis by (simp only: sint_of_int32)
  qed
  ultimately show ?thesis by (simp add: itimediff_def)
qed

lemma itimediff_shift:
  assumes "- 2147483648 \<le> itimediff a b - d" and "itimediff a b - d < 2147483648"
  shows "itimediff a (b + word_of_int d) = itimediff a b - d"
proof -
  have "a - (b + word_of_int d) = (word_of_int (sint (a - b) - d) :: u32)" by simp
  then show ?thesis using assms by (simp only: itimediff_def sint_of_int32)
qed

lemma update_schedule_future:
  assumes "0 \<le> itimediff (current kcp) (ts_flush kcp)" and "itimediff (current kcp) (ts_flush kcp) < 10000"
    and "10 \<le> uint (interval kcp)" and "uint (interval kcp) \<le> 5000"
  shows "0 < itimediff (ts_flush (update_schedule kcp)) (current kcp)"
    and "itimediff (ts_flush (update_schedule kcp)) (current kcp) \<le> uint (interval kcp)"
proof -
  let ?i = "uint (interval kcp)" and ?d = "itimediff (current kcp) (ts_flush kcp)"
  have s: "itimediff (current kcp) (ts_flush kcp + interval kcp) = ?d - ?i"
    using itimediff_shift [of "current kcp" "ts_flush kcp" ?i] assms by simp
  have "0 < itimediff (ts_flush (update_schedule kcp)) (current kcp) \<and>
    itimediff (ts_flush (update_schedule kcp)) (current kcp) \<le> uint (interval kcp)"
  proof (cases "?d - ?i \<ge> 0")
    case True
    then have "ts_flush (update_schedule kcp) = current kcp + interval kcp"
      by (simp add: update_schedule_def s Let_def)
    then show ?thesis using assms(3,4) itimediff_add_left [of "interval kcp" "current kcp"] by simp
  next
    case False
    then have "ts_flush (update_schedule kcp) = ts_flush kcp + interval kcp"
      by (simp add: update_schedule_def s Let_def)
    moreover have "itimediff (ts_flush kcp + interval kcp) (current kcp) = - (?d - ?i)"
      using itimediff_minus [of "current kcp" "ts_flush kcp + interval kcp"] assms by (simp add: s)
    ultimately show ?thesis using False assms by simp
  qed
  then show "0 < itimediff (ts_flush (update_schedule kcp)) (current kcp)"
    and "itimediff (ts_flush (update_schedule kcp)) (current kcp) \<le> uint (interval kcp)" by simp_all
qed

lemma update_schedule_frame: "update_schedule kcp = kcp\<lparr>ts_flush := ts_flush (update_schedule kcp)\<rparr>"
  by (simp add: update_schedule_def Let_def)

text \<open>The state \<open>ikcp_flush\<close> starts from.\<close>

definition update_start :: "ikcpcb \<Rightarrow> u32 \<Rightarrow> ikcpcb" where
  "update_start kcp now = update_schedule (fst (update_clock kcp now))"

lemma ikcp_update_eq:
  "ikcp_update kcp now =
     (if clock_slap kcp now \<ge> 0 then ikcp_flush (update_start kcp now) else Inr (fst (update_clock kcp now), []))"
  by (simp add: ikcp_update_def update_clock_eq update_start_def)

lemma update_start_frame:
  "\<exists>u t. update_start kcp now = kcp\<lparr>current := now, updated := u, ts_flush := t\<rparr> \<and> u \<noteq> 0"
proof -
  let ?k = "fst (update_clock kcp now)"
  have "update_start kcp now = ?k\<lparr>ts_flush := ts_flush (update_schedule ?k)\<rparr>"
    unfolding update_start_def by (rule update_schedule_frame)
  then have "update_start kcp now = kcp\<lparr>current := now, updated := (if updated kcp = 0 then 1 else updated kcp),
      ts_flush := ts_flush (update_schedule ?k)\<rparr>" by (simp add: update_clock_eq)
  then show ?thesis
    by (intro exI [of _ "if updated kcp = 0 then 1 else updated kcp"] exI [of _ "ts_flush (update_schedule ?k)"]) simp
qed

lemma update_start_future:
  assumes "cfg_ok kcp" and "clock_slap kcp now \<ge> 0"
  shows "0 < itimediff (ts_flush (update_start kcp now)) now"
    and "itimediff (ts_flush (update_start kcp now)) now \<le> uint (interval kcp)"
proof -
  let ?k = "fst (update_clock kcp now)"
  have c: "current ?k = now" "interval ?k = interval kcp" by (simp_all add: update_clock_eq)
  have "0 \<le> itimediff (current ?k) (ts_flush ?k)" "itimediff (current ?k) (ts_flush ?k) < 10000"
    using assms(2) clock_slap_range [of kcp now] by (simp_all add: c clock_slap_diff [symmetric])
  note f = update_schedule_future [OF this]
  show "0 < itimediff (ts_flush (update_start kcp now)) now"
    and "itimediff (ts_flush (update_start kcp now)) now \<le> uint (interval kcp)"
    using f assms(1) by (simp_all add: c update_start_def cfg_ok_def)
qed

lemma ikcp_update_ok:
  assumes ok: "kcp_ok kcp" and cb: "output_cb kcp" and n: "unat (ackcount kcp) < 2147483648"
  shows "yields (ikcp_update kcp now) (\<lambda>(kcp', out). kcp_ok kcp' \<and>
    (\<forall>d\<in>set out. d \<noteq> [] \<and> int (length d) \<le> uint (mtu kcp)) \<and>
    0 < itimediff (ts_flush kcp') now \<and> itimediff (ts_flush kcp') now \<le> 10000)"
proof (cases "clock_slap kcp now \<ge> 0")
  case True
  let ?s = "update_start kcp now"
  obtain u t where s: "?s = kcp\<lparr>current := now, updated := u, ts_flush := t\<rparr>" "u \<noteq> 0" using update_start_frame by blast
  have sok: "kcp_ok ?s" using ok clock_ok [where kcp = kcp and c = now and u = u and t = t] by (simp add: s(1))
  have "yields (ikcp_flush ?s) (\<lambda>(kcp', out). kcp' = flush_final ?s \<and> datagrams (uint (mtu ?s)) (flush_frames ?s) out)"
    using cb n s by (intro ikcp_flush_spec [OF sok]) (simp_all add: s(1))
  moreover have "kcp_ok (flush_final ?s)" by (rule flush_final_ok [OF sok])
  moreover have "ts_flush (flush_final ?s) = ts_flush ?s"
    using flush_final_fields(1) [OF kcp_okD(3) [OF sok]] by (simp add: loaded_fields_def)
  moreover note update_start_future [OF kcp_okD(1) [OF ok] True]
  moreover have "uint (interval kcp) \<le> 10000" using kcp_okD(1) [OF ok] by (simp add: cfg_ok_def)
  moreover have "mtu ?s = mtu kcp" by (simp add: s(1))
  ultimately show ?thesis using True unfolding ikcp_update_eq
    by (auto elim!: yields_mono dest: datagrams_bound)
next
  case False
  let ?k = "fst (update_clock kcp now)"
  have "kcp_ok ?k" using ok by (simp add: update_clock_eq clock_ok)
  moreover have "itimediff (ts_flush ?k) now = - clock_slap kcp now"
    unfolding clock_slap_diff by (rule itimediff_minus) (use clock_slap_range [of kcp now] in \<open>simp add: clock_slap_diff [symmetric]\<close>)
  ultimately show ?thesis using False clock_slap_range [of kcp now] by (simp add: ikcp_update_eq)
qed

section \<open>When to call again\<close>

lemma check_packets_some:
  "check_packets now segs m = Some r \<Longrightarrow> r \<le> m \<and> (\<forall>s\<in>set segs. 0 < itimediff (seg_resendts s) now \<and> r \<le> itimediff (seg_resendts s) now)
     \<and> (0 < m \<longrightarrow> 0 < r)"
proof (induction segs arbitrary: m)
  case (Cons s segs)
  then have d: "0 < itimediff (seg_resendts s) now" by (auto simp: Let_def split: if_splits)
  then have "check_packets now segs (min (itimediff (seg_resendts s) now) m) = Some r"
    using Cons.prems by (simp add: Let_def min_def split: if_splits)
  from Cons.IH [OF this] d show ?case by auto
qed simp

lemma check_packets_none: "check_packets now segs m = None \<Longrightarrow> \<exists>s\<in>set segs. itimediff (seg_resendts s) now \<le> 0"
  by (induction segs arbitrary: m) (auto simp: Let_def split: if_splits)

text \<open>
  The answer of \<open>ikcp_check\<close> as a delay: 0 when a flush or a segment is due, else the least of
  the interval, the time to the flush and the times to the retransmissions.
\<close>

lemma ikcp_check_cases:
  assumes "10 \<le> uint (interval kcp)" and "uint (interval kcp) \<le> 5000"
  obtains (now) "ikcp_check kcp now = now"
      "updated kcp = 0 \<or> clock_slap kcp now \<ge> 0 \<or> (\<exists>s\<in>set (snd_buf kcp). itimediff (seg_resendts s) now \<le> 0)"
    | (later) d where "ikcp_check kcp now = now + word_of_int d" "0 < d" "d \<le> uint (interval kcp)"
      "updated kcp \<noteq> 0" "d \<le> - clock_slap kcp now" "clock_slap kcp now = itimediff now (ts_flush kcp)"
      "\<forall>s\<in>set (snd_buf kcp). d \<le> itimediff (seg_resendts s) now"
proof (cases "updated kcp = 0 \<or> clock_slap kcp now \<ge> 0")
  case True
  then have "ikcp_check kcp now = now" by (auto simp: ikcp_check_def clock_slap_def Let_def)
  with True now show ?thesis by blast
next
  case False
  then have slap: "clock_slap kcp now = itimediff now (ts_flush kcp)" and lt: "itimediff now (ts_flush kcp) < 0"
    and ge: "\<not> (itimediff now (ts_flush kcp) \<ge> 10000 \<or> itimediff now (ts_flush kcp) < -10000)"
    by (auto simp: clock_slap_def Let_def split: if_splits)
  have fl: "itimediff (ts_flush kcp) now = - itimediff now (ts_flush kcp)" using ge by (intro itimediff_minus) simp
  show ?thesis
  proof (cases "check_packets now (snd_buf kcp) 0x7fffffff")
    case None
    then have "ikcp_check kcp now = now" using False lt ge by (simp add: ikcp_check_def)
    with check_packets_none [OF None] now show ?thesis by blast
  next
    case (Some p)
    note pk = check_packets_some [OF Some]
    define m where "m = min p (itimediff (ts_flush kcp) now)"
    define d where "d = min m (uint (interval kcp))"
    have m: "0 < m" "m < 4294967296" using pk lt fl ge by (auto simp: m_def)
    have mu: "uint (word_of_int m :: u32) = m" using m by (intro uint_of_int32) auto
    have e1: "(if p < itimediff (ts_flush kcp) now then p else itimediff (ts_flush kcp) now) = m" by (simp add: m_def min_def)
    have e2: "(if (word_of_int m :: u32) \<ge> interval kcp then interval kcp else word_of_int m) = word_of_int d"
      by (simp add: d_def min_def word_le_def mu)
    have u: "(updated kcp = 0) = False" and l: "(0 \<le> itimediff now (ts_flush kcp)) = False"
      and g: "(10000 \<le> itimediff now (ts_flush kcp) \<or> itimediff now (ts_flush kcp) < - 10000) = False"
      using False lt ge by simp_all
    have "ikcp_check kcp now = now + word_of_int d"
      unfolding ikcp_check_def Let_def u g if_False l Some option.case e1 e2 by (rule refl)
    moreover have "0 < d" "d \<le> uint (interval kcp)" using m assms(1) by (auto simp: d_def)
    moreover have "d \<le> - clock_slap kcp now" using fl by (simp add: d_def m_def slap)
    moreover have "\<forall>s\<in>set (snd_buf kcp). d \<le> itimediff (seg_resendts s) now" using pk by (fastforce simp: d_def m_def)
    ultimately show ?thesis using later False slap by blast
  qed
qed

section \<open>Correctness\<close>

text \<open>The time the next flush is counted from: now after a reset of the clock.\<close>

definition clock_base :: "ikcpcb \<Rightarrow> u32 \<Rightarrow> u32" where
  "clock_base kcp now =
     (if updated kcp = 0 \<or> itimediff now (ts_flush kcp) \<ge> 10000 \<or> itimediff now (ts_flush kcp) < -10000
      then now else ts_flush kcp)"

lemma update_start_eq:
  assumes "cfg_ok kcp" and "clock_slap kcp now \<ge> 0"
  shows "update_start kcp now = kcp\<lparr>current := now, updated := (if updated kcp = 0 then 1 else updated kcp),
    ts_flush := (if clock_slap kcp now < uint (interval kcp) then clock_base kcp now else now) + interval kcp\<rparr>"
proof -
  let ?k = "fst (update_clock kcp now)"
  have k: "?k = kcp\<lparr>current := now, updated := (if updated kcp = 0 then 1 else updated kcp), ts_flush := clock_base kcp now\<rparr>"
    unfolding update_clock_eq clock_base_def fst_conv by (rule refl)
  have "uint (interval kcp) \<le> 5000" using assms(1) by (simp add: cfg_ok_def)
  then have r: "- 2147483648 \<le> clock_slap kcp now - uint (interval kcp)" "clock_slap kcp now - uint (interval kcp) < 2147483648"
    using assms(2) clock_slap_range [of kcp now] uint32_range [of "interval kcp"] by linarith+
  have b: "itimediff now (clock_base kcp now) = clock_slap kcp now" using clock_slap_diff [of kcp now] by (simp only: k) simp
  have d: "itimediff now (clock_base kcp now + interval kcp) = clock_slap kcp now - uint (interval kcp)"
    using itimediff_shift [of now "clock_base kcp now" "uint (interval kcp)"] r unfolding b by (simp only: word_of_int_uint)
  show ?thesis unfolding update_start_def update_schedule_def Let_def k
    by (cases "clock_slap kcp now < uint (interval kcp)") (simp_all add: d)
qed

text \<open>\<open>ikcp_update\<close> returns without a fault on a block that satisfies the invariant and keeps it; every datagram it
  hands to the output callback is non-empty and fits the MTU, and the next flush is afterwards due in the
  future, at most ten seconds away.\<close>

theorem ikcp_update_correct:
  assumes "kcp_ok kcp" and "output_cb kcp" and "unat (ackcount kcp) < 2147483648"
  shows "\<exists>kcp' out. ikcp_update kcp now = Inr (kcp', out) \<and> kcp_ok kcp' \<and>
    (\<forall>d\<in>set out. d \<noteq> [] \<and> int (length d) \<le> uint (mtu kcp)) \<and>
    0 < itimediff (ts_flush kcp') now \<and> itimediff (ts_flush kcp') now \<le> 10000"
  using ikcp_update_ok [OF assms, of now] by (auto elim!: yieldsE)

theorem ikcp_update_correct_witness:
  "\<exists>kcp' out. ikcp_update sample_busy 1000 = Inr (kcp', out) \<and> kcp_ok kcp' \<and> 0 < itimediff (ts_flush kcp') 1000"
  using ikcp_update_correct [OF sample_busy_ok sample_busy_fields(1,3), of 1000] by blast

text \<open>The schedule of \<open>ikcp_update\<close>: before the flush is due it only sets the clock; when it is due it flushes with
  the next flush one interval after the last, or one interval from now when more than an interval was missed; on the
  first call and when the clock jumped by ten seconds or more it flushes at once and starts over from now.\<close>

theorem ikcp_update_schedule:
  assumes "cfg_ok kcp"
  shows "(updated kcp \<noteq> 0 \<and> -10000 \<le> itimediff now (ts_flush kcp) \<and> itimediff now (ts_flush kcp) < 0 \<longrightarrow>
      ikcp_update kcp now = Inr (kcp\<lparr>current := now\<rparr>, [])) \<and>
    (updated kcp \<noteq> 0 \<and> 0 \<le> itimediff now (ts_flush kcp) \<and> itimediff now (ts_flush kcp) < uint (interval kcp) \<longrightarrow>
      ikcp_update kcp now = ikcp_flush (kcp\<lparr>current := now, ts_flush := ts_flush kcp + interval kcp\<rparr>)) \<and>
    (updated kcp = 0 \<or> itimediff now (ts_flush kcp) < -10000 \<or> uint (interval kcp) \<le> itimediff now (ts_flush kcp) \<longrightarrow>
      ikcp_update kcp now = ikcp_flush (kcp\<lparr>current := now, updated := (if updated kcp = 0 then 1 else updated kcp),
        ts_flush := now + interval kcp\<rparr>))"
proof (intro conjI impI)
  have i: "uint (interval kcp) \<le> 5000" "10 \<le> uint (interval kcp)" using assms by (simp_all add: cfg_ok_def)
  let ?d = "itimediff now (ts_flush kcp)"
  {
    assume a: "updated kcp \<noteq> 0 \<and> -10000 \<le> ?d \<and> ?d < 0"
    then have "clock_slap kcp now = ?d" by (simp add: clock_slap_def)
    then show "ikcp_update kcp now = Inr (kcp\<lparr>current := now\<rparr>, [])"
      using a by (simp add: ikcp_update_eq update_clock_eq)
  next
    assume a: "updated kcp \<noteq> 0 \<and> 0 \<le> ?d \<and> ?d < uint (interval kcp)"
    then have s: "clock_slap kcp now = ?d" using i by (simp add: clock_slap_def)
    then have "update_start kcp now = kcp\<lparr>current := now, ts_flush := ts_flush kcp + interval kcp\<rparr>"
      using a i update_start_eq [OF assms, of now] by (simp add: clock_base_def)
    then show "ikcp_update kcp now = ikcp_flush (kcp\<lparr>current := now, ts_flush := ts_flush kcp + interval kcp\<rparr>)"
      using a s by (simp add: ikcp_update_eq)
  next
    assume a: "updated kcp = 0 \<or> ?d < -10000 \<or> uint (interval kcp) \<le> ?d"
    then have s: "0 \<le> clock_slap kcp now" using i by (auto simp: clock_slap_def Let_def)
    have "(if clock_slap kcp now < uint (interval kcp) then clock_base kcp now else now) = now"
    proof (cases "updated kcp = 0 \<or> ?d \<ge> 10000 \<or> ?d < -10000")
      case True
      then have "clock_base kcp now = now" unfolding clock_base_def by (rule if_P)
      then show ?thesis by simp
    next
      case False
      then have "clock_slap kcp now = ?d" by (simp add: clock_slap_def)
      then show ?thesis using a False by simp
    qed
    then have "update_start kcp now = kcp\<lparr>current := now, updated := (if updated kcp = 0 then 1 else updated kcp),
        ts_flush := now + interval kcp\<rparr>" unfolding update_start_eq [OF assms s] by (simp only:)
    then show "ikcp_update kcp now = ikcp_flush (kcp\<lparr>current := now, updated := (if updated kcp = 0 then 1 else updated kcp),
        ts_flush := now + interval kcp\<rparr>)"
      using s by (simp add: ikcp_update_eq)
  }
qed

theorem ikcp_update_schedule_witness:
  "ikcp_update (sample_busy\<lparr>ts_flush := 1100\<rparr>) 1000 = Inr (sample_busy\<lparr>ts_flush := 1100, current := 1000\<rparr>, [])"
proof -
  have "cfg_ok (sample_busy\<lparr>ts_flush := 1100\<rparr>) = cfg_ok sample_busy" by (rule cfg_ok_cong) simp_all
  then have "cfg_ok (sample_busy\<lparr>ts_flush := 1100\<rparr>)" using sample_busy_ok by (simp add: kcp_ok_def)
  from ikcp_update_schedule [OF this, of 1000] show ?thesis by (simp add: sample_busy_fields(2) itimediff_def)
qed

text \<open>C34: The time \<open>ikcp_check\<close> answers is at most one interval ahead. It is now when a flush or a segment is due;
  otherwise no segment and no flush is due before it, so calling \<open>ikcp_update\<close> at any time up to then would send
  nothing.\<close>

theorem ikcp_check_correct:
  assumes "cfg_ok kcp"
  shows "\<exists>d. ikcp_check kcp now = now + word_of_int d \<and> 0 \<le> d \<and> d \<le> uint (interval kcp) \<and>
    (d = 0 \<longrightarrow> updated kcp = 0 \<or> itimediff now (ts_flush kcp) < -10000 \<or> 0 \<le> itimediff now (ts_flush kcp) \<or>
       (\<exists>s\<in>set (snd_buf kcp). itimediff (seg_resendts s) now \<le> 0)) \<and>
    (\<forall>s\<in>set (snd_buf kcp). 0 < d \<longrightarrow> d \<le> itimediff (seg_resendts s) now) \<and>
    (\<forall>e. 0 \<le> e \<and> e < d \<longrightarrow> ikcp_update kcp (now + word_of_int e) = Inr (kcp\<lparr>current := now + word_of_int e\<rparr>, []))"
proof -
  have i: "10 \<le> uint (interval kcp)" "uint (interval kcp) \<le> 5000" using assms by (simp_all add: cfg_ok_def)
  show ?thesis
  proof (cases rule: ikcp_check_cases [OF i, of now, case_names at_once later])
    case at_once
    have "clock_slap kcp now \<ge> 0 \<Longrightarrow> updated kcp \<noteq> 0 \<Longrightarrow> itimediff now (ts_flush kcp) < -10000 \<or> 0 \<le> itimediff now (ts_flush kcp)"
      by (auto simp: clock_slap_def Let_def split: if_splits)
    with at_once show ?thesis by (intro exI [of _ 0]) auto
  next
    case (later d)
    have idle: "ikcp_update kcp (now + word_of_int e) = Inr (kcp\<lparr>current := now + word_of_int e\<rparr>, [])" if e: "0 \<le> e" "e < d" for e
    proof -
      let ?d = "itimediff now (ts_flush kcp)"
      have r: "-10000 \<le> ?d" "d \<le> - ?d" using later(5,6) clock_slap_range [of kcp now] by simp_all
      have "now + word_of_int e - ts_flush kcp = (word_of_int (?d + e) :: u32)" by (simp add: itimediff_def)
      moreover have "sint (word_of_int (?d + e) :: u32) = ?d + e" by (rule sint_of_int32) (use r e in linarith)+
      ultimately have n: "itimediff (now + word_of_int e) (ts_flush kcp) = ?d + e" by (simp only: itimediff_def)
      then have "clock_slap kcp (now + word_of_int e) = ?d + e" using r e later(4) by (simp add: clock_slap_def)
      then show ?thesis using r e later(4) n by (simp add: ikcp_update_eq update_clock_eq)
    qed
    with later show ?thesis by (intro exI [of _ d]) auto
  qed
qed

theorem ikcp_check_correct_witness:
  "\<exists>d. ikcp_check (sample_busy\<lparr>ts_flush := 1050\<rparr>) 990 = 990 + word_of_int d \<and> 0 \<le> d \<and> d \<le> 100"
proof -
  have "cfg_ok (sample_busy\<lparr>ts_flush := 1050\<rparr>) = cfg_ok sample_busy" by (rule cfg_ok_cong) simp_all
  then have c: "cfg_ok (sample_busy\<lparr>ts_flush := 1050\<rparr>)" using sample_busy_ok by (simp add: kcp_ok_def)
  have "uint (interval (sample_busy\<lparr>ts_flush := 1050\<rparr>)) = 100" by (simp add: sample_busy_def fresh_eq)
  with ikcp_check_correct [OF c, of 990] show ?thesis by metis
qed

end
