(* ===== verification/Kcp_Link.thy ===== *)
theory Kcp_Link
  imports Kcp_Send Kcp_Input_Spec Kcp_Update
begin

text \<open>
  One direction of a conversation, seen from each of its two ends. \<open>hist\<close> is what the sending
  end has numbered so far: fragment number and bytes of segment 0, 1, 2 and so on.
  \<open>send_inv\<close> and \<open>recv_inv\<close> tie a control block to the history it sends or receives;
  \<open>good_frame\<close> says what a frame on the wire may claim. Each operation of a control block is
  shown to keep them, with fewer than \<open>2^31\<close> numbered segments, so that numbers do not wrap.
\<close>

section \<open>The two ends\<close>

type_synonym hist = "(u32 \<times> byte list) list"

definition hist_bytes :: "hist \<Rightarrow> byte list" where
  "hist_bytes H = concat (map snd H)"

definition seg_item :: "IKCPSEG \<Rightarrow> u32 \<times> byte list" where
  "seg_item s = (seg_frg s, seg_data s)"

text \<open>A segment that is the one of its number in the history.\<close>

definition matches :: "hist \<Rightarrow> IKCPSEG \<Rightarrow> bool" where
  "matches H s \<longleftrightarrow> unat (seg_sn s) < length H \<and> H ! unat (seg_sn s) = seg_item s"

text \<open>The numbers a receiver has: all below \<open>rcv_nxt\<close> and those waiting in \<open>rcv_buf\<close>.\<close>

definition received :: "ikcpcb \<Rightarrow> nat set" where
  "received kcp = {..<unat (rcv_nxt kcp)} \<union> (\<lambda>s. unat (seg_sn s)) ` set (rcv_buf kcp)"

text \<open>The sending end: every number is still in the send buffer or in \<open>R\<close>, the numbers received.\<close>

definition send_inv :: "hist \<Rightarrow> nat set \<Rightarrow> ikcpcb \<Rightarrow> bool" where
  "send_inv H R kcp \<longleftrightarrow>
     length H < 2147483648 \<and> snd_nxt kcp = of_nat (length H) \<and>
     (\<forall>s\<in>set (snd_buf kcp). matches H s) \<and>
     {..<length H} \<subseteq> (\<lambda>s. unat (seg_sn s)) ` set (snd_buf kcp) \<union> R"

text \<open>
  The receiving end: \<open>G\<close> is the part of the history handed to the application, and the receive
  queue continues it up to \<open>rcv_nxt\<close>.
\<close>

definition recv_core :: "hist \<Rightarrow> hist \<Rightarrow> ikcpcb \<Rightarrow> bool" where
  "recv_core H G kcp \<longleftrightarrow>
     length H < 2147483648 \<and> unat (rcv_nxt kcp) \<le> length H \<and>
     take (unat (rcv_nxt kcp)) H = G @ map seg_item (rcv_queue kcp) \<and>
     (\<forall>s\<in>set (rcv_buf kcp). matches H s)"

definition recv_inv :: "hist \<Rightarrow> hist \<Rightarrow> ikcpcb \<Rightarrow> bool" where
  "recv_inv H G kcp \<longleftrightarrow> recv_core H G kcp \<and> (\<forall>a\<in>set (acks kcp). unat (fst a) \<in> received kcp)"

lemma payload_item: "payload segs = hist_bytes (map seg_item segs)"
  by (simp add: payload_def hist_bytes_def seg_item_def o_def)

lemma hist_bytes_append [simp]: "hist_bytes (xs @ ys) = hist_bytes xs @ hist_bytes ys"
  by (simp add: hist_bytes_def)

lemma itimediff_unat:
  assumes "unat a < 2147483648" and "unat b < 2147483648"
  shows "itimediff a b = int (unat a) - int (unat b)"
  using itimediff_of_nat [OF assms] by simp

lemma itimediff_unat_less:
  assumes "unat a < 2147483648" and "unat b < 2147483648"
  shows "itimediff a b < 0 \<longleftrightarrow> unat a < unat b"
  using itimediff_unat [OF assms] by linarith

lemma received_cong: "rcv_nxt k = rcv_nxt k' \<Longrightarrow> rcv_buf k = rcv_buf k' \<Longrightarrow> received k = received k'"
  by (simp add: received_def)

lemma recv_inv_cong:
  assumes "rcv_nxt k = rcv_nxt k'" and "rcv_queue k = rcv_queue k'" and "rcv_buf k = rcv_buf k'" and "acks k = acks k'"
  shows "recv_inv H G k = recv_inv H G k'"
  unfolding recv_inv_def recv_core_def received_def assms by (rule refl)

lemma recv_core_cong:
  assumes "rcv_nxt k = rcv_nxt k'" and "rcv_queue k = rcv_queue k'" and "rcv_buf k = rcv_buf k'"
  shows "recv_core H G k = recv_core H G k'"
  unfolding recv_core_def assms by (rule refl)

lemma send_inv_cong:
  assumes "snd_nxt k = snd_nxt k'" and "snd_buf k = snd_buf k'"
  shows "send_inv H R k = send_inv H R k'"
  unfolding send_inv_def assms by (rule refl)

lemma matches_append: "matches H s \<Longrightarrow> matches (H @ H') s"
  by (simp add: matches_def nth_append)

lemma send_inv_mono: "send_inv H R kcp \<Longrightarrow> R \<subseteq> R' \<Longrightarrow> send_inv H R' kcp"
  unfolding send_inv_def by blast

section \<open>The receiving end\<close>

text \<open>Moving segments whose turn has come keeps the numbers received and extends the queue along the history.\<close>

lemma recv_move_link:
  "recv_core H G kcp \<Longrightarrow> recv_core H G (rcv_move kcp) \<and> received kcp \<subseteq> received (rcv_move kcp)"
proof (induction kcp rule: rcv_move_induct)
  case (stop kcp)
  then show ?case by simp
next
  case (step kcp seg rest kcp')
  note inv = step.prems [unfolded recv_core_def]
  let ?n = "unat (rcv_nxt kcp)"
  have m: "?n < length H" "H ! ?n = seg_item seg" using inv step.hyps(1,2) by (simp_all add: matches_def)
  have n: "unat (rcv_nxt kcp') = Suc ?n" using m(1) inv step.hyps(4) by (simp add: unat_Suc_small)
  have "received kcp \<subseteq> received kcp'"
    unfolding received_def n using step.hyps(1,2,4) by auto
  moreover have "take (Suc ?n) H = take ?n H @ [seg_item seg]" using m by (simp add: take_Suc_conv_app_nth)
  ultimately have "recv_core H G kcp'"
    unfolding recv_core_def n using inv m(1) step.hyps(1,4) by auto
  from step.IH [OF this] \<open>received kcp \<subseteq> received kcp'\<close> show ?case using step.hyps(5) by auto
qed

lemma acks_move: "acks (rcv_move kcp) = acks kcp"
proof -
  obtain b nb q nq nx where "rcv_move kcp = kcp\<lparr>rcv_buf := b, nrcv_buf := nb, rcv_queue := q, nrcv_que := nq, rcv_nxt := nx\<rparr>"
    using rcv_move_frame by blast
  then show ?thesis by (intro acks_cong) simp_all
qed

lemma rcv_insert_set:
  assumes "rcv_ok kcp" and "0 \<le> itimediff (seg_sn new) (rcv_nxt kcp)"
  shows "set (rcv_buf kcp) \<subseteq> set (rcv_insert new (rcv_buf kcp))"
    and "set (rcv_insert new (rcv_buf kcp)) \<subseteq> insert new (set (rcv_buf kcp))"
    and "seg_sn new \<in> seg_sn ` set (rcv_insert new (rcv_buf kcp))"
proof -
  have d: "uint (seg_sn new - rcv_nxt kcp) < 2147483648" using assms(2) by (simp only: itimediff_nonneg_iff)
  have "set (rcv_buf kcp) \<subseteq> set (rcv_insert new (rcv_buf kcp)) \<and>
    set (rcv_insert new (rcv_buf kcp)) \<subseteq> insert new (set (rcv_buf kcp)) \<and>
    seg_sn new \<in> seg_sn ` set (rcv_insert new (rcv_buf kcp))"
    by (cases rule: rcv_insert_cases [OF rcv_okD(7) [OF assms(1)] d]) (auto intro: rev_image_eqI)
  then show "set (rcv_buf kcp) \<subseteq> set (rcv_insert new (rcv_buf kcp))"
    and "set (rcv_insert new (rcv_buf kcp)) \<subseteq> insert new (set (rcv_buf kcp))"
    and "seg_sn new \<in> seg_sn ` set (rcv_insert new (rcv_buf kcp))" by simp_all
qed

lemma parse_data_link:
  assumes inv: "recv_core H G kcp" and ok: "rcv_ok kcp" and m: "matches H new"
    and ge: "0 \<le> itimediff (seg_sn new) (rcv_nxt kcp)" and lt: "itimediff (seg_sn new) (rcv_nxt kcp + rcv_wnd kcp) < 0"
  shows "recv_core H G (ikcp_parse_data kcp new)" and "received kcp \<subseteq> received (ikcp_parse_data kcp new)"
    and "unat (seg_sn new) \<in> received (ikcp_parse_data kcp new)"
proof -
  define k where "k = kcp\<lparr>rcv_buf := rcv_insert new (rcv_buf kcp),
    nrcv_buf := (if fst (rcv_search (seg_sn new) (rev (rcv_buf kcp)) []) then nrcv_buf kcp else nrcv_buf kcp + 1)\<rparr>"
  have p: "ikcp_parse_data kcp new = rcv_move k" using ge lt by (simp add: ikcp_parse_data_insert k_def)
  note set = rcv_insert_set [OF ok ge]
  have buf: "rcv_buf k = rcv_insert new (rcv_buf kcp)" and f: "rcv_nxt k = rcv_nxt kcp" "rcv_queue k = rcv_queue kcp"
    by (simp_all add: k_def)
  have r: "received kcp \<subseteq> received k" unfolding received_def buf f using set(1) by blast
  have s: "unat (seg_sn new) \<in> received k" unfolding received_def buf using set(3) by force
  have "\<forall>s\<in>set (rcv_buf k). matches H s" using inv m set(2) unfolding buf recv_core_def by blast
  then have "recv_core H G k" using inv unfolding recv_core_def f by blast
  from recv_move_link [OF this] r s show "recv_core H G (ikcp_parse_data kcp new)"
    and "received kcp \<subseteq> received (ikcp_parse_data kcp new)" and "unat (seg_sn new) \<in> received (ikcp_parse_data kcp new)"
    unfolding p by blast+
qed

text \<open>A data segment: its acknowledgement is appended and the segment stored, unless it is old or beyond the window.\<close>

lemma input_push_link:
  assumes ok: "kcp_ok kcp" and n: "unat (ackcount kcp) < 2147483648" and inv: "recv_inv H G kcp"
    and len: "length data = unat (h_len h)" and item: "unat (h_sn h) < length H" "H ! unat (h_sn h) = (ucast (h_frg h), data)"
  shows "yields (input_push kcp h data) (\<lambda>k. recv_inv H G k \<and> received kcp \<subseteq> received k \<and>
    snd_nxt k = snd_nxt kcp \<and> snd_buf k = snd_buf kcp)"
proof (cases "itimediff (h_sn h) (rcv_nxt kcp + rcv_wnd kcp) < 0")
  case False
  then show ?thesis using inv by (simp add: input_push_def)
next
  case lt: True
  obtain l b where p: "ikcp_ack_push kcp (h_sn h) (h_ts h) = Inr (kcp\<lparr>acklist := l, ackblock := b, ackcount := ackcount kcp + 1\<rparr>)"
    and a: "acks (kcp\<lparr>acklist := l, ackblock := b, ackcount := ackcount kcp + 1\<rparr>) = acks kcp @ [(h_sn h, h_ts h)]"
    using ikcp_ack_push_appends [OF kcp_okD(4) [OF ok] n] by blast
  define k where "k = kcp\<lparr>acklist := l, ackblock := b, ackcount := ackcount kcp + 1\<rparr>"
  let ?new = "input_seg h data"
  define k' where "k' = (if itimediff (h_sn h) (rcv_nxt kcp) \<ge> 0 then ikcp_parse_data k ?new else k)"
  have f: "rcv_nxt k = rcv_nxt kcp" "rcv_queue k = rcv_queue kcp" "rcv_buf k = rcv_buf kcp" "rcv_wnd k = rcv_wnd kcp"
    by (simp_all add: k_def)
  have core: "recv_core H G k" using inv recv_core_cong [of k kcp] by (simp add: recv_inv_def f)
  have rk: "received k = received kcp" by (rule received_cong) (simp_all add: f)
  have new: "seg_sn ?new = h_sn h" "matches H ?new"
    using item by (simp_all add: input_seg_def matches_def seg_item_def)
  have all: "take (unat (h_len h)) data = data" by (simp add: len [symmetric])
  have r: "recv_core H G k' \<and> received kcp \<subseteq> received k' \<and> unat (h_sn h) \<in> received k'"
  proof (cases "itimediff (h_sn h) (rcv_nxt kcp) \<ge> 0")
    case True
    have "rcv_ok k" using rcv_ok_cong [of k kcp] kcp_okD(2) [OF ok] by (simp add: k_def)
    from parse_data_link [OF core this new(2)] True lt show ?thesis by (simp add: k'_def new(1) f rk)
  next
    case False
    have "unat (rcv_nxt kcp) < 2147483648" "unat (h_sn h) < 2147483648"
      using inv item(1) by (simp_all add: recv_inv_def recv_core_def)
    then have "unat (h_sn h) < unat (rcv_nxt kcp)" using False itimediff_unat_less [of "h_sn h" "rcv_nxt kcp"] by linarith
    then have "unat (h_sn h) \<in> received kcp" by (simp add: received_def)
    then show ?thesis using False core by (simp add: k'_def rk)
  qed
  obtain rb nb q nq nx where d: "ikcp_parse_data k ?new =
      k\<lparr>rcv_buf := rb, nrcv_buf := nb, rcv_queue := q, nrcv_que := nq, rcv_nxt := nx\<rparr>"
    using ikcp_parse_data_frame by blast
  have "acks k' = acks k" by (rule acks_cong) (simp_all add: k'_def d)
  then have "acks k' = acks kcp @ [(h_sn h, h_ts h)]" using a by (simp add: k_def)
  then have "\<forall>x\<in>set (acks k'). unat (fst x) \<in> received k'" using r inv by (auto simp: recv_inv_def)
  then have "recv_inv H G k'" using r by (simp add: recv_inv_def)
  moreover have "input_push kcp h data = Inr k'" using lt by (simp add: input_push_def p all k'_def k_def)
  moreover have "snd_nxt k' = snd_nxt kcp" "snd_buf k' = snd_buf kcp" by (simp_all add: k'_def d) (simp_all add: k_def)
  ultimately show ?thesis using r by simp
qed

text \<open>Delivery to the application.\<close>

lemma recv_finish_link:
  assumes "recv_inv H G kcp"
  shows "recv_inv H G (recv_finish recover kcp) \<and> received kcp \<subseteq> received (recv_finish recover kcp)"
proof -
  let ?m = "rcv_move kcp" and ?k = "recv_finish recover kcp"
  have m: "recv_core H G ?m" "received kcp \<subseteq> received ?m"
    using recv_move_link [of H G kcp] assms by (simp_all add: recv_inv_def)
  have f: "rcv_nxt ?k = rcv_nxt ?m" "rcv_queue ?k = rcv_queue ?m" "rcv_buf ?k = rcv_buf ?m" "ackcount ?k = ackcount ?m"
    "acklist ?k = acklist ?m" by (simp_all add: recv_finish_def Let_def)
  have e: "acks ?k = acks kcp" "received ?k = received ?m" "recv_core H G ?k = recv_core H G ?m"
    using acks_cong [OF f(4,5)] acks_move [of kcp] received_cong [OF f(1,3)] recv_core_cong [OF f(1-3)] by simp_all
  have "\<forall>a\<in>set (acks kcp). unat (fst a) \<in> received ?m" using assms m(2) unfolding recv_inv_def by blast
  then show ?thesis using m by (simp only: recv_inv_def e simp_thms)
qed

lemma recv_take_link:
  assumes "recv_inv H G kcp"
  shows "recv_inv H (if ispeek then G else G @ map seg_item (fst (split_message (rcv_queue kcp)))) (recv_take ispeek kcp) \<and>
    received (recv_take ispeek kcp) = received kcp"
proof (cases ispeek)
  case True
  then show ?thesis using assms by (simp add: recv_take_def)
next
  case False
  let ?k = "recv_take ispeek kcp" and ?msg = "fst (split_message (rcv_queue kcp))"
  have q: "?msg @ snd (split_message (rcv_queue kcp)) = rcv_queue kcp" by (rule split_message_append)
  have "drop (length ?msg) (rcv_queue kcp) = snd (split_message (rcv_queue kcp))" by (metis q append_eq_conv_conj)
  then have f: "rcv_queue ?k = snd (split_message (rcv_queue kcp))" "rcv_nxt ?k = rcv_nxt kcp" "rcv_buf ?k = rcv_buf kcp"
    "ackcount ?k = ackcount kcp" "acklist ?k = acklist kcp"
    using False by (simp_all add: recv_take_def Let_def)
  have r: "received ?k = received kcp" by (rule received_cong [OF f(2,3)])
  have "map seg_item (rcv_queue kcp) = map seg_item ?msg @ map seg_item (rcv_queue ?k)"
    unfolding f(1) map_append [symmetric] q by (rule refl)
  then have "recv_core H (G @ map seg_item ?msg) ?k"
    using assms unfolding recv_inv_def recv_core_def f(2,3) append_assoc by simp
  then show ?thesis using False assms r acks_cong [OF f(4,5)] by (simp add: recv_inv_def)
qed

lemma ikcp_recv_link:
  assumes inv: "recv_inv H G kcp" and ok: "rcv_ok kcp" and r: "ikcp_recv kcp len = Inr (ret, bytes, k)"
  shows "\<exists>M. recv_inv H (G @ M) k \<and> received kcp \<subseteq> received k \<and> hist_bytes M = (if len < 0 then [] else bytes) \<and>
    snd_nxt k = snd_nxt kcp \<and> snd_buf k = snd_buf kcp \<and> snd_queue k = snd_queue kcp \<and> conv k = conv kcp"
proof (cases "k = kcp \<and> bytes = []")
  case True
  then show ?thesis using inv by (intro exI [of _ "[]"]) (simp add: hist_bytes_def)
next
  case False
  let ?msg = "fst (split_message (rcv_queue kcp))"
  have k: "k = recv_finish (nrcv_que kcp \<ge> rcv_wnd kcp) (recv_take (len < 0) kcp)"
    and b: "bytes = concat (map (\<lambda>s. take (unat (seg_len s)) (seg_data s)) ?msg)"
    using r False by (auto simp: ikcp_recv_outcome split: if_splits)
  have "set ?msg \<subseteq> set (rcv_queue kcp)" using split_message_append [of "rcv_queue kcp"] by (metis Un_upper1 set_append)
  then have "bytes = payload ?msg" unfolding b using rcv_okD(5) [OF ok] by (intro concat_take_payload) blast
  then have m: "hist_bytes (if len < 0 then [] else map seg_item ?msg) = (if len < 0 then [] else bytes)"
    by (simp add: payload_item hist_bytes_def)
  have e: "(if len < 0 then G else G @ map seg_item ?msg) = G @ (if len < 0 then [] else map seg_item ?msg)" by simp
  have t: "recv_inv H (G @ (if len < 0 then [] else map seg_item ?msg)) (recv_take (len < 0) kcp)"
    "received (recv_take (len < 0) kcp) = received kcp"
    using recv_take_link [OF inv, of "len < 0"] unfolding e by simp_all
  obtain bb nb q nq nx where mv: "rcv_move (recv_take (len < 0) kcp) =
      (recv_take (len < 0) kcp)\<lparr>rcv_buf := bb, nrcv_buf := nb, rcv_queue := q, nrcv_que := nq, rcv_nxt := nx\<rparr>"
    using rcv_move_frame by blast
  have "snd_nxt k = snd_nxt kcp" "snd_buf k = snd_buf kcp" "snd_queue k = snd_queue kcp" "conv k = conv kcp"
    by (simp_all add: k recv_finish_def Let_def mv) (simp_all add: recv_take_def Let_def)
  then show ?thesis using recv_finish_link [OF t(1)] t(2) m k
    by (intro exI [of _ "if len < 0 then [] else map seg_item ?msg"]) simp
qed

section \<open>The sending end\<close>

text \<open>
  What a frame may claim: \<open>H\<close> is the history of its sender, \<open>R\<close> the numbers its sender has
  received from the other end.
\<close>

definition good_frame :: "u32 \<Rightarrow> hist \<Rightarrow> nat set \<Rightarrow> frame \<Rightarrow> bool" where
  "good_frame cv H R f \<longleftrightarrow>
     h_conv (fst f) = cv \<and> h_cmd (fst f) \<in> {81, 82, 83, 84} \<and>
     unat (h_len (fst f)) = length (snd f) \<and> length (snd f) < 2147483648 \<and>
     unat (h_una (fst f)) < 2147483648 \<and> {..<unat (h_una (fst f))} \<subseteq> R \<and>
     (h_cmd (fst f) = 82 \<longrightarrow> unat (h_sn (fst f)) \<in> R) \<and>
     (h_cmd (fst f) = 81 \<longrightarrow> unat (h_sn (fst f)) < length H \<and> H ! unat (h_sn (fst f)) = (ucast (h_frg (fst f)), snd f))"

lemma good_frame_mono:
  assumes "good_frame cv H R f" and "R \<subseteq> R'"
  shows "good_frame cv (H @ H') R' f"
  using assms by (auto simp: good_frame_def nth_append)

lemma good_frame_known: "good_frame cv H R f \<Longrightarrow> known_cmd (h_cmd (fst f))"
  by (auto simp: good_frame_def known_cmd_def ikcp_consts)

text \<open>Removing segments whose numbers were received.\<close>

lemma send_inv_remove:
  assumes "send_inv H R kcp" and "snd_nxt k = snd_nxt kcp" and "set (snd_buf k) \<subseteq> set (snd_buf kcp)"
    and "\<And>s. s \<in> set (snd_buf kcp) \<Longrightarrow> s \<notin> set (snd_buf k) \<Longrightarrow> unat (seg_sn s) \<in> R"
  shows "send_inv H R k"
  using assms unfolding send_inv_def by (auto simp: subset_iff image_iff) blast

lemma input_una_link:
  assumes inv: "send_inv H R kcp" and "unat (h_una h) < 2147483648" and "{..<unat (h_una h)} \<subseteq> R"
  shows "send_inv H R (input_una kcp h)"
proof (rule send_inv_remove [OF inv])
  let ?p = "\<lambda>s. itimediff (h_una h) (seg_sn s) > 0"
  have b: "snd_buf (input_una kcp h) = dropWhile ?p (snd_buf kcp)"
    by (simp add: input_una_def ikcp_shrink_buf_eq ikcp_parse_una_eq parse_una_loop_dropWhile)
  show "snd_nxt (input_una kcp h) = snd_nxt kcp"
    by (simp add: input_una_def ikcp_shrink_buf_eq ikcp_parse_una_eq)
  show "set (snd_buf (input_una kcp h)) \<subseteq> set (snd_buf kcp)" unfolding b by (auto dest: set_dropWhileD)
  fix s assume s: "s \<in> set (snd_buf kcp)" "s \<notin> set (snd_buf (input_una kcp h))"
  have "set (snd_buf kcp) = set (takeWhile ?p (snd_buf kcp)) \<union> set (dropWhile ?p (snd_buf kcp))"
    by (metis set_append takeWhile_dropWhile_id)
  then have "s \<in> set (takeWhile ?p (snd_buf kcp))" using s by (simp add: b)
  then have "?p s" by (rule set_takeWhileD [THEN conjunct2])
  moreover have "unat (seg_sn s) < 2147483648" using inv s(1) unfolding send_inv_def matches_def by force
  note itimediff_unat [OF assms(2) this]
  ultimately have "unat (seg_sn s) < unat (h_una h)" by linarith
  then show "unat (seg_sn s) \<in> R" using assms(3) by blast
qed

lemma input_ack_link:
  assumes ok: "kcp_ok kcp" and inv: "send_inv H R kcp" and "unat sn \<in> R"
  shows "send_inv H R (input_ack kcp sn ts)"
proof (rule send_inv_remove [OF inv])
  note b = input_ack_buf [OF ok, of sn ts]
  show "snd_nxt (input_ack kcp sn ts) = snd_nxt kcp"
    using send_side_ack [OF ok] by (simp add: send_side_def)
  show "set (snd_buf (input_ack kcp sn ts)) \<subseteq> set (snd_buf kcp)" by (auto simp: b)
  show "unat (seg_sn s) \<in> R" if "s \<in> set (snd_buf kcp)" "s \<notin> set (snd_buf (input_ack kcp sn ts))" for s
    using that assms(3) by (auto simp: b)
qed

lemma input_ack_receive:
  "rcv_nxt (input_ack kcp sn ts) = rcv_nxt kcp" "rcv_queue (input_ack kcp sn ts) = rcv_queue kcp"
  "rcv_buf (input_ack kcp sn ts) = rcv_buf kcp" "acks (input_ack kcp sn ts) = acks kcp"
proof -
  define k where "k = (if itimediff (current kcp) ts \<ge> 0 then ikcp_update_ack kcp (itimediff (current kcp) ts) else kcp)"
  obtain b nb where p: "ikcp_parse_ack k sn = k\<lparr>snd_buf := b, nsnd_buf := nb\<rparr>" using ikcp_parse_ack_frame by blast
  have i: "input_ack kcp sn ts = ikcp_shrink_buf (k\<lparr>snd_buf := b, nsnd_buf := nb\<rparr>)"
    by (simp add: input_ack_def k_def [symmetric] Let_def p)
  show "rcv_nxt (input_ack kcp sn ts) = rcv_nxt kcp" "rcv_queue (input_ack kcp sn ts) = rcv_queue kcp"
    "rcv_buf (input_ack kcp sn ts) = rcv_buf kcp" by (simp_all add: i ikcp_shrink_buf_eq k_def)
  show "acks (input_ack kcp sn ts) = acks kcp" by (rule acks_cong) (simp_all add: i ikcp_shrink_buf_eq k_def)
qed

section \<open>A datagram\<close>

text \<open>Reading a datagram of well-formed frames handles them one after the other.\<close>

lemma input_frame_local: "length data = unat (h_len h) \<Longrightarrow> input_frame kcp h (data @ rest) fa = input_frame kcp h data fa"
proof -
  assume "length data = unat (h_len h)"
  then have "take (unat (h_len h)) (data @ rest) = take (unat (h_len h)) data" by (simp add: take_append)
  then have "input_push k h (data @ rest) = input_push k h data" for k unfolding input_push_def by (simp only:)
  then show ?thesis unfolding input_frame_def Let_def by (simp only:)
qed

locale frame_run =
  fixes I :: "frame list \<Rightarrow> ikcpcb \<Rightarrow> bool" and F :: "frame \<Rightarrow> bool"
  assumes run: "I (f # fs) kcp \<Longrightarrow> F f \<Longrightarrow> yields (input_frame kcp (fst f) (snd f) fa) (\<lambda>(k, fa'). I fs k)"
    and shape: "I (f # fs) kcp \<Longrightarrow> F f \<Longrightarrow> length (snd f) = unat (h_len (fst f)) \<and> 0 \<le> sint (h_len (fst f)) \<and>
      h_conv (fst f) = conv kcp \<and> known_cmd (h_cmd (fst f))"
    and block_ok: "I [] kcp \<Longrightarrow> kcp_ok kcp"
begin

lemma run_all:
  "I fs kcp \<Longrightarrow> \<forall>f\<in>set fs. F f \<Longrightarrow> yields (input_loop kcp (encode_frames fs) fa) (\<lambda>(r, k, fa'). r = 0 \<and> I [] k)"
proof (induction fs arbitrary: kcp fa)
  case Nil
  then show ?case by (simp add: input_loop_end)
next
  case (Cons f fs)
  have i: "I (f # fs) kcp" and f: "F f" using Cons.prems by simp_all
  note sh = shape [OF i f]
  have "input_loop kcp (encode_frames (f # fs)) fa =
      bind (input_frame kcp (fst f) (snd f) fa) (\<lambda>(k, fa). input_loop k (encode_frames fs) fa)"
    using input_loop_frame [of "snd f" "fst f" kcp "encode_frames fs" fa] sh
    by (simp add: encode_frame_def input_frame_local)
  moreover have "yields \<dots> (\<lambda>(r, k, fa'). r = 0 \<and> I [] k)"
  proof (rule yields_bind [OF run [OF i f]])
    fix x :: "ikcpcb \<times> ack_state" assume "case x of (k, fa') \<Rightarrow> I fs k"
    then obtain k fa' where x: "x = (k, fa')" "I fs k" by (cases x) simp
    show "yields (case x of (k, fa) \<Rightarrow> input_loop k (encode_frames fs) fa) (\<lambda>(r, k, fa'). r = 0 \<and> I [] k)"
      unfolding x(1) prod.case using Cons.prems(2) by (intro Cons.IH x(2)) simp
  qed
  ultimately show ?case by simp
qed

text \<open>The whole call: what comes after the loop changes the send buffer's counters, \<open>cwnd\<close> and \<open>incr\<close> only.\<close>

lemma input_all:
  assumes i: "I fs kcp" and f: "\<forall>f\<in>set fs. F f"
    and l: "\<not> sint (of_nat (length (encode_frames fs)) :: i32) < sint IKCP_OVERHEAD"
  shows "\<exists>k b c j. ikcp_input kcp (Some (encode_frames fs)) = Inr (0, k\<lparr>snd_buf := b, cwnd := c, incr := j\<rparr>) \<and>
    I [] k \<and> map seg_key b = map seg_key (snd_buf k) \<and> kcp_ok (k\<lparr>snd_buf := b, cwnd := c, incr := j\<rparr>)"
proof -
  obtain x where x: "input_loop kcp (encode_frames fs) (False, 0, 0) = Inr x" "case x of (r, k, fa') \<Rightarrow> r = 0 \<and> I [] k"
    using run_all [OF i f, of "(False, 0, 0)"] by (auto elim!: yieldsE)
  then obtain k fa where e: "input_loop kcp (encode_frames fs) (False, 0, 0) = Inr (0, k, fa)" "I [] k" by (cases x) simp
  obtain b c j where fin: "input_finish (snd_una kcp) (0, k, fa) = Inr (0, k\<lparr>snd_buf := b, cwnd := c, incr := j\<rparr>)"
    "map seg_key b = map seg_key (snd_buf k)" "kcp_ok (k\<lparr>snd_buf := b, cwnd := c, incr := j\<rparr>)"
    by (rule input_finish_keeps [OF block_ok [OF e(2)]])
  have "ikcp_input kcp (Some (encode_frames fs)) = Inr (0, k\<lparr>snd_buf := b, cwnd := c, incr := j\<rparr>)"
    unfolding ikcp_input_eq if_not_P [OF l] by (simp add: e(1) fin(1))
  then show ?thesis using e(2) fin(2,3) by blast
qed

end

text \<open>
  What no operation of a conversation but \<open>ikcp_setmtu\<close> changes: the number, the callback, the mode, the segment size.
\<close>

definition settings :: "ikcpcb \<Rightarrow> u32 \<times> bool \<times> i32 \<times> u32" where
  "settings kcp = (conv kcp, output_cb kcp, stream kcp, mss kcp)"

lemma settings_una: "kcp_ok kcp \<Longrightarrow> settings (input_una kcp h) = settings kcp"
  using input_una_ok(2) [of kcp h] by (auto simp: settings_def)

lemma settings_ack: "settings (input_ack kcp sn ts) = settings kcp"
proof -
  define k where "k = (if itimediff (current kcp) ts \<ge> 0 then ikcp_update_ack kcp (itimediff (current kcp) ts) else kcp)"
  obtain b nb where p: "ikcp_parse_ack k sn = k\<lparr>snd_buf := b, nsnd_buf := nb\<rparr>" using ikcp_parse_ack_frame by blast
  obtain x y z where u: "ikcp_update_ack kcp (itimediff (current kcp) ts) =
      kcp\<lparr>rx_srtt := x, rx_rttval := y, rx_rto := ibound (rx_minrto kcp) z IKCP_RTO_MAX\<rparr>"
    using update_ack_frame by blast
  have i: "input_ack kcp sn ts = ikcp_shrink_buf (k\<lparr>snd_buf := b, nsnd_buf := nb\<rparr>)"
    by (simp add: input_ack_def k_def [symmetric] Let_def p)
  show ?thesis by (simp add: i ikcp_shrink_buf_eq settings_def k_def u)
qed

lemma settings_push: "input_push kcp h data = Inr k \<Longrightarrow> kcp_ok kcp \<Longrightarrow> unat (ackcount kcp) < 2147483648 \<Longrightarrow> settings k = settings kcp"
proof -
  assume k: "input_push kcp h data = Inr k" and ok: "kcp_ok kcp" and n: "unat (ackcount kcp) < 2147483648"
  obtain l b where p: "ikcp_ack_push kcp (h_sn h) (h_ts h) = Inr (kcp\<lparr>acklist := l, ackblock := b, ackcount := ackcount kcp + 1\<rparr>)"
    using ikcp_ack_push_appends [OF kcp_okD(4) [OF ok] n] by blast
  let ?k = "kcp\<lparr>acklist := l, ackblock := b, ackcount := ackcount kcp + 1\<rparr>"
  obtain rb nb q nq nx where d: "ikcp_parse_data ?k (input_seg h (take (unat (h_len h)) data)) =
      ?k\<lparr>rcv_buf := rb, nrcv_buf := nb, rcv_queue := q, nrcv_que := nq, rcv_nxt := nx\<rparr>"
    using ikcp_parse_data_frame by blast
  show ?thesis using k by (auto simp: input_push_def p d settings_def split: if_splits)
qed

text \<open>
  The invariant of an endpoint: its own history \<open>H\<close>, the numbers \<open>R\<close> the other end has received of
  it, the other end's history \<open>H'\<close>, what was delivered of that, and numbers \<open>P\<close> it has received
  at least; \<open>n\<close> more acknowledgements fit.
\<close>

definition end_inv :: "u32 \<times> bool \<times> i32 \<times> u32 \<Rightarrow> hist \<Rightarrow> nat set \<Rightarrow> hist \<Rightarrow> hist \<Rightarrow> nat set \<Rightarrow> nat \<Rightarrow> ikcpcb \<Rightarrow> bool" where
  "end_inv c H R H' G P n kcp \<longleftrightarrow> input_ok n kcp \<and> settings kcp = c \<and> send_inv H R kcp \<and> recv_inv H' G kcp \<and> P \<subseteq> received kcp"

text \<open>The four kinds of frames; in all of them the window and \<open>una\<close> are taken over first.\<close>

lemma input_frame_cases [consumes 2, case_names ack push ask tell]:
  assumes "input_frame kcp h data fa = Inr (k, fa')" and "h_cmd h \<in> {81, 82, 83, 84}"
  obtains "h_cmd h = 82" "k = input_ack (input_una kcp h) (h_sn h) (h_ts h)"
    | "h_cmd h = 81" "input_push (input_una kcp h) h data = Inr k"
    | "h_cmd h = 83" "k = (input_una kcp h)\<lparr>probe := probe (input_una kcp h) OR IKCP_ASK_TELL\<rparr>"
    | "h_cmd h = 84" "k = input_una kcp h"
proof -
  note r = assms(1) [unfolded input_frame_eq Let_def]
  consider "h_cmd h = 82" | "h_cmd h = 81" | "h_cmd h = 83" | "h_cmd h = 84" using assms(2) by blast
  then show thesis
  proof cases
    case 1
    with that(1) r show ?thesis by (simp add: ikcp_consts)
  next
    case 2
    with r have "input_push (input_una kcp h) h data = Inr k" by (simp add: ikcp_consts bind_Inr_iff)
    with that(2) 2 show ?thesis by blast
  next
    case 3
    with that(3) r show ?thesis by (simp add: ikcp_consts)
  next
    case 4
    with that(4) r show ?thesis by (simp add: ikcp_consts)
  qed
qed

text \<open>What a frame changes, once its window and its \<open>una\<close> have been taken: \<open>?u\<close> is the block after these.\<close>

lemma input_command_link:
  assumes cmd: "h_cmd h \<in> {81, 82, 83, 84}" and f: "good_frame c' H' R (h, data)" and k: "input_frame kcp h data fa = Inr (k, fa')"
    and u: "input_una kcp h = u" "kcp_ok u" "unat (ackcount u) < 2147483648" and s: "send_inv H R u" and r: "recv_inv H' G u"
    and len: "length data = unat (h_len h)"
  shows "settings k = settings u \<and> send_inv H R k \<and> recv_inv H' G k \<and> received u \<subseteq> received k"
  using k cmd
proof (cases rule: input_frame_cases)
  case ack
  note e = ack(2) [unfolded u(1)]
  have "send_inv H R k" unfolding e by (rule input_ack_link [OF u(2) s]) (use f ack(1) in \<open>simp add: good_frame_def\<close>)
  moreover have "recv_inv H' G k = recv_inv H' G u" unfolding e by (rule recv_inv_cong) (simp_all add: input_ack_receive)
  moreover have "received k = received u" unfolding e by (rule received_cong) (simp_all add: input_ack_receive)
  moreover have "settings k = settings u" unfolding e by (simp add: settings_ack)
  ultimately show ?thesis using r by simp
next
  case push
  note p = push(2) [unfolded u(1)]
  have "settings k = settings u" using settings_push [OF p u(2,3)] by simp
  moreover from input_push_link [OF u(2,3) r len] f push(1) have
    "recv_inv H' G k" "received u \<subseteq> received k" "snd_nxt k = snd_nxt u" "snd_buf k = snd_buf u"
    by (simp_all add: p good_frame_def)
  ultimately show ?thesis using send_inv_cong [of k u] s by auto
next
  case ask
  note e = ask(2) [unfolded u(1)]
  have same: "snd_nxt k = snd_nxt u" "snd_buf k = snd_buf u" "rcv_nxt k = rcv_nxt u" "rcv_queue k = rcv_queue u"
    "rcv_buf k = rcv_buf u" "ackcount k = ackcount u" "acklist k = acklist u" by (simp_all add: e)
  have "send_inv H R k = send_inv H R u" by (rule send_inv_cong [OF same(1,2)])
  moreover have "recv_inv H' G k = recv_inv H' G u" by (rule recv_inv_cong [OF same(3,4,5) acks_cong [OF same(6,7)]])
  moreover have "received k = received u" by (rule received_cong [OF same(3,5)])
  ultimately show ?thesis using s r by (simp add: e settings_def)
next
  case tell
  then show ?thesis using s r u(1) by simp
qed

lemma input_frame_link:
  assumes inv: "end_inv c H R H' G P (Suc n) kcp" and f: "good_frame (fst c) H' R f"
  shows "yields (input_frame kcp (fst f) (snd f) fa) (\<lambda>(k, fa'). end_inv c H R H' G P n k)"
proof -
  let ?h = "fst f"
  have io: "input_ok (Suc n) kcp" and cv: "settings kcp = c" and s: "send_inv H R kcp" and r: "recv_inv H' G kcp" "P \<subseteq> received kcp"
    using inv by (simp_all add: end_inv_def)
  have ok: "kcp_ok kcp" "unat (ackcount kcp) < 2147483648" using io by (simp_all add: input_ok_def)
  have len: "length (snd f) = unat (h_len ?h)" and fl: "length (snd f) < 2147483648" and hc: "h_conv ?h = conv kcp"
    and cmd: "h_cmd ?h \<in> {81, 82, 83, 84}" using f cv by (auto simp: good_frame_def settings_def)
  have "int (length (snd f)) < 2147483648" using fl by linarith
  then have "uint (h_len ?h) < 2147483648" by (simp add: len)
  then have sl: "0 \<le> sint (h_len ?h)" by (simp only: sint_nonneg_iff)
  obtain k fa' where k: "input_frame kcp ?h (snd f) fa = Inr (k, fa')" "input_ok n k"
    using block.frame [OF io _ sl hc good_frame_known [OF f], of "snd f" fa] len by (auto elim!: yieldsE)
  let ?u = "input_una kcp ?h"
  note same = input_una_receive [OF ok(1), of ?h]
  have us: "send_inv H R ?u" by (rule input_una_link [OF s]) (use f in \<open>simp_all add: good_frame_def\<close>)
  have ur: "recv_inv H' G ?u" using recv_inv_cong [OF same(1,3,4,5)] r(1) by simp
  have up: "received ?u = received kcp" by (rule received_cong [OF same(1,4)])
  have su: "settings ?u = c" using settings_una [OF ok(1)] cv by simp
  have un: "unat (ackcount ?u) < 2147483648" using ok(2) same(6) by simp
  have "settings k = c \<and> send_inv H R k \<and> recv_inv H' G k \<and> received ?u \<subseteq> received k"
    using input_command_link [OF cmd _ k(1) refl input_una_ok(1) [OF ok(1)] un us ur len] f su by simp
  then show ?thesis using k up r(2) by (auto simp: end_inv_def)
qed

lemma good_frame_shape:
  assumes i: "end_inv c H R H' G P n kcp" and f: "good_frame (fst c) H' R f"
  shows "length (snd f) = unat (h_len (fst f)) \<and> 0 \<le> sint (h_len (fst f)) \<and>
      h_conv (fst f) = conv kcp \<and> known_cmd (h_cmd (fst f))"
proof -
  have "int (length (snd f)) < 2147483648" and len: "length (snd f) = unat (h_len (fst f))"
    using f by (simp_all add: good_frame_def)
  then have "uint (h_len (fst f)) < 2147483648" by simp
  then show ?thesis
    using i f len good_frame_known [OF f] by (auto simp: sint_nonneg_iff good_frame_def end_inv_def settings_def)
qed

interpretation link: frame_run "\<lambda>fs. end_inv c H R H' G P (length fs)" "good_frame (fst c) H' R" for c H R H' G P
proof
  fix kcp f fs fa
  assume i: "end_inv c H R H' G P (length (f # fs)) kcp" and f: "good_frame (fst c) H' R f"
  show "yields (input_frame kcp (fst f) (snd f) fa) (\<lambda>(k, fa'). end_inv c H R H' G P (length fs) k)"
    by (rule input_frame_link [OF _ f]) (use i in simp)
qed (erule (1) good_frame_shape, simp add: end_inv_def input_ok_def)

lemma send_inv_keys:
  assumes "map seg_key (snd_buf k) = map seg_key (snd_buf kcp)" and "snd_nxt k = snd_nxt kcp"
  shows "send_inv H R k = send_inv H R kcp"
proof -
  let ?key = "\<lambda>x :: u32 \<times> u32 \<times> byte list. unat (fst x) < length H \<and> H ! unat (fst x) = snd x"
  have m: "(\<forall>s\<in>set b. matches H s) = (\<forall>x\<in>set (map seg_key b). ?key x)" for b
    by (simp add: matches_def seg_key_def seg_item_def)
  have i: "(\<lambda>s. unat (seg_sn s)) ` set b = (\<lambda>x. unat (fst x)) ` set (map seg_key b)" for b
    by (simp add: seg_key_def image_image)
  show ?thesis unfolding send_inv_def m i assms by (rule refl)
qed

lemma length_frames: "24 * length fs \<le> length (encode_frames fs)"
  by (induction fs) (simp_all add: length_encode_frame)

text \<open>A whole datagram of good frames, as \<open>ikcp_input\<close> handles it.\<close>

lemma ikcp_input_link:
  assumes ok: "kcp_ok kcp" and n: "unat (ackcount kcp) + length d div 24 \<le> 2147483648"
    and inv: "send_inv H R kcp" "recv_inv H' G kcp" and d: "d = encode_frames fs" "\<forall>f\<in>set fs. good_frame (conv kcp) H' R f"
    and r: "ikcp_input kcp (Some d) = Inr (ret, k)"
  shows "kcp_ok k \<and> send_inv H R k \<and> recv_inv H' G k \<and> received kcp \<subseteq> received k \<and> settings k = settings kcp \<and>
    snd_queue k = snd_queue kcp"
proof -
  have kok: "kcp_ok k" using ikcp_input_ok [OF ok n] by (simp add: r)
  have q: "snd_queue k = snd_queue kcp" using ikcp_input_send_side [OF ok n] by (simp add: r send_side_def)
  have "send_inv H R k \<and> recv_inv H' G k \<and> received kcp \<subseteq> received k \<and> settings k = settings kcp"
  proof (cases "sint (of_nat (length d) :: i32) < sint IKCP_OVERHEAD")
    case True
    then show ?thesis using r inv by (simp add: ikcp_input_eq)
  next
    case False
    have "length fs \<le> length d div 24" using length_frames [of fs] by (simp add: d(1) less_eq_div_iff_mult_less_eq mult.commute)
    then have io: "input_ok (length fs) kcp" using ok n by (simp add: input_ok_def)
    have i: "end_inv (settings kcp) H R H' G (received kcp) (length fs) kcp" using io inv by (simp add: end_inv_def)
    have f: "\<forall>f\<in>set fs. good_frame (fst (settings kcp)) H' R f" using d(2) by (simp add: settings_def)
    obtain k1 b c j where fin: "ikcp_input kcp (Some d) = Inr (0, k1\<lparr>snd_buf := b, cwnd := c, incr := j\<rparr>)"
      and e: "end_inv (settings kcp) H R H' G (received kcp) 0 k1" and keys: "map seg_key b = map seg_key (snd_buf k1)"
      using link.input_all [OF i f] False unfolding d(1) by auto
    have k1: "kcp_ok k1" "send_inv H R k1" "recv_inv H' G k1" "received kcp \<subseteq> received k1" "settings k1 = settings kcp"
      using e by (simp_all add: end_inv_def input_ok_def)
    let ?k = "k1\<lparr>snd_buf := b, cwnd := c, incr := j\<rparr>"
    have k: "k = ?k" using r fin by simp
    have "send_inv H R ?k = send_inv H R k1" by (rule send_inv_keys) (simp_all add: keys)
    moreover have "acks ?k = acks k1" by (rule acks_cong) simp_all
    then have "recv_inv H' G ?k = recv_inv H' G k1" by (intro recv_inv_cong) simp_all
    moreover have "received ?k = received k1" by (rule received_cong) simp_all
    moreover have "settings ?k = settings k1" by (simp add: settings_def)
    ultimately show ?thesis using k1 unfolding k by simp
  qed
  then show ?thesis using kok q by simp
qed

end
