(* ===== verification/Kcp_Endpoint.thy ===== *)
theory Kcp_Endpoint
  imports Kcp_Link
begin

text \<open>
  One end of a conversation: \<open>endpoint\<close> collects what holds of its control block, and every
  operation is shown to keep it. A flush numbers segments and so extends the history; the other
  operations leave the history alone.
\<close>

section \<open>A flush\<close>

lemma seg_item_sent [simp]: "seg_item (sent_seg k wnd resent rtomin s) = seg_item s"
  by (simp add: seg_item_def)

lemma numbered_items: "map seg_item (numbered wnd kcp ss) = map seg_item ss"
  using numbered_data [of wnd kcp ss] by (simp add: seg_item_def [abs_def])

lemma numbered_matches:
  assumes "snd_nxt kcp = of_nat (length H)" and "length H + length ss < 2147483648" and "s \<in> set (numbered wnd kcp ss)"
  shows "matches (H @ map seg_item ss) s"
proof -
  let ?ns = "numbered wnd kcp ss"
  obtain i where i: "i < length ?ns" "s = ?ns ! i" using assms(3) by (auto simp: in_set_conv_nth)
  have l: "length ?ns = length ss" using arg_cong [OF numbered_sn [of wnd kcp ss], of length] by simp
  have "seg_sn s = snd_nxt kcp + of_nat i"
    using i l arg_cong [OF numbered_sn [of wnd kcp ss], of "\<lambda>x. x ! i"] by simp
  then have "seg_sn s = of_nat (length H + i)" by (simp add: assms(1))
  then have sn: "unat (seg_sn s) = length H + i" using i(1) l assms(2) by (simp only:) (rule unat_of_nat32, linarith)
  have "seg_item s = map seg_item ss ! i"
    using i arg_cong [OF numbered_items [of wnd kcp ss], of "\<lambda>x. x ! i"] by simp
  then show ?thesis unfolding matches_def sn using i(1) l by (simp add: nth_append)
qed

lemma numbered_covers:
  assumes "snd_nxt kcp = of_nat (length H)" and "length H + length ss < 2147483648"
    and "length H \<le> i" and "i < length H + length ss"
  shows "i \<in> (\<lambda>s. unat (seg_sn s)) ` set (numbered wnd kcp ss)"
proof -
  let ?ns = "numbered wnd kcp ss"
  have l: "length ?ns = length ss" using arg_cong [OF numbered_sn [of wnd kcp ss], of length] by simp
  let ?j = "i - length H"
  have j: "?j < length ss" using assms(3,4) by linarith
  have "seg_sn (?ns ! ?j) = snd_nxt kcp + of_nat ?j"
    using j l arg_cong [OF numbered_sn [of wnd kcp ss], of "\<lambda>x. x ! ?j"] by simp
  then have "seg_sn (?ns ! ?j) = of_nat i" using assms(3) by (simp add: assms(1) of_nat_diff)
  then have "unat (seg_sn (?ns ! ?j)) = i" using assms(2,4) by (simp only:) (rule unat_of_nat32, linarith)
  moreover have "?ns ! ?j \<in> set ?ns" using j l by simp
  ultimately show ?thesis by (metis image_eqI)
qed

lemma settings_loaded:
  assumes "snd_ok kcp"
  shows "settings (flush_loaded kcp) = settings kcp"
proof -
  obtain pw tp where r: "flush_ready kcp = kcp\<lparr>ackcount := 0, probe_wait := pw, ts_probe := tp, probe := 0\<rparr>"
    using flush_ready_frame by blast
  show ?thesis by (simp add: flush_loaded_moved(1) [OF assms] settings_def moved_def r)
qed

lemma settings_final:
  assumes "snd_ok kcp"
  shows "settings (flush_final kcp) = settings kcp"
proof -
  have "settings (flush_cwnd w r c l k) = settings k" for w r c l k
    using flush_cwnd_frame [of w r c l k] by (auto simp: settings_def)
  moreover have "settings (k\<lparr>snd_buf := b\<rparr>) = settings k" for k b by (simp add: settings_def)
  moreover have "settings (data_state k wnd re rm ss) = settings k" for k wnd re rm ss
    by (simp add: settings_def data_state_def)
  ultimately show ?thesis by (simp add: flush_final_def Let_def settings_loaded [OF assms])
qed

lemma narrow_frg: "(w :: u32) < 256 \<Longrightarrow> ucast (ucast w :: byte) = w"
proof -
  assume "w < 256"
  then have "unat w < 256" by (simp add: word_less_nat_alt)
  then have "unat (ucast (ucast w :: byte) :: u32) = unat w" by (simp add: unsigned_ucast_eq unsigned_take_bit_eq take_bit_nat_eq_self)
  then show ?thesis by (simp only: word_unat_eq_iff)
qed

text \<open>The numbers a flush gives out extend the history.\<close>

definition flushed :: "hist \<Rightarrow> ikcpcb \<Rightarrow> hist" where
  "flushed H kcp = H @ map seg_item (take (move_count (flush_window kcp) kcp) (snd_queue kcp))"

lemma flush_loaded_link:
  assumes so: "snd_ok kcp" and inv: "send_inv H R kcp" and len: "length H + length (snd_queue kcp) < 2147483648"
  shows "send_inv (flushed H kcp) R (flush_loaded kcp)"
    and "snd_queue (flush_loaded kcp) = drop (move_count (flush_window kcp) kcp) (snd_queue kcp)"
proof -
  let ?n = "move_count (flush_window kcp) kcp" and ?k = "flush_loaded kcp" and ?r = "flush_ready kcp"
  let ?ss = "take ?n (snd_queue kcp)"
  note ld = flush_loaded_moved(1) [OF so]
  have mc: "?n \<le> length (snd_queue kcp)" by (simp add: move_count_def)
  have b: "snd_buf ?k = snd_buf kcp @ numbered (ikcp_wnd_unused kcp) ?r ?ss" by (simp add: ld) (simp add: moved_def)
  have nx: "snd_nxt ?k = snd_nxt kcp + of_nat ?n" by (simp add: ld) (simp add: moved_def)
  have h: "snd_nxt ?r = of_nat (length H)" using inv by (simp add: send_inv_def)
  have l: "length H + length ?ss < 2147483648" "length ?ss = ?n" using len mc by simp_all
  show "snd_queue ?k = drop ?n (snd_queue kcp)" by (simp add: ld) (simp add: moved_def)
  have m: "matches (flushed H kcp) s" if "s \<in> set (snd_buf ?k)" for s
  proof (cases "s \<in> set (snd_buf kcp)")
    case True
    then show ?thesis using inv unfolding flushed_def by (intro matches_append) (simp add: send_inv_def)
  next
    case False
    then have "s \<in> set (numbered (ikcp_wnd_unused kcp) ?r ?ss)" using that by (simp add: b)
    from numbered_matches [OF h l(1) this] show ?thesis by (simp add: flushed_def)
  qed
  have c: "i \<in> (\<lambda>s. unat (seg_sn s)) ` set (snd_buf ?k) \<union> R" if "i < length (flushed H kcp)" for i
  proof (cases "i < length H")
    case True
    then show ?thesis using inv unfolding b send_inv_def by auto
  next
    case False
    then have "i \<in> (\<lambda>s. unat (seg_sn s)) ` set (numbered (ikcp_wnd_unused kcp) ?r ?ss)"
      using that by (intro numbered_covers [OF h l(1)]) (simp_all add: flushed_def)
    then show ?thesis unfolding b by auto
  qed
  show "send_inv (flushed H kcp) R ?k"
    unfolding send_inv_def using inv l mc m c
    by (auto simp: flushed_def nx send_inv_def)
qed

lemma flush_link:
  assumes ok: "kcp_ok kcp" and inv: "send_inv H R kcp" "recv_inv H' G kcp"
    and len: "length H + length (snd_queue kcp) < 2147483648"
  shows "send_inv (flushed H kcp) R (flush_final kcp)" and "recv_inv H' G (flush_final kcp)"
    and "received (flush_final kcp) = received kcp"
    and "f \<in> set (flush_frames kcp) \<Longrightarrow> good_frame (conv kcp) (flushed H kcp) (received kcp) f"
    and "hist_bytes (flushed H kcp) @ payload (snd_queue (flush_final kcp)) = hist_bytes H @ payload (snd_queue kcp)"
proof -
  note so = kcp_okD(3) [OF ok]
  note f = flush_final_fields [OF so] and ll = flush_loaded_link [OF so inv(1) len]
  let ?k = "flush_loaded kcp" and ?f = "flush_final kcp" and ?H = "flushed H kcp"
  have "map seg_key (snd_buf ?f) = map seg_key (snd_buf ?k)" by (simp add: f(3) seg_key_def)
  then show "send_inv ?H R ?f" using ll(1) send_inv_keys [of ?f ?k] f(5) by simp
  have same: "rcv_nxt ?f = rcv_nxt kcp" "rcv_queue ?f = rcv_queue kcp" "rcv_buf ?f = rcv_buf kcp"
    using f(1) by (simp_all add: loaded_fields_def)
  show rf: "received ?f = received kcp" by (rule received_cong [OF same(1,3)])
  have "acks ?f = []" by (simp add: acks_def f(2))
  then show "recv_inv H' G ?f" using inv(2) recv_core_cong [OF same] by (simp add: recv_inv_def)
  show "hist_bytes ?H @ payload (snd_queue ?f) = hist_bytes H @ payload (snd_queue kcp)"
    by (simp add: flushed_def f(4) ll(2) payload_item [symmetric] payload_simps(3) [symmetric])
  assume "f \<in> set (flush_frames kcp)"
  then have fo: "frame_of kcp (acks kcp) (snd_buf ?k) f" by (rule flush_frames_of [OF so])
  have a: "unat (fst a) \<in> received kcp" if "a \<in> set (acks kcp)" for a using inv(2) that by (simp add: recv_inv_def)
  have una: "unat (rcv_nxt kcp) < 2147483648" "{..<unat (rcv_nxt kcp)} \<subseteq> received kcp"
    using inv(2) by (simp_all add: recv_inv_def recv_core_def received_def)
  have p: "unat (seg_sn s) < length ?H \<and> ?H ! unat (seg_sn s) = (ucast (ucast (seg_frg s) :: byte), seg_data s)"
    if "s \<in> set (snd_buf ?k)" for s
  proof -
    have "matches ?H s" using ll(1) that by (simp add: send_inv_def)
    moreover have "seg_frg s < 256"
      using snd_window_okD(7) [OF snd_okD(1) [OF flush_loaded_moved(2) [OF so]] that] by (simp add: seg_ok_def)
    then have "ucast (ucast (seg_frg s) :: byte) = seg_frg s" by (rule narrow_frg)
    ultimately show ?thesis by (simp add: matches_def seg_item_def)
  qed
  show "good_frame (conv kcp) ?H (received kcp) f"
    unfolding good_frame_def using fo una a p by (auto simp: frame_of_def)
qed

section \<open>The endpoint\<close>

definition endpoint :: "u32 \<times> bool \<times> i32 \<times> u32 \<Rightarrow> hist \<Rightarrow> nat set \<Rightarrow> hist \<Rightarrow> hist \<Rightarrow> ikcpcb \<Rightarrow> bool" where
  "endpoint c H R H' G kcp \<longleftrightarrow> kcp_ok kcp \<and> settings kcp = c \<and> send_inv H R kcp \<and> recv_inv H' G kcp"

text \<open>A datagram of good frames.\<close>

definition carries :: "u32 \<Rightarrow> hist \<Rightarrow> nat set \<Rightarrow> byte list \<Rightarrow> bool" where
  "carries cv H R d \<longleftrightarrow> (\<exists>fs. d = encode_frames fs \<and> (\<forall>f\<in>set fs. good_frame cv H R f))"

definition queued :: "ikcpcb \<Rightarrow> hist" where
  "queued kcp = map seg_item (snd_queue kcp)"

lemma carries_mono: "carries cv H R d \<Longrightarrow> R \<subseteq> R' \<Longrightarrow> carries cv (H @ N) R' d"
  unfolding carries_def using good_frame_mono by blast

lemma endpointD:
  assumes "endpoint c H R H' G kcp"
  shows "kcp_ok kcp" "settings kcp = c" "send_inv H R kcp" "recv_inv H' G kcp" "conv kcp = fst c" "output_cb kcp = fst (snd c)"
    "stream kcp = fst (snd (snd c))" "length H < 2147483648" "length H' < 2147483648" "mss kcp = snd (snd (snd c))"
  using assms by (auto simp: endpoint_def settings_def send_inv_def recv_inv_def recv_core_def)

lemma endpoint_mono: "endpoint c H R H' G kcp \<Longrightarrow> R \<subseteq> R' \<Longrightarrow> endpoint c H R' H' G kcp"
  unfolding endpoint_def using send_inv_mono by blast

text \<open>The other end numbers more segments.\<close>

lemma endpoint_peer:
  assumes "endpoint c H R H' G kcp" and "length (H' @ N) < 2147483648"
  shows "endpoint c H R (H' @ N) G kcp"
proof -
  have "recv_core (H' @ N) G kcp"
    using assms matches_append by (auto simp: endpoint_def recv_inv_def recv_core_def)
  then show ?thesis using assms(1) by (simp add: endpoint_def recv_inv_def)
qed

text \<open>An operation that touches neither the numbered segments nor the receive side.\<close>

lemma endpoint_configured:
  assumes "endpoint c H R H' G kcp" and "kcp_ok k"
    and "snd_nxt k = snd_nxt kcp" and "snd_buf k = snd_buf kcp" and "rcv_nxt k = rcv_nxt kcp" and "rcv_queue k = rcv_queue kcp"
    and "rcv_buf k = rcv_buf kcp" and "ackcount k = ackcount kcp" and "acklist k = acklist kcp"
  shows "endpoint (settings k) H R H' G k" and "received k = received kcp"
  using assms(1,2) send_inv_cong [OF assms(3,4)] recv_inv_cong [OF assms(5-7) acks_cong [OF assms(8,9)]]
  by (simp_all add: endpoint_def received_cong [OF assms(5,7)])

lemma endpoint_frame:
  assumes "endpoint c H R H' G kcp" and "kcp_ok k" and "settings k = settings kcp"
    and "snd_nxt k = snd_nxt kcp" and "snd_buf k = snd_buf kcp" and "rcv_nxt k = rcv_nxt kcp" and "rcv_queue k = rcv_queue kcp"
    and "rcv_buf k = rcv_buf kcp" and "ackcount k = ackcount kcp" and "acklist k = acklist kcp"
  shows "endpoint c H R H' G k" and "received k = received kcp"
  using endpoint_configured [OF assms(1,2,4-10)] assms(3) endpointD(2) [OF assms(1)] by simp_all

lemma flush_effect:
  assumes e: "endpoint c H R H' G kcp" and cb: "fst (snd c)" and u: "updated kcp \<noteq> 0" and n: "unat (ackcount kcp) < 2147483648"
    and len: "length H + length (snd_queue kcp) < 2147483648"
  shows "\<exists>N fss. ikcp_flush kcp = Inr (flush_final kcp, map encode_frames fss) \<and> concat fss = flush_frames kcp \<and>
    (\<forall>fs\<in>set fss. fs \<noteq> [] \<and> length (encode_frames fs) < 2147483648) \<and>
    (\<forall>f\<in>set (flush_frames kcp). good_frame (fst c) (H @ N) (received kcp) f) \<and>
    endpoint c (H @ N) R H' G (flush_final kcp) \<and> received (flush_final kcp) = received kcp \<and>
    queued kcp = N @ queued (flush_final kcp)"
proof -
  note d = endpointD [OF e]
  note fl = flush_link [OF d(1) d(3) d(4) len] and so = kcp_okD(3) [OF d(1)]
  let ?n = "move_count (flush_window kcp) kcp"
  let ?N = "map seg_item (take ?n (snd_queue kcp))"
  obtain fss where f: "ikcp_flush kcp = Inr (flush_final kcp, map encode_frames fss)" "concat fss = flush_frames kcp"
      "\<forall>fs\<in>set fss. fs \<noteq> [] \<and> int (length (encode_frames fs)) \<le> uint (mtu kcp)"
    using flush_result [OF d(1) _ u n] cb d(6) by blast
  have "uint (mtu kcp) < 2147483648" using kcp_okD(1) [OF d(1)] by (simp add: cfg_ok_def)
  then have "\<forall>fs\<in>set fss. fs \<noteq> [] \<and> length (encode_frames fs) < 2147483648" using f(3) by fastforce
  moreover have H: "flushed H kcp = H @ ?N" by (simp add: flushed_def)
  have "\<forall>f\<in>set (flush_frames kcp). good_frame (fst c) (H @ ?N) (received kcp) f" using fl(4) by (simp add: H d(5))
  moreover have "endpoint c (H @ ?N) R H' G (flush_final kcp)"
    using fl(1,2) flush_final_ok [OF d(1)] settings_final [OF so] d(2) by (simp add: endpoint_def H)
  moreover have "queued kcp = ?N @ queued (flush_final kcp)"
    unfolding queued_def flush_final_fields(4) [OF so] flush_loaded_link(2) [OF so d(3) len]
      map_append [symmetric] append_take_drop_id by (rule refl)
  ultimately show ?thesis using f(1,2) fl(3) by (intro exI [of _ ?N] exI [of _ fss] conjI)
qed

lemma endpoint_flush:
  assumes e: "endpoint c H R H' G kcp" and cb: "fst (snd c)" and u: "updated kcp \<noteq> 0" and n: "unat (ackcount kcp) < 2147483648"
    and len: "length H + length (snd_queue kcp) < 2147483648" and r: "ikcp_flush kcp = Inr (k, out)"
  shows "\<exists>N. endpoint c (H @ N) R H' G k \<and> received k = received kcp \<and> queued kcp = N @ queued k \<and>
    (\<forall>d\<in>set out. carries (fst c) (H @ N) (received kcp) d)"
proof -
  obtain N fss where f: "ikcp_flush kcp = Inr (flush_final kcp, map encode_frames fss)" "concat fss = flush_frames kcp"
    "\<forall>f\<in>set (flush_frames kcp). good_frame (fst c) (H @ N) (received kcp) f" "endpoint c (H @ N) R H' G (flush_final kcp)"
    "received (flush_final kcp) = received kcp" "queued kcp = N @ queued (flush_final kcp)"
    using flush_effect [OF e cb u n len] by (elim exE conjE) rule
  have k: "k = flush_final kcp" "out = map encode_frames fss" using r f(1) by simp_all
  have "carries (fst c) (H @ N) (received kcp) x" if x: "x \<in> set out" for x
    using x f(3) unfolding f(2) [symmetric] k(2) carries_def by auto
  then show ?thesis using f(4-6) k(1) by blast
qed

lemma endpoint_update:
  assumes e: "endpoint c H R H' G kcp" and cb: "fst (snd c)" and n: "unat (ackcount kcp) < 2147483648"
    and len: "length H + length (snd_queue kcp) < 2147483648" and r: "ikcp_update kcp now = Inr (k, out)"
  shows "\<exists>N. endpoint c (H @ N) R H' G k \<and> received k = received kcp \<and> queued kcp = N @ queued k \<and>
    (\<forall>d\<in>set out. carries (fst c) (H @ N) (received kcp) d)"
proof (cases "clock_slap kcp now \<ge> 0")
  case True
  let ?s = "update_start kcp now"
  obtain u t where s: "?s = kcp\<lparr>current := now, updated := u, ts_flush := t\<rparr>" "u \<noteq> 0" using update_start_frame by blast
  have "kcp_ok ?s" using endpointD(1) [OF e] clock_ok [where kcp = kcp and c = now and u = u and t = t] by (simp add: s(1))
  then have es: "endpoint c H R H' G ?s" "received ?s = received kcp"
    using endpoint_frame [OF e, of ?s] by (simp_all add: s(1) settings_def)
  have f: "updated ?s \<noteq> 0" "ackcount ?s = ackcount kcp" "snd_queue ?s = snd_queue kcp" using s(2) by (simp_all add: s(1))
  have "ikcp_flush ?s = Inr (k, out)" using r True by (simp add: ikcp_update_eq)
  then show ?thesis
    using endpoint_flush [OF es(1) cb f(1) _ _ \<open>ikcp_flush ?s = _\<close>] n len es(2) f(2,3) by (simp add: queued_def)
next
  case False
  let ?k = "fst (update_clock kcp now)"
  have k: "k = ?k" "out = []" using r False by (simp_all add: ikcp_update_eq)
  have q: "queued ?k = queued kcp" by (simp add: update_clock_eq queued_def)
  have "kcp_ok ?k" using endpointD(1) [OF e] by (simp add: update_clock_eq clock_ok)
  then have "endpoint c H R H' G ?k \<and> received ?k = received kcp"
    using endpoint_frame [OF e, of ?k] by (simp add: update_clock_eq settings_def)
  then show ?thesis unfolding k by (intro exI [of _ "[]"]) (simp add: q)
qed

lemma endpoint_input:
  assumes e: "endpoint c H R H' G kcp" and n: "unat (ackcount kcp) + length d div 24 \<le> 2147483648"
    and d: "carries (fst c) H' R d" and r: "ikcp_input kcp (Some d) = Inr (ret, k)"
  shows "endpoint c H R H' G k \<and> received kcp \<subseteq> received k \<and> queued k = queued kcp"
proof -
  note p = endpointD [OF e]
  obtain fs where fs: "d = encode_frames fs" "\<forall>f\<in>set fs. good_frame (conv kcp) H' R f" using d p(5) by (auto simp: carries_def)
  from ikcp_input_link [OF p(1) n p(3,4) fs r] show ?thesis using p(2) by (simp add: endpoint_def queued_def)
qed

section \<open>Messages of a history\<close>

text \<open>
  In message mode the fragment numbers of a message count down to 0, so a history splits into messages
  after every 0; \<open>chained\<close> says that the numbers do count down.
\<close>

fun messages :: "byte list \<Rightarrow> hist \<Rightarrow> byte list list" where
  "messages part [] = []"
| "messages part ((frg, bs) # H) = (if frg = 0 then (part @ bs) # messages [] H else messages (part @ bs) H)"

fun chained :: "hist \<Rightarrow> bool" where
  "chained [] = True"
| "chained [x] = (fst x = 0)"
| "chained (x # y # H) = ((fst x = 0 \<or> fst y = fst x - 1) \<and> chained (y # H))"

definition closed :: "hist \<Rightarrow> bool" where
  "closed H \<longleftrightarrow> H = [] \<or> fst (last H) = 0"

lemma item_simps [simp]: "fst (seg_item s) = seg_frg s" "snd (seg_item s) = seg_data s"
  by (simp_all add: seg_item_def)

lemma messages_item [simp]: "messages part (seg_item s # H) =
    (if seg_frg s = 0 then (part @ seg_data s) # messages [] H else messages (part @ seg_data s) H)"
  by (simp add: seg_item_def)

lemma chained_Cons: "chained (x # H) \<longleftrightarrow> (fst x = 0 \<or> H \<noteq> [] \<and> fst (hd H) = fst x - 1) \<and> chained H"
  by (cases H) auto

lemma chained_append: "chained G \<Longrightarrow> chained H \<Longrightarrow> chained (G @ H)"
proof (induction G rule: chained.induct)
  case (2 x)
  then show ?case by (simp add: chained_Cons)
qed auto

lemma chained_drop: "chained (G @ H) \<Longrightarrow> chained H"
  by (induction G) (auto simp: chained_Cons)

lemma messages_append: "closed G \<Longrightarrow> G \<noteq> [] \<or> part = [] \<Longrightarrow> messages part (G @ H) = messages part G @ messages [] H"
proof (induction G arbitrary: part)
  case (Cons x G)
  obtain frg bs where x: "x = (frg, bs)" by (cases x)
  show ?case
  proof (cases "G = []")
    case True
    then show ?thesis using Cons.prems(1) by (simp add: x closed_def)
  next
    case False
    then have "closed G" using Cons.prems(1) by (simp add: closed_def)
    then show ?thesis using Cons.IH False by (simp add: x)
  qed
qed simp

lemma fragments_items:
  assumes "0 < n" and "n \<le> 256" and "length bs \<le> n * m"
  shows "chained (map seg_item (fragments False m n bs)) \<and> closed (map seg_item (fragments False m n bs)) \<and>
    messages part (map seg_item (fragments False m n bs)) = [part @ bs] \<and>
    fst (hd (map seg_item (fragments False m n bs))) = of_nat (n - 1)"
  using assms
proof (induction n arbitrary: bs part)
  case (Suc n)
  show ?case
  proof (cases "n = 0")
    case True
    then show ?thesis using Suc.prems(3) by (simp add: closed_def)
  next
    case False
    then have nz: "(of_nat n :: u32) \<noteq> 0" using Suc.prems(2) of_nat32_inject [of n 0] by simp
    have IH: "chained (map seg_item (fragments False m n (drop m bs))) \<and> closed (map seg_item (fragments False m n (drop m bs))) \<and>
        messages (part @ take m bs) (map seg_item (fragments False m n (drop m bs))) = [(part @ take m bs) @ drop m bs] \<and>
        fst (hd (map seg_item (fragments False m n (drop m bs)))) = of_nat (n - 1)"
      using Suc.prems False by (intro Suc.IH) auto
    have ne: "map seg_item (fragments False m n (drop m bs)) \<noteq> []" using False by (cases n) simp_all
    have "(of_nat (n - 1) :: u32) = of_nat n - 1" using False by (simp add: of_nat_diff)
    then show ?thesis using IH ne nz by (simp add: chained_Cons closed_def)
  qed
qed simp

text \<open>In a chained history the first message is complete when as many segments as it announces are there.\<close>

lemma split_message_closed:
  assumes "chained (map seg_item q @ H)" and "q \<noteq> []" and "unat (seg_frg (hd q)) < length q"
  shows "fst (split_message q) \<noteq> [] \<and> closed (map seg_item (fst (split_message q))) \<and>
    messages part (map seg_item (fst (split_message q))) = [part @ payload (fst (split_message q))]"
  using assms
proof (induction q arbitrary: part)
  case (Cons s q)
  show ?case
  proof (cases "seg_frg s = 0")
    case True
    then show ?thesis by (simp add: closed_def)
  next
    case False
    then have pos: "0 < unat (seg_frg s)" by (simp add: unat_gt_0)
    then have ne: "q \<noteq> []" using Cons.prems(3) by auto
    then have h: "seg_frg (hd q) = seg_frg s - 1" using Cons.prems(1) False by (cases q) auto
    have "unat (seg_frg (hd q)) = unat (seg_frg s) - 1" unfolding h by (rule unat_minus_one [OF False])
    then have "unat (seg_frg (hd q)) < length q" using Cons.prems(3) pos by simp
    moreover have "chained (map seg_item q @ H)" using Cons.prems(1) by (simp add: chained_Cons)
    ultimately have IH: "fst (split_message q) \<noteq> [] \<and> closed (map seg_item (fst (split_message q))) \<and>
        messages (part @ seg_data s) (map seg_item (fst (split_message q))) = [(part @ seg_data s) @ payload (fst (split_message q))]"
      using Cons.IH ne by blast
    then show ?thesis using False by (auto simp: split_beta closed_def)
  qed
qed simp

section \<open>Sending and receiving\<close>

text \<open>What a call of \<open>ikcp_recv\<close> hands out: nothing, or the first message of the receive queue.\<close>

lemma endpoint_recv:
  assumes e: "endpoint c H R H' G kcp" and r: "ikcp_recv kcp len = Inr (ret, bytes, k)"
  shows "\<exists>M. endpoint c H R H' (G @ M) k \<and> received kcp \<subseteq> received k \<and> queued k = queued kcp \<and>
    (if ret < 0 \<or> len < 0 then M = []
     else M = map seg_item (fst (split_message (rcv_queue kcp))) \<and> bytes = hist_bytes M \<and> message_complete kcp)"
proof (cases "ret < 0")
  case True
  then have "k = kcp" using r by (auto simp: ikcp_recv_outcome split: if_splits)
  then show ?thesis using e True by (intro exI [of _ "[]"]) simp
next
  case False
  let ?msg = "fst (split_message (rcv_queue kcp))" and ?t = "recv_take (len < 0) kcp" and ?rec = "nrcv_que kcp \<ge> rcv_wnd kcp"
  let ?M = "if len < 0 then [] else map seg_item ?msg"
  note d = endpointD [OF e]
  note ok = kcp_okD [OF d(1)]
  have k: "k = recv_finish ?rec ?t" and q: "rcv_queue kcp \<noteq> []" and p: "ikcp_peeksize kcp \<ge> 0"
    and b: "bytes = concat (map (\<lambda>s. take (unat (seg_len s)) (seg_data s)) ?msg)"
    using r False by (auto simp: ikcp_recv_outcome split: if_splits)
  have "set ?msg \<subseteq> set (rcv_queue kcp)" using split_message_append [of "rcv_queue kcp"] by (metis Un_upper1 set_append)
  then have "bytes = payload ?msg" unfolding b using rcv_okD(5) [OF ok(2)] by (intro concat_take_payload) blast
  then have m: "bytes = hist_bytes (map seg_item ?msg)" by (simp add: payload_item)
  have "message_complete kcp" using p frg_incomplete [OF ok(2) q] by (auto simp: ikcp_peeksize_message [OF q] split: if_splits)
  moreover have eq: "(if len < 0 then G else G @ map seg_item ?msg) = G @ ?M" by simp
  have t: "recv_inv H' (G @ ?M) ?t" "received ?t = received kcp"
    using recv_take_link [OF d(4), of "len < 0"] unfolding eq by simp_all
  obtain bb nb q' nq nx where mv: "rcv_move ?t = ?t\<lparr>rcv_buf := bb, nrcv_buf := nb, rcv_queue := q', nrcv_que := nq, rcv_nxt := nx\<rparr>"
    using rcv_move_frame by blast
  define pr where "pr = probe k"
  have tk: "?t = kcp\<lparr>rcv_queue := rcv_queue ?t, nrcv_que := nrcv_que ?t\<rparr>" by (simp add: recv_take_def Let_def)
  have kk: "k = ?t\<lparr>rcv_buf := bb, nrcv_buf := nb, rcv_queue := q', nrcv_que := nq, rcv_nxt := nx, probe := pr\<rparr>"
    by (simp add: pr_def k recv_finish_def Let_def mv)
  have f: "mtu k = mtu kcp" "mss k = mss kcp" "buffer k = buffer kcp" "interval k = interval kcp" "rx_minrto k = rx_minrto kcp"
    "rx_rto k = rx_rto kcp" "snd_queue k = snd_queue kcp" "snd_buf k = snd_buf kcp" "nsnd_que k = nsnd_que kcp"
    "nsnd_buf k = nsnd_buf kcp" "conv k = conv kcp" "snd_una k = snd_una kcp" "snd_nxt k = snd_nxt kcp"
    "rmt_wnd k = rmt_wnd kcp" "ackcount k = ackcount kcp" "ackblock k = ackblock kcp" "acklist k = acklist kcp"
    "output_cb k = output_cb kcp" "stream k = stream kcp"
    by (simp_all add: kk) (simp_all add: recv_take_def Let_def)
  have "kcp_ok k" using ok ikcp_recv_ok [OF ok(2) r] cfg_ok_cong [OF f(1-6)] snd_ok_cong [OF f(7-10) f(2) f(11-14)]
      ack_ok_cong [OF f(15-17)] by (simp add: kcp_ok_def)
  moreover have "settings k = settings kcp" by (simp add: settings_def f)
  moreover have "send_inv H R k" using d(3) send_inv_cong [OF f(13,8)] by simp
  moreover have "recv_inv H' (G @ ?M) k" "received kcp \<subseteq> received k" using recv_finish_link [OF t(1), of ?rec] t(2) by (simp_all add: k)
  ultimately show ?thesis using False d(2) m by (intro exI [of _ ?M]) (simp add: endpoint_def queued_def f)
qed

text \<open>What a call of \<open>ikcp_send\<close> takes of the caller's bytes: it extends what is queued.\<close>

lemma send_message_appends:
  assumes "snd_ok kcp" and m: "0 < sint (mss kcp)" and l: "length buf < 2147483648" and "stream kcp = 0"
    and r: "ikcp_send kcp buf (int (length buf)) = Inr (ret, k)"
  shows "snd_ok k \<and> (\<exists>q n. k = kcp\<lparr>snd_queue := q, nsnd_que := n\<rparr>) \<and>
    (if ret = 0 then payload (snd_queue k) = payload (snd_queue kcp) @ buf \<and>
        (\<exists>N. queued k = queued kcp @ N \<and> chained N \<and> closed N \<and> messages [] N = [buf])
     else k = kcp)"
proof -
  let ?m = "nat (sint (mss kcp))"
  let ?n = "fragment_count ?m (length buf)"
  let ?fs = "fragments False ?m ?n buf"
  have pos: "0 < ?m" using m by simp
  show ?thesis
  proof (cases "?n \<ge> 128")
    case True
    then have "ret = -2" "k = kcp" using r ikcp_send_message_mode [OF m l assms(4)] by (simp_all add: Let_def)
    then show ?thesis using assms(1) by (intro conjI exI [of _ "snd_queue kcp"] exI [of _ "nsnd_que kcp"]) simp_all
  next
    case False
    then have k: "ret = 0" "k = kcp\<lparr>snd_queue := snd_queue kcp @ ?fs, nsnd_que := nsnd_que kcp + of_nat ?n\<rparr>"
      using r ikcp_send_message_mode [OF m l assms(4)] by (simp_all add: Let_def)
    have n: "0 < ?n" "?n \<le> 256" "length buf \<le> ?n * ?m"
      using False fragment_count_pos [OF pos] fragment_count_enough [OF pos] by simp_all
    have "snd_ok k" unfolding k(2) by (rule append_fragments_ok [OF assms(1) m n(2)])
    moreover have "payload (snd_queue k) = payload (snd_queue kcp) @ buf" by (simp add: k(2) payload_fragments [OF n(3)])
    moreover have "\<exists>N. queued k = queued kcp @ N \<and> chained N \<and> closed N \<and> messages [] N = [buf]"
      using fragments_items [OF n, of "[]"] by (intro exI [of _ "map seg_item ?fs"]) (simp add: queued_def k(2))
    moreover have "\<exists>q n. k = kcp\<lparr>snd_queue := q, nsnd_que := n\<rparr>" using k(2) by blast
    ultimately show ?thesis using k(1) by (simp only: if_True simp_thms)
  qed
qed

lemma send_stream_appends:
  assumes "snd_ok kcp" and "0 < sint (mss kcp)" and "length buf < 2147483648" and "stream kcp \<noteq> 0"
    and r: "ikcp_send kcp buf (int (length buf)) = Inr (ret, k)"
  shows "snd_ok k \<and> (\<exists>q n. k = kcp\<lparr>snd_queue := q, nsnd_que := n\<rparr>) \<and>
    (\<exists>taken left. buf = taken @ left \<and> (ret = 0 \<longrightarrow> left = []) \<and> payload (snd_queue k) = payload (snd_queue kcp) @ taken)"
proof -
  have s: "snd_ok k \<and> (ret = 0 \<longrightarrow> payload (snd_queue k) = payload (snd_queue kcp) @ buf) \<and>
      (\<exists>done rest. buf = done @ rest \<and> payload (snd_queue k) = payload (snd_queue kcp) @ done) \<and>
      (\<exists>q n. k = kcp\<lparr>snd_queue := q, nsnd_que := n\<rparr>)"
    using ikcp_send_stream_mode [OF assms(1-4)] unfolding r by (simp only: sum.inject prod.inject) blast
  then have "\<exists>taken left. buf = taken @ left \<and> (ret = 0 \<longrightarrow> left = []) \<and> payload (snd_queue k) = payload (snd_queue kcp) @ taken"
    by (cases "ret = 0") auto
  with s show ?thesis by blast
qed

lemma endpoint_send:
  assumes e: "endpoint c H R H' G kcp" and l: "length buf < 2147483648" and r: "ikcp_send kcp buf (int (length buf)) = Inr (ret, k)"
  shows "endpoint c H R H' G k" and "received k = received kcp"
    and "\<exists>taken left. buf = taken @ left \<and> (ret = 0 \<longrightarrow> left = []) \<and> hist_bytes (queued k) = hist_bytes (queued kcp) @ taken"
    and "stream kcp = 0 \<Longrightarrow> if ret = 0 then \<exists>N. queued k = queued kcp @ N \<and> chained N \<and> closed N \<and> messages [] N = [buf] else k = kcp"
proof -
  note ok = kcp_okD [OF endpointD(1) [OF e]]
  have m: "0 < sint (mss kcp)" using cfg_mss(2) [OF ok(1)] ok(1) by (simp add: cfg_ok_def)
  note msg = send_message_appends [OF ok(3) m l _ r] and str = send_stream_appends [OF ok(3) m l _ r]
  have s: "snd_ok k" "\<exists>q n. k = kcp\<lparr>snd_queue := q, nsnd_que := n\<rparr>" using msg str by blast+
  then obtain q n where sk: "k = kcp\<lparr>snd_queue := q, nsnd_que := n\<rparr>" by blast
  have "cfg_ok k = cfg_ok kcp" "rcv_ok k = rcv_ok kcp" "ack_ok k = ack_ok kcp"
    by (rule cfg_ok_cong rcv_ok_cong ack_ok_cong; simp add: sk)+
  then have "kcp_ok k" using ok s(1) by (simp add: kcp_ok_def)
  from endpoint_frame [OF e this] show "endpoint c H R H' G k" "received k = received kcp" by (simp_all add: sk settings_def)
  have "\<exists>taken left. buf = taken @ left \<and> (ret = 0 \<longrightarrow> left = []) \<and> payload (snd_queue k) = payload (snd_queue kcp) @ taken"
  proof (cases "stream kcp = 0")
    case True
    then show ?thesis using msg by (intro exI [of _ "if ret = 0 then buf else []"] exI [of _ "if ret = 0 then [] else buf"]) (auto split: if_splits)
  qed (use str in blast)
  then show "\<exists>taken left. buf = taken @ left \<and> (ret = 0 \<longrightarrow> left = []) \<and> hist_bytes (queued k) = hist_bytes (queued kcp) @ taken"
    by (simp only: queued_def payload_item)
  show "stream kcp = 0 \<Longrightarrow> if ret = 0 then \<exists>N. queued k = queued kcp @ N \<and> chained N \<and> closed N \<and> messages [] N = [buf] else k = kcp"
    using msg by (simp split: if_splits)
qed

section \<open>Configuration\<close>

lemma endpoint_interval:
  assumes "endpoint c H R H' G kcp"
  shows "endpoint c H R H' G (snd (ikcp_interval kcp i)) \<and> received (snd (ikcp_interval kcp i)) = received kcp \<and>
    queued (snd (ikcp_interval kcp i)) = queued kcp"
  using endpoint_frame [OF assms ikcp_interval_ok [OF endpointD(1) [OF assms]]]
  by (simp add: ikcp_interval_def settings_def queued_def)

lemma endpoint_nodelay:
  assumes "endpoint c H R H' G kcp"
  shows "endpoint c H R H' G (snd (ikcp_nodelay kcp nd i resend nc)) \<and> received (snd (ikcp_nodelay kcp nd i resend nc)) = received kcp \<and>
    queued (snd (ikcp_nodelay kcp nd i resend nc)) = queued kcp"
  using endpoint_frame [OF assms ikcp_nodelay_ok [OF endpointD(1) [OF assms], of nd i resend nc]]
  unfolding ikcp_nodelay_fields by (simp add: settings_def queued_def)

lemma endpoint_wndsize:
  assumes "endpoint c H R H' G kcp" and "rcvwnd < 2147483648"
  shows "endpoint c H R H' G (snd (ikcp_wndsize kcp sndwnd rcvwnd)) \<and> received (snd (ikcp_wndsize kcp sndwnd rcvwnd)) = received kcp \<and>
    queued (snd (ikcp_wndsize kcp sndwnd rcvwnd)) = queued kcp"
  using endpoint_frame [OF assms(1) ikcp_wndsize_ok [OF endpointD(1) [OF assms(1)] assms(2), of sndwnd]]
  by (simp add: ikcp_wndsize_def Let_def settings_def queued_def)

lemma endpoint_setmtu:
  assumes "endpoint c H R H' G kcp" and "m \<le> 1431655741"
    and "\<forall>s\<in>set (snd_queue kcp @ snd_buf kcp). uint (seg_len s) \<le> m - 24"
  shows "\<exists>n. endpoint (fst c, fst (snd c), fst (snd (snd c)), n) H R H' G (snd (ikcp_setmtu a kcp m)) \<and> received (snd (ikcp_setmtu a kcp m)) = received kcp \<and>
    queued (snd (ikcp_setmtu a kcp m)) = queued kcp"
proof -
  have "kcp_ok (snd (ikcp_setmtu a kcp m))"
    using setmtu_kcp_ok [OF endpointD(1) [OF assms(1)] assms(2,3) prod.collapse [symmetric]] .
  from endpoint_configured [OF assms(1) this] show ?thesis
    using endpointD(2) [OF assms(1)] by (auto simp: ikcp_setmtu_def settings_def queued_def)
qed

end
