(* ===== verification/Kcp_Session.thy ===== *)
theory Kcp_Session
  imports Kcp_Endpoint "HOL-Library.Sublist"
begin

text \<open>
  A whole conversation: two control blocks with the same conversation number, and a network that may
  lose, repeat and reorder the datagrams they hand to their output callbacks. \<open>step\<close> is one call
  of the interface of ikcp.h on one of the two, in any order and as often as one likes. The invariant of the
  reachable worlds gives what the protocol promises: each application receives the bytes (in
  message mode the messages) the other one sent, in order, without loss and without repetition.

  The two ends are \<open>True\<close> and \<open>False\<close>. \<open>net w s\<close> are the datagrams addressed to
  \<open>s\<close> so far: one that is never delivered is lost, one that is delivered twice is repeated.
  \<open>sent w s\<close> are the messages \<open>ikcp_send\<close> took from the application of \<open>s\<close>,
  \<open>got w s\<close> those \<open>ikcp_recv\<close> gave to it.

  Bounds: an end stops flushing before it numbers \<open>2^31\<close> segments in all, and before
  \<open>2^31\<close> acknowledgements are pending; past that, serial numbers may repeat.
\<close>

section \<open>Worlds and steps\<close>

record world =
  ep :: "bool \<Rightarrow> ikcpcb"
  net :: "bool \<Rightarrow> byte list set"
  sent :: "bool \<Rightarrow> byte list list"
  got :: "bool \<Rightarrow> byte list list"

definition start :: "u32 \<Rightarrow> (bool \<Rightarrow> i32) \<Rightarrow> world" where
  "start cv mode = \<lparr>ep = (\<lambda>s. (fresh cv)\<lparr>stream := mode s\<rparr>), net = (\<lambda>s. {}), sent = (\<lambda>s. []), got = (\<lambda>s. [])\<rparr>"

text \<open>End \<open>s\<close> changes its block to \<open>kcp\<close>, emits \<open>out\<close>, takes \<open>taken\<close> from and gives \<open>given\<close> to its application.\<close>

definition act :: "bool \<Rightarrow> ikcpcb \<Rightarrow> byte list list \<Rightarrow> byte list list \<Rightarrow> byte list list \<Rightarrow> world \<Rightarrow> world" where
  "act s kcp out taken given w =
     w\<lparr>ep := (ep w)(s := kcp), net := (net w)(\<not> s := net w (\<not> s) \<union> set out),
       sent := (sent w)(s := sent w s @ taken), got := (got w)(s := got w s @ given)\<rparr>"

text \<open>What \<open>ikcp_send\<close> took: the message, or after an error in stream mode what it has queued of it.\<close>

definition accepted :: "byte list \<Rightarrow> int \<Rightarrow> ikcpcb \<Rightarrow> ikcpcb \<Rightarrow> byte list list" where
  "accepted buf ret kcp kcp' =
     (if ret = 0 then [buf]
      else let part = drop (length (payload (snd_queue kcp))) (payload (snd_queue kcp')) in if part = [] then [] else [part])"

definition may_number :: "ikcpcb \<Rightarrow> bool" where
  "may_number kcp \<longleftrightarrow> uint (ackcount kcp) < 2147483648 \<and> uint (snd_nxt kcp) + int (length (snd_queue kcp)) < 2147483648"

inductive step :: "world \<Rightarrow> world \<Rightarrow> bool" where
  send: "length buf < 2147483648 \<Longrightarrow> ikcp_send (ep w s) buf (int (length buf)) = Inr (ret, k) \<Longrightarrow>
    step w (act s k [] (accepted buf ret (ep w s) k) [] w)"
| recv: "ikcp_recv (ep w s) len = Inr (ret, bytes, k) \<Longrightarrow>
    step w (act s k [] [] (if ret < 0 \<or> len < 0 then [] else [bytes]) w)"
| update: "may_number (ep w s) \<Longrightarrow> ikcp_update (ep w s) now = Inr (k, out) \<Longrightarrow> step w (act s k out [] [] w)"
| flush: "may_number (ep w s) \<Longrightarrow> ikcp_flush (ep w s) = Inr (k, out) \<Longrightarrow> step w (act s k out [] [] w)"
| deliver: "d \<in> net w s \<Longrightarrow> unat (ackcount (ep w s)) + length d div 24 \<le> 2147483648 \<Longrightarrow>
    ikcp_input (ep w s) (Some d) = Inr (ret, k) \<Longrightarrow> step w (act s k [] [] [] w)"
| set_interval: "step w (act s (snd (ikcp_interval (ep w s) i)) [] [] [] w)"
| set_nodelay: "step w (act s (snd (ikcp_nodelay (ep w s) nd i resend nc)) [] [] [] w)"
| set_wndsize: "sndwnd < 2147483648 \<Longrightarrow> rcvwnd < 2147483648 \<Longrightarrow> step w (act s (snd (ikcp_wndsize (ep w s) sndwnd rcvwnd)) [] [] [] w)"
| set_mtu: "m \<le> 1431655741 \<Longrightarrow> \<forall>x\<in>set (snd_queue (ep w s) @ snd_buf (ep w s)). uint (seg_len x) \<le> m - 24 \<Longrightarrow>
    step w (act s (snd (ikcp_setmtu malloc (ep w s) m)) [] [] [] w)"

inductive reachable :: "u32 \<Rightarrow> (bool \<Rightarrow> i32) \<Rightarrow> world \<Rightarrow> bool" for cv mode where
  start: "reachable cv mode (start cv mode)"
| step: "reachable cv mode w \<Longrightarrow> step w w' \<Longrightarrow> reachable cv mode w'"

section \<open>The invariant\<close>

text \<open>
  What holds of end \<open>s\<close> when it has numbered the history \<open>H s\<close> and delivered \<open>G s\<close>.
\<close>

definition outgoing :: "(bool \<Rightarrow> i32) \<Rightarrow> bool \<Rightarrow> hist \<Rightarrow> byte list list \<Rightarrow> bool" where
  "outgoing mode s A msgs \<longleftrightarrow> concat msgs = hist_bytes A \<and>
     (if mode s = 0 then chained A \<and> closed A \<and> messages [] A = msgs \<and> (\<forall>x\<in>set A. fst x < 128) \<and> (\<forall>m\<in>set msgs. length m < 2147483648)
      else \<forall>x\<in>set A. fst x = 0)"

definition incoming :: "(bool \<Rightarrow> i32) \<Rightarrow> bool \<Rightarrow> hist \<Rightarrow> byte list list \<Rightarrow> bool" where
  "incoming mode s G msgs \<longleftrightarrow> concat msgs = hist_bytes G \<and> (mode (\<not> s) = 0 \<longrightarrow> closed G \<and> messages [] G = msgs)"

definition side_inv :: "u32 \<Rightarrow> (bool \<Rightarrow> i32) \<Rightarrow> world \<Rightarrow> (bool \<Rightarrow> hist) \<Rightarrow> (bool \<Rightarrow> hist) \<Rightarrow> bool \<Rightarrow> bool" where
  "side_inv cv mode w H G s \<longleftrightarrow>
     endpoint (cv, True, mode s, mss (ep w s)) (H s) (received (ep w (\<not> s))) (H (\<not> s)) (G s) (ep w s) \<and>
     outgoing mode s (H s @ queued (ep w s)) (sent w s) \<and>
     incoming mode s (G s) (got w s) \<and>
     (\<forall>d\<in>net w s. carries cv (H (\<not> s)) (received (ep w (\<not> s))) d)"

definition session_inv :: "u32 \<Rightarrow> (bool \<Rightarrow> i32) \<Rightarrow> world \<Rightarrow> (bool \<Rightarrow> hist) \<Rightarrow> (bool \<Rightarrow> hist) \<Rightarrow> bool" where
  "session_inv cv mode w H G \<longleftrightarrow> (\<forall>s. side_inv cv mode w H G s)"

lemma session_invD:
  assumes "session_inv cv mode w H G"
  shows "endpoint (cv, True, mode s, mss (ep w s)) (H s) (received (ep w (\<not> s))) (H (\<not> s)) (G s) (ep w s)"
    and "outgoing mode s (H s @ queued (ep w s)) (sent w s)" and "incoming mode s (G s) (got w s)"
    and "d \<in> net w s \<Longrightarrow> carries cv (H (\<not> s)) (received (ep w (\<not> s))) d"
  using assms unfolding session_inv_def side_inv_def by blast+

lemma act_fields [simp]:
  "ep (act s k out a b w) t = (if t = s then k else ep w t)"
  "net (act s k out a b w) t = (if t = s then net w t else net w t \<union> set out)"
  "sent (act s k out a b w) t = (if t = s then sent w t @ a else sent w t)"
  "got (act s k out a b w) t = (if t = s then got w t @ b else got w t)"
  by (auto simp: act_def)

lemma act_act: "act s k2 o2 a2 b2 (act s k1 o1 a1 b1 w) = act s k2 (o1 @ o2) (a1 @ a2) (b1 @ b2) w"
  by (simp add: act_def Un_assoc)

lemma both_ends: "P s \<Longrightarrow> P (\<not> s) \<Longrightarrow> P t"
  by (cases s; cases t) simp_all

text \<open>One end acts: it may number \<open>N\<close> and deliver \<open>M\<close>.\<close>

lemma session_act:
  assumes inv: "session_inv cv mode w H G"
    and e: "endpoint (cv, True, mode s, n) (H s @ N) (received (ep w (\<not> s))) (H (\<not> s)) (G s @ M) k"
    and r: "received (ep w s) \<subseteq> received k"
    and out: "\<forall>d\<in>set out. carries cv (H s @ N) (received k) d"
    and a: "outgoing mode s ((H s @ N) @ queued k) (sent w s @ taken)"
    and b: "incoming mode s (G s @ M) (got w s @ given)"
  shows "session_inv cv mode (act s k out taken given w) (H(s := H s @ N)) (G(s := G s @ M))"
proof -
  let ?w = "act s k out taken given w" and ?H = "H(s := H s @ N)" and ?G = "G(s := G s @ M)"
  have len: "length (H s @ N) < 2147483648" by (rule endpointD(8) [OF e])
  have "n = mss k" using endpointD(10) [OF e] by simp
  note e = e [unfolded this]
  have s1: "side_inv cv mode ?w ?H ?G s"
    unfolding side_inv_def using e a b session_invD(4) [OF inv, of _ s] by simp
  have "endpoint (cv, True, mode (\<not> s), mss (ep w (\<not> s))) (H (\<not> s)) (received k) (H s @ N) (G (\<not> s)) (ep w (\<not> s))"
    using endpoint_peer [OF endpoint_mono [OF session_invD(1) [OF inv, of "\<not> s"], of "received k"]] r len by simp
  moreover have "carries cv (H s @ N) (received k) d" if "d \<in> net w (\<not> s) \<union> set out" for d
    using that out carries_mono [OF session_invD(4) [OF inv, of d "\<not> s"], of "received k" N] r by auto
  ultimately have s2: "side_inv cv mode ?w ?H ?G (\<not> s)"
    unfolding side_inv_def using session_invD(2,3) [OF inv, of "\<not> s"] by simp
  show ?thesis unfolding session_inv_def by (intro allI both_ends [OF s1 s2])
qed

text \<open>The special case of an operation that numbers, takes and delivers nothing.\<close>

lemma session_keep:
  assumes inv: "session_inv cv mode w H G"
    and "endpoint (cv, True, mode s, n) (H s) (received (ep w (\<not> s))) (H (\<not> s)) (G s) k \<and>
      received (ep w s) \<subseteq> received k \<and> queued k = queued (ep w s)"
  shows "session_inv cv mode (act s k [] [] [] w) H G"
  using session_act [OF inv, of s n "[]" "[]" k "[]" "[]" "[]"] assms(2) session_invD(2,3) [OF inv, of s] by simp

text \<open>The special case of a flush.\<close>

lemma session_emit:
  assumes inv: "session_inv cv mode w H G"
    and ex: "\<exists>N. endpoint (cv, True, mode s, n) (H s @ N) (received (ep w (\<not> s))) (H (\<not> s)) (G s) k \<and>
      received k = received (ep w s) \<and> queued (ep w s) = N @ queued k \<and>
      (\<forall>d\<in>set out. carries (fst (cv, True, mode s, n)) (H s @ N) (received (ep w s)) d)"
  shows "\<exists>H G. session_inv cv mode (act s k out [] [] w) H G"
proof -
  obtain N where n: "endpoint (cv, True, mode s, n) (H s @ N) (received (ep w (\<not> s))) (H (\<not> s)) (G s) k"
      "received k = received (ep w s)" "queued (ep w s) = N @ queued k"
      "\<forall>d\<in>set out. carries cv (H s @ N) (received (ep w s)) d" using ex by (auto simp only: fst_conv)
  have "outgoing mode s ((H s @ N) @ queued k) (sent w s @ [])" using session_invD(2) [OF inv, of s] n(3) by simp
  then show ?thesis using session_act [OF inv, of s n N "[]" k out "[]" "[]"] n session_invD(3) [OF inv, of s] by auto
qed

section \<open>Every step keeps it\<close>

lemma messages_closed_append:
  "closed A \<Longrightarrow> messages [] (A @ N) = messages [] A @ messages [] N"
  by (rule messages_append) simp_all

lemma closed_append: "closed A \<Longrightarrow> closed N \<Longrightarrow> closed (A @ N)"
  by (cases "N = []") (auto simp: closed_def)

lemma hist_bytes_queued: "hist_bytes (queued kcp) = payload (snd_queue kcp)"
  by (simp add: queued_def payload_item)

lemma send_outgoing_messages:
  assumes e: "endpoint c H R H' G kcp" and sm: "stream kcp = 0" and l: "length buf < 2147483648"
    and r: "ikcp_send kcp buf (int (length buf)) = Inr (ret, k)" and o: "chained (H @ queued kcp)" "closed (H @ queued kcp)"
    "\<forall>x\<in>set (H @ queued kcp). fst x < 128"
  shows "chained (H @ queued k) \<and> closed (H @ queued k) \<and>
    messages [] (H @ queued k) = messages [] (H @ queued kcp) @ accepted buf ret kcp k \<and>
    (\<forall>x\<in>set (H @ queued k). fst x < 128) \<and> (\<forall>m\<in>set (accepted buf ret kcp k). length m < 2147483648)"
proof (cases "ret = 0")
  case True
  have mss: "0 < sint (mss kcp)"
    using cfg_mss(2) [OF kcp_okD(1) [OF endpointD(1) [OF e]]] kcp_okD(1) [OF endpointD(1) [OF e]] by (simp add: cfg_ok_def)
  obtain N where N: "queued k = queued kcp @ N" "chained N" "closed N" "messages [] N = [buf]"
    using endpoint_send(4) [OF e l r sm] True by auto
  have k: "H @ queued k = (H @ queued kcp) @ N" by (simp add: N(1))
  have "seg_frg x < 128" if "x \<in> set (snd_queue k)" for x
    using send_message_frg [OF mss l sm r that] o(3) by (auto simp: queued_def ball_Un)
  then have "\<forall>x\<in>set (H @ queued k). fst x < 128" using o(3) by (simp add: queued_def ball_Un)
  then show ?thesis using chained_append [OF o(1) N(2)] closed_append [OF o(2) N(3)] messages_closed_append [OF o(2), of N] N(4) l True
    unfolding k by (simp add: accepted_def)
next
  case False
  then show ?thesis using endpoint_send(4) [OF e l r sm] o by (simp add: accepted_def)
qed

lemma send_outgoing:
  assumes e: "endpoint c H R H' G kcp" and md: "fst (snd (snd c)) = mode s" and l: "length buf < 2147483648"
    and r: "ikcp_send kcp buf (int (length buf)) = Inr (ret, k)" and o: "outgoing mode s (H @ queued kcp) msgs"
  shows "outgoing mode s (H @ queued k) (msgs @ accepted buf ret kcp k)"
proof -
  obtain taken left where t: "buf = taken @ left" "ret = 0 \<longrightarrow> left = []"
    "hist_bytes (queued k) = hist_bytes (queued kcp) @ taken" using endpoint_send(3) [OF e l r] by (elim exE conjE) rule
  have "concat (accepted buf ret kcp k) = taken"
    using t by (simp add: accepted_def Let_def hist_bytes_queued [symmetric])
  then have b: "concat (msgs @ accepted buf ret kcp k) = hist_bytes (H @ queued k)" using o t(3) by (simp add: outgoing_def)
  show ?thesis
  proof (cases "mode s = 0")
    case True
    then have sm: "stream kcp = 0" using endpointD(7) [OF e] md by simp
    show ?thesis using send_outgoing_messages [OF e sm l r] o b True by (simp add: outgoing_def del: set_append) (auto simp: ball_Un)
  next
    case False
    then have "stream kcp \<noteq> 0" "\<forall>x\<in>set (H @ queued kcp). fst x = 0" using o endpointD(7) [OF e] md by (simp_all add: outgoing_def)
    moreover from this have "\<forall>s\<in>set (snd_queue k). seg_frg s = 0"
      using send_stream_frg [OF _ r] by (simp add: queued_def ball_Un)
    ultimately show ?thesis using b False by (simp add: outgoing_def) (simp add: queued_def ball_Un)
  qed
qed

text \<open>What is delivered next continues the peer's history.\<close>

lemma recv_incoming:
  assumes e: "endpoint c H R H' G kcp" and o: "outgoing mode (\<not> s) (H' @ Q) msgs"
    and i: "incoming mode s G gs" and M: "M = map seg_item (fst (split_message (rcv_queue kcp)))" and c: "message_complete kcp"
  shows "incoming mode s (G @ M) (gs @ [hist_bytes M])"
proof (cases "mode (\<not> s) = 0")
  case True
  have "recv_core H' G kcp" using endpointD(4) [OF e] by (simp add: recv_inv_def)
  then have "take (unat (rcv_nxt kcp)) H' = G @ map seg_item (rcv_queue kcp)" by (simp add: recv_core_def)
  then have "H' @ Q = G @ map seg_item (rcv_queue kcp) @ drop (unat (rcv_nxt kcp)) H' @ Q"
    by (metis append.assoc append_take_drop_id)
  moreover have "chained (H' @ Q)" using o True by (simp add: outgoing_def)
  ultimately have "chained (map seg_item (rcv_queue kcp) @ drop (unat (rcv_nxt kcp)) H' @ Q)" by (metis chained_drop)
  from split_message_closed [OF this, of "[]"] c
  have m: "closed M" "messages [] M = [payload (fst (split_message (rcv_queue kcp)))]"
    by (simp_all add: M message_complete_def)
  have g: "closed G" "messages [] G = gs" using i True by (simp_all add: incoming_def)
  show ?thesis
    using i m closed_append [OF g(1) m(1)] messages_closed_append [OF g(1), of M] g(2)
    by (simp add: incoming_def M payload_item [symmetric])
next
  case False
  then show ?thesis using i by (simp add: incoming_def)
qed

lemma start_inv: "session_inv cv mode (start cv mode) (\<lambda>s. []) (\<lambda>s. [])"
proof -
  let ?k = "\<lambda>s. (fresh cv)\<lparr>stream := mode s\<rparr>"
  have "kcp_ok (?k s)" for s
  proof -
    have "cfg_ok (?k s) = cfg_ok (fresh cv)" "rcv_ok (?k s) = rcv_ok (fresh cv)" "snd_ok (?k s) = snd_ok (fresh cv)"
      "ack_ok (?k s) = ack_ok (fresh cv)" by (rule ok_cong; simp)+
    then show ?thesis using fresh_ok [of cv] by (simp add: kcp_ok_def)
  qed
  moreover have "settings (?k s) = (cv, True, mode s, mss (fresh cv))" for s by (simp add: settings_def fresh_eq)
  moreover have "send_inv [] R (?k s)" "recv_inv [] [] (?k s)" for s R
    by (simp_all add: send_inv_def recv_inv_def recv_core_def acks_def fresh_eq)
  moreover have "queued (?k s) = []" for s by (simp add: queued_def fresh_eq)
  ultimately show ?thesis
    by (simp add: session_inv_def side_inv_def start_def endpoint_def outgoing_def incoming_def closed_def hist_bytes_def)
qed

lemma flush_not_updated: "updated kcp = 0 \<Longrightarrow> ikcp_flush kcp = Inr (kcp, [])"
  by (simp add: ikcp_flush_def)

lemma may_numberD:
  assumes "endpoint c H R H' G kcp" and "may_number kcp"
  shows "unat (ackcount kcp) < 2147483648" and "length H + length (snd_queue kcp) < 2147483648"
proof -
  have "snd_nxt kcp = of_nat (length H)" "length H < 2147483648" using assms(1) by (simp_all add: endpoint_def send_inv_def)
  then have "unat (snd_nxt kcp) = length H" by (simp only:) (rule unat_of_nat32, linarith)
  moreover have "int (unat (ackcount kcp)) < 2147483648" "int (unat (snd_nxt kcp)) + int (length (snd_queue kcp)) < 2147483648"
    using assms(2) by (simp_all add: may_number_def)
  ultimately show "unat (ackcount kcp) < 2147483648" and "length H + length (snd_queue kcp) < 2147483648" by linarith+
qed

theorem step_inv:
  assumes "step w w'" and inv: "session_inv cv mode w H G"
  shows "\<exists>H G. session_inv cv mode w' H G"
  using assms(1)
proof cases
  case (send buf s ret k)
  note e = session_invD(1) [OF inv, of s]
  note es = endpoint_send [OF e send(2,3)]
  have "outgoing mode s (H s @ queued k) (sent w s @ accepted buf ret (ep w s) k)"
    by (rule send_outgoing [OF e _ send(2,3) session_invD(2) [OF inv]]) simp
  then have "session_inv cv mode w' H G"
    using session_act [OF inv, of s "mss (ep w s)" "[]" "[]" k "[]" _ "[]"] es(1,2) session_invD(3) [OF inv, of s] send(1) by simp
  then show ?thesis by blast
next
  case (recv s len ret bytes k)
  note e = session_invD(1) [OF inv, of s]
  obtain M where m: "endpoint (cv, True, mode s, mss (ep w s)) (H s) (received (ep w (\<not> s))) (H (\<not> s)) (G s @ M) k"
    "received (ep w s) \<subseteq> received k" "queued k = queued (ep w s)" and
    M: "if ret < 0 \<or> len < 0 then M = []
     else M = map seg_item (fst (split_message (rcv_queue (ep w s)))) \<and> bytes = hist_bytes M \<and> message_complete (ep w s)"
    using endpoint_recv [OF e recv(2)] by (elim exE conjE) rule
  have "incoming mode s (G s @ M) (got w s @ (if ret < 0 \<or> len < 0 then [] else [bytes]))"
  proof (cases "ret < 0 \<or> len < 0")
    case True
    then show ?thesis using M session_invD(3) [OF inv, of s] by simp
  next
    case False
    then have "M = map seg_item (fst (split_message (rcv_queue (ep w s))))" "bytes = hist_bytes M" "message_complete (ep w s)"
      using M by simp_all
    moreover have "outgoing mode (\<not> s) (H (\<not> s) @ queued (ep w (\<not> s))) (sent w (\<not> s))" by (rule session_invD(2) [OF inv])
    ultimately show ?thesis using False recv_incoming [OF e _ session_invD(3) [OF inv, of s]] by simp
  qed
  then have "session_inv cv mode w' H (G(s := G s @ M))"
    using session_act [OF inv, of s "mss (ep w s)" "[]" M k "[]" "[]"] m session_invD(2) [OF inv, of s] recv(1) by simp
  then show ?thesis by blast
next
  case (update s now k out)
  note e = session_invD(1) [OF inv, of s]
  show ?thesis unfolding update(1)
    by (rule session_emit [OF inv endpoint_update [OF e _ may_numberD [OF e update(2)] update(3)]]) simp
next
  case (flush s k out)
  note e = session_invD(1) [OF inv, of s]
  show ?thesis
  proof (cases "updated (ep w s) = 0")
    case True
    then have "k = ep w s" "out = []" using flush(3) by (simp_all add: flush_not_updated)
    then show ?thesis using session_keep [OF inv, of s "mss (ep w s)" k] e flush(1) by auto
  next
    case False
    show ?thesis unfolding flush(1)
      by (rule session_emit [OF inv endpoint_flush [OF e _ False may_numberD [OF e flush(2)] flush(3)]]) simp
  qed
next
  case (deliver d s ret k)
  note e = session_invD(1) [OF inv, of s]
  have "carries (fst (cv, True, mode s, mss (ep w s))) (H (\<not> s)) (received (ep w (\<not> s))) d" using session_invD(4) [OF inv deliver(2)] by simp
  from session_keep [OF inv endpoint_input [OF e deliver(3) this deliver(4)]] deliver(1) show ?thesis by blast
next
  case (set_interval s i)
  then show ?thesis using session_keep [OF inv, of s] endpoint_interval [OF session_invD(1) [OF inv, of s]] by blast
next
  case (set_nodelay s nd i resend nc)
  then show ?thesis using session_keep [OF inv, of s] endpoint_nodelay [OF session_invD(1) [OF inv, of s]] by blast
next
  case (set_wndsize sndwnd rcvwnd s)
  then show ?thesis using session_keep [OF inv, of s] endpoint_wndsize [OF session_invD(1) [OF inv, of s]] by blast
next
  case (set_mtu m s malloc)
  obtain n where "endpoint (cv, True, mode s, n) (H s) (received (ep w (\<not> s))) (H (\<not> s)) (G s) (snd (ikcp_setmtu malloc (ep w s) m)) \<and>
      received (snd (ikcp_setmtu malloc (ep w s) m)) = received (ep w s) \<and> queued (snd (ikcp_setmtu malloc (ep w s) m)) = queued (ep w s)"
    using endpoint_setmtu [OF session_invD(1) [OF inv, of s] set_mtu(2,3), of malloc] by auto
  then show ?thesis using session_keep [OF inv, of s n] set_mtu(1) by blast
qed

lemma reachable_inv: "reachable cv mode w \<Longrightarrow> \<exists>H G. session_inv cv mode w H G"
  by (induction rule: reachable.induct) (use start_inv step_inv in blast)+

text \<open>Only \<open>ikcp_setmtu\<close> changes the segment size.\<close>

lemma calls_keep_mss:
  assumes "reachable cv mode w"
  shows "ikcp_recv (ep w s) len = Inr (ret, bytes, k) \<Longrightarrow> mss k = mss (ep w s)"
    and "may_number (ep w s) \<Longrightarrow> ikcp_update (ep w s) now = Inr (k, out) \<Longrightarrow> mss k = mss (ep w s)"
    and "d \<in> net w s \<Longrightarrow> unat (ackcount (ep w s)) + length d div 24 \<le> 2147483648 \<Longrightarrow> ikcp_input (ep w s) (Some d) = Inr (ret, k) \<Longrightarrow>
      mss k = mss (ep w s)"
proof -
  obtain H G where inv: "session_inv cv mode w H G" using reachable_inv [OF assms] by blast
  note e = session_invD(1) [OF inv, of s]
  show "mss k = mss (ep w s)" if "ikcp_recv (ep w s) len = Inr (ret, bytes, k)"
    using endpoint_recv [OF e that] by (auto dest: endpointD(10))
  show "mss k = mss (ep w s)" if "may_number (ep w s)" and "ikcp_update (ep w s) now = Inr (k, out)"
    using endpoint_update [OF e _ may_numberD [OF e that(1)] that(2)] by (auto dest: endpointD(10))
  show "mss k = mss (ep w s)" if "d \<in> net w s" and "unat (ackcount (ep w s)) + length d div 24 \<le> 2147483648"
    and "ikcp_input (ep w s) (Some d) = Inr (ret, k)"
    using endpoint_input [OF e that(2) _ that(3)] session_invD(4) [OF inv that(1)] by (auto dest: endpointD(10))
qed

section \<open>What the applications see\<close>

lemma delivered_history:
  assumes "session_inv cv mode w H G"
  shows "H (\<not> s) = G s @ map seg_item (rcv_queue (ep w s)) @ drop (unat (rcv_nxt (ep w s))) (H (\<not> s))"
    and "unat (rcv_nxt (ep w s)) \<le> length (H (\<not> s))"
proof -
  have "recv_core (H (\<not> s)) (G s) (ep w s)" using endpointD(4) [OF session_invD(1) [OF assms, of s]] by (simp add: recv_inv_def)
  then have t: "take (unat (rcv_nxt (ep w s))) (H (\<not> s)) = G s @ map seg_item (rcv_queue (ep w s))"
    and l: "unat (rcv_nxt (ep w s)) \<le> length (H (\<not> s))" by (simp_all add: recv_core_def)
  show "H (\<not> s) = G s @ map seg_item (rcv_queue (ep w s)) @ drop (unat (rcv_nxt (ep w s))) (H (\<not> s))"
    using append_take_drop_id [of "unat (rcv_nxt (ep w s))" "H (\<not> s)", symmetric] unfolding t by simp
  show "unat (rcv_nxt (ep w s)) \<le> length (H (\<not> s))" by (rule l)
qed

text \<open>The segments between what was received in order and what was sent: each is in one of two buffers.\<close>

lemma pending_segments:
  assumes inv: "session_inv cv mode w H G"
  shows "\<exists>pending. map seg_item pending = drop (unat (rcv_nxt (ep w s))) (H (\<not> s)) \<and>
    map (\<lambda>p. unat (seg_sn p)) pending = [unat (rcv_nxt (ep w s))..<length (H (\<not> s))] \<and>
    set pending \<subseteq> set (rcv_buf (ep w s)) \<union> set (snd_buf (ep w (\<not> s)))"
proof -
  let ?H = "H (\<not> s)" and ?n = "unat (rcv_nxt (ep w s))" and ?B = "set (rcv_buf (ep w s)) \<union> set (snd_buf (ep w (\<not> s)))"
  note e = session_invD(1) [OF inv]
  have snd: "send_inv ?H (received (ep w s)) (ep w (\<not> s))" using endpointD(3) [OF e [of "\<not> s"]] by simp
  have rc: "recv_core ?H (G s) (ep w s)" using endpointD(4) [OF e [of s]] by (simp add: recv_inv_def)
  have m: "?H ! unat (seg_sn p) = seg_item p" if "p \<in> ?B" for p
    using that snd rc by (auto simp: send_inv_def recv_core_def matches_def)
  have "\<exists>p. p \<in> ?B \<and> unat (seg_sn p) = i" if "i \<in> {?n..<length ?H}" for i
  proof -
    have "i \<in> (\<lambda>p. unat (seg_sn p)) ` set (snd_buf (ep w (\<not> s))) \<union> received (ep w s)" using snd that by (auto simp: send_inv_def)
    then show ?thesis using that by (auto simp: received_def)
  qed
  then obtain f where f: "\<And>i. i \<in> {?n..<length ?H} \<Longrightarrow> f i \<in> ?B \<and> unat (seg_sn (f i)) = i" by metis
  let ?p = "map f [?n..<length ?H]"
  have "map (\<lambda>p. unat (seg_sn p)) ?p = [?n..<length ?H]" using f by (auto intro: map_idI)
  moreover have "map seg_item ?p = map ((!) ?H) [?n..<length ?H]"
    using f m by (auto intro!: map_cong) metis
  moreover have "map ((!) ?H) [?n..<length ?H] = drop ?n ?H"
    by (rule nth_equalityI) simp_all
  moreover have "set ?p \<subseteq> ?B" using f by (simp only: set_map set_upt) blast
  ultimately show ?thesis by (intro exI [of _ ?p]) (simp only: simp_thms)
qed

lemma delivered_bytes:
  assumes "reachable cv mode w"
  shows "prefix (concat (got w s)) (concat (sent w (\<not> s)))"
proof -
  obtain H G where inv: "session_inv cv mode w H G" using reachable_inv [OF assms] by blast
  have "concat (got w s) = hist_bytes (G s)" using session_invD(3) [OF inv, of s] by (simp add: incoming_def)
  moreover have "concat (sent w (\<not> s)) = hist_bytes (H (\<not> s) @ queued (ep w (\<not> s)))"
    using session_invD(2) [OF inv, of "\<not> s"] by (simp add: outgoing_def)
  moreover have "hist_bytes (H (\<not> s)) = hist_bytes (G s) @
      hist_bytes (map seg_item (rcv_queue (ep w s)) @ drop (unat (rcv_nxt (ep w s))) (H (\<not> s)))"
    by (subst delivered_history(1) [OF inv, of s]) (simp only: hist_bytes_append)
  ultimately show ?thesis by simp
qed

text \<open>C1: Delivery in order, without loss or repetition: whatever the network loses, repeats or reorders and however
  the calls of both ends interleave, the bytes an application has received are always a prefix of the bytes the
  other application has sent.\<close>

theorem session_delivers_prefix:
  assumes "reachable cv mode w"
  shows "prefix (concat (got w s)) (concat (sent w (\<not> s)))"
  by (rule delivered_bytes [OF assms])

lemma delivered_messages:
  assumes "reachable cv mode w" and "mode (\<not> s) = 0"
  shows "prefix (got w s) (sent w (\<not> s))"
proof -
  obtain H G where inv: "session_inv cv mode w H G" using reachable_inv [OF assms(1)] by blast
  have g: "closed (G s)" "messages [] (G s) = got w s" using session_invD(3) [OF inv, of s] assms(2) by (simp_all add: incoming_def)
  have "sent w (\<not> s) = messages [] (H (\<not> s) @ queued (ep w (\<not> s)))"
    using session_invD(2) [OF inv, of "\<not> s"] assms(2) by (simp add: outgoing_def)
  also have "\<dots> = messages [] (G s) @
      messages [] ((map seg_item (rcv_queue (ep w s)) @ drop (unat (rcv_nxt (ep w s))) (H (\<not> s))) @ queued (ep w (\<not> s)))"
    by (subst delivered_history(1) [OF inv, of s]) (simp add: messages_closed_append [OF g(1)])
  finally show ?thesis using g(2) by simp
qed

text \<open>C2: Message boundaries: when the sending end is in message mode, the messages received are a prefix of the messages
  sent, one \<open>ikcp_recv\<close> returning exactly what one \<open>ikcp_send\<close> was given.\<close>

theorem session_delivers_messages:
  assumes "reachable cv mode w" and "mode (\<not> s) = 0"
  shows "prefix (got w s) (sent w (\<not> s))"
  by (rule delivered_messages [OF assms])

text \<open>C4: Nothing is lost: what was sent and not yet received is, in this order, in the receiver's queue, in segments numbered
  from \<open>rcv_nxt\<close> to \<open>snd_nxt\<close> of which each is in the receiver's or still in the sender's buffer, or in
  the sender's queue.\<close>

theorem session_loses_nothing:
  assumes "reachable cv mode w"
  shows "\<exists>pending. concat (sent w (\<not> s)) =
      concat (got w s) @ payload (rcv_queue (ep w s)) @ payload pending @ payload (snd_queue (ep w (\<not> s))) \<and>
    map (\<lambda>p. unat (seg_sn p)) pending = [unat (rcv_nxt (ep w s))..<unat (snd_nxt (ep w (\<not> s)))] \<and>
    set pending \<subseteq> set (rcv_buf (ep w s)) \<union> set (snd_buf (ep w (\<not> s)))"
proof -
  obtain H G where inv: "session_inv cv mode w H G" using reachable_inv [OF assms] by blast
  obtain pending where p: "map seg_item pending = drop (unat (rcv_nxt (ep w s))) (H (\<not> s))"
    "map (\<lambda>p. unat (seg_sn p)) pending = [unat (rcv_nxt (ep w s))..<length (H (\<not> s))]"
    "set pending \<subseteq> set (rcv_buf (ep w s)) \<union> set (snd_buf (ep w (\<not> s)))" using pending_segments [OF inv] by blast
  have "send_inv (H (\<not> s)) (received (ep w s)) (ep w (\<not> s))" using endpointD(3) [OF session_invD(1) [OF inv, of "\<not> s"]] by simp
  then have "snd_nxt (ep w (\<not> s)) = of_nat (length (H (\<not> s)))" "length (H (\<not> s)) < 2147483648" by (simp_all add: send_inv_def)
  then have n: "unat (snd_nxt (ep w (\<not> s))) = length (H (\<not> s))" by (simp only:) (rule unat_of_nat32, linarith)
  have "concat (sent w (\<not> s)) = hist_bytes (H (\<not> s)) @ payload (snd_queue (ep w (\<not> s)))"
    using session_invD(2) [OF inv, of "\<not> s"] by (simp add: outgoing_def hist_bytes_queued)
  also have "hist_bytes (H (\<not> s)) = hist_bytes (G s) @ payload (rcv_queue (ep w s)) @ payload pending"
    by (subst delivered_history(1) [OF inv, of s]) (simp add: payload_item p(1))
  also have "hist_bytes (G s) = concat (got w s)" using session_invD(3) [OF inv, of s] by (simp add: incoming_def)
  finally show ?thesis using p(2,3) n by (intro exI [of _ pending]) simp
qed

text \<open>C5: In a conversation no call faults: the blocks of both ends satisfy the invariant, so receiving, sending, flushing and
  reading any datagram of the network return, within the bounds on numbers and pending acknowledgements.\<close>

theorem session_safe:
  assumes "reachable cv mode w"
  shows "kcp_ok (ep w s) \<and> (\<exists>r. ikcp_recv (ep w s) len = Inr r) \<and>
    (length buf < 2147483648 \<longrightarrow> (\<exists>r. ikcp_send (ep w s) buf (int (length buf)) = Inr r)) \<and>
    (may_number (ep w s) \<longrightarrow> (\<exists>r. ikcp_update (ep w s) now = Inr r)) \<and>
    (unat (ackcount (ep w s)) + length d div 24 \<le> 2147483648 \<longrightarrow> (\<exists>r. ikcp_input (ep w s) (Some d) = Inr r))"
proof -
  obtain H G where "session_inv cv mode w H G" using reachable_inv [OF assms] by blast
  then have e: "endpoint (cv, True, mode s, mss (ep w s)) (H s) (received (ep w (\<not> s))) (H (\<not> s)) (G s) (ep w s)" by (rule session_invD(1))
  note d = endpointD [OF e]
  note ok = kcp_okD [OF d(1)]
  have "\<exists>r. ikcp_recv (ep w s) len = Inr r" unfolding ikcp_recv_outcome by blast
  moreover have m: "0 < sint (mss (ep w s))" using cfg_mss(2) [OF ok(1)] ok(1) by (simp add: cfg_ok_def)
  have "\<exists>r. ikcp_send (ep w s) buf (int (length buf)) = Inr r" if "length buf < 2147483648"
  proof (cases "stream (ep w s) = 0")
    case True
    then show ?thesis using ikcp_send_message_mode [OF m that] by (simp add: Let_def)
  next
    case False
    then show ?thesis using ikcp_send_stream_mode [OF ok(3) m that] by blast
  qed
  moreover have "\<exists>r. ikcp_update (ep w s) now = Inr r" if "may_number (ep w s)"
    using ikcp_update_ok [OF d(1) _ may_numberD(1) [OF e that], of now] d(6) by (auto elim!: yieldsE)
  moreover have "\<exists>r. ikcp_input (ep w s) (Some d) = Inr r" if "unat (ackcount (ep w s)) + length d div 24 \<le> 2147483648"
    using ikcp_input_ok [OF d(1) that] by (auto elim!: yieldsE)
  ultimately show ?thesis using d(1) by blast
qed

section \<open>A conversation that delivers\<close>

text \<open>End \<open>True\<close> sends a message and flushes, the datagram reaches end \<open>False\<close>, whose application receives it.\<close>

definition sample_sender :: ikcpcb where
  "sample_sender = snd (ikcp_nodelay ((fresh 7)\<lparr>stream := 0\<rparr>) 1 10 2 1)"

definition sample_run :: "(int \<times> byte list \<times> ikcpcb) result" where
  "sample_run =
     bind (ikcp_send sample_sender [1, 2, 3] 3) (\<lambda>(ret, k).
       if ret \<noteq> 0 \<or> \<not> may_number k then Inl No_return
       else bind (ikcp_update k 0) (\<lambda>(k, out).
         if out = [] \<or> 100 < int (length (hd out)) then Inl No_return
         else bind (ikcp_input ((fresh 7)\<lparr>stream := 0\<rparr>) (Some (hd out))) (\<lambda>(ret, k). ikcp_recv k 10)))"

lemma sample_run_receives: "case sample_run of Inr (ret, bytes, k) \<Rightarrow> ret = 3 \<and> bytes = [1, 2, 3] | Inl e \<Rightarrow> False"
  by code_simp

lemma sample_world:
  "\<exists>w. reachable 7 (\<lambda>_. 0) w \<and> sent w True = [[1, 2, 3]] \<and> got w False = [[1, 2, 3]]"
proof -
  obtain k5 where r: "sample_run = Inr (3, [1, 2, 3], k5)"
    using sample_run_receives by (auto split: sum.splits)
  then obtain k2 k3 out ret k4 where
    2: "ikcp_send sample_sender [1, 2, 3] 3 = Inr (0, k2)" "may_number k2" and
    3: "ikcp_update k2 0 = Inr (k3, out)" "out \<noteq> []" "int (length (hd out)) \<le> 100" and
    4: "ikcp_input ((fresh 7)\<lparr>stream := 0\<rparr>) (Some (hd out)) = Inr (ret, k4)" and
    5: "ikcp_recv k4 10 = Inr (3, [1, 2, 3], k5)"
    unfolding sample_run_def by (auto simp: bind_Inr_iff split: prod.splits if_splits)
  let ?w0 = "start 7 (\<lambda>_. 0)"
  let ?w1 = "act True sample_sender [] [] [] ?w0"
  let ?w2 = "act True k2 [] (accepted [1, 2, 3] 0 (ep ?w1 True) k2) [] ?w1"
  let ?w3 = "act True k3 out [] [] ?w2"
  let ?w4 = "act False k4 [] [] [] ?w3"
  let ?w5 = "act False k5 [] [] (if (3::int) < 0 \<or> (10::int) < 0 then [] else [[1, 2, 3]]) ?w4"
  have s1: "step ?w0 ?w1"
    using step.set_nodelay [of ?w0 True 1 10 2 1] by (simp add: sample_sender_def start_def)
  have s2: "step ?w1 ?w2" by (rule step.send) (simp_all add: 2)
  have s3: "step ?w2 ?w3" by (rule step.update [where now = 0]) (simp_all add: 2 3)
  have s4: "step ?w3 ?w4"
    by (rule step.deliver [where d = "hd out" and ret = ret]) (use 3 4 in \<open>simp_all add: start_def fresh_eq\<close>)
  have s5: "step ?w4 ?w5" by (rule step.recv) (simp add: 5)
  have "reachable 7 (\<lambda>_. 0) ?w5"
    by (rule reachable.step [OF reachable.step [OF reachable.step [OF reachable.step [OF reachable.step
      [OF reachable.start s1] s2] s3] s4] s5])
  moreover have "sent ?w5 True = [[1, 2, 3]]" "got ?w5 False = [[1, 2, 3]]" by (simp_all add: start_def accepted_def)
  ultimately show ?thesis by (intro exI [of _ ?w5] conjI)
qed

theorem session_delivers_prefix_witness:
  "\<exists>w. reachable 7 (\<lambda>_. 0) w \<and> concat (got w False) = [1, 2, 3] \<and> prefix (concat (got w False)) (concat (sent w True))"
proof -
  obtain w where "reachable 7 (\<lambda>_. 0) w" "got w False = [[1, 2, 3]]" using sample_world by blast
  with session_delivers_prefix [of 7 "\<lambda>_. 0" w False] show ?thesis by (intro exI [of _ w]) simp
qed

theorem session_delivers_messages_witness:
  "\<exists>w. reachable 7 (\<lambda>_. 0) w \<and> got w False = [[1, 2, 3]] \<and> prefix (got w False) (sent w True)"
proof -
  obtain w where "reachable 7 (\<lambda>_. 0) w" "got w False = [[1, 2, 3]]" using sample_world by blast
  with session_delivers_messages [of 7 "\<lambda>_. 0" w False] show ?thesis by (intro exI [of _ w]) simp
qed

theorem session_loses_nothing_witness:
  "\<exists>w pending. reachable 7 (\<lambda>_. 0) w \<and> sent w True = [[1, 2, 3]] \<and>
     concat (sent w True) = concat (got w False) @ payload (rcv_queue (ep w False)) @ payload pending @ payload (snd_queue (ep w True))"
proof -
  obtain w where w: "reachable 7 (\<lambda>_. 0) w" "sent w True = [[1, 2, 3]]" using sample_world by blast
  obtain pending where "concat (sent w True) =
      concat (got w False) @ payload (rcv_queue (ep w False)) @ payload pending @ payload (snd_queue (ep w True))"
    using session_loses_nothing [OF w(1), of False] by auto
  with w show ?thesis by (intro exI [of _ w] exI [of _ pending]) (simp only: simp_thms)
qed

theorem session_safe_witness:
  "\<exists>w r. reachable 7 (\<lambda>_. 0) w \<and> sent w True = [[1, 2, 3]] \<and> kcp_ok (ep w True) \<and>
     ikcp_send (ep w False) [9] 1 = Inr r"
proof -
  obtain w where w: "reachable 7 (\<lambda>_. 0) w" "sent w True = [[1, 2, 3]]" using sample_world by blast
  have "kcp_ok (ep w True)" using session_safe [OF w(1), of True] by blast
  moreover have "\<exists>r. ikcp_send (ep w False) [9] (int (length [9 :: byte])) = Inr r"
    using session_safe [OF w(1), of False 0 "[9]"] by simp
  ultimately show ?thesis using w by auto
qed

end
