(* ===== verification/Kcp_Lively.thy ===== *)
theory Kcp_Lively
  imports Kcp_Session
begin

text \<open>
  Why a control block does not get stuck. \<open>lively\<close> is an invariant beside \<open>kcp_ok\<close>: the windows
  are open and the receive buffer does not hold back the segment whose turn it is. The rest of the
  theory says what a call brings about: \<open>ikcp_input\<close> takes note of every frame of a datagram
  (\<open>handled\<close>, \<open>answered\<close>), \<open>ikcp_flush\<close> emits a frame for whatever waits for one.
\<close>

section \<open>The invariant\<close>

definition lively :: "ikcpcb \<Rightarrow> bool" where
  "lively kcp \<longleftrightarrow> 128 \<le> unat (rcv_wnd kcp) \<and> snd_wnd kcp \<noteq> 0 \<and>
     (128 \<le> length (rcv_queue kcp) \<or> rcv_nxt kcp \<notin> seg_sn ` set (rcv_buf kcp))"

lemma lively_cong:
  "rcv_wnd k = rcv_wnd k' \<Longrightarrow> snd_wnd k = snd_wnd k' \<Longrightarrow> rcv_queue k = rcv_queue k' \<Longrightarrow> rcv_nxt k = rcv_nxt k' \<Longrightarrow>
    rcv_buf k = rcv_buf k' \<Longrightarrow> lively k = lively k'"
  by (simp add: lively_def)

lemma rcv_move_lively:
  assumes ok: "rcv_ok kcp" and w: "128 \<le> unat (rcv_wnd kcp)" "snd_wnd kcp \<noteq> 0"
  shows "lively (rcv_move kcp)"
proof -
  let ?m = "rcv_move kcp"
  have mok: "rcv_ok ?m" by (rule rcv_move_ok [OF ok])
  obtain b nb q nq nx where "?m = kcp\<lparr>rcv_buf := b, nrcv_buf := nb, rcv_queue := q, nrcv_que := nq, rcv_nxt := nx\<rparr>"
    using rcv_move_frame by blast
  then have f: "rcv_wnd ?m = rcv_wnd kcp" "snd_wnd ?m = snd_wnd kcp" by simp_all
  have "128 \<le> length (rcv_queue ?m)" if i: "rcv_nxt ?m \<in> seg_sn ` set (rcv_buf ?m)"
  proof -
    obtain s where s: "s \<in> set (rcv_buf ?m)" "seg_sn s = rcv_nxt ?m" using i by auto
    then obtain x xs where b: "rcv_buf ?m = x # xs" by (cases "rcv_buf ?m") auto
    have "s = x" by (rule ordered_front [OF rcv_okD(7) [OF mok, unfolded b] _ s(2)]) (use s(1) b in simp)
    then have "\<not> nrcv_que ?m < rcv_wnd kcp" using rcv_move_done [OF b] s(2) by simp
    then show ?thesis using w(1) rcv_ok_nrcv [OF mok] by (simp add: word_less_nat_alt)
  qed
  then show ?thesis using w by (auto simp: lively_def f)
qed

lemma recv_lively:
  assumes ok: "rcv_ok kcp" and l: "lively kcp" and r: "ikcp_recv kcp len = Inr (ret, bytes, k)"
  shows "lively k" and "rcv_wnd k = rcv_wnd kcp" and "ackcount k = ackcount kcp"
proof -
  have "lively k \<and> rcv_wnd k = rcv_wnd kcp \<and> ackcount k = ackcount kcp"
  proof (cases "k = kcp")
    case True
    then show ?thesis using l by simp
  next
    case False
    let ?t = "recv_take (len < 0) kcp" and ?rec = "nrcv_que kcp \<ge> rcv_wnd kcp"
    have k: "k = recv_finish ?rec ?t" using r False by (auto simp: ikcp_recv_outcome split: if_splits)
    have t: "rcv_wnd ?t = rcv_wnd kcp" "snd_wnd ?t = snd_wnd kcp" "ackcount ?t = ackcount kcp"
      by (simp_all add: recv_take_def Let_def)
    obtain b nb q nq nx where m: "rcv_move ?t = ?t\<lparr>rcv_buf := b, nrcv_buf := nb, rcv_queue := q, nrcv_que := nq, rcv_nxt := nx\<rparr>"
      using rcv_move_frame by blast
    have "lively (rcv_move ?t)" using l by (intro rcv_move_lively recv_take_ok [OF ok]) (simp_all add: t lively_def)
    moreover have "lively k = lively (rcv_move ?t)" unfolding k by (rule lively_cong) (simp_all add: recv_finish_def Let_def)
    moreover have "rcv_wnd k = rcv_wnd kcp" "ackcount k = ackcount kcp" by (simp_all add: k recv_finish_def Let_def m t)
    ultimately show ?thesis by simp
  qed
  then show "lively k" and "rcv_wnd k = rcv_wnd kcp" and "ackcount k = ackcount kcp" by simp_all
qed

lemma flush_lively:
  assumes "snd_ok kcp"
  shows "lively (flush_final kcp) = lively kcp" and "rcv_wnd (flush_final kcp) = rcv_wnd kcp"
  using flush_final_fields(1) [OF assms] by (simp_all add: loaded_fields_def lively_def)

text \<open>An update sets the clock, and then flushes or leaves it at that.\<close>

definition clocked :: "ikcpcb \<Rightarrow> u32 \<Rightarrow> ikcpcb \<Rightarrow> bool" where
  "clocked kcp now k \<longleftrightarrow> (\<exists>u t. k = kcp\<lparr>current := now, updated := u, ts_flush := t\<rparr> \<and> u \<noteq> 0)"

lemma update_outcome:
  "\<exists>k. clocked kcp now k \<and> (ikcp_update kcp now = ikcp_flush k \<or> ikcp_update kcp now = Inr (k, []))"
proof (cases "clock_slap kcp now \<ge> 0")
  case True
  have "clocked kcp now (update_start kcp now)" using update_start_frame by (simp add: clocked_def)
  then show ?thesis using True by (auto simp: ikcp_update_eq)
next
  case False
  have "clocked kcp now (fst (update_clock kcp now))"
    unfolding clocked_def update_clock_eq fst_conv by (intro exI conjI) (rule refl, simp)
  then show ?thesis using False by (auto simp: ikcp_update_eq)
qed

lemma clocked_same:
  assumes "clocked kcp now k"
  shows "kcp_ok k = kcp_ok kcp" "lively k = lively kcp" "rcv_wnd k = rcv_wnd kcp" "ackcount k = ackcount kcp"
    "output_cb k = output_cb kcp" "updated k \<noteq> 0" "current k = now" "snd_buf k = snd_buf kcp" "snd_queue k = snd_queue kcp"
    "rmt_wnd k = rmt_wnd kcp" "probe k = probe kcp" "probe_wait k = probe_wait kcp" "ts_probe k = ts_probe kcp"
    "received k = received kcp" "rcv_nxt k = rcv_nxt kcp" "rcv_queue k = rcv_queue kcp" "mtu k = mtu kcp"
    "snd_wnd k = snd_wnd kcp" "cwnd k = cwnd kcp" "nocwnd k = nocwnd kcp" "snd_una k = snd_una kcp" "snd_nxt k = snd_nxt kcp"
    "nrcv_que k = nrcv_que kcp" "queued k = queued kcp"
proof -
  obtain u t where k: "k = kcp\<lparr>current := now, updated := u, ts_flush := t\<rparr>" "u \<noteq> 0" using assms by (auto simp: clocked_def)
  show "kcp_ok k = kcp_ok kcp" unfolding k(1) by (rule clock_ok)
  show "lively k = lively kcp" by (rule lively_cong) (simp_all add: k(1))
  show "received k = received kcp" by (rule received_cong) (simp_all add: k(1))
qed (use assms in \<open>auto simp: clocked_def queued_def\<close>)

lemma clocked_endpoint: "endpoint c H R H' G kcp \<Longrightarrow> clocked kcp now k \<Longrightarrow> endpoint c H R H' G k"
  using endpoint_frame(1) [of c H R H' G kcp k] clocked_same(1) [of kcp now k] endpointD(1) [of c H R H' G kcp]
  by (auto simp: clocked_def settings_def)

section \<open>What a frame brings about\<close>

definition tells :: "ikcpcb \<Rightarrow> bool" where
  "tells kcp \<longleftrightarrow> probe kcp AND IKCP_ASK_TELL \<noteq> 0"

text \<open>
  A data frame in reach is received and its acknowledgement is pending, a question about the
  window will be answered; \<open>n\<close> is what the sender has numbered, \<open>r\<close> what the receiver had in
  order.
\<close>

definition handled :: "nat \<Rightarrow> nat \<Rightarrow> frame \<Rightarrow> ikcpcb \<Rightarrow> bool" where
  "handled n r f kcp \<longleftrightarrow>
     (h_cmd (fst f) = 81 \<and> unat (h_sn (fst f)) \<le> r \<and> n \<le> unat (h_sn (fst f)) + 65535 \<and> unat (rcv_wnd kcp) < 65536 \<longrightarrow>
        unat (h_sn (fst f)) \<in> received kcp \<and> 0 < unat (ackcount kcp)) \<and>
     (h_cmd (fst f) = 83 \<longrightarrow> tells kcp)"

text \<open>The window and \<open>una\<close> of a frame are taken over.\<close>

definition answered :: "frame \<Rightarrow> ikcpcb \<Rightarrow> bool" where
  "answered f kcp \<longleftrightarrow> rmt_wnd kcp = ucast (h_wnd (fst f)) \<and>
     (\<forall>s\<in>set (snd_buf kcp). unat (h_una (fst f)) \<le> unat (seg_sn s))"

text \<open>What only grows.\<close>

definition after :: "ikcpcb \<Rightarrow> ikcpcb \<Rightarrow> bool" where
  "after k0 k \<longleftrightarrow> lively k \<and> rcv_wnd k = rcv_wnd k0 \<and> received k0 \<subseteq> received k \<and> unat (rcv_nxt k0) \<le> unat (rcv_nxt k) \<and>
     unat (ackcount k0) \<le> unat (ackcount k) \<and> (tells k0 \<longrightarrow> tells k) \<and> snd_queue k = snd_queue k0"

lemma after_refl: "lively k \<Longrightarrow> after k k"
  by (simp add: after_def)

lemma after_trans: "after a b \<Longrightarrow> after b c \<Longrightarrow> after a c"
  by (auto simp: after_def)

lemma handled_after: "handled n r f k \<Longrightarrow> after k k' \<Longrightarrow> handled n r f k'"
  unfolding handled_def after_def by auto

lemma after_cong:
  assumes "rcv_wnd k = rcv_wnd k'" and "snd_wnd k = snd_wnd k'" and "rcv_queue k = rcv_queue k'" and "rcv_nxt k = rcv_nxt k'"
    and "rcv_buf k = rcv_buf k'" and "ackcount k = ackcount k'" and "tells k' \<longrightarrow> tells k"
    and "snd_queue k = snd_queue k'"
  shows "after k0 k' \<Longrightarrow> after k0 k" and "lively k' \<Longrightarrow> after k' k"
  using assms lively_cong [OF assms(1-5)] received_cong [OF assms(4,5)] by (simp_all add: after_def)

lemma recv_core_nxt: "recv_core H G k \<Longrightarrow> unat (rcv_nxt k) = length G + length (rcv_queue k)"
proof -
  assume r: "recv_core H G k"
  then have "length (take (unat (rcv_nxt k)) H) = length (G @ map seg_item (rcv_queue k))" by (simp add: recv_core_def)
  then show ?thesis using r by (simp add: recv_core_def)
qed

text \<open>A number at most \<open>rcv_nxt\<close> and not too old is below the end of the receive window.\<close>

lemma in_window:
  assumes "unat sn \<le> unat nxt" and "unat nxt \<le> unat sn + 65535" and "unat nxt < 2147483648"
    and "128 \<le> unat wnd" and "unat wnd < 65536"
  shows "itimediff sn (nxt + wnd) < 0"
proof -
  have a: "int (unat sn) \<le> int (unat nxt)" "int (unat nxt) \<le> int (unat sn) + 65535" "int (unat nxt) < 2147483648"
    "128 \<le> int (unat wnd)" "int (unat wnd) < 65536" using assms by linarith+
  then have u: "uint sn \<le> uint nxt" "uint nxt \<le> uint sn + 65535" "uint nxt < 2147483648" "128 \<le> uint wnd" "uint wnd < 65536"
    by simp_all
  then have "uint (nxt + wnd) = uint nxt + uint wnd" by (simp add: uint_add32)
  then have "uint (sn - (nxt + wnd)) = uint sn - (uint nxt + uint wnd) + 4294967296" using u by (simp add: uint_diff32)
  then show ?thesis using u by (simp add: itimediff_def sint32_eq)
qed

lemma parse_data_lively:
  assumes ok: "rcv_ok kcp" and s: "seg_ok new" and ge: "0 \<le> itimediff (seg_sn new) (rcv_nxt kcp)"
    and lt: "itimediff (seg_sn new) (rcv_nxt kcp + rcv_wnd kcp) < 0" and l: "lively kcp"
  shows "lively (ikcp_parse_data kcp new)" and "length (rcv_queue kcp) \<le> length (rcv_queue (ikcp_parse_data kcp new))"
proof -
  define k where "k = kcp\<lparr>rcv_buf := rcv_insert new (rcv_buf kcp),
    nrcv_buf := (if fst (rcv_search (seg_sn new) (rev (rcv_buf kcp)) []) then nrcv_buf kcp else nrcv_buf kcp + 1)\<rparr>"
  have p: "ikcp_parse_data kcp new = rcv_move k" using ge lt by (simp add: ikcp_parse_data_insert k_def)
  have "rcv_ok k" unfolding k_def by (rule rcv_insert_ok [OF ok s]) (use ge in linarith)
  then show "lively (ikcp_parse_data kcp new)" unfolding p
    by (rule rcv_move_lively) (use l in \<open>simp_all add: k_def lively_def\<close>)
  obtain moved where "rcv_queue (rcv_move k) = rcv_queue k @ moved" using rcv_move_prefix by blast
  then show "length (rcv_queue kcp) \<le> length (rcv_queue (ikcp_parse_data kcp new))" by (simp add: p k_def)
qed

text \<open>The fields \<open>input_push\<close> leaves alone.\<close>

lemma input_push_fields:
  assumes ok: "kcp_ok kcp" and n: "unat (ackcount kcp) < 2147483648" and r: "input_push kcp h data = Inr k"
    and len: "length data = unat (h_len h)" "0 \<le> sint (h_len h)" and l: "lively kcp"
  shows "lively k \<and> rcv_wnd k = rcv_wnd kcp \<and> probe k = probe kcp \<and> rmt_wnd k = rmt_wnd kcp \<and> snd_buf k = snd_buf kcp \<and> snd_queue k = snd_queue kcp \<and>
    length (rcv_queue kcp) \<le> length (rcv_queue k)"
proof (cases "itimediff (h_sn h) (rcv_nxt kcp + rcv_wnd kcp) < 0")
  case False
  then show ?thesis using r l by (simp add: input_push_def)
next
  case lt: True
  obtain a b where p: "ikcp_ack_push kcp (h_sn h) (h_ts h) = Inr (kcp\<lparr>acklist := a, ackblock := b, ackcount := ackcount kcp + 1\<rparr>)"
    using ikcp_ack_push_appends [OF kcp_okD(4) [OF ok] n] by blast
  define k1 where "k1 = kcp\<lparr>acklist := a, ackblock := b, ackcount := ackcount kcp + 1\<rparr>"
  let ?new = "input_seg h (take (unat (h_len h)) data)"
  have k: "k = (if itimediff (h_sn h) (rcv_nxt k1) \<ge> 0 then ikcp_parse_data k1 ?new else k1)"
    using r lt by (auto simp: input_push_def p k1_def)
  have rok: "rcv_ok k1" using rcv_ok_cong [of k1 kcp] kcp_okD(2) [OF ok] by (simp add: k1_def)
  have l1: "lively k1" using l lively_cong [of k1 kcp] by (simp add: k1_def)
  have sok: "seg_ok ?new" by (rule input_seg_ok) (use len in simp_all)
  have new: "seg_sn ?new = h_sn h" by (simp add: input_seg_def)
  obtain rb nb q nq nx where d: "ikcp_parse_data k1 ?new =
      k1\<lparr>rcv_buf := rb, nrcv_buf := nb, rcv_queue := q, nrcv_que := nq, rcv_nxt := nx\<rparr>"
    using ikcp_parse_data_frame by blast
  have f: "rcv_wnd k = rcv_wnd kcp" "probe k = probe kcp" "rmt_wnd k = rmt_wnd kcp" "snd_buf k = snd_buf kcp"
    "snd_queue k = snd_queue kcp"
    by (simp_all add: k d) (simp_all add: k1_def)
  have "lively k \<and> length (rcv_queue k1) \<le> length (rcv_queue k)"
  proof (cases "itimediff (h_sn h) (rcv_nxt k1) \<ge> 0")
    case True
    have "itimediff (seg_sn ?new) (rcv_nxt k1 + rcv_wnd k1) < 0" using lt by (simp add: new k1_def)
    from parse_data_lively [OF rok sok _ this l1] True show ?thesis by (simp add: k new)
  next
    case False
    then show ?thesis using l1 by (simp add: k)
  qed
  then show ?thesis using f by (simp add: k1_def)
qed

lemma length_acks: "length (acks k) = unat (ackcount k)"
  by (simp add: acks_def)

lemma input_push_after:
  assumes ok: "kcp_ok kcp" and n: "unat (ackcount kcp) < 2147483648" and inv: "recv_inv H G kcp" and l: "lively kcp"
    and len: "length data = unat (h_len h)" "0 \<le> sint (h_len h)"
    and item: "unat (h_sn h) < length H" "H ! unat (h_sn h) = (ucast (h_frg h), data)"
    and r: "input_push kcp h data = Inr k"
  shows "after kcp k" and "rmt_wnd k = rmt_wnd kcp" and "snd_buf k = snd_buf kcp"
    and "unat (h_sn h) \<le> unat (rcv_nxt kcp) \<Longrightarrow> length H \<le> unat (h_sn h) + 65535 \<Longrightarrow> unat (rcv_wnd kcp) < 65536 \<Longrightarrow>
      unat (h_sn h) \<in> received k \<and> 0 < unat (ackcount k)"
proof -
  note f = input_push_fields [OF ok n r len l]
  then show "rmt_wnd k = rmt_wnd kcp" and "snd_buf k = snd_buf kcp" by simp_all
  have i: "recv_inv H G k" and rs: "received kcp \<subseteq> received k"
    using input_push_link [OF ok n inv len(1) item] by (simp_all add: r)
  have eff: "if itimediff (h_sn h) (rcv_nxt kcp + rcv_wnd kcp) \<ge> 0 then acks k = acks kcp else acks k = acks kcp @ [(h_sn h, h_ts h)]"
    using input_push_effect [OF ok n len(1)] by (auto simp: r)
  then have "length (acks kcp) \<le> length (acks k)" by (auto split: if_splits)
  then have a: "unat (ackcount kcp) \<le> unat (ackcount k)" by (simp only: length_acks)
  have "unat (rcv_nxt kcp) \<le> unat (rcv_nxt k)"
    using recv_core_nxt [of H G kcp] recv_core_nxt [of H G k] inv i f by (simp add: recv_inv_def)
  then show "after kcp k" using f a rs by (simp add: after_def tells_def)
  assume w: "unat (h_sn h) \<le> unat (rcv_nxt kcp)" "length H \<le> unat (h_sn h) + 65535" "unat (rcv_wnd kcp) < 65536"
  have "unat (rcv_nxt kcp) \<le> length H" "length H < 2147483648" using inv by (simp_all add: recv_inv_def recv_core_def)
  then have "itimediff (h_sn h) (rcv_nxt kcp + rcv_wnd kcp) < 0"
    using w l by (intro in_window) (simp_all add: lively_def)
  then have e: "acks k = acks kcp @ [(h_sn h, h_ts h)]" using eff by (simp split: if_splits)
  then have "unat (h_sn h) \<in> received k" using i by (simp add: recv_inv_def)
  moreover have "0 < unat (ackcount k)" using e length_acks [of k] by simp
  ultimately show "unat (h_sn h) \<in> received k \<and> 0 < unat (ackcount k)" by blast
qed

lemma send_inv_small: "send_inv H R kcp \<Longrightarrow> s \<in> set (snd_buf kcp) \<Longrightarrow> unat (seg_sn s) < length H \<and> length H < 2147483648"
  by (auto simp: send_inv_def matches_def)

lemma una_least:
  assumes so: "snd_ok kcp" and inv: "send_inv H R kcp" and s: "s \<in> set (snd_buf kcp)"
  shows "unat (snd_una kcp) \<le> unat (seg_sn s)"
proof -
  obtain x xs where b: "snd_buf kcp = x # xs" using s by (cases "snd_buf kcp") auto
  then have "snd_una kcp = seg_sn x" using snd_okD(2) [OF so] by (simp add: first_unacked_def)
  moreover have "unat (seg_sn x) < length H" "length H < 2147483648" using send_inv_small [OF inv, of x] b by simp_all
  ultimately have u: "unat (snd_una kcp) < 2147483648" by simp
  have "unat (seg_sn s) < 2147483648" using send_inv_small [OF inv s] by linarith
  note d = itimediff_unat [OF this u]
  have "seg_off (snd_una kcp) s < 2147483648" by (rule ordered_bound [OF snd_window_okD(3) [OF snd_okD(1) [OF so]] s])
  then have "0 \<le> itimediff (seg_sn s) (snd_una kcp)" by (simp add: itimediff_nonneg_iff seg_off_def)
  then show ?thesis using d by linarith
qed

lemma input_una_answered:
  assumes ok: "kcp_ok kcp" and inv: "send_inv H R kcp" and h: "unat (h_una h) < 2147483648"
  shows "rmt_wnd (input_una kcp h) = ucast (h_wnd h)" and "\<forall>s\<in>set (snd_buf (input_una kcp h)). unat (h_una h) \<le> unat (seg_sn s)"
proof -
  show "rmt_wnd (input_una kcp h) = ucast (h_wnd h)" using input_una_ok(2) [OF ok, of h] by auto
  note so = kcp_okD(3) [OF ok]
  have "unat (h_una h) \<le> unat (seg_sn s)" if s: "s \<in> set (snd_buf (input_una kcp h))" for s
  proof -
    have sb: "s \<in> set (snd_buf kcp)"
      using s by (auto simp: input_una_def ikcp_shrink_buf_eq ikcp_parse_una_eq parse_una_loop_dropWhile dest: set_dropWhileD)
    have l: "unat (seg_sn s) < 2147483648" using send_inv_small [OF inv sb] by linarith
    show ?thesis
    proof (cases "0 \<le> itimediff (h_una h) (snd_una kcp)")
      case True
      then have "itimediff (h_una h) (seg_sn s) \<le> 0" using s input_una_buf [OF snd_okD(1) [OF so] True] by simp
      then show ?thesis using itimediff_unat [OF h l] by linarith
    next
      case False
      have u: "unat (snd_una kcp) \<le> unat (seg_sn s)" by (rule una_least [OF so inv sb])
      have "unat (snd_una kcp) < 2147483648" using u l by linarith
      from itimediff_unat [OF h this] show ?thesis using False u by linarith
    qed
  qed
  then show "\<forall>s\<in>set (snd_buf (input_una kcp h)). unat (h_una h) \<le> unat (seg_sn s)" by blast
qed

lemma input_una_after:
  assumes "kcp_ok kcp" and "lively kcp"
  shows "after kcp (input_una kcp h)"
proof -
  obtain b nb u where "input_una kcp h = kcp\<lparr>snd_buf := b, nsnd_buf := nb, snd_una := u, rmt_wnd := ucast (h_wnd h)\<rparr>"
    using input_una_ok(2) [OF assms(1)] by blast
  then show ?thesis using assms(2) by (intro after_cong(2)) (simp_all add: tells_def)
qed

lemma input_ack_after:
  assumes "kcp_ok kcp" and "lively kcp"
  shows "after kcp (input_ack kcp sn ts)" and "rmt_wnd (input_ack kcp sn ts) = rmt_wnd kcp"
    and "set (snd_buf (input_ack kcp sn ts)) \<subseteq> set (snd_buf kcp)"
proof -
  define k where "k = (if itimediff (current kcp) ts \<ge> 0 then ikcp_update_ack kcp (itimediff (current kcp) ts) else kcp)"
  obtain b nb where p: "ikcp_parse_ack k sn = k\<lparr>snd_buf := b, nsnd_buf := nb\<rparr>" using ikcp_parse_ack_frame by blast
  obtain x y z where u: "ikcp_update_ack kcp (itimediff (current kcp) ts) =
      kcp\<lparr>rx_srtt := x, rx_rttval := y, rx_rto := ibound (rx_minrto kcp) z IKCP_RTO_MAX\<rparr>"
    using update_ack_frame by blast
  have i: "input_ack kcp sn ts = ikcp_shrink_buf (k\<lparr>snd_buf := b, nsnd_buf := nb\<rparr>)"
    by (simp add: input_ack_def k_def [symmetric] Let_def p)
  show "after kcp (input_ack kcp sn ts)"
    by (rule after_cong(2)) (simp_all add: i ikcp_shrink_buf_eq k_def u tells_def assms(2))
  show "rmt_wnd (input_ack kcp sn ts) = rmt_wnd kcp" by (simp add: i ikcp_shrink_buf_eq k_def u)
  show "set (snd_buf (input_ack kcp sn ts)) \<subseteq> set (snd_buf kcp)" by (auto simp: input_ack_buf [OF assms(1)])
qed

lemma ask_tell: "(p OR IKCP_ASK_TELL) AND IKCP_ASK_TELL \<noteq> 0"
proof -
  have "(p OR IKCP_ASK_TELL) AND IKCP_ASK_TELL = IKCP_ASK_TELL" by (simp add: bit_eq_iff bit_simps)
  then show ?thesis by (simp add: IKCP_ASK_TELL_def)
qed

lemma input_frame_after:
  assumes inv: "end_inv c H R H' G P (Suc n) kcp" and f: "good_frame (fst c) H' R f" and l: "lively kcp"
    and r: "input_frame kcp (fst f) (snd f) fa = Inr (k, fa')"
  shows "after kcp k \<and> answered f k \<and> (\<forall>r. r \<le> unat (rcv_nxt kcp) \<longrightarrow> handled (length H') r f k)"
proof -
  let ?h = "fst f" and ?u = "input_una kcp (fst f)"
  have io: "kcp_ok kcp" "unat (ackcount kcp) < 2147483648" and s: "send_inv H R kcp" and ri: "recv_inv H' G kcp"
    using inv by (simp_all add: end_inv_def input_ok_def)
  have len: "length (snd f) = unat (h_len ?h)" "0 \<le> sint (h_len ?h)" using good_frame_shape [OF inv f] by simp_all
  have uok: "kcp_ok ?u" by (rule input_una_ok(1) [OF io(1)])
  note same = input_una_receive [OF io(1), of ?h]
  have n: "unat (ackcount ?u) < 2147483648" using io(2) by (simp add: same)
  have au: "after kcp ?u" by (rule input_una_after [OF io(1) l])
  then have lu: "lively ?u" by (simp add: after_def)
  have an: "rmt_wnd ?u = ucast (h_wnd ?h)" "\<forall>s\<in>set (snd_buf ?u). unat (h_una ?h) \<le> unat (seg_sn s)"
    using f by (intro input_una_answered [OF io(1) s]; simp add: good_frame_def)+
  have cmd: "h_cmd ?h \<in> {81, 82, 83, 84}" using f by (simp add: good_frame_def)
  have "after ?u k \<and> rmt_wnd k = rmt_wnd ?u \<and> set (snd_buf k) \<subseteq> set (snd_buf ?u) \<and>
    (\<forall>r. r \<le> unat (rcv_nxt ?u) \<longrightarrow> handled (length H') r f k)"
  proof -
    from r cmd show ?thesis
    proof (cases rule: input_frame_cases)
      case ack
      note e = ack(2)
      show ?thesis using input_ack_after [OF uok lu] ack(1) unfolding e by (simp add: handled_def)
    next
      case push
      note p = push(2)
      have ur: "recv_inv H' G ?u" using recv_inv_cong [OF same(1,3,4,5)] ri by simp
      have item: "unat (h_sn ?h) < length H'" "H' ! unat (h_sn ?h) = (ucast (h_frg ?h), snd f)"
        using f push(1) by (simp_all add: good_frame_def)
      note q = input_push_after [OF uok n ur lu len item p]
      have w: "rcv_wnd k = rcv_wnd ?u" using q(1) by (simp add: after_def)
      have nxt: "unat (rcv_nxt ?u) \<le> length H'" using ur by (simp add: recv_inv_def recv_core_def)
      show ?thesis using q push(1) unfolding handled_def w by auto
    next
      case ask
      note e = ask(2)
      have t: "tells k" using ask_tell [of "probe ?u"] by (simp add: e tells_def)
      have "after ?u k" using lu t by (intro after_cong(2)) (simp_all add: e)
      then show ?thesis using t ask(1) by (simp add: e handled_def)
    next
      case tell
      then show ?thesis using after_refl [OF lu] by (simp add: handled_def)
    qed
  qed
  then show ?thesis using after_trans [OF au] an by (auto simp: answered_def same)
qed

section \<open>What a datagram brings about\<close>

definition arrive :: "u32 \<times> bool \<times> i32 \<times> u32 \<Rightarrow> hist \<Rightarrow> nat set \<Rightarrow> hist \<Rightarrow> hist \<Rightarrow> ikcpcb \<Rightarrow> nat \<Rightarrow> frame list \<Rightarrow> frame list \<Rightarrow> ikcpcb \<Rightarrow> bool" where
  "arrive c H R H' G k0 N ds fs k \<longleftrightarrow>
     (\<exists>ps. ds = ps @ fs \<and> end_inv c H R H' G (received k0) (length fs + N) k \<and> after k0 k \<and>
       (\<forall>f\<in>set ps. handled (length H') (unat (rcv_nxt k0)) f k) \<and> (ps \<noteq> [] \<longrightarrow> answered (last ps) k))"

interpretation arrival: frame_run "arrive c H R H' G k0 N ds" "good_frame (fst c) H' R" for c H R H' G k0 N ds
proof
  fix f fs kcp fa
  assume a: "arrive c H R H' G k0 N ds (f # fs) kcp" and f: "good_frame (fst c) H' R f"
  obtain ps where p: "ds = ps @ f # fs" "end_inv c H R H' G (received k0) (Suc (length fs + N)) kcp" "after k0 kcp"
    "\<forall>f\<in>set ps. handled (length H') (unat (rcv_nxt k0)) f kcp"
    using a by (auto simp: arrive_def)
  obtain k fa' where k: "input_frame kcp (fst f) (snd f) fa = Inr (k, fa')" "end_inv c H R H' G (received k0) (length fs + N) k"
    using input_frame_link [OF p(2) f, of fa] by (auto elim!: yieldsE)
  have "lively kcp" "unat (rcv_nxt k0) \<le> unat (rcv_nxt kcp)" using p(3) by (simp_all add: after_def)
  with input_frame_after [OF p(2) f _ k(1)]
  have e: "after kcp k" "answered f k" "handled (length H') (unat (rcv_nxt k0)) f k" by simp_all
  have "\<forall>g\<in>set (ps @ [f]). handled (length H') (unat (rcv_nxt k0)) g k"
    using p(4) e(3) handled_after [OF _ e(1)] by auto
  then have "arrive c H R H' G k0 N ds fs k" unfolding arrive_def
    using p(1) k(2) after_trans [OF p(3) e(1)] e(2) by (intro exI [of _ "ps @ [f]"]) simp
  then show "yields (input_frame kcp (fst f) (snd f) fa) (\<lambda>(k, fa'). arrive c H R H' G k0 N ds fs k)" by (simp add: k(1))
  show "length (snd f) = unat (h_len (fst f)) \<and> 0 \<le> sint (h_len (fst f)) \<and> h_conv (fst f) = conv kcp \<and> known_cmd (h_cmd (fst f))"
    by (rule good_frame_shape [OF p(2) f])
qed (auto simp: arrive_def end_inv_def input_ok_def)

lemma long_enough:
  assumes "fs \<noteq> []" and "length (encode_frames fs) < 2147483648"
  shows "\<not> sint (of_nat (length (encode_frames fs)) :: i32) < sint IKCP_OVERHEAD"
proof -
  have "24 * length fs \<le> length (encode_frames fs)" by (rule length_frames)
  moreover have "1 \<le> length fs" using assms(1) by (cases fs) simp_all
  ultimately have "24 \<le> length (encode_frames fs)" by linarith
  then show ?thesis unfolding sint_of_nat32 [OF assms(2)] by (simp add: IKCP_OVERHEAD_def)
qed

lemma input_effect:
  assumes e: "endpoint c H R H' G k0" and l: "lively k0" and n: "unat (ackcount k0) + length fs + N \<le> 2147483648"
    and long: "\<not> sint (of_nat (length (encode_frames fs)) :: i32) < sint IKCP_OVERHEAD"
    and d: "\<forall>f\<in>set fs. good_frame (fst c) H' R f"
  shows "\<exists>k. ikcp_input k0 (Some (encode_frames fs)) = Inr (0, k) \<and> endpoint c H R H' G k \<and> queued k = queued k0 \<and>
    after k0 k \<and> (\<forall>f\<in>set fs. handled (length H') (unat (rcv_nxt k0)) f k) \<and> answered (last fs) k \<and>
    unat (ackcount k) + N \<le> 2147483648"
proof -
  note ed = endpointD [OF e]
  have "end_inv c H R H' G (received k0) (length fs + N) k0"
    using n ed(1-4) by (simp add: end_inv_def input_ok_def)
  then have a: "arrive c H R H' G k0 N fs fs k0" using after_refl [OF l] by (simp add: arrive_def)
  have ne: "fs \<noteq> []" using long by (auto simp: IKCP_OVERHEAD_def)
  from arrival.input_all [OF a d long] obtain k1 b cw j where
    r: "ikcp_input k0 (Some (encode_frames fs)) = Inr (0, k1\<lparr>snd_buf := b, cwnd := cw, incr := j\<rparr>)"
      "arrive c H R H' G k0 N fs [] k1" "map seg_key b = map seg_key (snd_buf k1)"
      "kcp_ok (k1\<lparr>snd_buf := b, cwnd := cw, incr := j\<rparr>)" by (elim exE conjE) rule
  let ?k = "k1\<lparr>snd_buf := b, cwnd := cw, incr := j\<rparr>"
  have i: "end_inv c H R H' G (received k0) N k1" "after k0 k1" "\<forall>f\<in>set fs. handled (length H') (unat (rcv_nxt k0)) f k1"
    "answered (last fs) k1" using r(2) ne by (auto simp: arrive_def)
  have "set (map seg_key b) = set (map seg_key (snd_buf k1))" by (simp only: r(3))
  then have "fst ` seg_key ` set b = fst ` seg_key ` set (snd_buf k1)" by simp
  then have sn: "seg_sn ` set b = seg_sn ` set (snd_buf k1)" by (simp add: image_image seg_key_def)
  have a1: "after k1 ?k" using i(2) by (intro after_cong(2)) (simp_all add: tells_def after_def)
  have "answered (last fs) ?k"
  proof -
    have "\<forall>m\<in>seg_sn ` set (snd_buf k1). unat (h_una (fst (last fs))) \<le> unat m" using i(4) by (simp add: answered_def)
    then have "\<forall>s\<in>set b. unat (h_una (fst (last fs))) \<le> unat (seg_sn s)" unfolding sn [symmetric] by simp
    then show ?thesis using i(4) by (simp add: answered_def)
  qed
  moreover have "\<forall>f\<in>set fs. handled (length H') (unat (rcv_nxt k0)) f ?k" using i(3) handled_after [OF _ a1] by blast
  moreover have "unat (ackcount ?k) + N \<le> 2147483648" using i(1) by (simp add: end_inv_def input_ok_def)
  moreover have "endpoint c H R H' G ?k"
  proof -
    have "send_inv H R ?k = send_inv H R k1" by (rule send_inv_keys) (simp_all add: r(3))
    moreover have "acks ?k = acks k1" by (rule acks_cong) simp_all
    then have "recv_inv H' G ?k = recv_inv H' G k1" by (intro recv_inv_cong) simp_all
    moreover have "settings ?k = settings k1" by (simp add: settings_def)
    ultimately show ?thesis using i(1) r(4) by (simp add: endpoint_def end_inv_def)
  qed
  moreover have a2: "after k0 ?k" by (rule after_trans [OF i(2) a1])
  moreover have "queued ?k = queued k0" using a2 by (simp add: after_def queued_def)
  ultimately show ?thesis using r(1) by blast
qed

lemma input_lively:
  assumes e: "endpoint c H R H' G kcp" and l: "lively kcp" and n: "unat (ackcount kcp) + length d div 24 \<le> 2147483648"
    and d: "carries (fst c) H' R d" and r: "ikcp_input kcp (Some d) = Inr (ret, k)"
  shows "lively k"
proof (cases "sint (of_nat (length d) :: i32) < sint IKCP_OVERHEAD")
  case True
  then show ?thesis using l r by (simp add: ikcp_input_eq)
next
  case False
  obtain fs where fs: "d = encode_frames fs" "\<forall>f\<in>set fs. good_frame (fst c) H' R f" using d by (auto simp: carries_def)
  have "length fs \<le> length d div 24" using length_frames [of fs] by (simp add: fs(1) less_eq_div_iff_mult_less_eq mult.commute)
  then have "unat (ackcount kcp) + length fs + 0 \<le> 2147483648" using n by linarith
  from input_effect [OF e l this False [unfolded fs(1)] fs(2)] show ?thesis using r by (auto simp: fs(1) after_def)
qed

section \<open>What a flush brings about\<close>

lemma flush_frames_wnd:
  assumes "f \<in> set (flush_frames kcp)"
  shows "h_wnd (fst f) = ucast (ikcp_wnd_unused kcp)"
proof -
  have t: "seg_wnd (flush_template kcp) = ikcp_wnd_unused kcp" by (simp add: flush_template_def)
  then have l: "seg_wnd (last_ack_seg kcp) = ikcp_wnd_unused kcp" by (simp add: last_ack_seg_def ack_seg_def)
  show ?thesis using assms t l
    by (auto simp: flush_frames_def Let_def control_frames_def data_frames_def control_frame_def seg_frame_def seg_header_def
      ack_seg_def sent_seg_def split: if_splits)
qed

lemma flush_timed_probe: "tells kcp \<Longrightarrow> tells (flush_timed kcp)"
proof -
  assume t: "tells kcp"
  have "probe (flush_timed kcp) = probe kcp \<or> probe (flush_timed kcp) = probe kcp OR IKCP_ASK_SEND"
    by (simp add: flush_timed_def flush_probe_timer_def Let_def)
  moreover have "(probe kcp OR IKCP_ASK_SEND) AND IKCP_ASK_TELL = probe kcp AND IKCP_ASK_TELL"
    by (simp add: IKCP_ASK_SEND_def IKCP_ASK_TELL_def bit.conj_disj_distrib2)
  ultimately show ?thesis using t by (auto simp: tells_def)
qed

lemma flush_answers:
  assumes "snd_ok kcp" and "tells kcp \<or> ackcount kcp \<noteq> 0"
  shows "flush_frames kcp \<noteq> []"
proof (cases "tells kcp")
  case True
  then have "control_frames kcp \<noteq> []" using flush_timed_probe [OF True] by (simp add: control_frames_def Let_def tells_def)
  then show ?thesis by (simp add: flush_frames_def Let_def)
next
  case False
  then have "unat (ackcount kcp) \<noteq> 0" using assms(2) by (simp add: unat_eq_zero)
  then have "acks kcp \<noteq> []" using length_acks [of kcp] by auto
  then show ?thesis using flush_frames_acks [OF assms(1)] by auto
qed

text \<open>A closed window is asked about when the timer has run out.\<close>

lemma flush_asks:
  assumes "rmt_wnd kcp = 0" and "probe_wait kcp \<noteq> 0" and "current kcp = ts_probe kcp"
  shows "\<exists>f\<in>set (flush_frames kcp). h_cmd (fst f) = 83"
proof -
  have "\<exists>w t. flush_timed kcp = kcp\<lparr>ackcount := 0, probe_wait := w, ts_probe := t, probe := probe kcp OR IKCP_ASK_SEND\<rparr>"
    using assms unfolding flush_timed_def flush_probe_timer_def Let_def by (auto intro!: exI)
  then have "probe (flush_timed kcp) = probe kcp OR IKCP_ASK_SEND" by auto
  moreover have "(probe kcp OR IKCP_ASK_SEND) AND IKCP_ASK_SEND \<noteq> 0"
  proof -
    have "(probe kcp OR IKCP_ASK_SEND) AND IKCP_ASK_SEND = IKCP_ASK_SEND" by (simp add: bit_eq_iff bit_simps)
    then show ?thesis by (simp add: IKCP_ASK_SEND_def)
  qed
  ultimately have "control_frame ((last_ack_seg kcp)\<lparr>seg_cmd := IKCP_CMD_WASK\<rparr>) \<in> set (flush_frames kcp)"
    by (simp add: flush_frames_def Let_def control_frames_def)
  then show ?thesis by (rule rev_bexI) (simp add: control_frame_def seg_header_def ikcp_consts)
qed

text \<open>Every segment of the send buffer leaves when its time has come, or when it never left before.\<close>

lemma flush_resends:
  assumes so: "snd_ok kcp" and s: "s \<in> set (snd_buf kcp)" and t: "current kcp = seg_resendts s"
  shows "\<exists>f\<in>set (flush_frames kcp). h_cmd (fst f) = 81 \<and> h_sn (fst f) = seg_sn s"
proof -
  obtain new where "snd_buf (flush_loaded kcp) = snd_buf kcp @ new" using flush_buf [OF so] by blast
  then have b: "s \<in> set (snd_buf (flush_loaded kcp))" using s by simp
  have "due (flush_loaded kcp) (flush_resent (flush_loaded kcp)) s"
    using t timed_out_loaded [OF so, of s] by (auto simp: due_def timed_out_def)
  from due_frame [OF so b this] show ?thesis by blast
qed

lemma flush_final_cwnd: "cwnd (flush_final kcp) \<noteq> 0"
proof -
  have "1 \<le> cwnd (flush_final kcp)" unfolding flush_final_def Let_def by (rule flush_cwnd_pos)
  then show ?thesis by auto
qed

lemma flush_final_probe_wait: "snd_ok kcp \<Longrightarrow> rmt_wnd kcp = 0 \<Longrightarrow> probe_wait kcp = 0 \<Longrightarrow> probe_wait (flush_final kcp) \<noteq> 0"
proof -
  assume so: "snd_ok kcp" and a: "rmt_wnd kcp = 0" "probe_wait kcp = 0"
  have "probe_wait (flush_timed kcp) = IKCP_PROBE_INIT" using a by (simp add: flush_timed_def flush_probe_timer_def)
  then have "probe_wait (flush_ready kcp) = IKCP_PROBE_INIT" by (simp add: flush_ready_def)
  moreover have "probe_wait (moved w k n) = probe_wait k" for w k n by (simp add: moved_def)
  ultimately have "probe_wait (flush_loaded kcp) = IKCP_PROBE_INIT" by (simp add: flush_loaded_moved(1) [OF so])
  moreover have "probe_wait (flush_cwnd w r c l k) = probe_wait k" for w r c l k using flush_cwnd_frame [of w r c l k] by auto
  ultimately have "probe_wait (flush_final kcp) = IKCP_PROBE_INIT" by (simp add: flush_final_def Let_def data_state_def)
  then show ?thesis by (simp add: IKCP_PROBE_INIT_def)
qed

lemma flush_final_queue: "snd_ok kcp \<Longrightarrow> snd_queue (flush_final kcp) = drop (move_count (flush_window kcp) kcp) (snd_queue kcp)"
  by (simp add: flush_final_fields(4) flush_loaded_moved(1)) (simp add: moved_def)

text \<open>With an empty send buffer and open windows a flush numbers a segment.\<close>

lemma flush_numbers:
  assumes so: "snd_ok kcp" and b: "snd_buf kcp = []" and q: "snd_queue kcp \<noteq> []"
    and w: "snd_wnd kcp \<noteq> 0" "rmt_wnd kcp \<noteq> 0" "cwnd kcp \<noteq> 0"
  shows "length (snd_queue (flush_final kcp)) < length (snd_queue kcp)"
proof -
  have "flush_window kcp \<noteq> 0" using w by (simp add: flush_window_def Let_def imin_def)
  then have "0 < unat (flush_window kcp)" by (simp add: unat_gt_0)
  moreover have "snd_una kcp = snd_nxt kcp" using snd_okD(2) [OF so] b by (simp add: first_unacked_def)
  ultimately have "0 < move_count (flush_window kcp) kcp" using q by (simp add: move_count_def)
  then show ?thesis using q by (simp add: flush_final_queue [OF so])
qed

text \<open>Without new numbers the send buffer keeps its segments, as far as numbers are concerned.\<close>

lemma flush_final_empty:
  assumes so: "snd_ok kcp" and b: "snd_buf kcp = []" and q: "length (snd_queue (flush_final kcp)) = length (snd_queue kcp)"
  shows "snd_buf (flush_final kcp) = []"
proof -
  have z: "take (move_count (flush_window kcp) kcp) (snd_queue kcp) = []"
    using q unfolding flush_final_queue [OF so] by (cases "snd_queue kcp = []") (auto simp: move_count_def)
  have "snd_buf (flush_loaded kcp) = []" by (simp add: flush_loaded_moved(1) [OF so]) (simp add: moved_def b z)
  then show ?thesis by (simp add: flush_final_fields(3) [OF so])
qed

text \<open>A receiver whose queue is short announces an open window, if 16 bits can hold it.\<close>

lemma wnd_unused_open:
  assumes ok: "rcv_ok kcp" and l: "lively kcp" and q: "length (rcv_queue kcp) < 128" and w: "unat (rcv_wnd kcp) < 65536"
  shows "(ucast (ucast (ikcp_wnd_unused kcp) :: u16) :: u32) \<noteq> 0"
proof -
  have n: "unat (nrcv_que kcp) < unat (rcv_wnd kcp)" using rcv_ok_nrcv [OF ok] q l by (simp add: lively_def)
  then have "unat (ikcp_wnd_unused kcp) = unat (rcv_wnd kcp) - unat (nrcv_que kcp)"
    by (simp add: ikcp_wnd_unused_def word_less_nat_alt unat_sub word_le_nat_alt)
  then have u: "0 < unat (ikcp_wnd_unused kcp)" "unat (ikcp_wnd_unused kcp) < 65536" using n w by linarith+
  then have "unat (ucast (ucast (ikcp_wnd_unused kcp) :: u16) :: u32) = unat (ikcp_wnd_unused kcp)"
    by (simp add: unsigned_ucast_eq unsigned_take_bit_eq take_bit_nat_eq_self)
  then show ?thesis using u(1) by (metis unat_0 less_irrefl)
qed

section \<open>Every reachable block is lively\<close>

lemma wndsize_lively:
  assumes "lively kcp" and "sndwnd < 2147483648" and "rcvwnd < 2147483648"
  shows "lively (snd (ikcp_wndsize kcp sndwnd rcvwnd))"
proof -
  let ?k = "snd (ikcp_wndsize kcp sndwnd rcvwnd)"
  have "128 \<le> unat (rcv_wnd ?k)"
    using assms(1) by (simp add: lively_def ikcp_wndsize_def Let_def unat_imax IKCP_WND_RCV_def)
  moreover have "snd_wnd ?k \<noteq> 0"
  proof (cases "sndwnd > 0")
    case True
    then have "uint (word_of_int sndwnd :: u32) = sndwnd" using assms(2) by (intro uint_of_int32) linarith+
    then have "(word_of_int sndwnd :: u32) \<noteq> 0" using True by (metis less_irrefl unsigned_0)
    then show ?thesis using True by (simp add: ikcp_wndsize_def Let_def)
  next
    case False
    then show ?thesis using assms(1) by (simp add: lively_def ikcp_wndsize_def Let_def)
  qed
  moreover have "rcv_queue ?k = rcv_queue kcp" "rcv_nxt ?k = rcv_nxt kcp" "rcv_buf ?k = rcv_buf kcp"
    by (simp_all add: ikcp_wndsize_def Let_def)
  ultimately show ?thesis using assms(1) by (simp add: lively_def)
qed

lemma send_fragments_lively: "lively (send_fragments n kcp buf len) = lively kcp"
proof (induction n arbitrary: kcp buf len)
  case (Suc n)
  show ?case unfolding send_fragments.simps Let_def Suc.IH by (rule lively_cong) simp_all
qed simp

lemma send_lively:
  assumes "lively kcp" and "ikcp_send kcp buf len = Inr (ret, k)"
  shows "lively k"
proof -
  obtain k1 buf1 len1 where e: "send_extend kcp buf len = (k1, buf1, len1)" by (metis prod_cases3)
  then have l1: "lively k1 = lively kcp" by (auto simp: send_extend_def Let_def lively_def split: if_splits)
  have "k \<in> insert kcp (insert k1 (range (\<lambda>n. send_fragments n k1 buf1 len1) \<union> range (\<lambda>n. send_fragments n kcp buf len)))"
    using assms(2) e by (auto simp: ikcp_send_def Let_def simp del: send_fragments.simps One_nat_def split: if_splits)
  then show ?thesis using assms(1) l1 by (auto simp: send_fragments_lively)
qed

lemma step_lively:
  assumes st: "step w w'" and inv: "session_inv cv mode w H G" and l: "\<forall>t. lively (ep w t)"
  shows "\<forall>t. lively (ep w' t)"
  using st
proof cases
  case (send buf s ret k)
  note e = session_invD(1) [OF inv, of s]
  note es = endpoint_send [OF e send(2,3)]
  show ?thesis using send_lively [OF l [rule_format, of s] send(3)] l unfolding send(1) by simp
next
  case (recv s len ret bytes k)
  have "rcv_ok (ep w s)" using kcp_okD(2) [OF endpointD(1) [OF session_invD(1) [OF inv]]] .
  from recv_lively(1) [OF this _ recv(2)] show ?thesis using l unfolding recv(1) by simp
next
  case (update s now k out)
  note d = endpointD [OF session_invD(1) [OF inv, of s]]
  obtain k0 where k0: "clocked (ep w s) now k0" "ikcp_update (ep w s) now = ikcp_flush k0 \<or> ikcp_update (ep w s) now = Inr (k0, [])"
    using update_outcome by blast
  note c = clocked_same [OF k0(1)]
  have "unat (ackcount k0) < 2147483648" using may_numberD(1) [OF session_invD(1) [OF inv, of s] update(2)] by (simp add: c)
  then have "k = flush_final k0 \<or> k = k0"
    using flush_result [of k0] k0(2) update(3) d(1,6) by (auto simp: c)
  then have "lively k" using l flush_lively(1) [OF kcp_okD(3), of k0] d(1) by (auto simp: c)
  then show ?thesis using l unfolding update(1) by simp
next
  case (flush s k out)
  note d = endpointD [OF session_invD(1) [OF inv, of s]]
  have "k = flush_final (ep w s) \<or> k = ep w s"
    using flush_result [OF d(1) _ _ may_numberD(1) [OF session_invD(1) [OF inv, of s] flush(2)]] flush(3) d(6)
      flush_not_updated [of "ep w s"] by (cases "updated (ep w s) = 0") auto
  then have "lively k" using l flush_lively(1) [OF kcp_okD(3) [OF d(1)]] by auto
  then show ?thesis using l unfolding flush(1) by simp
next
  case (deliver d s ret k)
  have "carries (fst (cv, True, mode s, mss (ep w s))) (H (\<not> s)) (received (ep w (\<not> s))) d" using session_invD(4) [OF inv deliver(2)] by simp
  from input_lively [OF session_invD(1) [OF inv, of s] _ deliver(3) this deliver(4)] show ?thesis using l unfolding deliver(1) by simp
next
  case (set_interval s i)
  have "lively (snd (ikcp_interval (ep w s) i)) = lively (ep w s)" by (rule lively_cong) (simp_all add: ikcp_interval_def)
  then show ?thesis using l unfolding set_interval(1) by simp
next
  case (set_nodelay s nd i resend nc)
  have "lively (snd (ikcp_nodelay (ep w s) nd i resend nc)) = lively (ep w s)"
    by (rule lively_cong) (simp_all add: ikcp_nodelay_fields)
  then show ?thesis using l unfolding set_nodelay(1) by simp
next
  case (set_wndsize sndwnd rcvwnd s)
  show ?thesis using l wndsize_lively [OF _ set_wndsize(2,3)] unfolding set_wndsize(1) by simp
next
  case (set_mtu m s malloc)
  have "lively (snd (ikcp_setmtu malloc (ep w s) m)) = lively (ep w s)" by (rule lively_cong) (simp_all add: ikcp_setmtu_def)
  then show ?thesis using l unfolding set_mtu(1) by simp
qed

lemma fresh_lively: "lively ((fresh cv)\<lparr>stream := m\<rparr>)"
  by (simp add: lively_def fresh_eq)

lemma reachable_lively: "reachable cv mode w \<Longrightarrow> (\<exists>H G. session_inv cv mode w H G) \<and> (\<forall>s. lively (ep w s))"
proof (induction rule: reachable.induct)
  case start
  show ?case using start_inv [of cv mode] fresh_lively by (auto simp: start_def)
next
  case (step w w')
  then obtain H G where "session_inv cv mode w H G" by blast
  then show ?case using step step_inv step_lively by blast
qed

end
