(* ===== verification/Kcp_Progress.thy ===== *)
theory Kcp_Progress
  imports Kcp_Lively
begin

text \<open>
  A conversation can always be finished: from every reachable world in which the windows of both
  ends fit the 16 bits of a header, calls of \<open>ikcp_recv\<close>, \<open>ikcp_update\<close>, \<open>ikcp_flush\<close> and
  deliveries of emitted datagrams lead to a world where everything sent has been received, without
  a further call of \<open>ikcp_send\<close> or of the configuration. No state of the protocol is a dead end:
  neither a full receive queue nor a closed window, lost acknowledgements or a collapsed congestion
  window.
\<close>

section \<open>Serving the two ends\<close>

inductive serve :: "world \<Rightarrow> world \<Rightarrow> bool" where
  recv: "ikcp_recv (ep w s) len = Inr (ret, bytes, k) \<Longrightarrow>
    serve w (act s k [] [] (if ret < 0 \<or> len < 0 then [] else [bytes]) w)"
| update: "may_number (ep w s) \<Longrightarrow> ikcp_update (ep w s) now = Inr (k, out) \<Longrightarrow> serve w (act s k out [] [] w)"
| flush: "may_number (ep w s) \<Longrightarrow> ikcp_flush (ep w s) = Inr (k, out) \<Longrightarrow> serve w (act s k out [] [] w)"
| deliver: "d \<in> net w s \<Longrightarrow> unat (ackcount (ep w s)) + length d div 24 \<le> 2147483648 \<Longrightarrow>
    ikcp_input (ep w s) (Some d) = Inr (ret, k) \<Longrightarrow> serve w (act s k [] [] [] w)"

inductive_cases serveE: "serve w w'"

lemma serve_step: "serve w w' \<Longrightarrow> step w w'"
  by (auto elim!: serveE intro: step.intros)

lemma serves_reachable: "serve\<^sup>*\<^sup>* w w' \<Longrightarrow> reachable cv mode w \<Longrightarrow> reachable cv mode w'"
  by (induction rule: rtranclp_induct) (auto intro: reachable.step serve_step)

lemma serve_keeps: "serve w w' \<Longrightarrow> sent w' = sent w \<and> prefix (got w s) (got w' s)"
  by (auto elim!: serveE simp: act_def)

lemma serves_keep: "serve\<^sup>*\<^sup>* w w' \<Longrightarrow> sent w' = sent w \<and> prefix (got w s) (got w' s)"
proof (induction rule: rtranclp_induct)
  case (step y z)
  then show ?case using serve_keeps [OF step.hyps(2), of s] by (auto intro: prefix_order.trans)
qed simp

text \<open>The worlds serving goes through, with the histories of the invariant.\<close>

definition running :: "u32 \<Rightarrow> (bool \<Rightarrow> i32) \<Rightarrow> world \<Rightarrow> (bool \<Rightarrow> hist) \<Rightarrow> (bool \<Rightarrow> hist) \<Rightarrow> bool" where
  "running cv mode w H G \<longleftrightarrow> session_inv cv mode w H G \<and>
     (\<forall>s. lively (ep w s) \<and> unat (rcv_wnd (ep w s)) < 65536 \<and> unat (ackcount (ep w s)) < 2147483648 \<and>
       length (H s) + length (snd_queue (ep w s)) < 2147483648)"

lemma runningD:
  assumes "running cv mode w H G"
  shows "session_inv cv mode w H G" "lively (ep w s)" "unat (rcv_wnd (ep w s)) < 65536" "unat (ackcount (ep w s)) < 2147483648"
    "length (H s) + length (snd_queue (ep w s)) < 2147483648"
    "endpoint (cv, True, mode s, mss (ep w s)) (H s) (received (ep w (\<not> s))) (H (\<not> s)) (G s) (ep w s)"
    "kcp_ok (ep w s)" "send_inv (H s) (received (ep w (\<not> s))) (ep w s)" "recv_core (H (\<not> s)) (G s) (ep w s)"
proof -
  show i: "session_inv cv mode w H G" using assms by (simp add: running_def)
  show e: "endpoint (cv, True, mode s, mss (ep w s)) (H s) (received (ep w (\<not> s))) (H (\<not> s)) (G s) (ep w s)"
    by (rule session_invD(1) [OF i])
  show "kcp_ok (ep w s)" "send_inv (H s) (received (ep w (\<not> s))) (ep w s)" "recv_core (H (\<not> s)) (G s) (ep w s)"
    using endpointD(1,3,4) [OF e] by (simp_all add: recv_inv_def)
qed (use assms in \<open>simp_all add: running_def\<close>)

lemma running_may_number:
  assumes "running cv mode w H G"
  shows "may_number (ep w s)"
proof -
  have "snd_nxt (ep w s) = of_nat (length (H s))" "length (H s) < 2147483648"
    using runningD(8) [OF assms] by (simp_all add: send_inv_def)
  then have "unat (snd_nxt (ep w s)) = length (H s)" by (simp only:) (rule unat_of_nat32, linarith)
  then have "int (unat (snd_nxt (ep w s))) = int (length (H s))" by (simp only:)
  moreover have "int (unat (ackcount (ep w s))) < 2147483648" using runningD(4) [OF assms, of s] by linarith
  ultimately show ?thesis using runningD(5) [OF assms, of s] by (simp add: may_number_def)
qed

text \<open>A datagram of fresh frames that is on its way to \<open>t\<close>.\<close>

definition offer :: "u32 \<Rightarrow> world \<Rightarrow> (bool \<Rightarrow> hist) \<Rightarrow> bool \<Rightarrow> frame list \<Rightarrow> bool" where
  "offer cv w H t fs \<longleftrightarrow> fs \<noteq> [] \<and> length (encode_frames fs) < 2147483648 \<and> encode_frames fs \<in> net w t \<and>
     (\<forall>f\<in>set fs. good_frame cv (H (\<not> t)) (received (ep w (\<not> t))) f)"

text \<open>Serving from one world to another: what was numbered, received and emitted stays so.\<close>

definition reaches :: "u32 \<Rightarrow> (bool \<Rightarrow> i32) \<Rightarrow> world \<Rightarrow> (bool \<Rightarrow> hist) \<Rightarrow> (bool \<Rightarrow> hist) \<Rightarrow> world \<Rightarrow> (bool \<Rightarrow> hist) \<Rightarrow> (bool \<Rightarrow> hist) \<Rightarrow> bool" where
  "reaches cv mode w H G w' H' G' \<longleftrightarrow> serve\<^sup>*\<^sup>* w w' \<and> running cv mode w' H' G' \<and>
     (\<forall>s. length (H' s) + length (snd_queue (ep w' s)) = length (H s) + length (snd_queue (ep w s))) \<and>
     (\<forall>s. unat (rcv_nxt (ep w s)) \<le> unat (rcv_nxt (ep w' s))) \<and>
     (\<forall>t fs. offer cv w H t fs \<longrightarrow> offer cv w' H' t fs)"

lemma reaches_refl: "running cv mode w H G \<Longrightarrow> reaches cv mode w H G w H G"
  by (simp add: reaches_def)

lemma reaches_trans: "reaches cv mode w H G w1 H1 G1 \<Longrightarrow> reaches cv mode w1 H1 G1 w2 H2 G2 \<Longrightarrow> reaches cv mode w H G w2 H2 G2"
  unfolding reaches_def by (metis le_trans rtranclp_trans)

lemma reachesD: "reaches cv mode w H G w' H' G' \<Longrightarrow> running cv mode w' H' G'"
  by (simp add: reaches_def)

text \<open>An act of one end that numbers \<open>N\<close> and delivers \<open>M\<close>.\<close>

lemma reaches_act:
  assumes run: "running cv mode w H G" and st: "serve\<^sup>*\<^sup>* w (act s k out [] given w)"
    and inv: "session_inv cv mode (act s k out [] given w) (H(s := H s @ N)) (G(s := G s @ M))"
    and l: "lively k" and wn: "rcv_wnd k = rcv_wnd (ep w s)" and a: "unat (ackcount k) < 2147483648"
    and q: "queued (ep w s) = N @ queued k" and r: "received (ep w s) \<subseteq> received k"
    and n: "unat (rcv_nxt (ep w s)) \<le> unat (rcv_nxt k)"
  shows "reaches cv mode w H G (act s k out [] given w) (H(s := H s @ N)) (G(s := G s @ M))"
proof -
  let ?w = "act s k out [] given w" and ?H = "H(s := H s @ N)"
  have "length (queued (ep w s)) = length (N @ queued k)" by (simp only: q)
  then have len: "length (snd_queue (ep w s)) = length N + length (snd_queue k)" by (simp add: queued_def)
  have tot: "length (?H t) + length (snd_queue (ep ?w t)) = length (H t) + length (snd_queue (ep w t))" for t
    using len by (cases "t = s") simp_all
  have "running cv mode ?w ?H (G(s := G s @ M))"
    unfolding running_def using inv l wn a run tot by (auto simp: running_def simp del: fun_upd_apply)
  moreover have "offer cv ?w ?H t fs" if o: "offer cv w H t fs" for t fs
  proof -
    have "good_frame cv (?H (\<not> t)) (received (ep ?w (\<not> t))) f" if "f \<in> set fs" for f
    proof (cases "(\<not> t) = s")
      case True
      have "good_frame cv (H (\<not> t)) (received (ep w (\<not> t))) f" using o that by (simp add: offer_def)
      from good_frame_mono [OF this, of "received k" N] True r show ?thesis by simp
    next
      case False
      then show ?thesis using o that by (simp add: offer_def)
    qed
    moreover have "net w t \<subseteq> net ?w t" by auto
    ultimately show ?thesis using o unfolding offer_def by blast
  qed
  ultimately show ?thesis unfolding reaches_def using st tot n by simp
qed

section \<open>The clock ticks: a flush at a chosen time\<close>

lemma clocked_may_number: "clocked kcp now k \<Longrightarrow> may_number k = may_number kcp"
  by (auto simp: clocked_def may_number_def)

lemma clocked_serves:
  assumes run: "running cv mode w H G"
  shows "\<exists>k0. clocked (ep w s) now k0 \<and> (\<forall>k out. ikcp_flush k0 = Inr (k, out) \<longrightarrow> serve\<^sup>*\<^sup>* w (act s k out [] [] w))"
proof -
  obtain k0 where k0: "clocked (ep w s) now k0" "ikcp_update (ep w s) now = ikcp_flush k0 \<or> ikcp_update (ep w s) now = Inr (k0, [])"
    using update_outcome by blast
  note m = running_may_number [OF run, of s]
  have "serve\<^sup>*\<^sup>* w (act s k out [] [] w)" if f: "ikcp_flush k0 = Inr (k, out)" for k out
    using k0(2)
  proof
    assume "ikcp_update (ep w s) now = ikcp_flush k0"
    then show ?thesis using serve.update [OF m, of now k out] f by auto
  next
    assume u: "ikcp_update (ep w s) now = Inr (k0, [])"
    let ?w = "act s k0 [] [] [] w"
    have "serve w ?w" by (rule serve.update [OF m u])
    moreover have "serve ?w (act s k out [] [] ?w)"
      by (rule serve.flush) (use m f in \<open>simp_all add: clocked_may_number [OF k0(1)]\<close>)
    ultimately show ?thesis by (simp add: act_act)
  qed
  then show ?thesis using k0(1) by blast
qed

text \<open>End \<open>s\<close> flushes with its clock at \<open>now\<close>: every frame of the flush is on its way to the other end.\<close>

definition emits :: "u32 \<Rightarrow> world \<Rightarrow> (bool \<Rightarrow> hist) \<Rightarrow> bool \<Rightarrow> ikcpcb \<Rightarrow> bool" where
  "emits cv w H t k0 \<longleftrightarrow> (\<forall>f\<in>set (flush_frames k0). \<exists>fs. f \<in> set fs \<and> set fs \<subseteq> set (flush_frames k0) \<and> offer cv w H t fs)"

lemma emitsE:
  assumes "emits cv w H t k0" and "f \<in> set (flush_frames k0)"
  obtains fs where "f \<in> set fs" "set fs \<subseteq> set (flush_frames k0)" "offer cv w H t fs"
  using assms unfolding emits_def by blast

text \<open>The frames of a flush are on their way in datagrams of the network.\<close>

lemma emits_act:
  assumes "concat fss = flush_frames k" and "\<forall>fs\<in>set fss. fs \<noteq> [] \<and> length (encode_frames fs) < 2147483648"
    and "\<forall>f\<in>set (flush_frames k). good_frame cv (H s @ N) (received k') f"
  shows "emits cv (act s k' (map encode_frames fss) [] [] w) (H(s := H s @ N)) (\<not> s) k"
    and "\<forall>d\<in>set (map encode_frames fss). carries cv (H s @ N) (received k') d"
proof -
  have sub: "set fs \<subseteq> set (flush_frames k)" if "fs \<in> set fss" for fs using that unfolding assms(1) [symmetric] by auto
  then have good: "\<forall>f\<in>set fs. good_frame cv (H s @ N) (received k') f" if "fs \<in> set fss" for fs using assms(3) that by blast
  then show "\<forall>d\<in>set (map encode_frames fss). carries cv (H s @ N) (received k') d" unfolding carries_def by auto
  show "emits cv (act s k' (map encode_frames fss) [] [] w) (H(s := H s @ N)) (\<not> s) k"
    unfolding emits_def
  proof
    fix g assume "g \<in> set (flush_frames k)"
    then obtain fs where fs: "fs \<in> set fss" "g \<in> set fs" unfolding assms(1) [symmetric] by auto
    have "offer cv (act s k' (map encode_frames fss) [] [] w) (H(s := H s @ N)) (\<not> s) fs"
      unfolding offer_def using fs(1) assms(2) good [OF fs(1)] by simp
    then show "\<exists>fs. g \<in> set fs \<and> set fs \<subseteq> set (flush_frames k) \<and> offer cv (act s k' (map encode_frames fss) [] [] w) (H(s := H s @ N)) (\<not> s) fs"
      using fs(2) sub [OF fs(1)] by blast
  qed
qed

lemma tick:
  assumes run: "running cv mode w H G"
  shows "\<exists>w' k0 N. clocked (ep w s) now k0 \<and> reaches cv mode w H G w' (H(s := H s @ N)) G \<and>
    ep w' s = flush_final k0 \<and> ep w' (\<not> s) = ep w (\<not> s) \<and> queued (ep w s) = N @ queued (flush_final k0) \<and>
    emits cv w' (H(s := H s @ N)) (\<not> s) k0"
proof -
  note R = runningD [OF run]
  obtain k0 where k0: "clocked (ep w s) now k0" "\<And>k out. ikcp_flush k0 = Inr (k, out) \<Longrightarrow> serve\<^sup>*\<^sup>* w (act s k out [] [] w)"
    using clocked_serves [OF run] by blast
  note c = clocked_same [OF k0(1)]
  note e0 = clocked_endpoint [OF R(6) k0(1)]
  have cb: "fst (snd (cv, True, mode s, mss (ep w s)))" by simp
  have ack: "unat (ackcount k0) < 2147483648" "length (H s) + length (snd_queue k0) < 2147483648"
    using R(4,5) [of s] by (simp_all add: c)
  obtain N fss where f: "ikcp_flush k0 = Inr (flush_final k0, map encode_frames fss)" "concat fss = flush_frames k0"
    "\<forall>fs\<in>set fss. fs \<noteq> [] \<and> length (encode_frames fs) < 2147483648"
    "\<forall>f\<in>set (flush_frames k0). good_frame cv (H s @ N) (received k0) f"
    "endpoint (cv, True, mode s, mss (ep w s)) (H s @ N) (received (ep w (\<not> s))) (H (\<not> s)) (G s) (flush_final k0)"
    "received (flush_final k0) = received k0" "queued k0 = N @ queued (flush_final k0)"
    using flush_effect [OF e0 cb c(6) ack] unfolding fst_conv by (elim exE conjE) rule
  let ?w = "act s (flush_final k0) (map encode_frames fss) [] [] w" and ?H = "H(s := H s @ N)"
  have so: "snd_ok k0" using kcp_okD(3) [of k0] R(7) [of s] by (simp add: c)
  have em: "emits cv ?w ?H (\<not> s) k0" "\<forall>d\<in>set (map encode_frames fss). carries cv (H s @ N) (received (flush_final k0)) d"
    using emits_act [OF f(2,3), of cv H s N "flush_final k0"] f(4,6) by simp_all
  have q: "queued (ep w s) = N @ queued (flush_final k0)" using f(7) by (simp add: c)
  have "session_inv cv mode ?w (H(s := H s @ N)) (G(s := G s @ []))"
  proof (rule session_act [OF R(1)])
    show "endpoint (cv, True, mode s, mss (ep w s)) (H s @ N) (received (ep w (\<not> s))) (H (\<not> s)) (G s @ []) (flush_final k0)"
      using f(5) by simp
    show "received (ep w s) \<subseteq> received (flush_final k0)" by (simp add: f(6) c)
    show "\<forall>d\<in>set (map encode_frames fss). carries cv (H s @ N) (received (flush_final k0)) d"
      by (rule em(2))
    show "outgoing mode s ((H s @ N) @ queued (flush_final k0)) (sent w s @ [])" using session_invD(2) [OF R(1), of s] q by simp
    show "incoming mode s (G s @ []) (got w s @ [])" using session_invD(3) [OF R(1), of s] by simp
  qed
  then have "reaches cv mode w H G ?w ?H (G(s := G s @ []))"
  proof (rule reaches_act [OF run k0(2) [OF f(1)]])
    show "lively (flush_final k0)" "rcv_wnd (flush_final k0) = rcv_wnd (ep w s)" using R(2) flush_lively [OF so] by (simp_all add: c)
    show "unat (ackcount (flush_final k0)) < 2147483648" by (simp add: flush_final_fields(2) [OF so])
    show "queued (ep w s) = N @ queued (flush_final k0)" by (rule q)
    show "received (ep w s) \<subseteq> received (flush_final k0)" by (simp add: f(6) c)
    have "rcv_nxt (flush_final k0) = rcv_nxt k0" using flush_final_fields(1) [OF so] by (simp add: loaded_fields_def)
    then show "unat (rcv_nxt (ep w s)) \<le> unat (rcv_nxt (flush_final k0))" by (simp add: c)
  qed
  moreover note em(1) q
  moreover have "ep ?w s = flush_final k0" "ep ?w (\<not> s) = ep w (\<not> s)" by simp_all
  moreover have "G(s := G s @ []) = G" by simp
  ultimately show ?thesis using k0(1) by (intro exI [of _ ?w] exI [of _ k0] exI [of _ N]) (simp only: simp_thms)
qed

section \<open>A datagram arrives\<close>

lemma take_offer:
  assumes run: "running cv mode w H G" and o: "offer cv w H s fs" and a: "ackcount (ep w s) = 0"
  shows "\<exists>w'. reaches cv mode w H G w' H G \<and> ep w' (\<not> s) = ep w (\<not> s) \<and> after (ep w s) (ep w' s) \<and>
    queued (ep w' s) = queued (ep w s) \<and> answered (last fs) (ep w' s) \<and>
    (\<forall>f\<in>set fs. handled (length (H (\<not> s))) (unat (rcv_nxt (ep w s))) f (ep w' s))"
proof -
  note R = runningD [OF run]
  have d: "fs \<noteq> []" "length (encode_frames fs) < 2147483648" "encode_frames fs \<in> net w s"
    "\<forall>f\<in>set fs. good_frame cv (H (\<not> s)) (received (ep w (\<not> s))) f" using o by (simp_all add: offer_def)
  have l: "length fs \<le> length (encode_frames fs)" using length_frames [of fs] by linarith
  have "unat (ackcount (ep w s)) + length fs + 1 \<le> 2147483648" using d(2) l by (simp add: a)
  note ie = input_effect [OF R(6,2) this long_enough [OF d(1,2)], unfolded fst_conv, OF d(4)]
  obtain k where
    k: "ikcp_input (ep w s) (Some (encode_frames fs)) = Inr (0, k)"
      "endpoint (cv, True, mode s, mss (ep w s)) (H s) (received (ep w (\<not> s))) (H (\<not> s)) (G s) k" "queued k = queued (ep w s)"
      "after (ep w s) k" "\<forall>f\<in>set fs. handled (length (H (\<not> s))) (unat (rcv_nxt (ep w s))) f k" "answered (last fs) k"
      "unat (ackcount k) + 1 \<le> 2147483648" using ie by (elim exE conjE) rule
  have "serve w (act s k [] [] [] w)"
    by (rule serve.deliver [OF d(3) _ k(1)]) (use d(2) in \<open>simp add: a less_eq_div_iff_mult_less_eq\<close>)
  then have st: "serve\<^sup>*\<^sup>* w (act s k [] [] [] w)" by (rule r_into_rtranclp [where r = serve])
  have rc: "received (ep w s) \<subseteq> received k" using k(4) by (simp add: after_def)
  have "session_inv cv mode (act s k [] [] [] w) H G" by (rule session_keep [OF R(1)]) (use k(2,3) rc in blast)
  then have i: "session_inv cv mode (act s k [] [] [] w) (H(s := H s @ [])) (G(s := G s @ []))" by simp
  have "reaches cv mode w H G (act s k [] [] [] w) (H(s := H s @ [])) (G(s := G s @ []))"
    by (rule reaches_act [OF run st i]) (use k(3,4,7) in \<open>simp_all add: after_def\<close>)
  then have "reaches cv mode w H G (act s k [] [] [] w) H G" by simp
  then show ?thesis using k(3-6) by (intro exI [of _ "act s k [] [] [] w"]) simp
qed

section \<open>The application drains the receive queue\<close>

lemma outgoing_chained:
  assumes "outgoing mode s A msgs"
  shows "chained A" and "closed A" and "x \<in> set A \<Longrightarrow> fst x < 128"
proof -
  have z: "chained A \<and> closed A" if "\<forall>x\<in>set A. fst x = 0" using that by (induction A) (auto simp: chained_Cons closed_def)
  show "chained A" "closed A" using assms z by (auto simp: outgoing_def split: if_splits)
  show "x \<in> set A \<Longrightarrow> fst x < 128" using assms by (auto simp: outgoing_def split: if_splits)
qed

lemma chained_closed_complete: "chained A \<Longrightarrow> closed A \<Longrightarrow> A \<noteq> [] \<Longrightarrow> unat (fst (hd A)) < length A"
proof (induction A)
  case (Cons x A)
  show ?case
  proof (cases "fst x = 0")
    case False
    then have A: "A \<noteq> []" "fst (hd A) = fst x - 1" "chained A" "closed A"
      using Cons.prems by (auto simp: chained_Cons closed_def)
    then have "unat (fst x - 1) < length A" using Cons.IH by simp
    moreover have "unat (fst x - 1) = unat (fst x) - 1" by (rule unat_minus_one [OF False])
    ultimately show ?thesis using False by simp
  qed simp
qed simp

text \<open>The first message of the queue is short enough for the return value of \<open>ikcp_peeksize\<close>.\<close>

lemma first_message_short:
  assumes run: "running cv mode w H G" and c: "message_complete (ep w s)"
  shows "length (payload (fst (split_message (rcv_queue (ep w s))))) < 2147483648"
proof -
  note R = runningD [OF run]
  let ?q = "rcv_queue (ep w s)" and ?A = "H (\<not> s) @ queued (ep w (\<not> s))"
  have o: "outgoing mode (\<not> s) ?A (sent w (\<not> s))" by (rule session_invD(2) [OF R(1)])
  let ?rest = "drop (unat (rcv_nxt (ep w s))) (H (\<not> s)) @ queued (ep w (\<not> s))"
  have A: "?A = G s @ map seg_item ?q @ ?rest"
    using arg_cong [OF delivered_history(1) [OF R(1), of s], of "\<lambda>x. x @ queued (ep w (\<not> s))"] by simp
  have ne: "?q \<noteq> []" using c by (simp add: message_complete_def)
  then obtain x xs where q: "?q = x # xs" by (cases ?q) auto
  have x: "seg_ok x" using rcv_okD(5) [OF kcp_okD(2) [OF R(7)], of x s] q by simp
  show ?thesis
  proof (cases "mode (\<not> s) = 0")
    case True
    have ch: "chained (map seg_item ?q @ ?rest)" using outgoing_chained(1) [OF o] unfolding A by (rule chained_drop)
    let ?M = "fst (split_message ?q)"
    have m: "closed (map seg_item ?M)" "messages [] (map seg_item ?M) = [payload ?M]" "?M \<noteq> []"
      using split_message_closed [OF ch ne, of "[]"] c by (simp_all add: message_complete_def)
    have g: "closed (G s)" using session_invD(3) [OF R(1), of s] True by (simp add: incoming_def)
    have "messages [] ?A = messages [] (G s) @ messages [] (map seg_item (?M @ snd (split_message ?q)) @ ?rest)"
      unfolding A messages_closed_append [OF g] split_message_append by (rule refl)
    also have "\<dots> = messages [] (G s) @ [payload ?M] @ messages [] (map seg_item (snd (split_message ?q)) @ ?rest)"
      using messages_closed_append [OF m(1)] m(2) by simp
    finally have e: "messages [] ?A = \<dots>" .
    have "payload ?M \<in> set (messages [] ?A)" unfolding e by simp
    moreover have "messages [] ?A = sent w (\<not> s)" using o True by (simp add: outgoing_def)
    ultimately have "payload ?M \<in> set (sent w (\<not> s))" by (simp only:)
    then show ?thesis using o True by (simp add: outgoing_def)
  next
    case False
    have "\<forall>y\<in>set ?A. fst y = 0" using o False by (simp add: outgoing_def)
    then have "seg_frg x = 0" unfolding A q by simp
    then show ?thesis using x by (simp add: q seg_ok_def)
  qed
qed

lemma recv_message:
  assumes run: "running cv mode w H G" and c: "message_complete (ep w s)"
  shows "\<exists>w' M. M \<noteq> [] \<and> reaches cv mode w H G w' H (G(s := G s @ M))"
proof -
  note R = runningD [OF run]
  let ?k = "ep w s"
  have ok: "rcv_ok ?k" by (rule kcp_okD(2) [OF R(7)])
  have ne: "rcv_queue ?k \<noteq> []" using c by (simp add: message_complete_def)
  let ?M = "fst (split_message (rcv_queue ?k))"
  have "set ?M \<subseteq> set (rcv_queue ?k)" using split_message_append [of "rcv_queue ?k"] by (metis Un_upper1 set_append)
  then have "sum_list (map seg_len ?M) = of_nat (length (payload ?M))" using rcv_okD(5) [OF ok] by (intro sum_seg_len) blast
  then have p: "ikcp_peeksize ?k = int (length (payload ?M))"
    using frg_incomplete [OF ok ne] c sint_of_nat32 [OF first_message_short [OF run c]] by (simp add: ikcp_peeksize_message [OF ne])
  moreover have "int (length (payload ?M)) \<le> \<bar>2147483647\<bar>" using first_message_short [OF run c] by linarith
  ultimately obtain bytes k where r: "ikcp_recv ?k 2147483647 = Inr (int (length (payload ?M)), bytes, k)"
    using ne by (simp add: ikcp_recv_outcome)
  have nn: "\<not> (int (length (payload ?M)) < 0 \<or> (2147483647 :: int) < 0)" by simp
  obtain N where N: "endpoint (cv, True, mode s, mss ?k) (H s) (received (ep w (\<not> s))) (H (\<not> s)) (G s @ N) k"
    "received ?k \<subseteq> received k" "queued k = queued ?k" "N = map seg_item ?M" "bytes = hist_bytes N"
    using endpoint_recv [OF R(6) r] nn by (simp only: if_False simp_thms) (elim exE conjE, rule)
  have "incoming mode s (G s @ N) (got w s @ [bytes])"
    using recv_incoming [OF R(6) session_invD(2) [OF R(1)] session_invD(3) [OF R(1)] N(4) c] N(5) by simp
  then have inv: "session_inv cv mode (act s k [] [] [bytes] w) (H(s := H s @ [])) (G(s := G s @ N))"
    using session_act [OF R(1), of s "mss ?k" "[]" N k "[]" "[]" "[bytes]"] N(1-3) session_invD(2) [OF R(1), of s] by simp
  have "serve w (act s k [] [] [bytes] w)" using serve.recv [OF r] by simp
  then have st: "serve\<^sup>*\<^sup>* w (act s k [] [] [bytes] w)" by (rule r_into_rtranclp [where r = serve])
  note l = recv_lively [OF ok R(2) r]
  have rc: "recv_core (H (\<not> s)) (G s @ N) k" using endpointD(4) [OF N(1)] by (simp add: recv_inv_def)
  have "length (rcv_queue ?k) \<le> length N + length (rcv_queue k)"
  proof -
    have "k = recv_finish (nrcv_que ?k \<ge> rcv_wnd ?k) (recv_take False ?k)"
      using r by (auto simp: ikcp_recv_outcome split: if_splits)
    moreover obtain moved where "rcv_queue (rcv_move (recv_take False ?k)) = rcv_queue (recv_take False ?k) @ moved"
      using rcv_move_prefix by blast
    ultimately have "length (drop (length ?M) (rcv_queue ?k)) \<le> length (rcv_queue k)"
      by (simp add: recv_finish_def Let_def recv_take_def)
    then show ?thesis by (simp add: N(4))
  qed
  then have nx: "unat (rcv_nxt ?k) \<le> unat (rcv_nxt k)"
    using recv_core_nxt [OF rc] recv_core_nxt [OF R(9) [of s]] by simp
  have "reaches cv mode w H G (act s k [] [] [bytes] w) (H(s := H s @ [])) (G(s := G s @ N))"
    by (rule reaches_act [OF run st inv]) (use l N(2,3) nx R(4) [of s] in simp_all)
  moreover have "N \<noteq> []" using ne by (cases "rcv_queue ?k") (simp_all add: N(4) split: prod.split)
  ultimately show ?thesis by (intro exI [of _ "act s k [] [] [bytes] w"] exI [of _ N]) simp
qed

lemma drain:
  assumes "running cv mode w H G"
  shows "\<exists>w' G'. reaches cv mode w H G w' H G' \<and> \<not> message_complete (ep w' s)"
  using assms
proof (induction "length (H (\<not> s)) - length (G s)" arbitrary: w G rule: less_induct)
  case less
  show ?case
  proof (cases "message_complete (ep w s)")
    case False
    then show ?thesis using reaches_refl [OF less.prems] by (intro exI [of _ w] exI [of _ G]) simp
  next
    case True
    obtain w1 M where m: "M \<noteq> []" "reaches cv mode w H G w1 H (G(s := G s @ M))"
      using recv_message [OF less.prems True] by (elim exE conjE) rule
    note r1 = reachesD [OF m(2)]
    have rc: "recv_core (H (\<not> s)) (G s @ M) (ep w1 s)" using runningD(9) [OF r1, of s] by simp
    have "unat (rcv_nxt (ep w1 s)) \<le> length (H (\<not> s))" using rc unfolding recv_core_def by (elim conjE)
    then have "length (G s @ M) \<le> length (H (\<not> s))" using recv_core_nxt [OF rc] by linarith
    then have "length (H (\<not> s)) - length ((G(s := G s @ M)) s) < length (H (\<not> s)) - length (G s)"
      using m(1) by (cases M) simp_all
    from less.hyps [OF this r1] obtain w2 G2 where
      "reaches cv mode w1 H (G(s := G s @ M)) w2 H G2" "\<not> message_complete (ep w2 s)" by (elim exE conjE) rule
    then show ?thesis using reaches_trans [OF m(2)] by (intro exI [of _ w2] exI [of _ G2]) simp
  qed
qed

lemma incomplete_short:
  assumes run: "running cv mode w H G" and c: "\<not> message_complete (ep w s)"
  shows "length (rcv_queue (ep w s)) < 128"
proof (cases "rcv_queue (ep w s)")
  case (Cons x xs)
  have o: "outgoing mode (\<not> s) (H (\<not> s) @ queued (ep w (\<not> s))) (sent w (\<not> s))" by (rule session_invD(2) [OF runningD(1) [OF run]])
  have "seg_item x \<in> set (H (\<not> s))" by (subst delivered_history(1) [OF runningD(1) [OF run], of s]) (simp add: Cons)
  then have "fst (seg_item x) < 128" by (intro outgoing_chained(3) [OF o]) simp
  then have "unat (seg_frg x) < 128" by (simp add: word_less_nat_alt)
  then show ?thesis using c by (simp add: message_complete_def Cons)
qed simp

section \<open>A numbered segment arrives\<close>

lemma same_queue:
  assumes "running cv mode w H G" and "running cv mode w' H' G'" and "G' s = G s" and "unat (rcv_nxt (ep w' s)) = unat (rcv_nxt (ep w s))"
  shows "length (rcv_queue (ep w' s)) = length (rcv_queue (ep w s))"
  using recv_core_nxt [OF runningD(9) [OF assms(1), of s]] recv_core_nxt [OF runningD(9) [OF assms(2), of s]] assms(3,4) by simp

lemma window_reach:
  assumes so: "snd_ok k" and inv: "send_inv H R k" and s: "s \<in> set (snd_buf k)"
  shows "length H \<le> unat (seg_sn s) + 65535"
proof -
  have u: "unat (snd_una k) \<le> unat (seg_sn s)" by (rule una_least [OF so inv s])
  have "snd_nxt k = of_nat (length H)" "length H < 2147483648" using inv by (simp_all add: send_inv_def)
  then have n: "unat (snd_nxt k) = length H" by (simp only:) (rule unat_of_nat32, linarith)
  have "unat (seg_sn s) < length H" using send_inv_small [OF inv s] by simp
  then have "int (unat (snd_una k)) \<le> int (unat (snd_nxt k))" using u n by linarith
  then have "uint (snd_nxt k - snd_una k) = int (unat (snd_nxt k)) - int (unat (snd_una k))" by (simp add: uint_diff32)
  then have "int (unat (snd_nxt k)) - int (unat (snd_una k)) \<le> 65535" using snd_window_okD(5) [OF snd_okD(1) [OF so]] by linarith
  then show ?thesis using u n by linarith
qed

text \<open>The number of a segment stays in the send buffer through a flush.\<close>

lemma flush_final_numbers: "snd_ok k \<Longrightarrow> s \<in> set (snd_buf k) \<Longrightarrow> seg_sn s \<in> seg_sn ` set (snd_buf (flush_final k))"
  using flush_buf [of k] by (auto simp: flush_final_fields(3) image_image)

lemma received_next:
  assumes "lively k" and "length (rcv_queue k) < 128"
  shows "unat (rcv_nxt k) \<notin> received k"
  using assms by (auto simp: lively_def received_def word_unat_eq_iff image_iff)

text \<open>The segment a receiver waits for can be sent again and read: it is in the sender's buffer, and resent when its time has come.\<close>

lemma resend_received:
  assumes run: "running cv mode w H G" and a: "ackcount (ep w s) = 0"
    and x: "x \<in> set (snd_buf (ep w (\<not> s)))" "unat (seg_sn x) = unat (rcv_nxt (ep w s))"
  shows "\<exists>w' H'. reaches cv mode w H G w' H' G \<and> unat (rcv_nxt (ep w s)) \<in> received (ep w' s) \<and>
    unat (rcv_nxt (ep w s)) \<le> unat (rcv_nxt (ep w' s))"
proof -
  obtain w2 k2 N2 where t2: "clocked (ep w (\<not> s)) (seg_resendts x) k2" "reaches cv mode w H G w2 (H(\<not> s := H (\<not> s) @ N2)) G"
    "ep w2 (\<not> s) = flush_final k2" "ep w2 (\<not> \<not> s) = ep w (\<not> \<not> s)" "emits cv w2 (H(\<not> s := H (\<not> s) @ N2)) (\<not> \<not> s) k2"
    using tick [OF run, of "\<not> s" "seg_resendts x"] by (elim exE conjE) rule
  define H2 where "H2 = H(\<not> s := H (\<not> s) @ N2)"
  note t2 = t2 [folded H2_def, unfolded not_not]
  note run2 = reachesD [OF t2(2)]
  note c2 = clocked_same [OF t2(1)]
  have so2: "snd_ok k2" using kcp_okD(3) [of k2] runningD(7) [OF run, of "\<not> s"] by (simp add: c2)
  have x2: "x \<in> set (snd_buf k2)" using x(1) by (simp add: c2)
  obtain f where f: "f \<in> set (flush_frames k2)" "h_cmd (fst f) = 81" "h_sn (fst f) = seg_sn x"
    using flush_resends [OF so2 x2 c2(7)] by blast
  obtain fs where fs: "f \<in> set fs" "offer cv w2 H2 s fs" using emitsE [OF t2(5) f(1)] by blast
  have a2: "ackcount (ep w2 s) = 0" "rcv_nxt (ep w2 s) = rcv_nxt (ep w s)" using a by (simp_all add: t2(4))
  obtain w3 where t3: "reaches cv mode w2 H2 G w3 H2 G" "after (ep w2 s) (ep w3 s)"
    "\<forall>f\<in>set fs. handled (length (H2 (\<not> s))) (unat (rcv_nxt (ep w2 s))) f (ep w3 s)"
    using take_offer [OF run2 fs(2) a2(1)] by (elim exE conjE) rule
  obtain y where y: "y \<in> set (snd_buf (ep w2 (\<not> s)))" "seg_sn y = seg_sn x"
    using flush_final_numbers [OF so2 x2] by (auto simp: t2(3))
  have "length (H2 (\<not> s)) \<le> unat (seg_sn y) + 65535"
    by (rule window_reach [OF kcp_okD(3) [OF runningD(7) [OF run2]] runningD(8) [OF run2] y(1)])
  moreover have "unat (rcv_wnd (ep w3 s)) < 65536" by (rule runningD(3) [OF reachesD [OF t3(1)]])
  ultimately have "unat (rcv_nxt (ep w s)) \<in> received (ep w3 s)"
    using t3(3) [rule_format, OF fs(1)] f(2,3) x(2) y(2) by (simp add: handled_def a2)
  moreover have "unat (rcv_nxt (ep w s)) \<le> unat (rcv_nxt (ep w3 s))" using t3(2) by (simp add: after_def a2)
  ultimately show ?thesis using reaches_trans [OF t2(2) t3(1)] by blast
qed

lemma progress_numbered:
  assumes run: "running cv mode w H G" and q: "length (rcv_queue (ep w s)) < 128"
    and lt: "unat (rcv_nxt (ep w s)) < length (H (\<not> s))"
  shows "\<exists>w' H'. reaches cv mode w H G w' H' G \<and> unat (rcv_nxt (ep w s)) < unat (rcv_nxt (ep w' s))"
proof -
  let ?n = "unat (rcv_nxt (ep w s))"
  obtain w1 k1 N1 where t1: "clocked (ep w s) 0 k1" "reaches cv mode w H G w1 (H(s := H s @ N1)) G"
    "ep w1 s = flush_final k1" "ep w1 (\<not> s) = ep w (\<not> s)" using tick [OF run, of s 0] by (elim exE conjE) rule
  define H1 where "H1 = H(s := H s @ N1)"
  have H1: "H1 (\<not> s) = H (\<not> s)" by (simp add: H1_def)
  note reach1 = t1(2) [folded H1_def]
  note run1 = reachesD [OF reach1]
  have so1: "snd_ok k1" using kcp_okD(3) [OF runningD(7) [OF run, of s]] clocked_same(1) [OF t1(1)] runningD(7) [OF run, of s]
    by (simp add: kcp_ok_def)
  note f1 = flush_final_fields [OF so1]
  have e1: "rcv_nxt (ep w1 s) = rcv_nxt (ep w s)" "rcv_queue (ep w1 s) = rcv_queue (ep w s)" "ackcount (ep w1 s) = 0"
    using f1(1,2) clocked_same [OF t1(1)] by (simp_all add: t1(3) loaded_fields_def)
  have "?n \<notin> received (ep w1 s)" using received_next [OF runningD(2) [OF run1, of s]] q by (simp add: e1)
  moreover have "send_inv (H (\<not> s)) (received (ep w1 s)) (ep w1 (\<not> s))" using runningD(8) [OF run1, of "\<not> s"] by (simp add: H1)
  ultimately obtain x where x: "x \<in> set (snd_buf (ep w1 (\<not> s)))" "unat (seg_sn x) = ?n"
    using lt unfolding send_inv_def by auto
  then obtain w3 H3 where w3: "reaches cv mode w1 H1 G w3 H3 G" "?n \<in> received (ep w3 s)" "?n \<le> unat (rcv_nxt (ep w3 s))"
    using resend_received [OF run1 e1(3) x(1)] by (auto simp: e1)
  have "?n \<noteq> unat (rcv_nxt (ep w3 s))"
  proof
    assume eq: "?n = unat (rcv_nxt (ep w3 s))"
    have "length (rcv_queue (ep w3 s)) = length (rcv_queue (ep w s))"
      by (rule same_queue [OF run reachesD [OF w3(1)]]) (simp_all add: eq)
    then have "unat (rcv_nxt (ep w3 s)) \<notin> received (ep w3 s)"
      using received_next [OF runningD(2) [OF reachesD [OF w3(1)], of s]] q by simp
    then show False using w3(2) eq by simp
  qed
  then have "?n < unat (rcv_nxt (ep w3 s))" using w3(3) by simp
  then show ?thesis using reaches_trans [OF reach1 w3(1)] by blast
qed

section \<open>A queued segment is numbered\<close>

text \<open>All that was numbered has arrived, the receiver's queue is short, and the sender has more to number.\<close>

definition waits :: "u32 \<Rightarrow> (bool \<Rightarrow> i32) \<Rightarrow> world \<Rightarrow> (bool \<Rightarrow> hist) \<Rightarrow> (bool \<Rightarrow> hist) \<Rightarrow> bool \<Rightarrow> bool" where
  "waits cv mode w H G s \<longleftrightarrow> running cv mode w H G \<and> length (rcv_queue (ep w s)) < 128 \<and>
     unat (rcv_nxt (ep w s)) = length (H (\<not> s)) \<and> snd_queue (ep w (\<not> s)) \<noteq> []"

definition numbers :: "u32 \<Rightarrow> (bool \<Rightarrow> i32) \<Rightarrow> world \<Rightarrow> (bool \<Rightarrow> hist) \<Rightarrow> (bool \<Rightarrow> hist) \<Rightarrow> bool \<Rightarrow> bool" where
  "numbers cv mode w H G s \<longleftrightarrow> (\<exists>w' H'. reaches cv mode w H G w' H' G \<and> length (rcv_queue (ep w' s)) < 128 \<and>
     unat (rcv_nxt (ep w' s)) < length (H' (\<not> s)))"

lemma numbers_trans: "reaches cv mode w H G w1 H1 G \<Longrightarrow> numbers cv mode w1 H1 G s \<Longrightarrow> numbers cv mode w H G s"
  unfolding numbers_def using reaches_trans by blast

text \<open>Serving that numbers nothing at the sender keeps it waiting.\<close>

lemma waits_reaches:
  assumes "waits cv mode w H G s" and "reaches cv mode w H G w' H' G" and "H' (\<not> s) = H (\<not> s)"
  shows "waits cv mode w' H' G s"
proof -
  have w: "running cv mode w H G" "length (rcv_queue (ep w s)) < 128" "unat (rcv_nxt (ep w s)) = length (H (\<not> s))"
    "snd_queue (ep w (\<not> s)) \<noteq> []" using assms(1) by (simp_all add: waits_def)
  note run' = reachesD [OF assms(2)]
  have "unat (rcv_nxt (ep w' s)) \<le> length (H' (\<not> s))" using runningD(9) [OF run', of s] by (simp add: recv_core_def)
  moreover have "unat (rcv_nxt (ep w s)) \<le> unat (rcv_nxt (ep w' s))" using assms(2) by (simp add: reaches_def)
  ultimately have n: "unat (rcv_nxt (ep w' s)) = length (H (\<not> s))" using w(3) assms(3) by simp
  then have q: "length (rcv_queue (ep w' s)) < 128" using same_queue [OF w(1) run', of s] w(2,3) by simp
  have "length (H' (\<not> s)) + length (snd_queue (ep w' (\<not> s))) = length (H (\<not> s)) + length (snd_queue (ep w (\<not> s)))"
    using assms(2) by (simp add: reaches_def)
  then have "length (snd_queue (ep w' (\<not> s))) = length (snd_queue (ep w (\<not> s)))" using assms(3) by simp
  then have "snd_queue (ep w' (\<not> s)) \<noteq> []" using w(4) by (metis length_0_conv)
  then show ?thesis using run' n q assms(3) by (simp add: waits_def)
qed

text \<open>A tick of the receiver, a tick of the sender (which numbers a segment or not), a datagram for the receiver.\<close>

lemma wait_tick_receiver:
  assumes w: "waits cv mode w H G s"
  shows "\<exists>w' H' k0. clocked (ep w s) now k0 \<and> reaches cv mode w H G w' H' G \<and> waits cv mode w' H' G s \<and>
    ep w' s = flush_final k0 \<and> ep w' (\<not> s) = ep w (\<not> s) \<and> snd_ok k0 \<and> emits cv w' H' (\<not> s) k0 \<and> H' (\<not> s) = H (\<not> s)"
proof -
  have run: "running cv mode w H G" using w by (simp add: waits_def)
  obtain w' k0 N where t: "clocked (ep w s) now k0" "reaches cv mode w H G w' (H(s := H s @ N)) G"
    "ep w' s = flush_final k0" "ep w' (\<not> s) = ep w (\<not> s)" "emits cv w' (H(s := H s @ N)) (\<not> s) k0"
    using tick [OF run, of s now] by (elim exE conjE) rule
  have so: "snd_ok k0" using kcp_okD(3) [of k0] runningD(7) [OF run, of s] clocked_same(1) [OF t(1)] by simp
  have "waits cv mode w' (H(s := H s @ N)) G s" by (rule waits_reaches [OF w t(2)]) simp
  then show ?thesis using t so by (intro exI [of _ w'] exI [of _ "H(s := H s @ N)"] exI [of _ k0]) simp
qed

lemma wait_tick_sender:
  assumes w: "waits cv mode w H G s"
  obtains (numbered) "numbers cv mode w H G s"
    | (more) w' k0 where "clocked (ep w (\<not> s)) now k0" "reaches cv mode w H G w' H G" "waits cv mode w' H G s"
        "ep w' (\<not> s) = flush_final k0" "ep w' s = ep w s" "snd_ok k0"
        "length (snd_queue (flush_final k0)) = length (snd_queue k0)" "emits cv w' H s k0"
proof -
  have W: "running cv mode w H G" "length (rcv_queue (ep w s)) < 128" "unat (rcv_nxt (ep w s)) = length (H (\<not> s))"
    using w by (simp_all add: waits_def)
  obtain w' k0 N where t: "clocked (ep w (\<not> s)) now k0" "reaches cv mode w H G w' (H(\<not> s := H (\<not> s) @ N)) G"
    "ep w' (\<not> s) = flush_final k0" "ep w' (\<not> \<not> s) = ep w (\<not> \<not> s)" "queued (ep w (\<not> s)) = N @ queued (flush_final k0)"
    "emits cv w' (H(\<not> s := H (\<not> s) @ N)) (\<not> \<not> s) k0"
    using tick [OF W(1), of "\<not> s" now] by (elim exE conjE) rule
  note t = t [unfolded not_not]
  note c = clocked_same [OF t(1)]
  show thesis
  proof (cases "N = []")
    case True
    then have H: "H(\<not> s := H (\<not> s) @ N) = H" by simp
    have so: "snd_ok k0" using kcp_okD(3) [of k0] runningD(7) [OF W(1), of "\<not> s"] c(1) by simp
    have "length (queued (ep w (\<not> s))) = length (queued (flush_final k0))" using t(5) True by simp
    then have q: "length (snd_queue (flush_final k0)) = length (snd_queue k0)" by (simp add: queued_def c)
    have "waits cv mode w' H G s" using waits_reaches [OF w t(2)] by (simp only: H simp_thms)
    then show thesis using more [OF t(1) _ _ t(3,4) so q] t(2,6) by (simp only: H)
  next
    case False
    have "numbers cv mode w H G s" unfolding numbers_def
      using t(2,4) W(2,3) False by (intro exI [of _ w'] exI [of _ "H(\<not> s := H (\<not> s) @ N)"]) simp
    then show thesis by (rule numbered)
  qed
qed

lemma wait_take:
  assumes w: "waits cv mode w H G s" and o: "offer cv w H s fs" and a: "ackcount (ep w s) = 0" and f: "f \<in> set fs"
  shows "\<exists>w'. reaches cv mode w H G w' H G \<and> waits cv mode w' H G s \<and> handled (length (H (\<not> s))) (length (H (\<not> s))) f (ep w' s)"
proof -
  have W: "running cv mode w H G" "unat (rcv_nxt (ep w s)) = length (H (\<not> s))" using w by (simp_all add: waits_def)
  obtain w' where t: "reaches cv mode w H G w' H G"
    "\<forall>f\<in>set fs. handled (length (H (\<not> s))) (unat (rcv_nxt (ep w s))) f (ep w' s)"
    using take_offer [OF W(1) o a] by (elim exE conjE) rule
  show ?thesis using t(1) waits_reaches [OF w t(1)] t(2) f W(2) by (intro exI [of _ w']) simp
qed

text \<open>With nothing in flight and an open window two ticks number a segment: the first opens the congestion window.\<close>

lemma number_open:
  assumes w: "waits cv mode w H G s" and b: "snd_buf (ep w (\<not> s)) = []" and r: "rmt_wnd (ep w (\<not> s)) \<noteq> 0"
  shows "numbers cv mode w H G s"
proof (cases rule: wait_tick_sender [OF w, where now = 0, case_names numbered more])
  case (more w1 k1)
  note c1 = clocked_same [OF more(1)] and l1 = flush_final_fields(1) [OF more(6)]
  have k1: "snd_buf k1 = []" "rmt_wnd k1 \<noteq> 0" using b r by (simp_all add: c1)
  have e1: "snd_buf (ep w1 (\<not> s)) = []" "rmt_wnd (ep w1 (\<not> s)) \<noteq> 0" "cwnd (ep w1 (\<not> s)) \<noteq> 0"
    using flush_final_empty [OF more(6) k1(1) more(7)] flush_final_cwnd [of k1] l1 k1(2)
    unfolding more(4) by (simp_all add: loaded_fields_def)
  have "numbers cv mode w1 H G s"
  proof (cases rule: wait_tick_sender [OF more(3), where now = 0, case_names numbered more])
    case two: (more w2 k2)
    note c2 = clocked_same [OF two(1)]
    have W1: "running cv mode w1 H G" "snd_queue (ep w1 (\<not> s)) \<noteq> []" using more(3) by (simp_all add: waits_def)
    have "snd_wnd k2 \<noteq> 0" using runningD(2) [OF W1(1), of "\<not> s"] by (simp add: lively_def c2)
    then have "length (snd_queue (flush_final k2)) < length (snd_queue k2)"
      using e1 W1(2) by (intro flush_numbers [OF two(6)]) (simp_all add: c2)
    then show ?thesis using two(7) by simp
  qed
  then show ?thesis by (rule numbers_trans [OF more(2)])
qed

text \<open>When the receiver has something to say, it reports that everything has arrived and that its window is open.\<close>

lemma number_answered:
  assumes w: "waits cv mode w H G s" and a: "tells (ep w s) \<or> ackcount (ep w s) \<noteq> 0"
  shows "numbers cv mode w H G s"
proof (cases rule: wait_tick_sender [OF w, where now = 0, case_names numbered more])
  case (more w1 k1)
  have a1: "ackcount (ep w1 (\<not> s)) = 0" by (simp add: more(4) flush_final_fields(2) [OF more(6)])
  obtain w2 H2 k2 where t2: "clocked (ep w1 s) 0 k2" "reaches cv mode w1 H G w2 H2 G" "waits cv mode w2 H2 G s"
    "ep w2 s = flush_final k2" "ep w2 (\<not> s) = ep w1 (\<not> s)" "snd_ok k2" "emits cv w2 H2 (\<not> s) k2" "H2 (\<not> s) = H (\<not> s)"
    using wait_tick_receiver [OF more(3), of 0] by (elim exE conjE) rule
  note c2 = clocked_same [OF t2(1)]
  have W2: "running cv mode w2 H2 G" "length (rcv_queue (ep w2 s)) < 128" "unat (rcv_nxt (ep w2 s)) = length (H2 (\<not> s))"
    using t2(3) by (simp_all add: waits_def)
  have "tells k2 \<or> ackcount k2 \<noteq> 0" using a by (simp add: c2 more(5) tells_def)
  then have "flush_frames k2 \<noteq> []" by (rule flush_answers [OF t2(6)])
  then obtain f where "f \<in> set (flush_frames k2)" by (cases "flush_frames k2") auto
  then obtain fs where fs: "set fs \<subseteq> set (flush_frames k2)" "offer cv w2 H2 (\<not> s) fs" using emitsE [OF t2(7)] by blast
  then have last: "last fs \<in> set (flush_frames k2)" by (auto simp: offer_def)
  have a2: "ackcount (ep w2 (\<not> s)) = 0" by (simp add: t2(5) a1)
  obtain w3 where t3: "reaches cv mode w2 H2 G w3 H2 G" "answered (last fs) (ep w3 (\<not> s))"
    using take_offer [OF W2(1) fs(2) a2] by (elim exE conjE) rule
  note run3 = reachesD [OF t3(1)]
  have w3: "waits cv mode w3 H2 G s" by (rule waits_reaches [OF t2(3) t3(1)]) simp
  have "h_una (fst (last fs)) = rcv_nxt k2" using flush_frames_of [OF t2(6) last] by (simp add: frame_of_def)
  moreover have "rcv_nxt (ep w2 s) = rcv_nxt k2" using flush_final_fields(1) [OF t2(6)] by (simp add: t2(4) loaded_fields_def)
  ultimately have u: "unat (h_una (fst (last fs))) = length (H2 (\<not> s))" using W2(3) by simp
  have "snd_buf (ep w3 (\<not> s)) = []"
  proof (rule ccontr)
    assume "snd_buf (ep w3 (\<not> s)) \<noteq> []"
    then obtain x where x: "x \<in> set (snd_buf (ep w3 (\<not> s)))" by (cases "snd_buf (ep w3 (\<not> s))") auto
    then have "length (H2 (\<not> s)) \<le> unat (seg_sn x)" using t3(2) u by (simp add: answered_def)
    then show False using send_inv_small [OF runningD(8) [OF run3] x] by simp
  qed
  moreover have "rmt_wnd (ep w3 (\<not> s)) \<noteq> 0"
  proof -
    have "rcv_ok k2" "lively k2" "unat (rcv_wnd k2) < 65536" "length (rcv_queue k2) < 128"
    proof -
      have W1: "running cv mode w1 H G" "length (rcv_queue (ep w1 s)) < 128" using more(3) by (simp_all add: waits_def)
      show "rcv_ok k2" using kcp_okD(2) [of k2] runningD(7) [OF W1(1), of s] by (simp add: c2)
      show "lively k2" "unat (rcv_wnd k2) < 65536" "length (rcv_queue k2) < 128"
        using runningD(2,3) [OF W1(1), of s] W1(2) by (simp_all add: c2)
    qed
    from wnd_unused_open [OF this(1,2,4,3)] show ?thesis using t3(2) flush_frames_wnd [OF last] by (simp add: answered_def)
  qed
  ultimately have "numbers cv mode w3 H2 G s" by (rule number_open [OF w3])
  then have "numbers cv mode w1 H G s" by (rule numbers_trans [OF reaches_trans [OF t2(2) t3(1)]])
  then show ?thesis by (rule numbers_trans [OF more(2)])
qed

text \<open>A segment still in flight is sent again and acknowledged.\<close>

lemma number_resent:
  assumes w: "waits cv mode w H G s" and a: "ackcount (ep w s) = 0" and x: "x \<in> set (snd_buf (ep w (\<not> s)))"
  shows "numbers cv mode w H G s"
proof (cases rule: wait_tick_sender [OF w, where now = "seg_resendts x", case_names numbered more])
  case (more w1 k1)
  note c = clocked_same [OF more(1)]
  have W: "running cv mode w H G" "running cv mode w1 H G" using w more(3) by (simp_all add: waits_def)
  have x1: "x \<in> set (snd_buf k1)" using x by (simp add: c)
  obtain f where f: "f \<in> set (flush_frames k1)" "h_cmd (fst f) = 81" "h_sn (fst f) = seg_sn x"
    using flush_resends [OF more(6) x1 c(7)] by blast
  obtain fs where fs: "f \<in> set fs" "offer cv w1 H s fs" using emitsE [OF more(8) f(1)] by blast
  have "ackcount (ep w1 s) = 0" by (simp add: more(5) a)
  from wait_take [OF more(3) fs(2) this fs(1)] obtain w2 where
    t2: "reaches cv mode w1 H G w2 H G" "waits cv mode w2 H G s" "handled (length (H (\<not> s))) (length (H (\<not> s))) f (ep w2 s)"
    by (elim exE conjE) rule
  have "length (H (\<not> s)) \<le> unat (seg_sn x) + 65535"
    by (rule window_reach [OF kcp_okD(3) [OF runningD(7) [OF W(1)]] runningD(8) [OF W(1)] x])
  moreover have "unat (seg_sn x) \<le> length (H (\<not> s))" using send_inv_small [OF runningD(8) [OF W(1)] x] by simp
  moreover have "unat (rcv_wnd (ep w2 s)) < 65536" by (rule runningD(3) [OF reachesD [OF t2(1)]])
  ultimately have "0 < unat (ackcount (ep w2 s))" using t2(3) f(2,3) by (simp add: handled_def)
  then have "tells (ep w2 s) \<or> ackcount (ep w2 s) \<noteq> 0" by auto
  from number_answered [OF t2(2) this] have "numbers cv mode w2 H G s" .
  then show ?thesis by (rule numbers_trans [OF reaches_trans [OF more(2) t2(1)]])
qed

text \<open>A closed window is asked about when the probe timer, once armed, runs out.\<close>

lemma number_probed:
  assumes w: "waits cv mode w H G s" and a: "ackcount (ep w s) = 0"
    and r: "rmt_wnd (ep w (\<not> s)) = 0" "probe_wait (ep w (\<not> s)) \<noteq> 0"
  shows "numbers cv mode w H G s"
proof (cases rule: wait_tick_sender [OF w, where now = "ts_probe (ep w (\<not> s))", case_names numbered more])
  case (more w1 k1)
  note c = clocked_same [OF more(1)]
  obtain f where f: "f \<in> set (flush_frames k1)" "h_cmd (fst f) = 83"
    using flush_asks [of k1] r by (auto simp: c)
  obtain fs where fs: "f \<in> set fs" "offer cv w1 H s fs" using emitsE [OF more(8) f(1)] by blast
  have "ackcount (ep w1 s) = 0" by (simp add: more(5) a)
  from wait_take [OF more(3) fs(2) this fs(1)] obtain w2 where
    t2: "reaches cv mode w1 H G w2 H G" "waits cv mode w2 H G s" "handled (length (H (\<not> s))) (length (H (\<not> s))) f (ep w2 s)"
    by (elim exE conjE) rule
  have "tells (ep w2 s)" using t2(3) f(2) by (simp add: handled_def)
  then have "tells (ep w2 s) \<or> ackcount (ep w2 s) \<noteq> 0" by simp
  from number_answered [OF t2(2) this] have "numbers cv mode w2 H G s" .
  then show ?thesis by (rule numbers_trans [OF reaches_trans [OF more(2) t2(1)]])
qed

lemma number_closed:
  assumes w: "waits cv mode w H G s" and a: "ackcount (ep w s) = 0" and r: "rmt_wnd (ep w (\<not> s)) = 0"
  shows "numbers cv mode w H G s"
proof (cases "probe_wait (ep w (\<not> s)) = 0")
  case False
  then show ?thesis by (rule number_probed [OF w a r])
next
  case True
  show ?thesis
  proof (cases rule: wait_tick_sender [OF w, where now = 0, case_names numbered more])
    case (more w1 k1)
    note c = clocked_same [OF more(1)]
    have "rmt_wnd (ep w1 (\<not> s)) = 0" "probe_wait (ep w1 (\<not> s)) \<noteq> 0" "ackcount (ep w1 s) = 0"
      using flush_final_probe_wait [OF more(6)] flush_final_fields(1) [OF more(6)] r True a
      by (simp_all add: more(4,5) loaded_fields_def c)
    then have "numbers cv mode w1 H G s" by (intro number_probed [OF more(3)])
    then show ?thesis by (rule numbers_trans [OF more(2)])
  qed
qed

lemma progress_queued:
  assumes w: "waits cv mode w H G s"
  shows "numbers cv mode w H G s"
proof -
  obtain w1 H1 k1 where t: "reaches cv mode w H G w1 H1 G" "waits cv mode w1 H1 G s" "ep w1 s = flush_final k1" "snd_ok k1"
    using wait_tick_receiver [OF w, of 0] by (elim exE conjE) rule
  have a: "ackcount (ep w1 s) = 0" by (simp add: t(3) flush_final_fields(2) [OF t(4)])
  have "numbers cv mode w1 H1 G s"
  proof (cases "snd_buf (ep w1 (\<not> s))")
    case Nil
    then show ?thesis using number_open [OF t(2) Nil] number_closed [OF t(2) a] by blast
  next
    case (Cons x xs)
    then show ?thesis by (intro number_resent [OF t(2) a, of x]) simp
  qed
  then show ?thesis by (rule numbers_trans [OF t(1)])
qed

section \<open>Everything arrives\<close>

definition outstanding :: "world \<Rightarrow> (bool \<Rightarrow> hist) \<Rightarrow> bool \<Rightarrow> nat" where
  "outstanding w H s = length (H (\<not> s)) + length (snd_queue (ep w (\<not> s))) - unat (rcv_nxt (ep w s))"

lemma progress:
  assumes run: "running cv mode w H G" and q: "length (rcv_queue (ep w s)) < 128" and m: "0 < outstanding w H s"
  shows "\<exists>w' H'. reaches cv mode w H G w' H' G \<and> outstanding w' H' s < outstanding w H s"
proof -
  have "\<exists>w' H'. reaches cv mode w H G w' H' G \<and> unat (rcv_nxt (ep w s)) < unat (rcv_nxt (ep w' s))"
  proof (cases "unat (rcv_nxt (ep w s)) < length (H (\<not> s))")
    case True
    then show ?thesis by (rule progress_numbered [OF run q])
  next
    case False
    then have "waits cv mode w H G s" using run q m runningD(9) [OF run, of s]
      by (auto simp: waits_def outstanding_def recv_core_def)
    from progress_queued [OF this] obtain w1 H1 where
      1: "reaches cv mode w H G w1 H1 G" "length (rcv_queue (ep w1 s)) < 128" "unat (rcv_nxt (ep w1 s)) < length (H1 (\<not> s))"
      unfolding numbers_def by (elim exE conjE) rule
    obtain w2 H2 where 2: "reaches cv mode w1 H1 G w2 H2 G" "unat (rcv_nxt (ep w1 s)) < unat (rcv_nxt (ep w2 s))"
      using progress_numbered [OF reachesD [OF 1(1)] 1(2,3)] by (elim exE conjE) rule
    have "unat (rcv_nxt (ep w s)) \<le> unat (rcv_nxt (ep w1 s))" using 1(1) by (simp add: reaches_def)
    then show ?thesis using reaches_trans [OF 1(1) 2(1)] 2(2) by (intro exI [of _ w2] exI [of _ H2]) simp
  qed
  then obtain w' H' where p: "reaches cv mode w H G w' H' G" "unat (rcv_nxt (ep w s)) < unat (rcv_nxt (ep w' s))"
    by (elim exE conjE) rule
  have "length (H' (\<not> s)) + length (snd_queue (ep w' (\<not> s))) = length (H (\<not> s)) + length (snd_queue (ep w (\<not> s)))"
    using p(1) by (simp add: reaches_def)
  then have "outstanding w' H' s < outstanding w H s" using p(2) m by (simp add: outstanding_def)
  then show ?thesis using p(1) by blast
qed

lemma all_arrive:
  assumes "running cv mode w H G"
  shows "\<exists>w' H' G'. reaches cv mode w H G w' H' G' \<and> outstanding w' H' s = 0 \<and> \<not> message_complete (ep w' s)"
  using assms
proof (induction "outstanding w H s" arbitrary: w H G rule: less_induct)
  case less
  obtain w1 G1 where d: "reaches cv mode w H G w1 H G1" "\<not> message_complete (ep w1 s)"
    using drain [OF less.prems, of s] by (elim exE conjE) rule
  note run1 = reachesD [OF d(1)]
  have le: "outstanding w1 H s \<le> outstanding w H s"
  proof -
    have "length (snd_queue (ep w1 (\<not> s))) = length (snd_queue (ep w (\<not> s)))" "unat (rcv_nxt (ep w s)) \<le> unat (rcv_nxt (ep w1 s))"
      using d(1) by (simp_all add: reaches_def)
    then show ?thesis by (simp add: outstanding_def)
  qed
  show ?case
  proof (cases "outstanding w1 H s = 0")
    case True
    then show ?thesis using d by (intro exI [of _ w1] exI [of _ H] exI [of _ G1] conjI)
  next
    case False
    then obtain w2 H2 where p: "reaches cv mode w1 H G1 w2 H2 G1" "outstanding w2 H2 s < outstanding w1 H s"
      using progress [OF run1 incomplete_short [OF run1 d(2)]] by auto
    have "outstanding w2 H2 s < outstanding w H s" using p(2) le by simp
    from less.hyps [OF this reachesD [OF p(1)]] obtain w3 H3 G3 where
      "reaches cv mode w2 H2 G1 w3 H3 G3" "outstanding w3 H3 s = 0" "\<not> message_complete (ep w3 s)" by (elim exE conjE) rule
    then show ?thesis using reaches_trans [OF d(1) reaches_trans [OF p(1)]]
      by (intro exI [of _ w3] exI [of _ H3] exI [of _ G3]) simp
  qed
qed

text \<open>When nothing is outstanding and no message is complete, the application has everything.\<close>

lemma all_delivered:
  assumes run: "running cv mode w H G" and z: "outstanding w H s = 0" and c: "\<not> message_complete (ep w s)"
  shows "concat (got w s) = concat (sent w (\<not> s))" and "mode (\<not> s) = 0 \<Longrightarrow> got w s = sent w (\<not> s)"
proof -
  note R = runningD [OF run]
  have rc: "unat (rcv_nxt (ep w s)) \<le> length (H (\<not> s))" using R(9) [of s] by (simp add: recv_core_def)
  moreover have le: "length (H (\<not> s)) + length (snd_queue (ep w (\<not> s))) \<le> unat (rcv_nxt (ep w s))" using z by (simp add: outstanding_def)
  ultimately have "length (snd_queue (ep w (\<not> s))) = 0" "unat (rcv_nxt (ep w s)) = length (H (\<not> s))" by linarith+
  then have q: "snd_queue (ep w (\<not> s)) = []" "unat (rcv_nxt (ep w s)) = length (H (\<not> s))" by simp_all
  have o: "outgoing mode (\<not> s) (H (\<not> s)) (sent w (\<not> s))" using session_invD(2) [OF R(1), of "\<not> s"] q(1) by (simp add: queued_def)
  have h: "H (\<not> s) = G s @ map seg_item (rcv_queue (ep w s))" using delivered_history(1) [OF R(1), of s] q(2) by simp
  have "rcv_queue (ep w s) = []"
  proof (rule ccontr)
    assume ne: "rcv_queue (ep w s) \<noteq> []"
    let ?m = "map seg_item (rcv_queue (ep w s))"
    have "chained ?m" using outgoing_chained(1) [OF o] unfolding h by (rule chained_drop)
    moreover have "closed ?m" using outgoing_chained(2) [OF o] ne unfolding h by (simp add: closed_def)
    ultimately have "unat (fst (hd ?m)) < length ?m" using ne by (intro chained_closed_complete) simp_all
    then show False using c ne by (simp add: message_complete_def hd_map)
  qed
  then have g: "H (\<not> s) = G s" using h by simp
  have i: "incoming mode s (G s) (got w s)" by (rule session_invD(3) [OF R(1)])
  show "concat (got w s) = concat (sent w (\<not> s))" using o i g by (simp add: outgoing_def incoming_def)
  show "mode (\<not> s) = 0 \<Longrightarrow> got w s = sent w (\<not> s)" using o i g by (simp add: outgoing_def incoming_def)
qed

text \<open>One direction is finished; serving on keeps it finished.\<close>

definition finished :: "(bool \<Rightarrow> i32) \<Rightarrow> world \<Rightarrow> bool \<Rightarrow> bool" where
  "finished mode w s \<longleftrightarrow> concat (got w s) = concat (sent w (\<not> s)) \<and> (mode (\<not> s) = 0 \<longrightarrow> got w s = sent w (\<not> s))"

lemma finish_one:
  assumes "running cv mode w H G"
  shows "\<exists>w' H' G'. reaches cv mode w H G w' H' G' \<and> finished mode w' s"
proof -
  obtain w' H' G' where a: "reaches cv mode w H G w' H' G'" "outstanding w' H' s = 0" "\<not> message_complete (ep w' s)"
    using all_arrive [OF assms, of s] by (elim exE conjE) rule
  have "finished mode w' s" using all_delivered [OF reachesD [OF a(1)] a(2,3)] by (simp add: finished_def)
  then show ?thesis using a(1) by blast
qed

lemma finished_stays:
  assumes f: "finished mode w s" and r: "reachable cv mode w'" and v: "serve\<^sup>*\<^sup>* w w'"
  shows "finished mode w' s"
proof -
  have k: "sent w' = sent w" "prefix (got w s) (got w' s)" using serves_keep [OF v] by blast+
  have "concat (got w' s) = concat (sent w' (\<not> s))"
  proof (rule prefix_order.antisym)
    show "prefix (concat (got w' s)) (concat (sent w' (\<not> s)))" by (rule delivered_bytes [OF r])
    have "prefix (concat (got w s)) (concat (got w' s))" using k(2) by (auto simp: prefix_def)
    then show "prefix (concat (sent w' (\<not> s))) (concat (got w' s))" using f k(1) by (simp add: finished_def)
  qed
  moreover have "got w' s = sent w' (\<not> s)" if m: "mode (\<not> s) = 0"
  proof (rule prefix_order.antisym)
    show "prefix (got w' s) (sent w' (\<not> s))" by (rule delivered_messages [where mode = mode and cv = cv, OF r m])
    show "prefix (sent w' (\<not> s)) (got w' s)" using k f m by (simp add: finished_def)
  qed
  ultimately show ?thesis by (simp add: finished_def)
qed

section \<open>A conversation can be finished\<close>

text \<open>C3: From every reachable world in which the two receive windows fit the 16 bits of a header (and the bounds on numbers hold),
  serving the two ends, with the clock set as needed and the right datagrams delivered, leads to a world in which
  both applications have received everything the other one has sent, message by message in message mode. So no
  state is a dead end, however the network and the calls came to it.\<close>

theorem session_can_finish:
  assumes "reachable cv mode w" and "\<forall>s. may_number (ep w s)" and "\<forall>s. unat (rcv_wnd (ep w s)) < 65536"
  shows "\<exists>w'. serve\<^sup>*\<^sup>* w w' \<and> sent w' = sent w \<and>
    (\<forall>s. concat (got w' s) = concat (sent w (\<not> s)) \<and> (mode (\<not> s) = 0 \<longrightarrow> got w' s = sent w (\<not> s)))"
proof -
  obtain H G where inv: "session_inv cv mode w H G" and l: "\<forall>s. lively (ep w s)" using reachable_lively [OF assms(1)] by blast
  have run: "running cv mode w H G"
    using inv l assms(3) may_numberD [OF session_invD(1) [OF inv] assms(2) [rule_format]] by (simp add: running_def)
  obtain w1 H1 G1 where 1: "reaches cv mode w H G w1 H1 G1" "finished mode w1 True"
    using finish_one [OF run, of True] by (elim exE conjE) rule
  obtain w2 H2 G2 where 2: "reaches cv mode w1 H1 G1 w2 H2 G2" "finished mode w2 False"
    using finish_one [OF reachesD [OF 1(1)], of False] by (elim exE conjE) rule
  have v: "serve\<^sup>*\<^sup>* w w2" "serve\<^sup>*\<^sup>* w1 w2" using reaches_trans [OF 1(1) 2(1)] 2(1) by (simp_all add: reaches_def)
  have "finished mode w2 True" by (rule finished_stays [OF 1(2) serves_reachable [OF v(1) assms(1)] v(2)])
  with 2(2) have f: "finished mode w2 s" for s by (cases s) simp_all
  have st: "sent w2 = sent w" using serves_keep [OF v(1)] by blast
  have "concat (got w2 s) = concat (sent w (\<not> s)) \<and> (mode (\<not> s) = 0 \<longrightarrow> got w2 s = sent w (\<not> s))" for s
    using f [of s] unfolding finished_def st .
  then show ?thesis using v(1) st by blast
qed

text \<open>The theorem at the world in which end \<open>True\<close> has sent a message and nothing else has happened.\<close>

definition sample_sent :: "(int \<times> ikcpcb) result" where
  "sample_sent = ikcp_send ((fresh 7)\<lparr>stream := 0\<rparr>) [1, 2, 3] 3"

lemma sample_sent_result:
  "case sample_sent of Inr (ret, k) \<Rightarrow> ret = 0 \<and> may_number k \<and> rcv_wnd k = 128 | Inl e \<Rightarrow> False"
  by code_simp

theorem session_can_finish_witness:
  "\<exists>w w'. reachable 7 (\<lambda>_. 0) w \<and> got w False = [] \<and> serve\<^sup>*\<^sup>* w w' \<and> got w' False = [[1, 2, 3]]"
proof -
  obtain k where k: "ikcp_send ((fresh 7)\<lparr>stream := 0\<rparr>) [1, 2, 3] 3 = Inr (0, k)" "may_number k" "rcv_wnd k = 128"
    using sample_sent_result by (auto simp: sample_sent_def split: sum.splits)
  let ?v = "start 7 (\<lambda>_. 0)"
  let ?w = "act True k [] (accepted [1, 2, 3] 0 (ep ?v True) k) [] ?v"
  have "step ?v ?w" by (rule step.send) (simp_all add: start_def k)
  then have r: "reachable 7 (\<lambda>_. 0) ?w" by (rule reachable.step [OF reachable.start])
  have "\<forall>s. may_number (ep ?w s)" "\<forall>s. unat (rcv_wnd (ep ?w s)) < 65536"
    using k(2,3) by (auto simp: start_def may_number_def fresh_eq)
  from session_can_finish [OF r this] obtain w' where
    w': "serve\<^sup>*\<^sup>* ?w w'" "\<forall>s. got w' s = sent ?w (\<not> s)" by auto
  have "got w' False = [[1, 2, 3]]" "got ?w False = []" using w'(2) by (simp_all add: start_def accepted_def)
  then show ?thesis using r w'(1) by blast
qed

end
