(* ===== verification/Kcp_Flow.thy ===== *)
theory Kcp_Flow
  imports Kcp_Lively
begin

text \<open>
  Flow control in a conversation whose windows are not reduced (\<open>calm\<close> steps: \<open>ikcp_wndsize\<close> may only enlarge
  them). A receiver never holds more segments than its window in either of its queues, a sender never has more in
  flight than its own window and the receiver's allow, and while the receiving application keeps up no data segment the
  network delivers is refused.

  The proof carries an invariant of the two blocks and the datagrams in the network: what a block knows of the peer's window
  (\<open>rmt_wnd\<close>, and the window fields of all frames under way) is at most that window.
\<close>

section \<open>Calm steps\<close>

definition calm :: "world \<Rightarrow> world \<Rightarrow> bool" where
  "calm w w' \<longleftrightarrow> step w w' \<and>
     (\<forall>s. snd_wnd (ep w s) \<le> snd_wnd (ep w' s) \<and> rcv_wnd (ep w s) \<le> rcv_wnd (ep w' s))"

lemma calm_reachable: "calm\<^sup>*\<^sup>* (start cv mode) w \<Longrightarrow> reachable cv mode w"
  by (induction rule: rtranclp_induct) (auto simp: calm_def intro: reachable.intros)

lemma calm_further: "calm\<^sup>*\<^sup>* u v \<Longrightarrow> calm v w \<Longrightarrow> calm\<^sup>*\<^sup>* u w"
  by (rule rtranclp.rtrancl_into_rtrancl)

section \<open>The receive side keeps within its window\<close>

definition roomy :: "ikcpcb \<Rightarrow> bool" where
  "roomy kcp \<longleftrightarrow> length (rcv_queue kcp) \<le> unat (rcv_wnd kcp) \<and>
     (\<forall>s\<in>set (rcv_buf kcp). unat (seg_sn s) < unat (rcv_nxt kcp) + unat (rcv_wnd kcp))"

lemma roomy_cong:
  "rcv_queue k = rcv_queue k' \<Longrightarrow> rcv_buf k = rcv_buf k' \<Longrightarrow> rcv_nxt k = rcv_nxt k' \<Longrightarrow> rcv_wnd k = rcv_wnd k' \<Longrightarrow>
    roomy k = roomy k'"
  by (simp add: roomy_def)

text \<open>Distances in numbers that do not wrap.\<close>

lemma seg_off_unat:
  assumes "ordered nxt xs" and "s \<in> set xs" and "unat nxt < 2147483648" and "unat (seg_sn s) < 2147483648"
  shows "seg_off nxt s = int (unat (seg_sn s)) - int (unat nxt)"
proof -
  have "seg_off nxt s < 2147483648" by (rule ordered_bound [OF assms(1,2)])
  then have "0 \<le> itimediff (seg_sn s) nxt" by (simp add: itimediff_nonneg_iff seg_off_def)
  from itimediff_nonneg [OF this] itimediff_unat [OF assms(4,3)] show ?thesis by (simp add: seg_off_def)
qed

lemma roomy_buf:
  assumes r: "roomy kcp" and ok: "rcv_ok kcp" and c: "recv_core H G kcp"
  shows "length (rcv_buf kcp) \<le> unat (rcv_wnd kcp)"
proof (rule ordered_length [OF rcv_okD(7) [OF ok]], intro ballI)
  fix s assume s: "s \<in> set (rcv_buf kcp)"
  have "unat (rcv_nxt kcp) < 2147483648" "unat (seg_sn s) < 2147483648" using c s by (auto simp: recv_core_def matches_def)
  note seg_off_unat [OF rcv_okD(7) [OF ok] s this]
  moreover have "unat (seg_sn s) < unat (rcv_nxt kcp) + unat (rcv_wnd kcp)" using r s by (simp add: roomy_def)
  ultimately show "seg_off (rcv_nxt kcp) s < int (unat (rcv_wnd kcp))" by linarith
qed

lemma rcv_move_queue:
  "unat (rcv_wnd kcp) < 2147483648 \<Longrightarrow> unat (nrcv_que kcp) = length (rcv_queue kcp) \<Longrightarrow>
    length (rcv_queue kcp) \<le> unat (rcv_wnd kcp) \<Longrightarrow> length (rcv_queue (rcv_move kcp)) \<le> unat (rcv_wnd kcp)"
proof (induction kcp rule: rcv_move_induct)
  case (stop kcp)
  then show ?case by simp
next
  case (step kcp seg rest kcp')
  have "unat (nrcv_que kcp) < unat (rcv_wnd kcp)" using step.hyps(3) by (simp add: word_less_nat_alt)
  moreover from this have "unat (nrcv_que kcp + 1) = Suc (unat (nrcv_que kcp))"
    using step.prems(1) by (intro unat_Suc_small) linarith
  ultimately show ?case using step.IH step.prems(1,2) by (simp add: step.hyps(4,5))
qed

lemma rcv_move_buf: "set (rcv_buf (rcv_move kcp)) \<subseteq> set (rcv_buf kcp)"
proof -
  obtain moved where "rcv_queue (rcv_move kcp) = rcv_queue kcp @ moved" using rcv_move_prefix by blast
  then have "rcv_buf kcp = moved @ rcv_buf (rcv_move kcp)" using rcv_move_keeps [of kcp] by simp
  then show ?thesis by auto
qed

text \<open>More segments in the queue, fewer in the buffer.\<close>

lemma rcv_move_roomy:
  assumes ok: "rcv_ok kcp" and c: "recv_core H G kcp" and r: "roomy kcp"
  shows "roomy (rcv_move kcp)" and "unat (rcv_nxt kcp) \<le> unat (rcv_nxt (rcv_move kcp))"
proof -
  obtain moved where "rcv_queue (rcv_move kcp) = rcv_queue kcp @ moved" using rcv_move_prefix by blast
  then show n: "unat (rcv_nxt kcp) \<le> unat (rcv_nxt (rcv_move kcp))"
    using recv_core_nxt [OF c] recv_core_nxt [OF conjunct1 [OF recv_move_link [OF c]]] by simp
  have w: "rcv_wnd (rcv_move kcp) = rcv_wnd kcp" using rcv_move_frame [of kcp] by auto
  have "length (rcv_queue (rcv_move kcp)) \<le> unat (rcv_wnd kcp)"
    by (rule rcv_move_queue [OF rcv_okD(4) [OF ok] rcv_ok_nrcv [OF ok]]) (use r in \<open>simp add: roomy_def\<close>)
  moreover have "unat (seg_sn s) < unat (rcv_nxt (rcv_move kcp)) + unat (rcv_wnd kcp)" if "s \<in> set (rcv_buf (rcv_move kcp))" for s
  proof -
    have "s \<in> set (rcv_buf kcp)" using that rcv_move_buf by blast
    then have "unat (seg_sn s) < unat (rcv_nxt kcp) + unat (rcv_wnd kcp)" using r by (simp add: roomy_def)
    with n show ?thesis by linarith
  qed
  ultimately show "roomy (rcv_move kcp)" by (simp add: roomy_def w)
qed

text \<open>The window test of the code, in numbers that do not wrap.\<close>

lemma window_test:
  assumes "unat nxt \<le> unat sn" and "unat sn < 2147483648" and "unat wnd < 2147483648"
  shows "itimediff sn (nxt + wnd) < 0 \<longleftrightarrow> unat sn < unat nxt + unat wnd"
proof -
  have "int (unat nxt) \<le> int (unat sn)" "int (unat sn) < 2147483648" "int (unat wnd) < 2147483648" using assms by linarith+
  then have u: "uint nxt \<le> uint sn" "uint sn < 2147483648" "uint wnd < 2147483648" by simp_all
  then have "uint (sn - nxt) = uint sn - uint nxt" by (simp add: uint_diff32)
  moreover from this u have "uint (sn - nxt) < 2147483648" using uint32_range [of nxt] by linarith
  ultimately have "itimediff sn (nxt + wnd) = uint sn - uint nxt - uint wnd"
    using itimediff_base [of sn nxt "nxt + wnd"] u(3) by simp
  also have "\<dots> = int (unat sn) - int (unat nxt) - int (unat wnd)" by simp
  finally show ?thesis by linarith
qed

lemma parse_data_roomy:
  assumes c: "recv_core H G kcp" and ok: "rcv_ok kcp" and m: "matches H new" and s: "seg_ok new"
    and ge: "0 \<le> itimediff (seg_sn new) (rcv_nxt kcp)" and lt: "itimediff (seg_sn new) (rcv_nxt kcp + rcv_wnd kcp) < 0"
    and r: "roomy kcp"
  shows "roomy (ikcp_parse_data kcp new)"
proof -
  define k where "k = kcp\<lparr>rcv_buf := rcv_insert new (rcv_buf kcp),
    nrcv_buf := (if fst (rcv_search (seg_sn new) (rev (rcv_buf kcp)) []) then nrcv_buf kcp else nrcv_buf kcp + 1)\<rparr>"
  have p: "ikcp_parse_data kcp new = rcv_move k" using ge lt by (simp add: ikcp_parse_data_insert k_def)
  have kok: "rcv_ok k" unfolding k_def by (rule rcv_insert_ok [OF ok s]) (use ge in linarith)
  note set = rcv_insert_set [OF ok ge]
  have f: "rcv_queue k = rcv_queue kcp" "rcv_nxt k = rcv_nxt kcp" "rcv_wnd k = rcv_wnd kcp" by (simp_all add: k_def)
  have sub: "set (rcv_buf k) \<subseteq> insert new (set (rcv_buf kcp))" using set(2) by (simp add: k_def)
  have "recv_core H G k" using c m sub unfolding recv_core_def f by blast
  moreover have small: "unat (rcv_nxt kcp) < 2147483648" "unat (seg_sn new) < 2147483648"
    using c m by (simp_all add: recv_core_def matches_def)
  then have "unat (rcv_nxt kcp) \<le> unat (seg_sn new)" using ge itimediff_unat [OF small(2,1)] by linarith
  with window_test small lt rcv_okD(4) [OF ok] have "unat (seg_sn new) < unat (rcv_nxt kcp) + unat (rcv_wnd kcp)" by blast
  then have "roomy k" using r sub unfolding roomy_def f by blast
  ultimately show ?thesis unfolding p by (intro rcv_move_roomy [OF kok])
qed

text \<open>A data frame is stored when it lies below the end of the window.\<close>

lemma input_push_roomy:
  assumes ok: "kcp_ok kcp" and n: "unat (ackcount kcp) < 2147483648" and inv: "recv_inv H G kcp" and r: "roomy kcp"
    and len: "length data = unat (h_len h)" "0 \<le> sint (h_len h)"
    and item: "unat (h_sn h) < length H" "H ! unat (h_sn h) = (ucast (h_frg h), data)"
    and p: "input_push kcp h data = Inr k"
  shows "roomy k" and "unat (h_sn h) < unat (rcv_nxt kcp) + unat (rcv_wnd kcp) \<Longrightarrow> unat (h_sn h) \<in> received k"
proof -
  have c: "recv_core H G kcp" using inv by (simp add: recv_inv_def)
  have small: "unat (rcv_nxt kcp) < 2147483648" "unat (h_sn h) < 2147483648" "unat (rcv_wnd kcp) < 2147483648"
    using c item(1) rcv_okD(4) [OF kcp_okD(2) [OF ok]] by (simp_all add: recv_core_def)
  have i: "recv_inv H G k" and rs: "received kcp \<subseteq> received k"
    using input_push_link [OF ok n inv len(1) item] by (simp_all add: p)
  show "unat (h_sn h) \<in> received k" if w: "unat (h_sn h) < unat (rcv_nxt kcp) + unat (rcv_wnd kcp)"
  proof (cases "unat (rcv_nxt kcp) \<le> unat (h_sn h)")
    case True
    then have "itimediff (h_sn h) (rcv_nxt kcp + rcv_wnd kcp) < 0" using window_test [OF True small(2,3)] w by simp
    then have "acks k = acks kcp @ [(h_sn h, h_ts h)]" using input_push_effect [OF ok n len(1)] by (simp add: p)
    then show ?thesis using i by (simp add: recv_inv_def)
  next
    case False
    then have "unat (h_sn h) \<in> received kcp" by (simp add: received_def)
    with rs show ?thesis by blast
  qed
  show "roomy k"
  proof (cases "itimediff (h_sn h) (rcv_nxt kcp + rcv_wnd kcp) < 0")
    case False
    then show ?thesis using p r by (simp add: input_push_def)
  next
    case lt: True
    obtain a b where ap: "ikcp_ack_push kcp (h_sn h) (h_ts h) = Inr (kcp\<lparr>acklist := a, ackblock := b, ackcount := ackcount kcp + 1\<rparr>)"
      using ikcp_ack_push_appends [OF kcp_okD(4) [OF ok] n] by blast
    define k1 where "k1 = kcp\<lparr>acklist := a, ackblock := b, ackcount := ackcount kcp + 1\<rparr>"
    let ?new = "input_seg h data"
    have all: "take (unat (h_len h)) data = data" by (simp add: len(1) [symmetric])
    have k: "k = (if itimediff (h_sn h) (rcv_nxt k1) \<ge> 0 then ikcp_parse_data k1 ?new else k1)"
      using p lt by (auto simp: input_push_def ap k1_def all)
    have "rcv_ok k1" using rcv_ok_cong [of k1 kcp] kcp_okD(2) [OF ok] by (simp add: k1_def)
    moreover have "recv_core H G k1" using c recv_core_cong [of k1 kcp] by (simp add: k1_def)
    moreover have r1: "roomy k1" using r roomy_cong [of k1 kcp] by (simp add: k1_def)
    moreover have "seg_ok ?new" using input_seg_ok [of h data] len by (simp add: all)
    moreover have new: "seg_sn ?new = h_sn h" "matches H ?new" using item by (simp_all add: input_seg_def matches_def seg_item_def)
    moreover have "itimediff (seg_sn ?new) (rcv_nxt k1 + rcv_wnd k1) < 0" using lt by (simp add: new(1) k1_def)
    ultimately show ?thesis using parse_data_roomy [of H G k1 ?new] by (auto simp: k)
  qed
qed

section \<open>A frame and a datagram\<close>

text \<open>A block whose peer's window is \<open>X\<close>.\<close>

definition heeds :: "nat \<Rightarrow> ikcpcb \<Rightarrow> bool" where
  "heeds X kcp \<longleftrightarrow> roomy kcp \<and> unat (rmt_wnd kcp) \<le> X"

definition stored :: "frame \<Rightarrow> ikcpcb \<Rightarrow> bool" where
  "stored f kcp \<longleftrightarrow> (h_cmd (fst f) = 81 \<longrightarrow> unat (h_sn (fst f)) \<in> received kcp)"

lemma heeds_cong:
  "rcv_queue k = rcv_queue k' \<Longrightarrow> rcv_buf k = rcv_buf k' \<Longrightarrow> rcv_nxt k = rcv_nxt k' \<Longrightarrow> rcv_wnd k = rcv_wnd k' \<Longrightarrow>
    rmt_wnd k = rmt_wnd k' \<Longrightarrow> heeds X k = heeds X k'"
  using roomy_cong [of k k'] by (simp add: heeds_def)

lemma unat_wide: "unat (ucast (w :: u16) :: u32) = unat w"
proof -
  have "unat w < 4294967296" using unsigned_less [of w, where 'a = nat] by simp
  then show ?thesis by (simp add: unsigned_ucast_eq unsigned_take_bit_eq take_bit_nat_eq_self)
qed

lemma input_frame_heeds:
  assumes inv: "end_inv c H R H' G P (Suc n) kcp" and f: "good_frame (fst c) H' R f" and l: "lively kcp"
    and h: "heeds X kcp" and w: "unat (h_wnd (fst f)) \<le> X" and r: "input_frame kcp (fst f) (snd f) fa = Inr (k, fa')"
  shows "heeds X k" and "unat (h_sn (fst f)) < unat (rcv_nxt kcp) + unat (rcv_wnd kcp) \<Longrightarrow> stored f k"
proof -
  let ?h = "fst f" and ?u = "input_una kcp (fst f)"
  have ok: "kcp_ok kcp" "unat (ackcount kcp) < 2147483648" and s: "send_inv H R kcp" and ri: "recv_inv H' G kcp"
    using inv by (simp_all add: end_inv_def input_ok_def)
  have len: "length (snd f) = unat (h_len ?h)" "0 \<le> sint (h_len ?h)" using good_frame_shape [OF inv f] by simp_all
  have uok: "kcp_ok ?u" by (rule input_una_ok(1) [OF ok(1)])
  note same = input_una_receive [OF ok(1), of ?h]
  have n: "unat (ackcount ?u) < 2147483648" using ok(2) by (simp add: same)
  have lu: "lively ?u" using input_una_after [OF ok(1) l] by (simp add: after_def)
  have "rmt_wnd ?u = ucast (h_wnd ?h)" using input_una_answered(1) [OF ok(1) s] f by (simp add: good_frame_def)
  then have hu: "heeds X ?u" using h w roomy_cong [of ?u kcp] same by (simp add: heeds_def unat_wide)
  have cmd: "h_cmd ?h \<in> {81, 82, 83, 84}" using f by (simp add: good_frame_def)
  from r cmd have "heeds X k \<and> (unat (h_sn ?h) < unat (rcv_nxt ?u) + unat (rcv_wnd ?u) \<longrightarrow> stored f k)"
  proof (cases rule: input_frame_cases)
    case ack
    have "rcv_wnd k = rcv_wnd ?u" using input_ack_after(1) [OF uok lu] by (simp add: ack(2) after_def)
    then have "heeds X k = heeds X ?u"
      using input_ack_after(2) [OF uok lu] by (intro heeds_cong) (simp_all add: ack(2) input_ack_receive)
    then show ?thesis using hu ack(1) by (simp add: stored_def)
  next
    case push
    have "recv_inv H' G ?u" using recv_inv_cong [OF same(1,3,4,5)] ri by simp
    moreover have "unat (h_sn ?h) < length H'" "H' ! unat (h_sn ?h) = (ucast (h_frg ?h), snd f)"
      using f push(1) by (simp_all add: good_frame_def)
    moreover have "roomy ?u" using hu by (simp add: heeds_def)
    moreover have "rmt_wnd k = rmt_wnd ?u" using input_push_fields [OF uok n push(2) len lu] by simp
    ultimately show ?thesis using input_push_roomy [OF uok n _ _ len _ _ push(2), of H' G] hu
      by (simp add: heeds_def stored_def)
  next
    case ask
    have "heeds X k = heeds X ?u" unfolding ask(2) by (rule heeds_cong) simp_all
    then show ?thesis using hu ask(1) by (simp add: stored_def)
  next
    case tell
    then show ?thesis using hu by (simp add: stored_def)
  qed
  then show "heeds X k" and "unat (h_sn (fst f)) < unat (rcv_nxt kcp) + unat (rcv_wnd kcp) \<Longrightarrow> stored f k"
    by (simp_all add: same)
qed

text \<open>The frames of a datagram one after the other; \<open>ps\<close> are those behind us.\<close>

definition absorb :: "u32 \<times> bool \<times> i32 \<times> u32 \<Rightarrow> hist \<Rightarrow> nat set \<Rightarrow> hist \<Rightarrow> hist \<Rightarrow> ikcpcb \<Rightarrow> nat \<Rightarrow> frame list \<Rightarrow> frame list \<Rightarrow> ikcpcb \<Rightarrow> bool" where
  "absorb c H R H' G k0 X ds fs k \<longleftrightarrow>
     (\<exists>ps. ds = ps @ fs \<and> end_inv c H R H' G (received k0) (length fs) k \<and> after k0 k \<and> heeds X k \<and>
       (length H' \<le> unat (rcv_nxt k0) + unat (rcv_wnd k0) \<longrightarrow> (\<forall>f\<in>set ps. stored f k)))"

interpretation absorption: frame_run "absorb c H R H' G k0 X ds"
    "\<lambda>f. good_frame (fst c) H' R f \<and> unat (h_wnd (fst f)) \<le> X" for c H R H' G k0 X ds
proof
  fix f fs kcp fa
  assume a: "absorb c H R H' G k0 X ds (f # fs) kcp" and f: "good_frame (fst c) H' R f \<and> unat (h_wnd (fst f)) \<le> X"
  obtain ps where p: "ds = ps @ f # fs" "end_inv c H R H' G (received k0) (Suc (length fs)) kcp" "after k0 kcp" "heeds X kcp"
    "length H' \<le> unat (rcv_nxt k0) + unat (rcv_wnd k0) \<longrightarrow> (\<forall>f\<in>set ps. stored f kcp)"
    using a by (auto simp: absorb_def)
  note g = conjunct1 [OF f]
  obtain k fa' where k: "input_frame kcp (fst f) (snd f) fa = Inr (k, fa')" "end_inv c H R H' G (received k0) (length fs) k"
    using input_frame_link [OF p(2) g, of fa] by (auto elim!: yieldsE)
  have l: "lively kcp" using p(3) by (simp add: after_def)
  have e: "after kcp k" using input_frame_after [OF p(2) g l k(1)] by blast
  note q = input_frame_heeds [OF p(2) g l p(4) conjunct2 [OF f] k(1)]
  have "stored x k" if x: "x \<in> set (ps @ [f])" and w: "length H' \<le> unat (rcv_nxt k0) + unat (rcv_wnd k0)" for x
  proof (cases "x = f")
    case True
    have "unat (h_sn (fst f)) < unat (rcv_nxt kcp) + unat (rcv_wnd kcp)" if "h_cmd (fst f) = 81"
      using that g w p(3) by (simp add: good_frame_def after_def)
    then show ?thesis using q(2) True by (auto simp: stored_def)
  next
    case False
    then have "stored x kcp" using x w p(5) by simp
    then show ?thesis using e by (auto simp: stored_def after_def)
  qed
  then have "absorb c H R H' G k0 X ds fs k" unfolding absorb_def
    using p(1) k(2) after_trans [OF p(3) e] q(1) by (intro exI [of _ "ps @ [f]"]) simp
  then show "yields (input_frame kcp (fst f) (snd f) fa) (\<lambda>(k, fa'). absorb c H R H' G k0 X ds fs k)" by (simp add: k(1))
  show "length (snd f) = unat (h_len (fst f)) \<and> 0 \<le> sint (h_len (fst f)) \<and> h_conv (fst f) = conv kcp \<and> known_cmd (h_cmd (fst f))"
    by (rule good_frame_shape [OF p(2) g])
qed (auto simp: absorb_def end_inv_def input_ok_def)

section \<open>What is in flight\<close>

definition in_flight :: "ikcpcb \<Rightarrow> int" where
  "in_flight kcp = uint (snd_nxt kcp - snd_una kcp)"

text \<open>Acknowledged segments only leave.\<close>

lemma in_flight_shrinks:
  assumes so: "snd_ok kcp" and so': "snd_ok k" and n: "snd_nxt k = snd_nxt kcp"
    and sub: "seg_sn ` set (snd_buf k) \<subseteq> seg_sn ` set (snd_buf kcp)"
  shows "in_flight k \<le> in_flight kcp"
proof (cases "snd_buf k")
  case Nil
  then show ?thesis using snd_okD(2) [OF so'] by (simp add: in_flight_def first_unacked_def)
next
  case (Cons x xs)
  obtain s where s: "s \<in> set (snd_buf kcp)" "seg_sn x = seg_sn s" using sub by (auto simp: Cons)
  have off: "seg_off (snd_una kcp) s < in_flight kcp" using snd_window_okD(4) [OF snd_okD(1) [OF so] s(1)] by (simp add: in_flight_def)
  have "snd_nxt k - snd_una k = (snd_nxt kcp - snd_una kcp) - (seg_sn s - snd_una kcp)"
    using snd_okD(2) [OF so'] s(2) by (simp add: n first_unacked_def Cons)
  moreover have "uint (a - b) = uint a - uint b" if "uint b < uint a" for a b :: u32 using that by (simp add: uint_diff32)
  ultimately have "in_flight k = in_flight kcp - seg_off (snd_una kcp) s"
    using off unfolding in_flight_def seg_off_def by (simp only:)
  then show ?thesis using seg_off_nonneg [of "snd_una kcp" s] by linarith
qed

lemma in_flight_buf:
  assumes "snd_ok kcp"
  shows "int (length (snd_buf kcp)) \<le> in_flight kcp"
proof -
  note w = snd_window_okD [OF snd_okD(1) [OF assms]]
  have "length (snd_buf kcp) \<le> nat (in_flight kcp)"
    by (rule ordered_length [OF w(3)]) (use w(4) in \<open>simp add: in_flight_def\<close>)
  moreover have "0 \<le> in_flight kcp" by (simp add: in_flight_def)
  ultimately show ?thesis by linarith
qed

section \<open>The invariant of a world\<close>

definition within :: "nat \<Rightarrow> ikcpcb \<Rightarrow> bool" where
  "within X kcp \<longleftrightarrow> heeds X kcp \<and> in_flight kcp \<le> int (min (unat (snd_wnd kcp)) X)"

text \<open>A datagram whose frames announce at most \<open>X\<close>.\<close>

definition announces :: "nat \<Rightarrow> byte list \<Rightarrow> bool" where
  "announces X d \<longleftrightarrow> length d < 2147483648 \<and> (\<exists>fs. d = encode_frames fs \<and>
     (\<forall>f\<in>set fs. length (snd f) = unat (h_len (fst f)) \<and> unat (h_wnd (fst f)) \<le> X))"

definition flow_side :: "world \<Rightarrow> bool \<Rightarrow> bool" where
  "flow_side w s \<longleftrightarrow> within (unat (rcv_wnd (ep w (\<not> s)))) (ep w s) \<and>
     (\<forall>d\<in>net w s. announces (unat (rcv_wnd (ep w (\<not> s)))) d)"

definition flow :: "world \<Rightarrow> bool" where
  "flow w \<longleftrightarrow> (\<forall>s. flow_side w s)"

lemma flowD:
  assumes "flow w"
  shows "within (unat (rcv_wnd (ep w (\<not> s)))) (ep w s)" "d \<in> net w s \<Longrightarrow> announces (unat (rcv_wnd (ep w (\<not> s)))) d"
  using assms by (auto simp: flow_def flow_side_def)

text \<open>The fields the invariant reads.\<close>

definition flow_view :: "ikcpcb \<Rightarrow> (IKCPSEG list \<times> IKCPSEG list \<times> u32) \<times> u32 \<times> u32 \<times> u32 \<times> u32 \<times> u32" where
  "flow_view k = ((rcv_queue k, rcv_buf k, rcv_nxt k), rcv_wnd k, rmt_wnd k, snd_nxt k, snd_una k, snd_wnd k)"

lemma within_cong: "flow_view k = flow_view k' \<Longrightarrow> within X k = within X k'"
  using heeds_cong [of k k' X] by (simp add: within_def flow_view_def in_flight_def)

lemma within_mono: "within X k \<Longrightarrow> X \<le> Y \<Longrightarrow> within Y k"
  by (auto simp: within_def heeds_def)

lemma announces_mono: "announces X d \<Longrightarrow> X \<le> Y \<Longrightarrow> announces Y d"
  unfolding announces_def by (elim exE conjE, rule conjI, assumption, rule_tac x = fs in exI) (auto dest: order_trans)

lemma within_larger:
  assumes "within X kcp" and "flow_view k = (fst (flow_view kcp), rw, rmt_wnd kcp, snd_nxt kcp, snd_una kcp, sw)"
    and "rcv_wnd kcp \<le> rw" and "snd_wnd kcp \<le> sw"
  shows "within X k"
proof -
  have "unat (rcv_wnd kcp) \<le> unat rw" "unat (snd_wnd kcp) \<le> unat sw" using assms(3,4) by (simp_all add: word_le_nat_alt)
  then show ?thesis using assms(1,2) by (auto simp: within_def heeds_def roomy_def flow_view_def in_flight_def)
qed

text \<open>One end acts.\<close>

lemma flow_act:
  assumes fl: "flow w" and k: "within (unat (rcv_wnd (ep w (\<not> s)))) k" and le: "rcv_wnd (ep w s) \<le> rcv_wnd k"
    and out: "\<forall>d\<in>set out. announces (unat (rcv_wnd k)) d"
  shows "flow (act s k out a b w)"
proof -
  have le': "unat (rcv_wnd (ep w s)) \<le> unat (rcv_wnd k)" using le by (simp add: word_le_nat_alt)
  have p: "flow_side (act s k out a b w) s" using k flowD(2) [OF fl, of _ s] by (simp add: flow_side_def)
  have q: "flow_side (act s k out a b w) (\<not> s)"
    using within_mono [OF flowD(1) [OF fl, of "\<not> s"]] announces_mono [OF flowD(2) [OF fl, of _ "\<not> s"]] le' out
    by (auto simp: flow_side_def)
  show ?thesis unfolding flow_def by (intro allI both_ends [OF p q])
qed

section \<open>Every calm step keeps it\<close>

lemma send_view:
  assumes "ikcp_send kcp buf len = Inr (ret, k)"
  shows "flow_view k = flow_view kcp"
proof -
  have f: "flow_view (send_fragments n kcp buf len) = flow_view kcp" for n kcp buf len
    by (induction n arbitrary: kcp buf len) (simp_all add: Let_def flow_view_def)
  obtain k1 buf1 len1 where e: "send_extend kcp buf len = (k1, buf1, len1)" by (metis prod_cases3)
  then have "flow_view k1 = flow_view kcp" by (auto simp: send_extend_def Let_def flow_view_def split: if_splits)
  moreover have "k \<in> insert kcp (insert k1 (range (\<lambda>n. send_fragments n k1 buf1 len1) \<union> range (\<lambda>n. send_fragments n kcp buf len)))"
    using assms e by (auto simp: ikcp_send_def Let_def simp del: send_fragments.simps One_nat_def split: if_splits)
  ultimately show ?thesis by (auto simp: f)
qed

lemma recv_within:
  assumes e: "endpoint c H R H' G kcp" and w: "within X kcp" and r: "ikcp_recv kcp len = Inr (ret, bytes, k)"
  shows "within X k"
proof (cases "k = kcp")
  case True
  then show ?thesis using w by simp
next
  case False
  let ?t = "recv_take (len < 0) kcp" and ?rec = "nrcv_que kcp \<ge> rcv_wnd kcp"
  have k: "k = recv_finish ?rec ?t" using r False by (auto simp: ikcp_recv_outcome split: if_splits)
  have "rcv_ok ?t" by (rule recv_take_ok [OF kcp_okD(2) [OF endpointD(1) [OF e]]])
  moreover obtain G' where "recv_core H' G' ?t" using recv_take_link [OF endpointD(4) [OF e], of "len < 0"] by (auto simp: recv_inv_def)
  moreover have "roomy ?t" using w by (auto simp: within_def heeds_def roomy_def recv_take_def Let_def)
  ultimately have m: "roomy (rcv_move ?t)" by (rule rcv_move_roomy(1))
  obtain b nb q nq nx where f: "rcv_move ?t = ?t\<lparr>rcv_buf := b, nrcv_buf := nb, rcv_queue := q, nrcv_que := nq, rcv_nxt := nx\<rparr>"
    using rcv_move_frame by blast
  have "rmt_wnd (rcv_move ?t) = rmt_wnd kcp" "in_flight (rcv_move ?t) = in_flight kcp" "snd_wnd (rcv_move ?t) = snd_wnd kcp"
    by (simp_all add: f in_flight_def) (simp_all add: recv_take_def Let_def)
  then have "within X (rcv_move ?t)" using m w by (simp add: within_def heeds_def)
  moreover have "flow_view k = flow_view (rcv_move ?t)" by (simp add: k recv_finish_def Let_def flow_view_def)
  ultimately show ?thesis using within_cong by blast
qed

lemma clocked_within: "clocked kcp now k \<Longrightarrow> within X k = within X kcp"
  by (rule within_cong) (auto simp: clocked_def flow_view_def)

lemma wnd_unused_le: "unat (ucast (ikcp_wnd_unused kcp) :: u16) \<le> unat (rcv_wnd kcp)"
proof -
  have "unat (ucast (ikcp_wnd_unused kcp) :: u16) \<le> unat (ikcp_wnd_unused kcp)"
    by (simp add: unsigned_ucast_eq unsigned_take_bit_eq take_bit_nat_less_eq_self)
  moreover have "ikcp_wnd_unused kcp \<le> rcv_wnd kcp"
    by (simp add: ikcp_wnd_unused_def word_le_nat_alt word_less_nat_alt unat_sub)
  ultimately show ?thesis by (simp add: word_le_nat_alt)
qed

lemma flush_within:
  assumes e: "endpoint c H R H' G kcp" and cb: "fst (snd c)" and u: "updated kcp \<noteq> 0" and n: "unat (ackcount kcp) < 2147483648"
    and len: "length H + length (snd_queue kcp) < 2147483648" and w: "within X kcp" and r: "ikcp_flush kcp = Inr (k, out)"
  shows "within X k" and "\<forall>d\<in>set out. announces (unat (rcv_wnd k)) d"
proof -
  obtain N fss where f: "ikcp_flush kcp = Inr (flush_final kcp, map encode_frames fss)" "concat fss = flush_frames kcp"
    "\<forall>fs\<in>set fss. fs \<noteq> [] \<and> length (encode_frames fs) < 2147483648"
    "\<forall>f\<in>set (flush_frames kcp). good_frame (fst c) (H @ N) (received kcp) f"
    using flush_effect [OF e cb u n len] by (elim exE conjE) rule
  have k: "k = flush_final kcp" "out = map encode_frames fss" using r f(1) by simp_all
  note ok = endpointD(1) [OF e]
  note lf = flush_final_fields(1) [OF kcp_okD(3) [OF ok], unfolded loaded_fields_def]
  have win: "uint (flush_window kcp) \<le> uint (snd_wnd kcp)" "uint (flush_window kcp) \<le> uint (rmt_wnd kcp)"
    by (simp_all add: flush_window_def imin_eq_min Let_def min_le_iff_disj flip: word_le_def)
  have "output_cb kcp" using cb endpointD(6) [OF e] by simp
  then have "in_flight k \<le> max (in_flight kcp) (uint (flush_window kcp))"
    unfolding in_flight_def using ikcp_flush_window [OF ok r _ u n] by blast
  moreover have "uint (rmt_wnd kcp) \<le> int X" using w by (simp add: within_def heeds_def) (metis of_nat_le_iff uint_nat)
  ultimately have "in_flight k \<le> int (min (unat (snd_wnd kcp)) X)"
    using w win by (simp add: within_def of_nat_min) linarith
  moreover have "heeds X k = heeds X kcp" unfolding k(1) by (rule heeds_cong) (use lf in simp_all)
  ultimately show "within X k" using w lf k(1) by (simp add: within_def)
  show "\<forall>d\<in>set out. announces (unat (rcv_wnd k)) d"
  proof
    fix d assume "d \<in> set out"
    then obtain fs where fs: "fs \<in> set fss" "d = encode_frames fs" by (auto simp: k(2))
    have "length (snd g) = unat (h_len (fst g)) \<and> unat (h_wnd (fst g)) \<le> unat (rcv_wnd k)" if g: "g \<in> set fs" for g
    proof -
      have m: "g \<in> set (flush_frames kcp)" unfolding f(2) [symmetric] using g fs(1) by auto
      then have "length (snd g) = unat (h_len (fst g))" using f(4) by (simp add: good_frame_def)
      moreover have "rcv_wnd k = rcv_wnd kcp" using lf k(1) by simp
      ultimately show ?thesis using flush_frames_wnd [OF m] wnd_unused_le [of kcp] by simp
    qed
    then show "announces (unat (rcv_wnd k)) d" using f(3) fs unfolding announces_def by blast
  qed
qed

text \<open>A datagram is made of its frames in one way only.\<close>

lemma encode_frames_inject:
  "encode_frames fs = encode_frames gs \<Longrightarrow> \<forall>f\<in>set fs. length (snd f) = unat (h_len (fst f)) \<Longrightarrow>
    \<forall>g\<in>set gs. length (snd g) = unat (h_len (fst g)) \<Longrightarrow> fs = gs"
proof (induction fs arbitrary: gs)
  case Nil
  then show ?case using encode_frames_Nil_iff [of gs] by simp
next
  case (Cons f fs)
  then obtain g gs' where gs: "gs = g # gs'" using encode_frames_Nil_iff [of "f # fs"] by (cases gs) auto
  have "decode_header (encode_frames (f # fs)) = decode_header (encode_frames (g # gs'))" using Cons.prems(1) gs by simp
  then have h: "fst f = fst g" and r: "snd f @ encode_frames fs = snd g @ encode_frames gs'"
    by (simp_all add: encode_frame_def hdr.dec_enc)
  have "length (snd f) = length (snd g)" using Cons.prems(2,3) gs h by simp
  with r have "snd f = snd g" "encode_frames fs = encode_frames gs'" by simp_all
  then show ?case using Cons.IH [of gs'] Cons.prems(2,3) gs h by (simp add: prod_eq_iff)
qed

lemma announced_frames:
  assumes "carries cv H R d" and "announces X d"
  obtains fs where "d = encode_frames fs" "\<forall>f\<in>set fs. good_frame cv H R f \<and> unat (h_wnd (fst f)) \<le> X"
proof -
  obtain fs where fs: "d = encode_frames fs" "\<forall>f\<in>set fs. good_frame cv H R f" using assms(1) by (auto simp: carries_def)
  obtain gs where gs: "d = encode_frames gs" "\<forall>g\<in>set gs. length (snd g) = unat (h_len (fst g)) \<and> unat (h_wnd (fst g)) \<le> X"
    using assms(2) by (auto simp: announces_def)
  have "fs = gs" by (rule encode_frames_inject) (use fs gs in \<open>auto simp: good_frame_def\<close>)
  then show thesis using that fs gs by blast
qed

lemma input_within:
  assumes e: "endpoint c H R H' G kcp" and l: "lively kcp" and n: "unat (ackcount kcp) + length d div 24 \<le> 2147483648"
    and d: "carries (fst c) H' R d" "announces X d" and w: "heeds X kcp" and r: "ikcp_input kcp (Some d) = Inr (ret, k)"
  shows "heeds X k \<and> in_flight k \<le> in_flight kcp" and "length H' \<le> unat (rcv_nxt kcp) + unat (rcv_wnd kcp) \<Longrightarrow>
    \<exists>fs. d = encode_frames fs \<and> (\<forall>f\<in>set fs. good_frame (fst c) H' R f \<and> stored f k)"
proof -
  obtain fs where fs: "d = encode_frames fs" "\<forall>f\<in>set fs. good_frame (fst c) H' R f \<and> unat (h_wnd (fst f)) \<le> X"
    using announced_frames [OF d] by blast
  have "(heeds X k \<and> in_flight k \<le> in_flight kcp) \<and> (length H' \<le> unat (rcv_nxt kcp) + unat (rcv_wnd kcp) \<longrightarrow> (\<forall>f\<in>set fs. stored f k))"
  proof (cases "fs = []")
    case True
    then have "k = kcp" using r by (simp add: fs(1) ikcp_input_eq IKCP_OVERHEAD_def)
    then show ?thesis using w True by simp
  next
    case False
    have "length (encode_frames fs) < 2147483648" using d(2) by (simp add: announces_def fs(1))
    note long = long_enough [OF False this]
    note p = endpointD [OF e]
    have "length fs \<le> length d div 24" using length_frames [of fs] by (simp add: fs(1) less_eq_div_iff_mult_less_eq mult.commute)
    then have "end_inv c H R H' G (received kcp) (length fs) kcp" using n p(1-4) by (simp add: end_inv_def input_ok_def)
    then have "absorb c H R H' G kcp X fs fs kcp" using after_refl [OF l] w by (simp add: absorb_def)
    from absorption.input_all [OF this fs(2) long] obtain k1 b cw j where
      i: "k = k1\<lparr>snd_buf := b, cwnd := cw, incr := j\<rparr>" "absorb c H R H' G kcp X fs [] k1"
      using r fs(1) by auto
    have a: "after kcp k1" "heeds X k1"
      "length H' \<le> unat (rcv_nxt kcp) + unat (rcv_wnd kcp) \<longrightarrow> (\<forall>f\<in>set fs. stored f k1)"
      using i(2) by (auto simp: absorb_def)
    have ss: "send_side kcp k" using ikcp_input_send_side [OF p(1) n] by (simp add: r)
    then have "seg_key ` set (snd_buf k) \<subseteq> seg_key ` set (snd_buf kcp)" by (simp add: send_side_def)
    from image_mono [OF this, of fst] have "seg_sn ` set (snd_buf k) \<subseteq> seg_sn ` set (snd_buf kcp)" by (simp add: image_image seg_key_def)
    moreover have "kcp_ok k" using ikcp_input_ok [OF p(1) n] by (simp add: r)
    ultimately have "in_flight k \<le> in_flight kcp"
      using ss by (intro in_flight_shrinks [OF kcp_okD(3) [OF p(1)] kcp_okD(3)]) (simp_all add: send_side_def)
    moreover have "heeds X k = heeds X k1" by (rule heeds_cong) (simp_all add: i(1))
    moreover have "stored f k = stored f k1" for f by (simp add: stored_def i(1) received_def)
    ultimately show ?thesis using a by simp
  qed
  then show "heeds X k \<and> in_flight k \<le> in_flight kcp" and "length H' \<le> unat (rcv_nxt kcp) + unat (rcv_wnd kcp) \<Longrightarrow>
    \<exists>fs. d = encode_frames fs \<and> (\<forall>f\<in>set fs. good_frame (fst c) H' R f \<and> stored f k)"
    using fs by auto
qed

lemma update_within:
  assumes e: "endpoint c H R H' G kcp" and cb: "fst (snd c)" and n: "may_number kcp" and w: "within X kcp"
    and r: "ikcp_update kcp now = Inr (k, out)"
  shows "within X k" and "\<forall>d\<in>set out. announces (unat (rcv_wnd k)) d"
proof -
  obtain k0 where k0: "clocked kcp now k0" "ikcp_update kcp now = ikcp_flush k0 \<or> ikcp_update kcp now = Inr (k0, [])"
    using update_outcome by blast
  note cl = clocked_same [OF k0(1)]
  have w0: "within X k0" using w clocked_within [OF k0(1)] by simp
  have "within X k \<and> (\<forall>d\<in>set out. announces (unat (rcv_wnd k)) d)"
  proof (cases "ikcp_update kcp now = Inr (k0, [])")
    case True
    then show ?thesis using r w0 by simp
  next
    case False
    then have "ikcp_flush k0 = Inr (k, out)" using k0(2) r by metis
    from flush_within [OF clocked_endpoint [OF e k0(1)] cb _ _ _ w0 this] may_numberD [OF e n] show ?thesis by (simp add: cl)
  qed
  then show "within X k" and "\<forall>d\<in>set out. announces (unat (rcv_wnd k)) d" by simp_all
qed

lemma start_flow: "flow (start cv mode)"
  by (simp add: flow_def flow_side_def start_def within_def heeds_def roomy_def in_flight_def fresh_eq)

lemma calm_flow:
  assumes c: "calm w w'" and inv: "session_inv cv mode w H G" and l: "\<forall>t. lively (ep w t)" and fl: "flow w"
  shows "flow w'"
proof -
  have st: "step w w'" and le: "\<And>s. snd_wnd (ep w s) \<le> snd_wnd (ep w' s)" "\<And>s. rcv_wnd (ep w s) \<le> rcv_wnd (ep w' s)"
    using c by (simp_all add: calm_def)
  note e = session_invD(1) [OF inv] and w = flowD(1) [OF fl]
  have act: "flow (act s k out a b w)" if "w' = act s k out a b w" and "within (unat (rcv_wnd (ep w (\<not> s)))) k"
    and "\<forall>d\<in>set out. announces (unat (rcv_wnd k)) d" for s k out a b
    by (rule flow_act [OF fl that(2) _ that(3)]) (use le(2) [of s] that(1) in simp)
  have larger: "flow w'" if a: "w' = act s k [] a b w" and ex: "\<exists>rw sw. flow_view k = (fst (flow_view (ep w s)), rw, rmt_wnd (ep w s), snd_nxt (ep w s), snd_una (ep w s), sw)"
    for s k a b
  proof -
    obtain rw sw where v: "flow_view k = (fst (flow_view (ep w s)), rw, rmt_wnd (ep w s), snd_nxt (ep w s), snd_una (ep w s), sw)"
      using ex by blast
    have "rcv_wnd (ep w s) \<le> rw" "snd_wnd (ep w s) \<le> sw" using le [of s] v by (simp_all add: a flow_view_def)
    from act [OF a within_larger [OF w v this]] show ?thesis by (simp add: a)
  qed
  show ?thesis using st
  proof cases
    case (send buf s ret k)
    have "within (unat (rcv_wnd (ep w (\<not> s)))) k" using w [of s] within_cong [OF send_view [OF send(3)]] by simp
    from act [OF send(1) this] show ?thesis by (simp add: send(1))
  next
    case (recv s len ret bytes k)
    from act [OF recv(1) recv_within [OF e w recv(2)]] show ?thesis by (simp add: recv(1))
  next
    case (update s now k out)
    from act [OF update(1) update_within [OF e _ update(2) w update(3)]] show ?thesis by (simp add: update(1))
  next
    case (flush s k out)
    show ?thesis
    proof (cases "updated (ep w s) = 0")
      case True
      then have "k = ep w s" "out = []" using flush(3) by (simp_all add: flush_not_updated)
      with act [OF flush(1)] w [of s] show ?thesis by (simp add: flush(1))
    next
      case False
      from act [OF flush(1) flush_within [OF e _ False may_numberD [OF e flush(2)] w flush(3)]] show ?thesis by (simp add: flush(1))
    qed
  next
    case (deliver d s ret k)
    have "carries (fst (cv, True, mode s, mss (ep w s))) (H (\<not> s)) (received (ep w (\<not> s))) d" using session_invD(4) [OF inv deliver(2)] by simp
    note i = input_within(1) [OF e _ deliver(3) this flowD(2) [OF fl deliver(2)] _ deliver(4)]
    have "unat (snd_wnd (ep w s)) \<le> unat (snd_wnd k)" using le(1) [of s] by (simp add: deliver(1) word_le_nat_alt)
    then have "within (unat (rcv_wnd (ep w (\<not> s)))) k" using i l w [of s] by (auto simp: within_def)
    from act [OF deliver(1) this] show ?thesis by (simp add: deliver(1))
  next
    case (set_interval s i)
    then show ?thesis by (intro larger [OF set_interval]) (simp add: ikcp_interval_def flow_view_def)
  next
    case (set_nodelay s nd i resend nc)
    then show ?thesis by (intro larger [OF set_nodelay]) (simp add: ikcp_nodelay_fields flow_view_def)
  next
    case (set_wndsize sndwnd rcvwnd s)
    then show ?thesis by (intro larger [OF set_wndsize(1)]) (simp add: ikcp_wndsize_def Let_def flow_view_def)
  next
    case (set_mtu m s malloc)
    then show ?thesis by (intro larger [OF set_mtu(1)]) (simp add: ikcp_setmtu_def flow_view_def)
  qed
qed

lemma calm_inv:
  "calm\<^sup>*\<^sup>* (start cv mode) w \<Longrightarrow> flow w \<and> reachable cv mode w"
proof (induction rule: rtranclp_induct)
  case base
  show ?case using start_flow by (blast intro: reachable.start)
next
  case (step w w')
  then obtain H G where "session_inv cv mode w H G" "\<forall>t. lively (ep w t)" using reachable_lively by blast
  then show ?case using calm_flow [OF step.hyps(2)] step calm_def by (blast intro: reachable.step)
qed

text \<open>A sender knows of no segment beyond the receiver's \<open>rcv_nxt\<close>, if the receiver is not holding back the segment of this number.\<close>

lemma una_reached:
  assumes so: "snd_ok a" and inv: "send_inv H (received b) a" and nxt: "rcv_nxt b \<notin> seg_sn ` set (rcv_buf b)"
  shows "unat (snd_una a) \<le> unat (rcv_nxt b)" and "unat (snd_una a) \<le> length H"
proof -
  have "unat (snd_nxt a) = length H" using inv unat_of_nat32 [of "length H"] by (simp add: send_inv_def)
  then show le: "unat (snd_una a) \<le> length H"
    using snd_okD(2) [OF so] send_inv_small [OF inv] by (cases "snd_buf a") (auto simp: first_unacked_def less_imp_le)
  show "unat (snd_una a) \<le> unat (rcv_nxt b)"
  proof (rule ccontr)
    assume lt: "\<not> ?thesis"
    then have "unat (rcv_nxt b) \<in> (\<lambda>s. unat (seg_sn s)) ` set (snd_buf a) \<union> received b"
    proof -
      have "unat (rcv_nxt b) \<in> {..<length H}" using lt le by simp
      then show ?thesis using inv unfolding send_inv_def by blast
    qed
    then consider s where "s \<in> set (snd_buf a)" "unat (seg_sn s) = unat (rcv_nxt b)"
      | s where "s \<in> set (rcv_buf b)" "unat (seg_sn s) = unat (rcv_nxt b)" by (auto simp: received_def)
    then show False
    proof cases
      case 1
      then show ?thesis using una_least [OF so inv 1(1)] lt by simp
    next
      case 2
      then show ?thesis using nxt by (metis word_unat_eq_iff image_eqI)
    qed
  qed
qed

lemma all_in_window:
  assumes inv: "session_inv cv mode w H G" and l: "lively (ep w s)" and fl: "flow w" and q: "length (rcv_queue (ep w s)) < 128"
  shows "length (H (\<not> s)) \<le> unat (rcv_nxt (ep w s)) + unat (rcv_wnd (ep w s))"
proof -
  let ?a = "ep w (\<not> s)" and ?b = "ep w s"
  note e = endpointD [OF session_invD(1) [OF inv, of "\<not> s"]]
  have snd: "send_inv (H (\<not> s)) (received ?b) ?a" using e(3) by simp
  have nxt: "rcv_nxt ?b \<notin> seg_sn ` set (rcv_buf ?b)" using l q by (auto simp: lively_def)
  note u = una_reached [OF kcp_okD(3) [OF e(1)] snd nxt]
  have n: "unat (snd_nxt ?a) = length (H (\<not> s))" using snd unat_of_nat32 [of "length (H (\<not> s))"] by (simp add: send_inv_def)
  have "int (unat (snd_una ?a)) \<le> int (unat (snd_nxt ?a))" using u(2) n by linarith
  then have "uint (snd_una ?a) \<le> uint (snd_nxt ?a)" by simp
  then have "in_flight ?a = int (unat (snd_nxt ?a)) - int (unat (snd_una ?a))" by (simp add: in_flight_def uint_diff32)
  moreover have "in_flight ?a \<le> int (min (unat (snd_wnd ?a)) (unat (rcv_wnd ?b)))"
    using flowD(1) [OF fl, of "\<not> s"] by (simp only: within_def not_not)
  ultimately show ?thesis using u(1) n by linarith
qed

section \<open>What a conversation promises\<close>

text \<open>C7: Bounded buffers: as long as no window is reduced, neither queue of a receiver ever holds more segments than its window, and a
  send buffer never more than the smaller of its own window and the peer's receive window, however often the network repeats datagrams
  and however old the windows are that they announce.\<close>

theorem session_bounded_memory:
  assumes "calm\<^sup>*\<^sup>* (start cv mode) w"
  shows "length (rcv_queue (ep w s)) \<le> unat (rcv_wnd (ep w s)) \<and> length (rcv_buf (ep w s)) \<le> unat (rcv_wnd (ep w s)) \<and>
    length (snd_buf (ep w s)) \<le> min (unat (snd_wnd (ep w s))) (unat (rcv_wnd (ep w (\<not> s))))"
proof -
  have fl: "flow w" and r: "reachable cv mode w" using calm_inv [OF assms] by simp_all
  obtain H G where inv: "session_inv cv mode w H G" using reachable_inv [OF r] by blast
  note e = endpointD [OF session_invD(1) [OF inv, of s]]
  note w = flowD(1) [OF fl, of s, unfolded within_def heeds_def]
  have "recv_core (H (\<not> s)) (G s) (ep w s)" using e(4) by (simp add: recv_inv_def)
  then have "length (rcv_buf (ep w s)) \<le> unat (rcv_wnd (ep w s))" using roomy_buf [OF _ kcp_okD(2) [OF e(1)]] w by blast
  moreover have "length (rcv_queue (ep w s)) \<le> unat (rcv_wnd (ep w s))" using w by (simp add: roomy_def)
  ultimately show ?thesis using in_flight_buf [OF kcp_okD(3) [OF e(1)]] w by linarith
qed

text \<open>C6: Flow control: as long as no window is reduced and the receiving application keeps up (fewer than 128 segments wait for it), no
  data is refused: reading any datagram of the network, the receiver has afterwards every data segment in it.\<close>

theorem session_flow_control:
  assumes "calm\<^sup>*\<^sup>* (start cv mode) w" and "length (rcv_queue (ep w s)) < 128" and "d \<in> net w s"
    and "unat (ackcount (ep w s)) + length d div 24 \<le> 2147483648"
  shows "\<exists>fs ret k. d = encode_frames fs \<and> ikcp_input (ep w s) (Some d) = Inr (ret, k) \<and>
    (\<forall>f\<in>set fs. h_cmd (fst f) = 81 \<longrightarrow> unat (h_sn (fst f)) \<in> received k)"
proof -
  have fl: "flow w" and r: "reachable cv mode w" using calm_inv [OF assms(1)] by simp_all
  obtain H G where inv: "session_inv cv mode w H G" and l: "lively (ep w s)" using reachable_lively [OF r] by blast
  note e = session_invD(1) [OF inv, of s]
  obtain ret k where i: "ikcp_input (ep w s) (Some d) = Inr (ret, k)"
    using ikcp_input_ok [OF endpointD(1) [OF e] assms(4)] by (auto elim!: yieldsE)
  have c: "carries (fst (cv, True, mode s, mss (ep w s))) (H (\<not> s)) (received (ep w (\<not> s))) d"
    using session_invD(4) [OF inv assms(3)] by simp
  have "heeds (unat (rcv_wnd (ep w (\<not> s)))) (ep w s)" using flowD(1) [OF fl, of s] by (simp add: within_def)
  from input_within(2) [OF e l assms(4) c flowD(2) [OF fl assms(3)] this i all_in_window [OF inv l fl assms(2)]] i
  show ?thesis unfolding stored_def by blast
qed

section \<open>A conversation with data under way\<close>

text \<open>End \<open>True\<close> sends a message and flushes; the windows stay as they were.\<close>

definition sample_busy_run :: "(ikcpcb \<times> byte list list) result" where
  "sample_busy_run =
     bind (ikcp_send sample_sender [1, 2, 3] 3) (\<lambda>(ret, k).
       if ret \<noteq> 0 \<or> \<not> may_number k \<or> flow_view k \<noteq> flow_view sample_sender then Inl No_return
       else bind (ikcp_update k 0) (\<lambda>(k', out).
         if snd_wnd k' \<noteq> snd_wnd k \<or> rcv_wnd k' \<noteq> rcv_wnd k \<or> out = [] \<or> 10000 < int (length (hd out)) then Inl No_return
         else Inr (k', out)))"

lemma sample_busy_run_value: "case sample_busy_run of Inr (k, out) \<Rightarrow> length (snd_buf k) = 1 | Inl e \<Rightarrow> False"
  by code_simp

lemma sample_calm:
  "\<exists>w d. calm\<^sup>*\<^sup>* (start 7 (\<lambda>_. 0)) w \<and> length (snd_buf (ep w True)) = 1 \<and> d \<in> net w False \<and> length d \<le> 10000 \<and>
     ep w False = (fresh 7)\<lparr>stream := 0\<rparr>"
proof -
  obtain k3 out where r: "sample_busy_run = Inr (k3, out)" and b: "length (snd_buf k3) = 1"
    using sample_busy_run_value by (auto split: sum.splits)
  then obtain k2 where
    2: "ikcp_send sample_sender [1, 2, 3] 3 = Inr (0, k2)" "may_number k2" "flow_view k2 = flow_view sample_sender" and
    3: "ikcp_update k2 0 = Inr (k3, out)" "snd_wnd k3 = snd_wnd k2" "rcv_wnd k3 = rcv_wnd k2" "out \<noteq> []" "int (length (hd out)) \<le> 10000"
    unfolding sample_busy_run_def by (auto simp: bind_Inr_iff split: prod.splits if_splits)
  let ?w0 = "start 7 (\<lambda>_. 0)"
  let ?w1 = "act True sample_sender [] [] [] ?w0"
  let ?w2 = "act True k2 [] (accepted [1, 2, 3] 0 (ep ?w1 True) k2) [] ?w1"
  let ?w3 = "act True k3 out [] [] ?w2"
  have f: "snd_wnd sample_sender = snd_wnd (fresh 7)" "rcv_wnd sample_sender = rcv_wnd (fresh 7)"
    by (simp_all add: sample_sender_def ikcp_nodelay_fields)
  have s1: "step ?w0 ?w1"
    using step.set_nodelay [of ?w0 True 1 10 2 1] by (simp add: sample_sender_def start_def)
  have c1: "calm ?w0 ?w1" using s1 f by (simp add: calm_def start_def)
  have s2: "step ?w1 ?w2" by (rule step.send) (simp_all add: 2)
  have c2: "calm ?w1 ?w2" using s2 2(3) by (simp add: calm_def flow_view_def)
  have s3: "step ?w2 ?w3" by (rule step.update [where now = 0]) (simp_all add: 2 3)
  have c3: "calm ?w2 ?w3" using s3 3(2,3) by (simp add: calm_def)
  have "calm\<^sup>*\<^sup>* ?w0 ?w3" 
    by (rule calm_further [OF calm_further [OF calm_further [OF rtranclp.rtrancl_refl c1] c2] c3])
  moreover have "length (snd_buf (ep ?w3 True)) = 1" "hd out \<in> net ?w3 False" "length (hd out) \<le> 10000"
    using b 3(4,5) by simp_all
  moreover have "ep ?w3 False = (fresh 7)\<lparr>stream := 0\<rparr>" by (simp add: start_def)
  ultimately show ?thesis by (intro exI [of _ ?w3] exI [of _ "hd out"] conjI)
qed

theorem session_bounded_memory_witness:
  "\<exists>w. calm\<^sup>*\<^sup>* (start 7 (\<lambda>_. 0)) w \<and> length (snd_buf (ep w True)) = 1 \<and> 1 \<le> unat (rcv_wnd (ep w False))"
proof -
  obtain w where w: "calm\<^sup>*\<^sup>* (start 7 (\<lambda>_. 0)) w" "length (snd_buf (ep w True)) = 1" using sample_calm by blast
  then show ?thesis using session_bounded_memory [OF w(1), of True] by (intro exI [of _ w]) simp
qed

theorem session_flow_control_witness:
  "\<exists>w d fs ret k. calm\<^sup>*\<^sup>* (start 7 (\<lambda>_. 0)) w \<and> d \<in> net w False \<and> d = encode_frames fs \<and>
     ikcp_input (ep w False) (Some d) = Inr (ret, k) \<and> (\<forall>f\<in>set fs. h_cmd (fst f) = 81 \<longrightarrow> unat (h_sn (fst f)) \<in> received k)"
proof -
  obtain w d where w: "calm\<^sup>*\<^sup>* (start 7 (\<lambda>_. 0)) w" "d \<in> net w False" "length d \<le> 10000" "ep w False = (fresh 7)\<lparr>stream := 0\<rparr>"
    using sample_calm by blast
  have "length (rcv_queue (ep w False)) < 128" by (simp add: w(4) fresh_eq)
  moreover have "unat (ackcount (ep w False)) + length d div 24 \<le> 2147483648" using w(3) by (simp add: w(4) fresh_eq)
  ultimately show ?thesis using session_flow_control [OF w(1) _ w(2)] w(1,2) by blast
qed

end
