(* ===== verification/Std_Set.thy ===== *)
theory Std_Set
  imports Kcp_Prelude
begin

text \<open>
  What the C++ sources use of \<open>std::set\<close> and \<open>std::map\<close>: a container ordered by a
  comparator, as the list of its elements in order. \<open>strict_weak\<close> is the requirement the
  standard puts on the comparator; its lemmas say what insertion and removal do under it.
\<close>

type_synonym u64 = "64 word"

text \<open>
  \<open>insert\<close>: an element equivalent to one that is there already is not inserted.
\<close>

fun set_insert :: "('a \<Rightarrow> 'a \<Rightarrow> bool) \<Rightarrow> 'a \<Rightarrow> 'a list \<Rightarrow> 'a list" where
  "set_insert lt x [] = [x]"
| "set_insert lt x (y # ys) =
     (if lt x y then x # y # ys
      else if lt y x then y # set_insert lt x ys
      else y # ys)"

lemma set_insert_subset: "set (set_insert lt x ys) \<subseteq> insert x (set ys)"
  by (induction ys) auto

lemma set_insert_mono: "set ys \<subseteq> set (set_insert lt x ys)"
  by (induction ys) auto

lemma set_insert_cong:
  assumes "\<And>y. y \<in> set ys \<Longrightarrow> lt x y = lt' x y" and "\<And>y. y \<in> set ys \<Longrightarrow> lt y x = lt' y x"
  shows "set_insert lt x ys = set_insert lt' x ys"
  using assms by (induction ys) auto

locale strict_weak =
  fixes lt :: "'a \<Rightarrow> 'a \<Rightarrow> bool"
  assumes irrefl: "\<not> lt x x"
    and transitive: "lt x y \<Longrightarrow> lt y z \<Longrightarrow> lt x z"
    and between: "lt x z \<Longrightarrow> lt x y \<or> lt y z"
begin

lemma asym: "lt x y \<Longrightarrow> \<not> lt y x"
  using irrefl transitive by blast

lemma sorted_distinct: "sorted_wrt lt xs \<Longrightarrow> distinct xs"
  using irrefl by (induction xs) auto

text \<open>Insertion keeps the order.\<close>

lemma sorted_insert: "sorted_wrt lt ys \<Longrightarrow> sorted_wrt lt (set_insert lt x ys)"
proof (induction ys)
  case (Cons y ys)
  show ?case
  proof (cases "lt x y")
    case True
    then show ?thesis using Cons.prems transitive by auto
  next
    case False
    then show ?thesis using Cons set_insert_subset [of lt x ys] by auto
  qed
qed simp

text \<open>An element that is equivalent to none in the container is inserted, once.\<close>

lemma insert_new:
  assumes "\<And>y. y \<in> set ys \<Longrightarrow> lt x y \<or> lt y x"
  shows "set (set_insert lt x ys) = insert x (set ys)"
  using assms by (induction ys) auto

lemma insert_known:
  assumes "sorted_wrt lt ys" and "y \<in> set ys" and "\<not> lt x y" and "\<not> lt y x"
  shows "set_insert lt x ys = ys"
  using assms
proof (induction ys)
  case (Cons z zs)
  show ?case
  proof (cases "z = y")
    case True
    then show ?thesis using Cons.prems by simp
  next
    case False
    then have "y \<in> set zs" "lt z y" using Cons.prems by auto
    then have "lt z x" using between [of z y x] Cons.prems(3) by blast
    then show ?thesis using Cons \<open>y \<in> set zs\<close> asym by auto
  qed
qed simp

text \<open>The inserted element is the first exactly when it is less than all others.\<close>

lemma insert_first:
  assumes "\<And>y. y \<in> set ys \<Longrightarrow> lt x y \<or> lt y x" and "sorted_wrt lt ys"
  shows "hd (set_insert lt x ys) = x \<longleftrightarrow> (\<forall>y\<in>set ys. lt x y)"
proof (cases ys)
  case (Cons y zs)
  show ?thesis
  proof (cases "lt x y")
    case True
    then have "\<forall>z\<in>set zs. lt x z" using assms(2) transitive [OF True] by (simp add: Cons)
    then show ?thesis using True by (simp add: Cons)
  next
    case False
    then have "lt y x" using assms(1) [of y] by (simp add: Cons)
    then have "y \<noteq> x" using irrefl by blast
    then show ?thesis using False \<open>lt y x\<close> by (simp add: Cons)
  qed
qed simp

text \<open>Splitting off the elements up to the first that fails a downward closed test splits by the test.\<close>

lemma takeWhile_filter:
  assumes "sorted_wrt lt xs" and "\<And>x y. lt x y \<Longrightarrow> P y \<Longrightarrow> P x"
  shows "takeWhile P xs = filter P xs" and "dropWhile P xs = filter (\<lambda>x. \<not> P x) xs"
proof -
  have "takeWhile P xs = filter P xs \<and> dropWhile P xs = filter (\<lambda>x. \<not> P x) xs"
    using assms(1)
  proof (induction xs)
    case (Cons x xs)
    show ?case
    proof (cases "P x")
      case False
      then have "\<forall>y\<in>set xs. \<not> P y" using Cons.prems assms(2) by auto
      then show ?thesis using False by (simp add: filter_empty_conv filter_id_conv)
    qed (use Cons in simp)
  qed simp
  then show "takeWhile P xs = filter P xs" and "dropWhile P xs = filter (\<lambda>x. \<not> P x) xs" by simp_all
qed

end

text \<open>A comparator that compares a key.\<close>

lemma strict_weak_key: "strict_weak (\<lambda>x y. (key x :: 'k :: linorder) < key y)"
  by unfold_locales auto

end
