(* ===== verification/Ktimer.thy ===== *)
theory Ktimer
  imports Std_Set "HOL-Library.Product_Lexorder" "HOL-Library.Option_ord"
begin

text \<open>
  ktimer.h and ktimer.cpp: timers and the manager that keeps them ordered by the time they
  expire. The set holds pointers to timers that others may hold too, so timers live in a store and
  the set is the list of their addresses in the order of the tree. Times are milliseconds of the
  steady clock as 64-bit words; the operations get what \<open>CurrentTime()\<close> answers as the argument \<open>now\<close>. A callback is
  abstract (\<open>'f\<close>), or one bound by \<open>addConditionTimer\<close>. The locks make every operation one
  step; the global counter of unique numbers is a field of the manager.
\<close>

section \<open>Timers\<close>

text \<open>\<open>OnTimer c cb\<close> is \<open>std::bind(&onTimer, cond, cb)\<close>; \<open>c\<close> names the condition.\<close>

datatype 'f callback = Call 'f | OnTimer nat "'f option"

record 'f KTimer =
  mTid :: u32
  mTime :: u64
  mRecycleTime :: u64
  mCb :: "'f callback option"
  mUniqueId :: u64

definition KTimer_new :: "u64 \<Rightarrow> u64 \<Rightarrow> 'f callback option \<Rightarrow> u32 \<Rightarrow> u32 \<Rightarrow> u64 \<Rightarrow> 'f KTimer" where
  "KTimer_new now ms cb recycle tid uid =
     \<lparr>mTid = tid, mTime = now + ms, mRecycleTime = ucast recycle, mCb = cb, mUniqueId = uid\<rparr>"

text \<open>The steady clock counts nanoseconds, \<open>ns\<close> since its epoch; the conversion to milliseconds cuts off.\<close>

definition CurrentTime :: "int \<Rightarrow> u64" where
  "CurrentTime ns = word_of_int (c_div ns 1000000)"

lemma uint_CurrentTime:
  assumes "0 \<le> ns" and "ns < 18446744073709551616 * 1000000"
  shows "uint (CurrentTime ns) = ns div 1000000"
proof -
  have "0 \<le> ns div 1000000" "ns div 1000000 < 18446744073709551616" using assms by linarith+
  then show ?thesis using assms(1) by (simp add: CurrentTime_def c_div_nonneg uint_word_of_int)
qed

text \<open>The clock of the timers never goes back, and it is less than a millisecond late.\<close>

lemma CurrentTime_clock:
  assumes "0 \<le> a" and "a \<le> b" and "b < 18446744073709551616 * 1000000"
  shows "CurrentTime a \<le> CurrentTime b" and "uint (CurrentTime a) * 1000000 \<le> a" and "a < (uint (CurrentTime a) + 1) * 1000000"
proof -
  have a: "uint (CurrentTime a) = a div 1000000" and b: "uint (CurrentTime b) = b div 1000000"
    using assms by (intro uint_CurrentTime; linarith)+
  show "CurrentTime a \<le> CurrentTime b" unfolding word_le_def a b using assms(2) by (rule zdiv_mono1) simp
  define q where "q = a div 1000000"
  obtain r where r: "a = q * 1000000 + r" "0 \<le> r" "r < 1000000"
    using that [of "a mod 1000000"] unfolding q_def by simp
  show "uint (CurrentTime a) * 1000000 \<le> a" "a < (uint (CurrentTime a) + 1) * 1000000"
    unfolding a q_def [symmetric] distrib_right using r by simp_all
qed

text \<open>The constructor without arguments and the copy constructor leave \<open>mTid\<close> as it is in memory, \<open>garbage\<close>.\<close>

definition KTimer_default :: "u32 \<Rightarrow> u64 \<Rightarrow> 'f KTimer" where
  "KTimer_default garbage uid = \<lparr>mTid = garbage, mTime = 0, mRecycleTime = 0, mCb = None, mUniqueId = uid\<rparr>"

definition KTimer_copy :: "u32 \<Rightarrow> 'f KTimer \<Rightarrow> 'f KTimer" where
  "KTimer_copy garbage other =
     \<lparr>mTid = garbage, mTime = mTime other, mRecycleTime = mRecycleTime other, mCb = mCb other, mUniqueId = mUniqueId other\<rparr>"

definition getTimeout :: "'f KTimer \<Rightarrow> u64" where
  "getTimeout t = mTime t"

definition getUniqueId :: "'f KTimer \<Rightarrow> u64" where
  "getUniqueId t = mUniqueId t"

definition getCallback :: "'f KTimer \<Rightarrow> 'f callback option" where
  "getCallback t = mCb t"

definition KTimer_assign :: "'f KTimer \<Rightarrow> 'f KTimer \<Rightarrow> 'f KTimer" where
  "KTimer_assign this other =
     this\<lparr>mTime := mTime other, mCb := mCb other, mRecycleTime := mRecycleTime other, mUniqueId := mUniqueId other\<rparr>"

definition KTimer_cancel :: "'f KTimer \<Rightarrow> 'f KTimer" where
  "KTimer_cancel t = t\<lparr>mTime := 0, mCb := None, mRecycleTime := 0\<rparr>"

definition setNextTime :: "u64 \<Rightarrow> 'f KTimer \<Rightarrow> 'f KTimer" where
  "setNextTime timeMs t = t\<lparr>mTime := timeMs\<rparr>"

definition setRecycleTime :: "u64 \<Rightarrow> 'f KTimer \<Rightarrow> 'f KTimer" where
  "setRecycleTime ms t = t\<lparr>mRecycleTime := ms\<rparr>"

definition setCallback :: "'f callback option \<Rightarrow> 'f KTimer \<Rightarrow> 'f KTimer" where
  "setCallback cb t = t\<lparr>mCb := cb\<rparr>"

definition KTimer_update :: "'f KTimer \<Rightarrow> 'f KTimer" where
  "KTimer_update t = (if mRecycleTime t \<noteq> 0 then t\<lparr>mTime := mTime t + mRecycleTime t\<rparr> else t)"

definition KTimer_reset :: "u64 \<Rightarrow> u64 \<Rightarrow> 'f callback option \<Rightarrow> u32 \<Rightarrow> u32 \<Rightarrow> 'f KTimer \<Rightarrow> 'f KTimer" where
  "KTimer_reset now ms cb recycle tid t =
     (if ms < mTime t \<or> cb = None then t
      else t\<lparr>mTime := now + ms, mCb := cb, mRecycleTime := ucast recycle, mTid := tid\<rparr>)"

text \<open>\<open>Comparator\<close>: None is the null pointer.\<close>

definition Comparator :: "'f KTimer option \<Rightarrow> 'f KTimer option \<Rightarrow> bool" where
  "Comparator left right =
     (case (left, right) of
        (None, None) \<Rightarrow> False
      | (None, Some r) \<Rightarrow> True
      | (Some l, None) \<Rightarrow> False
      | (Some l, Some r) \<Rightarrow> if mTime l = mTime r then mUniqueId l < mUniqueId r else mTime l < mTime r)"

text \<open>What a callback invokes, given which conditions are still alive.\<close>

definition onTimer :: "bool \<Rightarrow> 'f option \<Rightarrow> 'f option" where
  "onTimer alive cb = (if alive then cb else None)"

fun invoked :: "(nat \<Rightarrow> bool) \<Rightarrow> 'f callback \<Rightarrow> 'f option" where
  "invoked alive (Call f) = Some f"
| "invoked alive (OnTimer c cb) = onTimer (alive c) cb"

section \<open>The manager\<close>

type_synonym 'f store = "nat \<Rightarrow> 'f KTimer"

record 'f KTimerManager =
  store :: "'f store"
  brk :: nat
  gUniqueIdCount :: u64
  mTickle :: bool
  mTimers :: "nat list"

definition KTimerManager_new :: "u64 \<Rightarrow> 'f KTimerManager" where
  "KTimerManager_new uid = \<lparr>store = (\<lambda>_. KTimer_new 0 0 None 0 0 0), brk = 0, gUniqueIdCount = uid, mTickle = False, mTimers = []\<rparr>"

abbreviation before :: "'f store \<Rightarrow> nat \<Rightarrow> nat \<Rightarrow> bool" where
  "before h p q \<equiv> Comparator (Some (h p)) (Some (h q))"

text \<open>An operation on one timer through a pointer to it.\<close>

definition on_timer :: "nat \<Rightarrow> ('f KTimer \<Rightarrow> 'f KTimer) \<Rightarrow> 'f KTimerManager \<Rightarrow> 'f KTimerManager" where
  "on_timer p f m = m\<lparr>store := (store m)(p := f (store m p))\<rparr>"

definition getNearTimeout :: "u64 \<Rightarrow> 'f KTimerManager \<Rightarrow> u64 \<times> 'f KTimerManager" where
  "getNearTimeout now m =
     (let m = m\<lparr>mTickle := False\<rparr> in
      case mTimers m of
        [] \<Rightarrow> (-1, m)
      | p # _ \<Rightarrow>
          if now \<ge> mTime (store m p) then (0, m)
          else (mTime (store m p) - now, m))"

text \<open>
  Inserting a timer answers the pointer and whether \<open>onTimerInsertedAtFront\<close> is called.
\<close>

definition addTimer_ptr :: "nat option \<Rightarrow> 'f KTimerManager \<Rightarrow> nat option \<times> bool \<times> 'f KTimerManager" where
  "addTimer_ptr timer m =
     (case timer of
        None \<Rightarrow> (None, False, m)
      | Some p \<Rightarrow>
          let m' = m\<lparr>mTimers := set_insert (before (store m)) p (mTimers m)\<rparr>;
              it = hd (filter (\<lambda>q. \<not> before (store m) p q \<and> \<not> before (store m) q p) (mTimers m'));
              atFront = (it = hd (mTimers m') \<and> \<not> mTickle m');
              m' = (if atFront then m'\<lparr>mTickle := True\<rparr> else m')
          in (Some p, atFront, m'))"

definition addTimer :: "bool \<Rightarrow> u64 \<Rightarrow> u64 \<Rightarrow> 'f callback option \<Rightarrow> u32 \<Rightarrow> u32 \<Rightarrow> 'f KTimerManager \<Rightarrow>
    nat option \<times> bool \<times> 'f KTimerManager" where
  "addTimer malloc now ms cb recycle tid m =
     (if \<not> malloc then addTimer_ptr None m
      else let uid = gUniqueIdCount m + 1;
               p = brk m;
               m = m\<lparr>gUniqueIdCount := uid, store := (store m)(p := KTimer_new now ms cb recycle tid uid), brk := p + 1\<rparr>
      in addTimer_ptr (Some p) m)"

definition addConditionTimer :: "bool \<Rightarrow> u64 \<Rightarrow> u64 \<Rightarrow> 'f option \<Rightarrow> nat \<Rightarrow> u32 \<Rightarrow> 'f KTimerManager \<Rightarrow>
    nat option \<times> bool \<times> 'f KTimerManager" where
  "addConditionTimer malloc now ms cb cond recycle m = addTimer malloc now ms (Some (OnTimer cond cb)) recycle 0 m"

fun erase_id :: "u64 \<Rightarrow> 'f store \<Rightarrow> nat list \<Rightarrow> nat list" where
  "erase_id timerId h [] = []"
| "erase_id timerId h (p # ps) = (if mUniqueId (h p) = timerId then ps else p # erase_id timerId h ps)"

definition delTimer :: "u64 \<Rightarrow> 'f KTimerManager \<Rightarrow> 'f KTimerManager" where
  "delTimer timerId m = m\<lparr>mTimers := erase_id timerId (store m) (mTimers m)\<rparr>"

text \<open>The loop over the expired timers.\<close>

fun fire :: "nat list \<Rightarrow> 'f store \<Rightarrow> nat list \<Rightarrow> ('f callback \<times> u32) list \<times> 'f store \<times> nat list" where
  "fire [] h ts = ([], h, ts)"
| "fire (p # ps) h ts =
     (case mCb (h p) of
        None \<Rightarrow> fire ps h ts
      | Some cb \<Rightarrow>
          let tid = mTid (h p);
              (h, ts) = (if mRecycleTime (h p) \<noteq> 0
                         then let h = h(p := KTimer_update (h p)) in (h, set_insert (before h) p ts)
                         else (h, ts));
              (cbs, h, ts) = fire ps h ts
          in ((cb, tid) # cbs, h, ts))"

definition listExpiredTimer :: "u64 \<Rightarrow> 'f KTimerManager \<Rightarrow> ('f callback \<times> u32) list \<times> 'f KTimerManager" where
  "listExpiredTimer now m =
     (if mTimers m = [] then ([], m)
      else let due = (\<lambda>p. mTime (store m p) \<le> now);
               expired = takeWhile due (mTimers m);
               (cbs, h, ts) = fire expired (store m) (dropWhile due (mTimers m))
      in (cbs, m\<lparr>store := h, mTimers := ts\<rparr>))"

section \<open>The order of the set\<close>

text \<open>The comparator is the lexicographic order of time and number, the null pointer least.\<close>

definition timer_key :: "'f KTimer option \<Rightarrow> (u64 \<times> u64) option" where
  "timer_key t = map_option (\<lambda>t. (mTime t, mUniqueId t)) t"

lemma Comparator_key: "Comparator l r \<longleftrightarrow> timer_key l < timer_key r"
  by (cases l; cases r) (auto simp: Comparator_def timer_key_def less_prod_def)

interpretation cmp: strict_weak Comparator
  unfolding Comparator_key [abs_def] by (rule strict_weak_key)

interpretation timer_set: strict_weak "before h" for h
  unfolding Comparator_key by (rule strict_weak_key)

lemma before_unique: "mUniqueId (h p) \<noteq> mUniqueId (h q) \<Longrightarrow> before h p q \<or> before h q p"
  by (auto simp: Comparator_def)

lemma before_time: "before h p q \<Longrightarrow> mTime (h p) \<le> mTime (h q)"
  by (auto simp: Comparator_def split: if_splits)

text \<open>
  The invariant: the set is ordered, its timers are allocated and have different unique numbers,
  none above the counter.
\<close>

definition timers_ok :: "'f KTimerManager \<Rightarrow> bool" where
  "timers_ok m \<longleftrightarrow>
     sorted_wrt (before (store m)) (mTimers m) \<and>
     inj_on (\<lambda>p. mUniqueId (store m p)) (set (mTimers m)) \<and>
     (\<forall>p\<in>set (mTimers m). p < brk m \<and> mUniqueId (store m p) \<le> gUniqueIdCount m)"

lemma timers_okD:
  assumes "timers_ok m"
  shows "sorted_wrt (before (store m)) (mTimers m)" "inj_on (\<lambda>p. mUniqueId (store m p)) (set (mTimers m))"
    "distinct (mTimers m)" "p \<in> set (mTimers m) \<Longrightarrow> p < brk m \<and> mUniqueId (store m p) \<le> gUniqueIdCount m"
  using assms timer_set.sorted_distinct by (auto simp: timers_ok_def)

lemma sorted_store_cong:
  assumes "sorted_wrt (before h) ts" and "\<And>p. p \<in> set ts \<Longrightarrow> h' p = h p"
  shows "sorted_wrt (before h') ts"
  using assms(1) by (rule sorted_wrt_mono_rel [rotated]) (simp add: assms(2))

section \<open>Firing\<close>

definition live :: "'f store \<Rightarrow> nat \<Rightarrow> bool" where
  "live h p \<longleftrightarrow> mCb (h p) \<noteq> None"

definition rearms :: "'f store \<Rightarrow> nat \<Rightarrow> bool" where
  "rearms h p \<longleftrightarrow> mCb (h p) \<noteq> None \<and> mRecycleTime (h p) \<noteq> 0"

definition fired :: "'f store \<Rightarrow> nat list \<Rightarrow> ('f callback \<times> u32) list" where
  "fired h ps = map (\<lambda>p. (the (mCb (h p)), mTid (h p))) (filter (live h) ps)"

definition rearmed :: "nat set \<Rightarrow> 'f store \<Rightarrow> 'f store" where
  "rearmed P h = (\<lambda>p. if p \<in> P \<and> rearms h p then (h p)\<lparr>mTime := mTime (h p) + mRecycleTime (h p)\<rparr> else h p)"

lemma rearmed_Nil [simp]: "rearmed {} h = h"
  by (simp add: rearmed_def)

text \<open>Moving one timer on changes neither what the others hand out nor which of them come back.\<close>

lemma KTimer_update_same:
  fixes h :: "'f store"
  defines "h' \<equiv> \<lambda>p. h(p := KTimer_update (h p))"
  shows "mUniqueId (h' p q) = mUniqueId (h q)" and "live (h' p) = live h" and "rearms (h' p) = rearms h"
    and "fired (h' p) ps = fired h ps"
proof -
  have same: "mCb (h' p q) = mCb (h q)" "mRecycleTime (h' p q) = mRecycleTime (h q)" "mTid (h' p q) = mTid (h q)" for q
    by (simp_all add: h'_def KTimer_update_def)
  show "mUniqueId (h' p q) = mUniqueId (h q)" by (simp add: h'_def KTimer_update_def)
  show l: "live (h' p) = live h" "rearms (h' p) = rearms h" by (simp_all add: live_def rearms_def same fun_eq_iff)
  show "fired (h' p) ps = fired h ps" unfolding fired_def l same by (rule refl)
qed

lemma rearmed_Cons:
  "\<not> rearms h p \<Longrightarrow> rearmed (set (p # ps)) h = rearmed (set ps) h"
  "rearms h p \<Longrightarrow> p \<notin> set ps \<Longrightarrow> rearmed (set ps) (h(p := KTimer_update (h p))) = rearmed (set (p # ps)) h"
  by (auto simp: rearmed_def) (auto simp: rearmed_def KTimer_update_same(3) fun_eq_iff KTimer_update_def rearms_def)

text \<open>A recurring timer goes back into the set, which stays ordered.\<close>

lemma rearm_insert:
  assumes "p \<notin> set ts" and "sorted_wrt (before h) ts" and "inj_on (\<lambda>p. mUniqueId (h p)) (insert p (set ts))"
  shows "set (set_insert (before (h(p := KTimer_update (h p)))) p ts) = insert p (set ts)"
    and "sorted_wrt (before (h(p := KTimer_update (h p)))) (set_insert (before (h(p := KTimer_update (h p)))) p ts)"
proof -
  let ?h = "h(p := KTimer_update (h p))"
  have new: "before ?h p q \<or> before ?h q p" if "q \<in> set ts" for q
  proof (rule before_unique)
    have "mUniqueId (h p) \<noteq> mUniqueId (h q)" using inj_onD [OF assms(3), of p q] that assms(1) by auto
    then show "mUniqueId (?h p) \<noteq> mUniqueId (?h q)" by (simp only: KTimer_update_same not_False_eq_True)
  qed
  show "set (set_insert (before ?h) p ts) = insert p (set ts)" by (rule timer_set.insert_new) (rule new)
  have "sorted_wrt (before ?h) ts" by (rule sorted_store_cong [OF assms(2)]) (use assms(1) in auto)
  then show "sorted_wrt (before ?h) (set_insert (before ?h) p ts)" by (rule timer_set.sorted_insert)
qed

lemma fire_spec:
  assumes "distinct ps" and "set ps \<inter> set ts = {}" and "sorted_wrt (before h) ts"
    and "inj_on (\<lambda>p. mUniqueId (h p)) (set ps \<union> set ts)"
  shows "\<exists>ts'. fire ps h ts = (fired h ps, rearmed (set ps) h, ts') \<and> sorted_wrt (before (rearmed (set ps) h)) ts' \<and>
    set ts' = set ts \<union> {p \<in> set ps. rearms h p}"
  using assms
proof (induction ps arbitrary: h ts)
  case Nil
  then show ?case by (simp add: fired_def)
next
  case (Cons p ps)
  have p: "p \<notin> set ps" "distinct ps" "p \<notin> set ts" "set ps \<inter> set ts = {}" using Cons.prems by auto
  show ?case
  proof (cases "rearms h p")
    case False
    have "inj_on (\<lambda>q. mUniqueId (h q)) (set ps \<union> set ts)" by (rule inj_on_subset [OF Cons.prems(4)]) auto
    from Cons.IH [OF p(2,4) Cons.prems(3) this] False show ?thesis
      unfolding rearmed_Cons(1) [OF False] by (cases "live h p") (auto simp: live_def fired_def rearms_def)
  next
    case True
    let ?h = "h(p := KTimer_update (h p))"
    let ?ts = "set_insert (before ?h) p ts"
    have "inj_on (\<lambda>q. mUniqueId (h q)) (insert p (set ts))" by (rule inj_on_subset [OF Cons.prems(4)]) auto
    note new = rearm_insert [OF p(3) Cons.prems(3) this]
    have dj: "set ps \<inter> set ?ts = {}" unfolding new(1) using p by blast
    have inj: "inj_on (\<lambda>q. mUniqueId (?h q)) (set ps \<union> set ?ts)"
      using Cons.prems(4) unfolding KTimer_update_same(1) new(1) by simp
    obtain ts' where ts': "fire ps ?h ?ts = (fired h ps, rearmed (set (p # ps)) h, ts')"
      "sorted_wrt (before (rearmed (set (p # ps)) h)) ts'" "set ts' = set ?ts \<union> {q \<in> set ps. rearms h q}"
      using Cons.IH [OF p(2) dj new(2) inj] unfolding KTimer_update_same(3,4) rearmed_Cons(2) [OF True p(1)] by (elim exE conjE) rule
    have "fire (p # ps) h ts = (fired h (p # ps), rearmed (set (p # ps)) h, ts')"
      using ts'(1) True by (auto simp: Let_def fired_def rearms_def live_def simp del: fun_upd_apply)
    moreover have "set ts' = set ts \<union> {q \<in> set (p # ps). rearms h q}"
      using True by (simp only: ts'(3) new(1)) auto
    ultimately show ?thesis using ts'(2) by (intro exI [of _ ts'] conjI)
  qed
qed

lemma due_split:
  fixes now :: u64
  assumes "timers_ok m"
  defines "due \<equiv> \<lambda>p. mTime (store m p) \<le> now"
  shows "takeWhile due (mTimers m) = filter due (mTimers m)" and "dropWhile due (mTimers m) = filter (\<lambda>p. \<not> due p) (mTimers m)"
proof -
  have dn: "due p" if "before (store m) p q" "due q" for p q
    using before_time [OF that(1)] that(2) by (simp add: due_def)
  show "takeWhile due (mTimers m) = filter due (mTimers m)"
    by (rule timer_set.takeWhile_filter(1) [OF timers_okD(1) [OF assms(1)]]) (rule dn)
  show "dropWhile due (mTimers m) = filter (\<lambda>p. \<not> due p) (mTimers m)"
    by (rule timer_set.takeWhile_filter(2) [OF timers_okD(1) [OF assms(1)]]) (rule dn)
qed

lemma list_expired_spec:
  fixes now :: u64
  assumes ok: "timers_ok m"
  defines "due \<equiv> \<lambda>p. mTime (store m p) \<le> now"
  defines "P \<equiv> {p \<in> set (mTimers m). due p}"
  shows "\<exists>ts. listExpiredTimer now m =
      (fired (store m) (filter due (mTimers m)), m\<lparr>store := rearmed P (store m), mTimers := ts\<rparr>) \<and>
    sorted_wrt (before (rearmed P (store m))) ts \<and>
    set ts = {p \<in> set (mTimers m). due p \<longrightarrow> rearms (store m) p}"
proof -
  let ?ps = "filter due (mTimers m)" and ?ts = "filter (\<lambda>p. \<not> due p) (mTimers m)"
  have sp: "set ?ps = P" by (auto simp: P_def)
  have ij: "inj_on (\<lambda>p. mUniqueId (store m p)) (set ?ps \<union> set ?ts)"
    by (rule inj_on_subset [OF timers_okD(2) [OF ok]]) auto
  have pre: "distinct ?ps" "set ?ps \<inter> set ?ts = {}" "sorted_wrt (before (store m)) ?ts"
    using timers_okD(1,3) [OF ok] by (auto simp: sorted_wrt_filter)
  obtain ts where ts: "fire ?ps (store m) ?ts = (fired (store m) ?ps, rearmed P (store m), ts)"
    "sorted_wrt (before (rearmed P (store m))) ts" "set ts = set ?ts \<union> {p \<in> P. rearms (store m) p}"
    using fire_spec [OF pre ij] unfolding sp by (elim exE conjE) rule
  have "listExpiredTimer now m = (fired (store m) ?ps, m\<lparr>store := rearmed P (store m), mTimers := ts\<rparr>)"
  proof (cases "mTimers m = []")
    case True
    then have "P = {}" by (simp add: P_def)
    then have "ts = []" using ts(3) True by simp
    then show ?thesis using True \<open>P = {}\<close> by (simp add: listExpiredTimer_def fired_def)
  next
    case False
    then show ?thesis using ts(1) due_split [OF ok, of now] unfolding due_def
      by (simp add: listExpiredTimer_def Let_def)
  qed
  moreover have "set ts = {p \<in> set (mTimers m). due p \<longrightarrow> rearms (store m) p}" using ts(3) by (auto simp: P_def)
  ultimately show ?thesis using ts(2) by blast
qed

lemma rearmed_uid [simp]: "mUniqueId (rearmed P h p) = mUniqueId (h p)"
  by (simp add: rearmed_def)

lemma list_expired_ok:
  assumes "timers_ok m"
  shows "timers_ok (snd (listExpiredTimer now m))"
proof -
  let ?due = "\<lambda>p. mTime (store m p) \<le> now"
  let ?h = "rearmed {p \<in> set (mTimers m). ?due p} (store m)"
  obtain ts where ts: "listExpiredTimer now m = (fired (store m) (filter ?due (mTimers m)), m\<lparr>store := ?h, mTimers := ts\<rparr>)"
    "sorted_wrt (before ?h) ts" "set ts \<subseteq> set (mTimers m)" using list_expired_spec [OF assms, of now] by auto
  have "inj_on (\<lambda>p. mUniqueId (?h p)) (set ts)"
    unfolding rearmed_uid by (rule inj_on_subset [OF timers_okD(2) [OF assms] ts(3)])
  moreover have "\<forall>p\<in>set ts. p < brk m \<and> mUniqueId (?h p) \<le> gUniqueIdCount m"
    unfolding rearmed_uid using timers_okD(4) [OF assms] ts(3) by blast
  ultimately show ?thesis unfolding timers_ok_def by (simp add: ts(1,2))
qed

section \<open>Adding and removing\<close>

lemma word_incr: "(x :: u64) < - 1 \<Longrightarrow> x < x + 1"
proof -
  assume "x < - 1"
  moreover have "uint (- 1 :: u64) = 18446744073709551615" by (simp add: unsigned_minus_1_eq_mask mask_eq_exp_minus_1)
  ultimately have "uint x < 18446744073709551615" by (simp only: word_less_def)
  then have "uint (x + 1) = uint x + 1" by (simp add: uint_plus_if')
  then show ?thesis by (simp add: word_less_def)
qed

lemma addTimer_eq:
  fixes now ms :: u64 and cb :: "'f callback option" and recycle tid :: u32
  assumes ok: "timers_ok m" and room: "gUniqueIdCount m < - 1"
  defines "h \<equiv> (store m)(brk m := KTimer_new now ms cb recycle tid (gUniqueIdCount m + 1))"
  defines "front \<equiv> \<forall>q\<in>set (mTimers m). now + ms < mTime (store m q)"
  shows "addTimer True now ms cb recycle tid m = (Some (brk m), front \<and> \<not> mTickle m,
      m\<lparr>gUniqueIdCount := gUniqueIdCount m + 1, store := h, brk := brk m + 1,
        mTickle := (mTickle m \<or> front), mTimers := set_insert (before h) (brk m) (mTimers m)\<rparr>)"
    and "set (set_insert (before h) (brk m) (mTimers m)) = insert (brk m) (set (mTimers m))"
    and "sorted_wrt (before h) (set_insert (before h) (brk m) (mTimers m))"
    and "\<And>q. q \<in> set (mTimers m) \<Longrightarrow> h q = store m q"
proof -
  let ?p = "brk m" and ?ts = "mTimers m"
  have same: "h q = store m q" if "q \<in> set ?ts" for q
    using timers_okD(4) [OF ok that] by (simp add: h_def)
  have hp: "mTime (h ?p) = now + ms" "mUniqueId (h ?p) = gUniqueIdCount m + 1" by (simp_all add: h_def KTimer_new_def)
  have uid: "mUniqueId (h q) < mUniqueId (h ?p)" if "q \<in> set ?ts" for q
  proof -
    have "mUniqueId (store m q) \<le> gUniqueIdCount m" using timers_okD(4) [OF ok that] by blast
    moreover have "gUniqueIdCount m < gUniqueIdCount m + 1" by (rule word_incr [OF room])
    ultimately show ?thesis unfolding hp(2) same [OF that] by (rule le_less_trans)
  qed
  have new: "before h ?p q \<or> before h q ?p" if "q \<in> set ?ts" for q
    using uid [OF that] by (intro before_unique) auto
  have so: "sorted_wrt (before h) ?ts" by (rule sorted_store_cong [OF timers_okD(1) [OF ok] same])
  have lt: "before h ?p q \<longleftrightarrow> now + ms < mTime (store m q)" if "q \<in> set ?ts" for q
    using uid [OF that] by (auto simp: Comparator_def hp(1) same [OF that])
  show si: "set (set_insert (before h) ?p ?ts) = insert ?p (set ?ts)" by (rule timer_set.insert_new) (rule new)
  show "sorted_wrt (before h) (set_insert (before h) ?p ?ts)" by (rule timer_set.sorted_insert [OF so])
  show "\<And>q. q \<in> set ?ts \<Longrightarrow> h q = store m q" by (rule same)
  let ?ts' = "set_insert (before h) ?p ?ts"
  have "?p \<notin> set ?ts" using timers_okD(4) [OF ok] by blast
  have eqv: "\<not> before h ?p q \<and> \<not> before h q ?p \<longleftrightarrow> q = ?p" if "q \<in> set ?ts'" for q
    using that new si timer_set.irrefl [of h ?p] by blast
  then have "filter (\<lambda>q. \<not> before h ?p q \<and> \<not> before h q ?p) ?ts' = filter (\<lambda>q. q = ?p) ?ts'" by (rule filter_cong [OF refl])
  moreover have "filter (\<lambda>q. q = ?p) ?ts' \<noteq> []" using si by (simp add: filter_empty_conv)
  from hd_in_set [OF this] have "hd (filter (\<lambda>q. q = ?p) ?ts') = ?p" by simp
  moreover have "hd ?ts' = ?p \<longleftrightarrow> front"
    using timer_set.insert_first [OF new so] lt by (simp add: front_def)
  ultimately have it: "(hd (filter (\<lambda>q. \<not> before h ?p q \<and> \<not> before h q ?p) ?ts') = hd ?ts') = front" by (metis (lifting))
  show "addTimer True now ms cb recycle tid m = (Some ?p, front \<and> \<not> mTickle m,
      m\<lparr>gUniqueIdCount := gUniqueIdCount m + 1, store := h, brk := ?p + 1,
        mTickle := (mTickle m \<or> front), mTimers := ?ts'\<rparr>)"
    by (simp add: addTimer_def addTimer_ptr_def Let_def h_def [symmetric] it del: fun_upd_apply)
      (auto intro: KTimerManager.equality)
qed

lemma add_timer_ok:
  assumes ok: "timers_ok m" and room: "gUniqueIdCount m < - 1" and a: "addTimer malloc now ms cb recycle tid m = (r, n, m')"
  shows "timers_ok m'"
proof (cases malloc)
  case False
  then show ?thesis using ok a by (simp add: addTimer_def addTimer_ptr_def)
next
  case True
  let ?h = "(store m)(brk m := KTimer_new now ms cb recycle tid (gUniqueIdCount m + 1))"
  note ad = addTimer_eq [OF ok room, where now = now and ms = ms and cb = cb and recycle = recycle and tid = tid]
  have f: "store m' = ?h" "mTimers m' = set_insert (before ?h) (brk m) (mTimers m)" "brk m' = brk m + 1"
    "gUniqueIdCount m' = gUniqueIdCount m + 1" using a ad(1) True by (auto simp del: fun_upd_apply)
  have up: "gUniqueIdCount m < gUniqueIdCount m + 1" by (rule word_incr [OF room])
  have uid: "mUniqueId (?h (brk m)) = gUniqueIdCount m + 1" by (simp add: KTimer_new_def)
  have old: "p < brk m \<and> mUniqueId (?h p) \<le> gUniqueIdCount m" if "p \<in> set (mTimers m)" for p
    using timers_okD(4) [OF ok that] ad(4) [OF that] by simp
  have "inj_on (\<lambda>p. mUniqueId (?h p)) (set (mTimers m))"
    using timers_okD(2) [OF ok] ad(4) by (simp add: inj_on_def del: fun_upd_apply)
  moreover have "mUniqueId (?h (brk m)) \<noteq> mUniqueId (?h p)" if "p \<in> set (mTimers m)" for p
    using old [OF that] up unfolding uid by (metis leD)
  then have "mUniqueId (?h (brk m)) \<notin> (\<lambda>p. mUniqueId (?h p)) ` (set (mTimers m) - {brk m})" by blast
  ultimately have "inj_on (\<lambda>p. mUniqueId (?h p)) (insert (brk m) (set (mTimers m)))"
    unfolding inj_on_insert by (rule conjI)
  moreover have "\<forall>p\<in>insert (brk m) (set (mTimers m)). p < brk m + 1 \<and> mUniqueId (?h p) \<le> gUniqueIdCount m + 1"
    using old up uid by (auto simp del: fun_upd_apply intro: less_imp_le le_less_trans)
  ultimately show ?thesis using ad(2,3) by (simp add: timers_ok_def f del: fun_upd_apply)
qed

lemma add_timer_ok_snd:
  assumes "timers_ok m" and "gUniqueIdCount m < - 1"
  shows "timers_ok (snd (snd (addTimer malloc now ms cb recycle tid m)))"
  using add_timer_ok [OF assms, where malloc = malloc and now = now and ms = ms and cb = cb and recycle = recycle and tid = tid]
  by (metis prod.collapse)

lemma erase_id_filter:
  "inj_on (\<lambda>p. mUniqueId (h p)) (set ps) \<Longrightarrow> distinct ps \<Longrightarrow> erase_id uid h ps = filter (\<lambda>p. mUniqueId (h p) \<noteq> uid) ps"
proof (induction ps)
  case (Cons p ps)
  show ?case
  proof (cases "mUniqueId (h p) = uid")
    case True
    then have "\<forall>q\<in>set ps. mUniqueId (h q) \<noteq> uid" using Cons.prems by (auto simp: inj_on_def)
    then show ?thesis using True by simp
  next
    case False
    then show ?thesis using Cons by simp
  qed
qed simp

lemma del_timer_eq:
  assumes "timers_ok m"
  shows "delTimer uid m = m\<lparr>mTimers := filter (\<lambda>p. mUniqueId (store m p) \<noteq> uid) (mTimers m)\<rparr>" and "timers_ok (delTimer uid m)"
proof -
  show eq: "delTimer uid m = m\<lparr>mTimers := filter (\<lambda>p. mUniqueId (store m p) \<noteq> uid) (mTimers m)\<rparr>"
    using erase_id_filter [OF timers_okD(2,3) [OF assms]] by (simp add: delTimer_def)
  show "timers_ok (delTimer uid m)"
    using assms unfolding eq timers_ok_def by (auto simp: sorted_wrt_filter intro: inj_on_subset)
qed

section \<open>Correctness\<close>

lemma near_timeout_ok: "timers_ok m \<Longrightarrow> timers_ok (snd (getNearTimeout now m))"
  by (simp add: timers_ok_def getNearTimeout_def Let_def split: list.split)

lemma first_timer_least:
  assumes "timers_ok m" and "mTimers m = p # ps" and "q \<in> set (mTimers m)"
  shows "mTime (store m p) \<le> mTime (store m q)"
  using timers_okD(1) [OF assms(1)] assms(2,3) before_time by auto

text \<open>C21: The manager keeps its set ordered by expiry, with pairwise different unique numbers that the counter has passed, under every operation (an
  addition as long as the 64-bit counter has not reached its end).\<close>

theorem timer_set_invariant:
  assumes "timers_ok m"
  shows "timers_ok (snd (getNearTimeout now m)) \<and> timers_ok (delTimer uid m) \<and> timers_ok (snd (listExpiredTimer now m)) \<and>
    (gUniqueIdCount m < - 1 \<longrightarrow> timers_ok (snd (snd (addTimer malloc now ms cb recycle tid m))) \<and>
      timers_ok (snd (snd (addConditionTimer malloc now ms f cond recycle m))))"
proof -
  have "timers_ok (snd (snd (addTimer malloc now ms cb recycle tid m)))" if "gUniqueIdCount m < - 1" for cb recycle tid
    by (rule add_timer_ok_snd [OF assms that])
  then show ?thesis
    using near_timeout_ok [OF assms] del_timer_eq(2) [OF assms] list_expired_ok [OF assms] unfolding addConditionTimer_def by blast
qed

lemma list_expired_result:
  assumes "timers_ok m"
  shows "fst (listExpiredTimer now m) = map (\<lambda>p. (the (mCb (store m p)), mTid (store m p)))
      (filter (\<lambda>p. mTime (store m p) \<le> now \<and> mCb (store m p) \<noteq> None) (mTimers m)) \<and>
    set (mTimers (snd (listExpiredTimer now m))) =
      {p \<in> set (mTimers m). now < mTime (store m p) \<or> mCb (store m p) \<noteq> None \<and> mRecycleTime (store m p) \<noteq> 0} \<and>
    (\<forall>p\<in>set (mTimers m). store (snd (listExpiredTimer now m)) p =
      (if mTime (store m p) \<le> now \<and> mCb (store m p) \<noteq> None \<and> mRecycleTime (store m p) \<noteq> 0
       then (store m p)\<lparr>mTime := mTime (store m p) + mRecycleTime (store m p)\<rparr> else store m p))"
proof -
  let ?due = "\<lambda>p. mTime (store m p) \<le> now"
  let ?P = "{p \<in> set (mTimers m). ?due p}"
  obtain ts where ts: "listExpiredTimer now m = (fired (store m) (filter ?due (mTimers m)), m\<lparr>store := rearmed ?P (store m), mTimers := ts\<rparr>)"
    "set ts = {p \<in> set (mTimers m). ?due p \<longrightarrow> rearms (store m) p}"
    using list_expired_spec [OF assms, of now] by (elim exE conjE) rule
  have "fired (store m) (filter ?due (mTimers m)) = map (\<lambda>p. (the (mCb (store m p)), mTid (store m p)))
      (filter (\<lambda>p. ?due p \<and> mCb (store m p) \<noteq> None) (mTimers m))"
    by (simp add: fired_def live_def conj_commute)
  moreover have "set ts = {p \<in> set (mTimers m). now < mTime (store m p) \<or> mCb (store m p) \<noteq> None \<and> mRecycleTime (store m p) \<noteq> 0}"
    unfolding ts(2) by (auto simp: rearms_def not_le)
  ultimately show ?thesis by (simp add: ts(1)) (simp add: rearmed_def rearms_def)
qed

text \<open>C20: \<open>listExpiredTimer\<close> hands out exactly the callbacks of the timers that have expired and are not cancelled, each once, in order of expiry and
  with the thread they are bound to. Afterwards the set holds the timers that are not due yet and the recurring ones, these one
  period later; one-shot and cancelled timers are gone.\<close>

theorem listExpiredTimer_correct:
  assumes "timers_ok m"
  shows "fst (listExpiredTimer now m) = map (\<lambda>p. (the (mCb (store m p)), mTid (store m p)))
      (filter (\<lambda>p. mTime (store m p) \<le> now \<and> mCb (store m p) \<noteq> None) (mTimers m)) \<and>
    set (mTimers (snd (listExpiredTimer now m))) =
      {p \<in> set (mTimers m). now < mTime (store m p) \<or> mCb (store m p) \<noteq> None \<and> mRecycleTime (store m p) \<noteq> 0} \<and>
    (\<forall>p\<in>set (mTimers m). store (snd (listExpiredTimer now m)) p =
      (if mTime (store m p) \<le> now \<and> mCb (store m p) \<noteq> None \<and> mRecycleTime (store m p) \<noteq> 0
       then (store m p)\<lparr>mTime := mTime (store m p) + mRecycleTime (store m p)\<rparr> else store m p))"
  by (rule list_expired_result [OF assms])

text \<open>C40: \<open>getNearTimeout\<close> is neither late nor early: it answers 0 when a timer is due; otherwise now plus the answer is the expiry of a
  timer, and at no time before that a callback would be handed out. With no timer it answers the largest number.\<close>

theorem getNearTimeout_correct:
  assumes "timers_ok m" and "d = fst (getNearTimeout now m)"
  shows "if mTimers m = [] then d = - 1
    else (d = 0 \<longleftrightarrow> (\<exists>p\<in>set (mTimers m). mTime (store m p) \<le> now)) \<and>
      (d \<noteq> 0 \<longrightarrow> (\<exists>p\<in>set (mTimers m). mTime (store m p) = now + d) \<and>
        (\<forall>t. now \<le> t \<and> t < now + d \<longrightarrow> fst (listExpiredTimer t m) = []))"
proof (cases "mTimers m")
  case Nil
  then show ?thesis using assms(2) by (simp add: getNearTimeout_def)
next
  case (Cons p ps)
  have least: "mTime (store m p) \<le> mTime (store m q)" if "q \<in> set (mTimers m)" for q
    by (rule first_timer_least [OF assms(1) Cons that])
  have d: "d = (if now \<ge> mTime (store m p) then 0 else mTime (store m p) - now)"
    using assms(2) by (simp add: getNearTimeout_def Cons)
  show ?thesis
  proof (cases "mTime (store m p) \<le> now")
    case True
    then show ?thesis using d by (auto simp: Cons)
  next
    case False
    then have dn: "d = mTime (store m p) - now" "d \<noteq> 0" using d by auto
    have "\<not> mTime (store m q) \<le> now" if "q \<in> set (mTimers m)" for q
      using least [OF that] False by (meson order_trans)
    moreover have "fst (listExpiredTimer t m) = []" if "t < now + d" for t
    proof -
      have lt: "t < mTime (store m q)" if "q \<in> set (mTimers m)" for q
        using least [OF that] \<open>t < now + d\<close> by (simp add: dn(1))
      have "filter (\<lambda>q. mTime (store m q) \<le> t \<and> mCb (store m q) \<noteq> None) (mTimers m) = []"
        using lt by (auto simp: filter_empty_conv not_le)
      then show ?thesis using list_expired_result [OF assms(1), of t] by simp
    qed
    ultimately show ?thesis using dn by (auto simp: Cons)
  qed
qed

text \<open>\<open>addTimer\<close> adds the new timer, with an expiry \<open>ms\<close> after now and a number no timer of the set has, and keeps the others. It notifies
  exactly when the new timer expires before all others and no notification is outstanding since the last \<open>getNearTimeout\<close>.\<close>

theorem addTimer_correct:
  assumes "timers_ok m" and "gUniqueIdCount m < - 1"
  shows "\<exists>p notified m'. addTimer True now ms cb recycle tid m = (Some p, notified, m') \<and>
    p \<notin> set (mTimers m) \<and> set (mTimers m') = insert p (set (mTimers m)) \<and> timers_ok m' \<and>
    store m' p = \<lparr>mTid = tid, mTime = now + ms, mRecycleTime = ucast recycle, mCb = cb, mUniqueId = gUniqueIdCount m + 1\<rparr> \<and>
    (\<forall>q\<in>set (mTimers m). store m' q = store m q \<and> mUniqueId (store m' p) \<noteq> mUniqueId (store m' q)) \<and>
    (notified \<longleftrightarrow> \<not> mTickle m \<and> (\<forall>q\<in>set (mTimers m). now + ms < mTime (store m q))) \<and>
    (mTickle m' \<longleftrightarrow> mTickle m \<or> notified)"
proof -
  note ad = addTimer_eq [OF assms, where now = now and ms = ms and cb = cb and recycle = recycle and tid = tid]
  let ?h = "(store m)(brk m := KTimer_new now ms cb recycle tid (gUniqueIdCount m + 1))"
  have new: "brk m \<notin> set (mTimers m)" using timers_okD(4) [OF assms(1)] by blast
  have ok: "timers_ok (snd (snd (addTimer True now ms cb recycle tid m)))" by (rule add_timer_ok_snd [OF assms])
  have uid: "mUniqueId (store m q) \<noteq> gUniqueIdCount m + 1" if "q \<in> set (mTimers m)" for q
    using timers_okD(4) [OF assms(1) that] word_incr [OF assms(2)] by (metis leD)
  define front where "front \<longleftrightarrow> (\<forall>q\<in>set (mTimers m). now + ms < mTime (store m q))"
  define m' where "m' = m\<lparr>gUniqueIdCount := gUniqueIdCount m + 1, store := ?h, brk := brk m + 1, mTickle := (mTickle m \<or> front),
      mTimers := set_insert (before ?h) (brk m) (mTimers m)\<rparr>"
  have r: "addTimer True now ms cb recycle tid m = (Some (brk m), front \<and> \<not> mTickle m, m')"
    unfolding front_def m'_def by (rule ad(1))
  have k: "timers_ok m'" using ok by (simp only: r snd_conv)
  have st: "set (mTimers m') = insert (brk m) (set (mTimers m))" using ad(2) by (simp add: m'_def del: fun_upd_apply)
  have p: "store m' (brk m) =
      \<lparr>mTid = tid, mTime = now + ms, mRecycleTime = ucast recycle, mCb = cb, mUniqueId = gUniqueIdCount m + 1\<rparr>"
    by (simp add: KTimer_new_def m'_def)
  have q: "\<forall>q\<in>set (mTimers m). store m' q = store m q \<and> mUniqueId (store m' (brk m)) \<noteq> mUniqueId (store m' q)"
  proof
    fix q assume q: "q \<in> set (mTimers m)"
    have "store m' q = store m q" using ad(4) [OF q] by (simp add: m'_def)
    then show "store m' q = store m q \<and> mUniqueId (store m' (brk m)) \<noteq> mUniqueId (store m' q)"
      using uid [OF q] unfolding p by simp
  qed
  have t: "mTickle m' \<longleftrightarrow> mTickle m \<or> front \<and> \<not> mTickle m" by (auto simp: m'_def)
  have f: "(front \<and> \<not> mTickle m) = (\<not> mTickle m \<and> (\<forall>q\<in>set (mTimers m). now + ms < mTime (store m q)))"
    unfolding front_def by blast
  show ?thesis using r new st k p q f t by blast
qed

text \<open>\<open>delTimer\<close> takes the timer with the given number out, and only it: from then on its callback is not handed out, and the other
  callbacks are handed out as before.\<close>

theorem delTimer_correct:
  assumes "timers_ok m"
  shows "mTimers (delTimer uid m) = filter (\<lambda>p. mUniqueId (store m p) \<noteq> uid) (mTimers m) \<and> store (delTimer uid m) = store m \<and>
    fst (listExpiredTimer now (delTimer uid m)) = map (\<lambda>p. (the (mCb (store m p)), mTid (store m p)))
      (filter (\<lambda>p. mUniqueId (store m p) \<noteq> uid \<and> mTime (store m p) \<le> now \<and> mCb (store m p) \<noteq> None) (mTimers m))"
proof -
  note d = del_timer_eq [OF assms, of uid]
  have "fst (listExpiredTimer now (delTimer uid m)) = map (\<lambda>p. (the (mCb (store m p)), mTid (store m p)))
      (filter (\<lambda>p. mTime (store m p) \<le> now \<and> mCb (store m p) \<noteq> None) (filter (\<lambda>p. mUniqueId (store m p) \<noteq> uid) (mTimers m)))"
    using list_expired_result [OF d(2), of now] by (simp add: d(1))
  then show ?thesis by (simp add: d(1) conj_ac)
qed

text \<open>Setting the next time of a timer that is in the set moves it in time but not in the set: when the first timer is put off, nothing is handed
  out until its new time, whatever else has expired.\<close>

theorem setNextTime_starves:
  assumes "timers_ok m" and "mTimers m = p # ps" and "now < t"
  shows "fst (listExpiredTimer now (on_timer p (setNextTime t) m)) = []"
proof -
  have "\<not> t \<le> now" using assms(3) by simp
  then show ?thesis by (simp add: listExpiredTimer_def on_timer_def setNextTime_def Let_def assms(2))
qed

text \<open>Cancelling a timer that is in the set, and not the first, breaks the order of the set, since it sets its time to 0.\<close>

theorem cancel_breaks_order:
  assumes "timers_ok m" and "mTimers m = p # ps" and "q \<in> set ps" and "mTime (store m p) \<noteq> 0"
  shows "\<not> timers_ok (on_timer q KTimer_cancel m)"
proof
  assume "timers_ok (on_timer q KTimer_cancel m)"
  then have "before (store (on_timer q KTimer_cancel m)) p q" using assms(2,3) by (auto simp: timers_ok_def on_timer_def)
  moreover have "p \<noteq> q" using timers_okD(3) [OF assms(1)] assms(2,3) by auto
  ultimately show False using assms(4) by (simp add: on_timer_def KTimer_cancel_def Comparator_def)
qed

section \<open>Instances\<close>

text \<open>A manager with a recurring, a cancelled and a one-shot timer, expiring at 20, 30 and 50.\<close>

definition sample_timers :: "nat KTimerManager" where
  "sample_timers = \<lparr>store = (\<lambda>p. if p = 0 then KTimer_new 10 10 (Some (Call 1)) 5 7 1
      else if p = 1 then KTimer_new 10 40 (Some (Call 2)) 0 8 2 else KTimer_new 10 20 None 0 9 3),
     brk = 3, gUniqueIdCount = 3, mTickle = False, mTimers = [0, 2, 1]\<rparr>"

lemma sample_timers_fields [simp]:
  "mTimers sample_timers = [0, 2, 1]" "brk sample_timers = 3" "gUniqueIdCount sample_timers = 3" "mTickle sample_timers = False"
  "store sample_timers 0 = KTimer_new 10 10 (Some (Call 1)) 5 7 1"
  "store sample_timers (Suc 0) = KTimer_new 10 40 (Some (Call 2)) 0 8 2"
  "store sample_timers 2 = KTimer_new 10 20 None 0 9 3"
  by (simp_all add: sample_timers_def)

lemma sample_timers_ok: "timers_ok sample_timers"
  by (simp add: timers_ok_def Comparator_def KTimer_new_def)

theorem timer_set_invariant_witness:
  "timers_ok (snd (listExpiredTimer 60 sample_timers)) \<and> timers_ok (delTimer 3 sample_timers) \<and>
   timers_ok (snd (snd (addTimer True 10 5 (Some (Call 4)) 0 7 sample_timers)))"
  using timer_set_invariant [OF sample_timers_ok, where now = 60 and uid = 3]
    timer_set_invariant [OF sample_timers_ok, where malloc = True and now = 10 and ms = 5 and cb = "Some (Call 4)" and recycle = 0 and tid = 7]
  by simp

theorem listExpiredTimer_correct_witness:
  "fst (listExpiredTimer 60 sample_timers) = [(Call 1, 7), (Call 2, 8)] \<and>
   0 \<in> set (mTimers (snd (listExpiredTimer 60 sample_timers))) \<and> 1 \<notin> set (mTimers (snd (listExpiredTimer 60 sample_timers)))"
  using listExpiredTimer_correct [OF sample_timers_ok, of 60] by (simp add: KTimer_new_def)

theorem getNearTimeout_correct_witness:
  "(\<exists>p\<in>set (mTimers sample_timers). mTime (store sample_timers p) = 15 + 5) \<and> fst (listExpiredTimer 19 sample_timers) = []"
proof -
  have d: "5 = fst (getNearTimeout 15 sample_timers)" by (simp add: getNearTimeout_def Let_def KTimer_new_def)
  have "mTimers sample_timers \<noteq> []" "(5 :: u64) \<noteq> 0" "(15 :: u64) \<le> 19" "(19 :: u64) < 15 + 5" by simp_all
  with getNearTimeout_correct [OF sample_timers_ok d] show ?thesis by metis
qed

theorem addTimer_correct_witness:
  "\<exists>p m'. addTimer True 10 5 (Some (Call 4)) 0 7 sample_timers = (Some p, True, m') \<and> set (mTimers m') = insert p {0, 2, 1} \<and> mTickle m'"
proof -
  have "gUniqueIdCount sample_timers < - 1" by simp
  from addTimer_correct [OF sample_timers_ok this, of 10 5 "Some (Call 4)" 0 7] show ?thesis
    by (elim exE conjE) (simp add: KTimer_new_def)
qed

theorem delTimer_correct_witness:
  "fst (listExpiredTimer 60 (delTimer 1 sample_timers)) = [(Call 2, 8)]"
  using delTimer_correct [OF sample_timers_ok, of 1 60] by (simp add: KTimer_new_def)

theorem setNextTime_starves_witness:
  "fst (listExpiredTimer 60 (on_timer 0 (setNextTime 1000) sample_timers)) = [] \<and>
   (Call 2, 8) \<in> set (fst (listExpiredTimer 60 sample_timers))"
proof -
  have "mTimers sample_timers = 0 # [2, 1]" "(60 :: u64) < 1000" by simp_all
  from setNextTime_starves [OF sample_timers_ok this] show ?thesis
    using list_expired_result [OF sample_timers_ok, of 60] by (simp add: KTimer_new_def)
qed

end
