(* ===== verification/Kfiber.thy ===== *)
theory Kfiber
  imports Std_Set
begin

text \<open>
  kfiber.h and kfiber.cpp: fibers over \<open>ucontext\<close>. Fibers live in a store; the thread-local
  variables \<open>gCurrentFiber\<close> and \<open>gThreadMainFiber\<close> are functions of the thread. A context is
  known by where it continues: at \<open>FiberEntry\<close>, behind a \<open>swapcontext\<close> of the code the fiber runs, or
  behind the last \<open>swapOut\<close> of \<open>FiberEntry\<close>, where only \<open>LOG_ASSERT(false, "never reach here")\<close>
  follows. Callbacks are abstract (\<open>'cb\<close>); \<open>run_fiber\<close> composes a resumption with what the
  code of the fiber does next: yield, return or throw. \<open>getcontext\<close> and \<open>swapcontext\<close> do not
  fail. The state \<open>TERM\<close> is \<open>TERM'\<close> here, since \<open>TERM\<close> is a keyword of the logic.
\<close>

datatype FiberState = READY | HOLD | EXEC | TERM' | EXCEPT

datatype ctx = At_entry | Suspended | Ended

record 'cb KFiber =
  mCtx :: ctx
  mState :: FiberState
  mFiberId :: u64
  mStackSize :: u64
  mStack :: bool
  mCb :: "'cb option"

record 'cb fibers =
  gFiberId :: u64
  gFiberCount :: u64
  fiber :: "nat \<Rightarrow> 'cb KFiber"
  next_fiber :: nat
  gCurrentFiber :: "int \<Rightarrow> nat option"
  gThreadMainFiber :: "int \<Rightarrow> nat option"

definition on_fiber :: "nat \<Rightarrow> ('cb KFiber \<Rightarrow> 'cb KFiber) \<Rightarrow> 'cb fibers \<Rightarrow> 'cb fibers" where
  "on_fiber p f s = s\<lparr>fiber := (fiber s)(p := f (fiber s p))\<rparr>"

definition getStackSize :: u64 where
  "getStackSize = 1024 * 128"

definition SetThis :: "int \<Rightarrow> nat option \<Rightarrow> 'cb fibers \<Rightarrow> 'cb fibers" where
  "SetThis t f s = s\<lparr>gCurrentFiber := (gCurrentFiber s)(t := f)\<rparr>"

text \<open>
  The constructor of a thread's first fiber. It leaves \<open>mStack\<close> and \<open>mStackSize\<close> as they are in
  the memory it gets, which \<open>garbage\<close> stands for.
\<close>

definition KFiber_main :: "bool \<times> u64 \<Rightarrow> int \<Rightarrow> 'cb fibers \<Rightarrow> nat \<times> 'cb fibers" where
  "KFiber_main garbage t s =
     (let p = next_fiber s;
          f = \<lparr>mCtx = Suspended, mState = EXEC, mFiberId = gFiberId s + 1, mStackSize = snd garbage, mStack = fst garbage, mCb = None\<rparr>;
          s = s\<lparr>gFiberId := gFiberId s + 1, gFiberCount := gFiberCount s + 1, fiber := (fiber s)(p := f), next_fiber := p + 1\<rparr>
      in (p, SetThis t (Some p) s))"

definition KFiber_new :: "bool \<Rightarrow> 'cb option \<Rightarrow> u64 \<Rightarrow> 'cb fibers \<Rightarrow> (nat \<times> 'cb fibers) result" where
  "KFiber_new malloc cb stackSize s =
     (let p = next_fiber s;
          f = \<lparr>mCtx = At_entry, mState = READY, mFiberId = gFiberId s + 1,
               mStackSize = (if stackSize \<noteq> 0 then stackSize else getStackSize), mStack = malloc, mCb = cb\<rparr>
      in if \<not> malloc then Inl Assertion_failed
         else Inr (p, s\<lparr>gFiberId := gFiberId s + 1, gFiberCount := gFiberCount s + 1, fiber := (fiber s)(p := f), next_fiber := p + 1\<rparr>))"

definition KFiber_destroy :: "int \<Rightarrow> nat \<Rightarrow> 'cb fibers \<Rightarrow> 'cb fibers result" where
  "KFiber_destroy t p s =
     (let s = s\<lparr>gFiberCount := gFiberCount s - 1\<rparr>; f = fiber s p
      in if mStack f
         then if mState f = TERM' \<or> mState f = EXCEPT then Inr s else Inl Assertion_failed
         else if mCb f \<noteq> None then Inl Assertion_failed
         else if gCurrentFiber s t = Some p then Inr (SetThis t None s) else Inr s)"

definition KFiber_reset :: "nat \<Rightarrow> 'cb option \<Rightarrow> 'cb fibers \<Rightarrow> 'cb fibers result" where
  "KFiber_reset p cb s =
     (let f = fiber s p in
      if \<not> mStack f then Inl Assertion_failed
      else if \<not> (mState f = TERM' \<or> mState f = EXCEPT \<or> mState f = READY) then Inl Assertion_failed
      else Inr (on_fiber p (\<lambda>f. f\<lparr>mCb := cb, mCtx := At_entry, mState := READY\<rparr>) s))"

text \<open>
  \<open>swapcontext\<close>: where the running fiber \<open>a\<close> will continue is saved, and \<open>b\<close> continues.
\<close>

definition swapcontext :: "nat \<Rightarrow> ctx \<Rightarrow> nat \<Rightarrow> 'cb fibers \<Rightarrow> 'cb fibers result" where
  "swapcontext a saved b s =
     (let s = on_fiber a (\<lambda>f. f\<lparr>mCtx := saved\<rparr>) s
      in if mCtx (fiber s b) = Ended then Inl Assertion_failed else Inr s)"

definition swapIn :: "int \<Rightarrow> nat \<Rightarrow> 'cb fibers \<Rightarrow> 'cb fibers result" where
  "swapIn t p s =
     (let s = SetThis t (Some p) s in
      if mState (fiber s p) = EXEC then Inl Assertion_failed
      else let s = on_fiber p (\<lambda>f. f\<lparr>mState := EXEC\<rparr>) s
      in case gThreadMainFiber s t of
           None \<Rightarrow> Inl Null_dereference
         | Some m \<Rightarrow> swapcontext m Suspended p s)"

definition swapOut :: "int \<Rightarrow> ctx \<Rightarrow> nat \<Rightarrow> 'cb fibers \<Rightarrow> 'cb fibers result" where
  "swapOut t saved p s =
     (let s = SetThis t (gThreadMainFiber s t) s
      in case gThreadMainFiber s t of
           None \<Rightarrow> Inl Null_dereference
         | Some m \<Rightarrow> swapcontext p saved m s)"

definition GetThis :: "bool \<times> u64 \<Rightarrow> int \<Rightarrow> 'cb fibers \<Rightarrow> nat \<times> 'cb fibers" where
  "GetThis garbage t s =
     (case gCurrentFiber s t of
        Some p \<Rightarrow> (p, s)
      | None \<Rightarrow>
          let (p, s) = KFiber_main garbage t s
          in (p, s\<lparr>gThreadMainFiber := (gThreadMainFiber s)(t := Some p)\<rparr>))"

definition KFiber_call :: "int \<Rightarrow> nat \<Rightarrow> 'cb fibers \<Rightarrow> 'cb fibers result" where
  "KFiber_call t p s =
     (let s = on_fiber p (\<lambda>f. f\<lparr>mState := EXEC\<rparr>) (SetThis t (Some p) s)
      in case gThreadMainFiber s t of
           None \<Rightarrow> Inl Null_dereference
         | Some m \<Rightarrow> swapcontext m Suspended p s)"

definition KFiber_back :: "int \<Rightarrow> nat \<Rightarrow> 'cb fibers \<Rightarrow> 'cb fibers result" where
  "KFiber_back t p s =
     (let s = SetThis t (gThreadMainFiber s t) s
      in case gThreadMainFiber s t of
           None \<Rightarrow> Inl Null_dereference
         | Some m \<Rightarrow> swapcontext p Suspended m s)"

definition KFiber_resume :: "int \<Rightarrow> nat \<Rightarrow> 'cb fibers \<Rightarrow> 'cb fibers result" where
  "KFiber_resume t p s = swapIn t p s"

definition Yeild2Hold :: "bool \<times> u64 \<Rightarrow> int \<Rightarrow> 'cb fibers \<Rightarrow> 'cb fibers result" where
  "Yeild2Hold garbage t s =
     (let (p, s) = GetThis garbage t s
      in if mState (fiber s p) \<noteq> EXEC then Inl Assertion_failed
         else swapOut t Suspended p (on_fiber p (\<lambda>f. f\<lparr>mState := HOLD\<rparr>) s))"

definition Yeild2Ready :: "bool \<times> u64 \<Rightarrow> int \<Rightarrow> 'cb fibers \<Rightarrow> 'cb fibers result" where
  "Yeild2Ready garbage t s =
     (let (p, s) = GetThis garbage t s
      in if mState (fiber s p) \<noteq> EXEC then Inl Assertion_failed
         else swapOut t Suspended p (on_fiber p (\<lambda>f. f\<lparr>mState := READY\<rparr>) s))"

definition getState :: "nat \<Rightarrow> 'cb fibers \<Rightarrow> FiberState" where
  "getState p s = mState (fiber s p)"

definition GetFiberID :: "int \<Rightarrow> 'cb fibers \<Rightarrow> u64" where
  "GetFiberID t s = (case gCurrentFiber s t of Some p \<Rightarrow> mFiberId (fiber s p) | None \<Rightarrow> 0)"

text \<open>The end of \<open>FiberEntry\<close>: the callback has returned or thrown.\<close>

definition FiberEntry_end :: "bool \<times> u64 \<Rightarrow> bool \<Rightarrow> int \<Rightarrow> 'cb fibers \<Rightarrow> 'cb fibers result" where
  "FiberEntry_end garbage threw t s =
     (let (p, s) = GetThis garbage t s;
          s = (if threw then on_fiber p (\<lambda>f. f\<lparr>mState := EXCEPT\<rparr>) s
               else on_fiber p (\<lambda>f. f\<lparr>mCb := None, mState := TERM'\<rparr>) s)
      in swapOut t Ended p s)"

text \<open>
  A resumption up to the next time the fiber gives up control: by one of the yields, by \<open>back\<close>, which leaves its state alone, or at its end. At its entry a fiber without a callback throws
  \<open>std::bad_function_call\<close>, whatever its code would do.
\<close>

datatype outcome = Yields_hold | Yields_ready | Backs | Returns | Throws

definition run_fiber :: "int \<Rightarrow> nat \<Rightarrow> outcome \<Rightarrow> 'cb fibers \<Rightarrow> 'cb fibers result" where
  "run_fiber t p out s =
     (let empty = (mCtx (fiber s p) = At_entry \<and> mCb (fiber s p) = None) in
      bind (KFiber_resume t p s) (\<lambda>s.
        case (if empty then Throws else out) of
          Yields_hold \<Rightarrow> Yeild2Hold (False, 0) t s
        | Yields_ready \<Rightarrow> Yeild2Ready (False, 0) t s
        | Backs \<Rightarrow> KFiber_back t p s
        | Returns \<Rightarrow> FiberEntry_end (False, 0) False t s
        | Throws \<Rightarrow> FiberEntry_end (False, 0) True t s))"

section \<open>Correctness\<close>

text \<open>A thread at its main fiber.\<close>

definition at_main :: "int \<Rightarrow> nat \<Rightarrow> 'cb fibers \<Rightarrow> bool" where
  "at_main t m s \<longleftrightarrow> gThreadMainFiber s t = Some m \<and> gCurrentFiber s t = Some m \<and> mCtx (fiber s m) \<noteq> Ended"

text \<open>The context of a fiber has come to its end exactly in the two final states.\<close>

definition ended_ok :: "'cb fibers \<Rightarrow> bool" where
  "ended_ok s \<longleftrightarrow> (\<forall>p. mCtx (fiber s p) = Ended \<longleftrightarrow> mState (fiber s p) \<in> {TERM', EXCEPT})"

definition state_after :: "outcome \<Rightarrow> FiberState" where
  "state_after out = (case out of Yields_hold \<Rightarrow> HOLD | Yields_ready \<Rightarrow> READY | Backs \<Rightarrow> EXEC | Returns \<Rightarrow> TERM' | Throws \<Rightarrow> EXCEPT)"

definition effective :: "nat \<Rightarrow> outcome \<Rightarrow> 'cb fibers \<Rightarrow> outcome" where
  "effective p out s = (if mCtx (fiber s p) = At_entry \<and> mCb (fiber s p) = None then Throws else out)"

text \<open>The state after a resumption.\<close>

definition after_run :: "int \<Rightarrow> nat \<Rightarrow> nat \<Rightarrow> outcome \<Rightarrow> 'cb fibers \<Rightarrow> 'cb fibers" where
  "after_run t m p out s =
     s\<lparr>fiber := (fiber s)(m := (fiber s m)\<lparr>mCtx := Suspended\<rparr>,
         p := (fiber s p)\<lparr>mCtx := (if out = Returns \<or> out = Throws then Ended else Suspended), mState := state_after out,
           mCb := (if out = Returns then None else mCb (fiber s p))\<rparr>)\<rparr>"

lemma fiber_update_order:
  "f\<lparr>mState := x, mCtx := y\<rparr> = f\<lparr>mCtx := y, mState := x\<rparr>"
  "f\<lparr>mCb := b, mState := x\<rparr> = f\<lparr>mState := x, mCb := b\<rparr>"
  "f\<lparr>mCb := b, mCtx := y\<rparr> = f\<lparr>mCtx := y, mCb := b\<rparr>"
  by simp_all

lemma run_fiber_eq:
  assumes main: "at_main t m s" and "p \<noteq> m" and "mState (fiber s p) \<noteq> EXEC" and "mCtx (fiber s p) \<noteq> Ended"
  shows "run_fiber t p out s = Inr (after_run t m p (effective p out s) s)"
proof -
  let ?s = "on_fiber m (\<lambda>f. f\<lparr>mCtx := Suspended\<rparr>) (on_fiber p (\<lambda>f. f\<lparr>mState := EXEC\<rparr>) (SetThis t (Some p) s))"
  have r: "KFiber_resume t p s = Inr ?s"
    using assms by (simp add: KFiber_resume_def swapIn_def swapcontext_def SetThis_def on_fiber_def at_main_def Let_def)
  have f: "gCurrentFiber ?s t = Some p" "gThreadMainFiber ?s t = Some m" "fiber ?s p = (fiber s p)\<lparr>mState := EXEC\<rparr>"
    "fiber ?s m = (fiber s m)\<lparr>mCtx := Suspended\<rparr>"
    using assms(1,2) by (simp_all add: SetThis_def on_fiber_def at_main_def)
  have g: "GetThis g t ?s = (p, ?s)" for g by (simp only: GetThis_def f option.case)
  have c: "(gCurrentFiber s)(t := Some p, t := Some m) = gCurrentFiber s" using main by (simp add: at_main_def fun_upd_idem)
  show ?thesis unfolding run_fiber_def effective_def [symmetric] Let_def r bind_simps
    by (cases "effective p out s")
      (simp_all add: Yeild2Hold_def Yeild2Ready_def FiberEntry_end_def g f(3) Let_def,
        use assms(2) c main in \<open>simp_all add: swapOut_def KFiber_back_def swapcontext_def after_run_def state_after_def Let_def SetThis_def on_fiber_def
          at_main_def fun_upd_twist fiber_update_order\<close>)
qed

lemma after_run_fields [simp]:
  "gCurrentFiber (after_run t m p out s) = gCurrentFiber s" "gThreadMainFiber (after_run t m p out s) = gThreadMainFiber s"
  "p \<noteq> m \<Longrightarrow> fiber (after_run t m p out s) m = (fiber s m)\<lparr>mCtx := Suspended\<rparr>"
  "q \<noteq> p \<Longrightarrow> q \<noteq> m \<Longrightarrow> fiber (after_run t m p out s) q = fiber s q"
  "mState (fiber (after_run t m p out s) p) = state_after out"
  "mCtx (fiber (after_run t m p out s) p) = (if out = Returns \<or> out = Throws then Ended else Suspended)"
  "mCb (fiber (after_run t m p out s) p) = (if out = Returns then None else mCb (fiber s p))"
  "mFiberId (fiber (after_run t m p out s) q) = mFiberId (fiber s q)"
  "mStack (fiber (after_run t m p out s) q) = mStack (fiber s q)"
  "gFiberCount (after_run t m p out s) = gFiberCount s"
  by (simp_all add: after_run_def)

lemma ended_after_run:
  assumes "ended_ok s" and "mState (fiber s m) \<notin> {TERM', EXCEPT}" and "p \<noteq> m"
  shows "ended_ok (after_run t m p out s)"
proof -
  have "mCtx (fiber (after_run t m p out s) q) = Ended \<longleftrightarrow> mState (fiber (after_run t m p out s) q) \<in> {TERM', EXCEPT}" for q
    using assms by (cases "q = p"; cases "q = m") (auto simp: ended_ok_def state_after_def after_run_def split: outcome.splits)
  then show ?thesis by (simp add: ended_ok_def)
qed

text \<open>C33: Resuming a fiber that is ready or held runs it until it gives up control and returns to the main fiber of the thread. The fiber
  is then held, ready, terminated or failed according to how it gave up control, or still marked as executed if it did so by \<open>back\<close>;
  a fiber without a callback has always failed; its
  context is at an end exactly in the last two states, and no other fiber has changed.\<close>

theorem run_fiber_correct:
  assumes "ended_ok s" and "at_main t m s" and "p \<noteq> m" and "mState (fiber s m) = EXEC"
    and "mState (fiber s p) = READY \<or> mState (fiber s p) = HOLD"
  shows "\<exists>s'. run_fiber t p out s = Inr s' \<and> ended_ok s' \<and> at_main t m s' \<and> mState (fiber s' m) = EXEC \<and>
    mState (fiber s' p) = (if mCtx (fiber s p) = At_entry \<and> mCb (fiber s p) = None then EXCEPT
      else case out of Yields_hold \<Rightarrow> HOLD | Yields_ready \<Rightarrow> READY | Backs \<Rightarrow> EXEC | Returns \<Rightarrow> TERM' | Throws \<Rightarrow> EXCEPT) \<and>
    (mState (fiber s' p) = TERM' \<longrightarrow> mCb (fiber s' p) = None) \<and>
    (\<forall>q. q \<noteq> p \<longrightarrow> mState (fiber s' q) = mState (fiber s q) \<and> mCb (fiber s' q) = mCb (fiber s q))"
proof -
  have "mCtx (fiber s p) \<noteq> Ended" using assms(1,5) by (auto simp: ended_ok_def)
  then have r: "run_fiber t p out s = Inr (after_run t m p (effective p out s) s)"
    using assms(5) by (intro run_fiber_eq [OF assms(2,3)]) auto
  have "ended_ok (after_run t m p (effective p out s) s)"
    by (rule ended_after_run [OF assms(1) _ assms(3)]) (simp add: assms(4))
  moreover have "at_main t m (after_run t m p (effective p out s) s)"
    using assms(2,3) by (simp add: at_main_def)
  moreover have "mState (fiber (after_run t m p (effective p out s) s) q) = mState (fiber s q) \<and>
      mCb (fiber (after_run t m p (effective p out s) s) q) = mCb (fiber s q)" if "q \<noteq> p" for q
    using that assms(3) by (cases "q = m") simp_all
  ultimately show ?thesis using r assms(3,4)
    by (intro exI [of _ "after_run t m p (effective p out s) s"])
      (auto simp: state_after_def effective_def split: outcome.splits if_splits)
qed

text \<open>Resuming a fiber that is being executed fails an assertion, and so does resuming one that has terminated or failed: it continues behind the
  end of \<open>FiberEntry\<close>.\<close>

theorem run_fiber_rejects:
  assumes "ended_ok s" and "at_main t m s" and "p \<noteq> m"
    and "mState (fiber s p) = EXEC \<or> mState (fiber s p) = TERM' \<or> mState (fiber s p) = EXCEPT"
  shows "run_fiber t p out s = Inl Assertion_failed"
proof (cases "mState (fiber s p) = EXEC")
  case True
  then show ?thesis by (simp add: run_fiber_def KFiber_resume_def swapIn_def SetThis_def Let_def)
next
  case False
  then have "mCtx (fiber s p) = Ended" using assms(1,4) by (auto simp: ended_ok_def)
  then show ?thesis using False assms(2,3)
    by (simp add: run_fiber_def KFiber_resume_def swapIn_def SetThis_def on_fiber_def swapcontext_def at_main_def Let_def)
qed

text \<open>\<open>reset\<close> gives a terminated, failed or ready fiber with a stack a new callback to start from; any other fiber, also a thread's first one,
  fails an assertion.\<close>

theorem KFiber_reset_correct:
  "case KFiber_reset p cb s of
     Inl e \<Rightarrow> e = Assertion_failed \<and> (\<not> mStack (fiber s p) \<or> mState (fiber s p) = EXEC \<or> mState (fiber s p) = HOLD)
   | Inr s' \<Rightarrow> mStack (fiber s p) \<and> mState (fiber s p) \<noteq> EXEC \<and> mState (fiber s p) \<noteq> HOLD \<and>
       mState (fiber s' p) = READY \<and> mCtx (fiber s' p) = At_entry \<and> mCb (fiber s' p) = cb \<and>
       (\<forall>q. q \<noteq> p \<longrightarrow> fiber s' q = fiber s q) \<and> (ended_ok s \<longrightarrow> ended_ok s')"
  by (cases "mState (fiber s p)") (auto simp: KFiber_reset_def on_fiber_def ended_ok_def Let_def)

text \<open>The destructor of a thread's first fiber depends on memory that its constructor leaves uninitialised: with a null word in the place of
  \<open>mStack\<close> it succeeds, with anything else it fails an assertion (the fiber is in state \<open>EXEC\<close>).\<close>

theorem main_fiber_garbage:
  "(let (p, s') = KFiber_main garbage t s in KFiber_destroy t p s') =
     (if fst garbage then Inl Assertion_failed
      else Inr (let (p, s') = KFiber_main garbage t s in SetThis t None (s'\<lparr>gFiberCount := gFiberCount s' - 1\<rparr>)))"
  by (simp add: KFiber_main_def KFiber_destroy_def SetThis_def Let_def)

text \<open>A thread's first fiber may yield once only: nothing ever sets its state back to \<open>EXEC\<close>, so the second yield fails an assertion.\<close>

theorem main_fiber_yields_once:
  assumes "at_main t m s" and "mState (fiber s m) = EXEC"
  shows "\<exists>s'. Yeild2Hold garbage t s = Inr s' \<and> mState (fiber s' m) = HOLD \<and>
    Yeild2Hold garbage t s' = Inl Assertion_failed \<and> Yeild2Ready garbage t s' = Inl Assertion_failed"
  using assms by (simp add: Yeild2Hold_def Yeild2Ready_def GetThis_def swapOut_def swapcontext_def SetThis_def on_fiber_def at_main_def Let_def)

section \<open>Instances\<close>

text \<open>Thread 1 with its main fiber 0 and a fresh fiber 1.\<close>

definition sample_fibers :: "nat fibers" where
  "sample_fibers =
     (let s = \<lparr>gFiberId = 0, gFiberCount = 0, fiber = (\<lambda>_. \<lparr>mCtx = At_entry, mState = READY, mFiberId = 0, mStackSize = 0,
                mStack = False, mCb = None\<rparr>), next_fiber = 0, gCurrentFiber = (\<lambda>_. None), gThreadMainFiber = (\<lambda>_. None)\<rparr>;
          s = snd (GetThis (False, 0) 1 s)
      in case KFiber_new True (Some 5) 0 s of Inr (p, s) \<Rightarrow> s | Inl _ \<Rightarrow> s)"

lemma sample_fibers_ok:
  "ended_ok sample_fibers" "at_main 1 0 sample_fibers" "mState (fiber sample_fibers 0) = EXEC"
  "mState (fiber sample_fibers (Suc 0)) = READY" "mCb (fiber sample_fibers (Suc 0)) = Some 5"
  by (simp_all add: sample_fibers_def GetThis_def KFiber_main_def KFiber_new_def SetThis_def ended_ok_def at_main_def Let_def)

theorem run_fiber_correct_witness:
  "\<exists>s'. run_fiber 1 (Suc 0) Returns sample_fibers = Inr s' \<and> mState (fiber s' (Suc 0)) = TERM' \<and> ended_ok s'"
proof -
  have "\<not> (mCtx (fiber sample_fibers (Suc 0)) = At_entry \<and> mCb (fiber sample_fibers (Suc 0)) = None)" by (simp add: sample_fibers_ok(5))
  with run_fiber_correct [OF sample_fibers_ok(1,2) _ sample_fibers_ok(3), of "Suc 0" Returns] sample_fibers_ok(4) show ?thesis by auto
qed

theorem run_fiber_rejects_witness:
  "\<exists>s'. run_fiber 1 (Suc 0) Returns sample_fibers = Inr s' \<and> run_fiber 1 (Suc 0) Returns s' = Inl Assertion_failed"
proof -
  have c: "mCb (fiber sample_fibers (Suc 0)) \<noteq> None" by (simp add: sample_fibers_ok(5))
  obtain s' where s': "run_fiber 1 (Suc 0) Returns sample_fibers = Inr s'" "ended_ok s'" "at_main 1 0 s'" "mState (fiber s' (Suc 0)) = TERM'"
    using run_fiber_eq [OF sample_fibers_ok(2), of "Suc 0" Returns] c sample_fibers_ok
      ended_after_run [OF sample_fibers_ok(1), of 0 "Suc 0" 1 Returns]
    by (auto simp: effective_def state_after_def at_main_def ended_ok_def)
  with run_fiber_rejects [OF s'(2,3), of "Suc 0" Returns] show ?thesis by auto
qed

theorem main_fiber_yields_once_witness:
  "\<exists>s'. Yeild2Hold (False, 0) 1 sample_fibers = Inr s' \<and> Yeild2Hold (False, 0) 1 s' = Inl Assertion_failed"
  using main_fiber_yields_once [OF sample_fibers_ok(2,3)] by blast

theorem KFiber_reset_correct_witness:
  "\<exists>s'. KFiber_reset (Suc 0) None sample_fibers = Inr s' \<and> ended_ok s' \<and> mCb (fiber s' (Suc 0)) = None"
proof -
  have "mStack (fiber sample_fibers (Suc 0))"
    by (simp add: sample_fibers_def GetThis_def KFiber_main_def KFiber_new_def SetThis_def Let_def)
  with KFiber_reset_correct [where p = "Suc 0" and cb = None and s = sample_fibers] sample_fibers_ok(1,4) show ?thesis by (auto split: sum.splits)
qed

end
