(* ===== verification/Kschedule.thy ===== *)
theory Kschedule
  imports Kfiber "HOL-Library.Multiset"
begin

text \<open>
  kschedule.h and kschedule.cpp: the queue of fibers and callbacks that a pool of threads works off.
  Threads are their kernel numbers; what the mutex \<open>mQueueMutex\<close> protects is one step. The queue holds
  pointers to fibers of the store of theory Kfiber. A fiber lives as long as it is referenced; whether someone
  besides the scheduler holds a reference is an argument where it matters. \<open>tickle()\<close> is virtual: the
  operations answer whether or how often they call it. Names and log output are left out.
\<close>

section \<open>Data\<close>

record 'cb FiberBindThread =
  fiberPtr :: "nat option"
  ft_cb :: "'cb option"
  ft_tid :: int

record 'cb KScheduler =
  mThreads :: "int list"
  mThreadIds :: "int list"
  mThreadCount :: u32
  mContainUserCaller :: bool
  mRootThread :: int
  mStopping :: bool
  mActiveThreadCount :: u32
  mIdleThreadCount :: u32
  mRootFiber :: "nat option"
  mFiberQueue :: "'cb FiberBindThread list"

text \<open>The two types \<open>schedule\<close> is instantiated with; None is a null pointer or an empty function.\<close>

datatype 'cb FiberOrCb = Fb "nat option" | Cb "'cb option"

fun bind_thread :: "'cb FiberOrCb \<Rightarrow> int \<Rightarrow> 'cb FiberBindThread" where
  "bind_thread (Fb p) th = \<lparr>fiberPtr = p, ft_cb = None, ft_tid = th\<rparr>"
| "bind_thread (Cb f) th = \<lparr>fiberPtr = None, ft_cb = f, ft_tid = th\<rparr>"

section \<open>Scheduling\<close>

definition scheduleNoLock :: "'cb FiberOrCb \<Rightarrow> int \<Rightarrow> 'cb KScheduler \<Rightarrow> bool \<times> 'cb KScheduler" where
  "scheduleNoLock fc th s =
     (let needTickle = (mFiberQueue s = []);
          ft = bind_thread fc th
      in (needTickle,
          if fiberPtr ft \<noteq> None \<or> ft_cb ft \<noteq> None then s\<lparr>mFiberQueue := mFiberQueue s @ [ft]\<rparr> else s))"

definition schedule :: "'cb FiberOrCb \<Rightarrow> int \<Rightarrow> 'cb KScheduler \<Rightarrow> bool \<times> 'cb KScheduler" where
  "schedule fc th s =
     (let (needTickle, s) = scheduleNoLock fc th s
      in (needTickle \<and> mThreadCount s > 0, s))"

fun schedule_loop :: "('cb FiberOrCb \<times> int) list \<Rightarrow> bool \<Rightarrow> 'cb KScheduler \<Rightarrow> bool \<times> 'cb KScheduler" where
  "schedule_loop [] needTickle s = (needTickle, s)"
| "schedule_loop ((fc, th) # rest) needTickle s =
     (let (n, s) = scheduleNoLock fc th s in schedule_loop rest (n \<or> needTickle) s)"

definition schedule_range :: "('cb FiberOrCb \<times> int) list \<Rightarrow> 'cb KScheduler \<Rightarrow> bool \<times> 'cb KScheduler" where
  "schedule_range tasks s =
     (let (needTickle, s) = schedule_loop tasks False s
      in (needTickle \<and> mThreadCount s > 0, s))"

definition stopping :: "'cb KScheduler \<Rightarrow> bool" where
  "stopping s \<longleftrightarrow> mStopping s \<and> length (mFiberQueue s) = 0 \<and> mActiveThreadCount s = 0"

definition hasIdleThread :: "'cb KScheduler \<Rightarrow> bool" where
  "hasIdleThread s \<longleftrightarrow> mIdleThreadCount s > 0"

section \<open>Construction, start and stop\<close>

text \<open>\<open>tid\<close> is the constructing thread, \<open>loop\<close> the callback \<open>threadloop\<close>.\<close>

definition KScheduler_new :: "bool \<Rightarrow> bool \<times> u64 \<Rightarrow> 'cb \<Rightarrow> int \<Rightarrow> 8 word \<Rightarrow> bool \<Rightarrow> 'cb fibers \<Rightarrow> ('cb KScheduler \<times> 'cb fibers) result" where
  "KScheduler_new malloc garbage loop tid threads userCaller fs =
     (let s = \<lparr>mThreads = [], mThreadIds = [], mThreadCount = ucast threads, mContainUserCaller = userCaller, mRootThread = -1,
               mStopping = True, mActiveThreadCount = 0, mIdleThreadCount = 0, mRootFiber = None, mFiberQueue = []\<rparr>
      in if \<not> threads > 0 then Inl Assertion_failed
         else if userCaller
         then let fs = snd (GetThis garbage tid fs);
                  threads = threads - 1
              in bind (KFiber_new malloc (Some loop) 0 fs) (\<lambda>(p, fs).
                 Inr (s\<lparr>mRootFiber := Some p, mThreadIds := [tid], mRootThread := tid, mThreadCount := ucast threads\<rparr>, fs))
         else Inr (s, fs))"

text \<open>\<open>tids\<close> are the numbers of the threads the system creates, one for each round of the loop.\<close>

definition start :: "int list \<Rightarrow> 'cb KScheduler \<Rightarrow> 'cb KScheduler result" where
  "start tids s =
     (if mStopping s
      then if mThreads s \<noteq> [] then Inl Assertion_failed
           else let new = take (unat (mThreadCount s)) tids
                in Inr (s\<lparr>mStopping := False, mThreads := mThreads s @ new, mThreadIds := mThreadIds s @ new\<rparr>)
      else Inr s)"

text \<open>
  \<open>stop\<close>, called on a thread whose scheduler is this one or not (\<open>mine\<close>): how often it calls
  \<open>tickle\<close> and whether it then runs the root fiber.
\<close>

definition stop :: "bool \<Rightarrow> 'cb fibers \<Rightarrow> 'cb KScheduler \<Rightarrow> (nat \<times> bool \<times> 'cb KScheduler) result" where
  "stop mine fs s =
     (if (case mRootFiber s of None \<Rightarrow> False | Some p \<Rightarrow> mThreadCount s = 0 \<and> mState (fiber fs p) = TERM') \<and> stopping s
      then Inr (0, False, s)
      else if (if mRootThread s \<noteq> -1 then \<not> mine else mine) then Inl Assertion_failed
      else let s = s\<lparr>mStopping := True\<rparr>;
               tickles = unat (mThreadCount s) + (if mRootFiber s \<noteq> None then 1 else 0)
      in Inr (tickles, mRootFiber s \<noteq> None \<and> \<not> stopping s, s))"

text \<open>
  \<open>switchTo\<close> on thread \<open>me\<close> whose scheduler is \<open>this\<close> one, another or none: None when there is nothing to
  do, else the scheduler with the current fiber queued; \<open>Yeild2Hold\<close> follows.
\<close>

datatype current_scheduler = No_scheduler | This_scheduler | Other_scheduler

definition switchTo :: "bool \<times> u64 \<Rightarrow> current_scheduler \<Rightarrow> int \<Rightarrow> int \<Rightarrow> 'cb fibers \<Rightarrow> 'cb KScheduler \<Rightarrow>
    (bool \<times> 'cb fibers \<times> 'cb KScheduler) option result" where
  "switchTo garbage which me th fs s =
     (if which = No_scheduler then Inl Assertion_failed
      else if which = This_scheduler \<and> (th = -1 \<or> th = me) then Inr None
      else let (p, fs) = GetThis garbage me fs;
               (tickled, s) = schedule (Fb (Some p)) th s
      in Inr (Some (tickled, fs, s)))"

section \<open>The loop of a thread\<close>

text \<open>
  The search for a task that thread \<open>me\<close> may run: the task, the queue without it, whether another thread is
  to be woken.
\<close>

fun scan :: "int \<Rightarrow> 'cb fibers \<Rightarrow> 'cb FiberBindThread list \<Rightarrow>
    ('cb FiberBindThread option \<times> 'cb FiberBindThread list \<times> bool) result" where
  "scan me fs [] = Inr (None, [], False)"
| "scan me fs (it # q) =
     (if ft_tid it \<noteq> 0 \<and> ft_tid it \<noteq> me
      then bind (scan me fs q) (\<lambda>(ft, q, needTickle). Inr (ft, it # q, True))
      else if fiberPtr it = None \<and> ft_cb it = None then Inl Assertion_failed
      else if (case fiberPtr it of None \<Rightarrow> False | Some p \<Rightarrow> mState (fiber fs p) = EXEC)
      then bind (scan me fs q) (\<lambda>(ft, q, needTickle). Inr (ft, it # q, needTickle))
      else Inr (Some it, q, q \<noteq> []))"

definition take_task :: "int \<Rightarrow> 'cb fibers \<Rightarrow> 'cb KScheduler \<Rightarrow> ('cb FiberBindThread option \<times> bool \<times> 'cb KScheduler) result" where
  "take_task me fs s =
     bind (scan me fs (mFiberQueue s)) (\<lambda>(ft, q, needTickle).
       case ft of
         None \<Rightarrow> Inr (None, needTickle, s)
       | Some it \<Rightarrow> Inr (Some it, needTickle, s\<lparr>mFiberQueue := q, mActiveThreadCount := mActiveThreadCount s + 1\<rparr>))"

text \<open>What the loop does with the task it has taken, or with none.\<close>

datatype 'cb action = Resume nat | Run_callback 'cb | Drop_task | Leave | Run_idle

definition dispatch :: "'cb FiberBindThread option \<Rightarrow> nat \<Rightarrow> 'cb fibers \<Rightarrow> 'cb action" where
  "dispatch ft idleFiber fs =
     (let ptr = Option.bind ft fiberPtr; callback = Option.bind ft ft_cb in
      if (case ptr of None \<Rightarrow> False | Some p \<Rightarrow> mState (fiber fs p) \<noteq> EXEC \<and> mState (fiber fs p) \<noteq> EXCEPT) then Resume (the ptr)
      else case callback of
        Some f \<Rightarrow> Run_callback f
      | None \<Rightarrow>
          if ft \<noteq> None then Drop_task
          else if mState (fiber fs idleFiber) = TERM' then Leave
          else Run_idle)"

text \<open>
  The loop lets go of its reference to a fiber, to which someone else refers or not (\<open>shared\<close>). A fiber that is suspended within its
  code refers to itself: \<open>FiberEntry\<close> keeps \<open>curr\<close> on the fiber's stack until the callback has ended, and a yield keeps \<open>ptr\<close> there
  across \<open>swapOut\<close>. So it is destroyed only when the callback has ended, or before it has begun.
\<close>

definition release_fiber :: "int \<Rightarrow> bool \<Rightarrow> nat \<Rightarrow> 'cb fibers \<Rightarrow> 'cb fibers result" where
  "release_fiber t shared p fs = (if shared \<or> mCtx (fiber fs p) = Suspended then Inr fs else KFiber_destroy t p fs)"

definition release_active :: "'cb KScheduler \<Rightarrow> 'cb KScheduler" where
  "release_active s = s\<lparr>mActiveThreadCount := mActiveThreadCount s - 1\<rparr>"

definition run_task_fiber :: "int \<Rightarrow> nat \<Rightarrow> outcome \<Rightarrow> bool \<Rightarrow> 'cb fibers \<Rightarrow> 'cb KScheduler \<Rightarrow> (bool \<times> 'cb fibers \<times> 'cb KScheduler) result" where
  "run_task_fiber t p out shared fs s =
     bind (run_fiber t p out fs) (\<lambda>fs.
       let s = release_active s;
           state = mState (fiber fs p)
       in if state = READY then Inr (let (n, s) = schedule (Fb (Some p)) 0 s in (n, fs, s))
          else if state \<noteq> TERM' \<and> state \<noteq> EXCEPT
          then bind (release_fiber t shared p (on_fiber p (\<lambda>f. f\<lparr>mState := HOLD\<rparr>) fs)) (\<lambda>fs. Inr (False, fs, s))
          else bind (release_fiber t shared p fs) (\<lambda>fs. Inr (False, fs, s)))"

text \<open>A callback runs on the thread's \<open>cbFiber\<close>, which is kept for the next one unless the callback has yielded.\<close>

definition run_task_callback :: "bool \<Rightarrow> int \<Rightarrow> 'cb \<Rightarrow> outcome \<Rightarrow> bool \<Rightarrow> nat option \<Rightarrow> 'cb fibers \<Rightarrow> 'cb KScheduler \<Rightarrow>
    (bool \<times> nat option \<times> 'cb fibers \<times> 'cb KScheduler) result" where
  "run_task_callback malloc t f out shared cbFiber fs s =
     bind (case cbFiber of
             Some p \<Rightarrow> bind (KFiber_reset p (Some f) fs) (\<lambda>fs. Inr (p, fs))
           | None \<Rightarrow> KFiber_new malloc (Some f) 0 fs) (\<lambda>(p, fs).
     bind (run_fiber t p out fs) (\<lambda>fs.
       let s = release_active s;
           state = mState (fiber fs p)
       in if state = READY then Inr (let (n, s) = schedule (Fb (Some p)) 0 s in (n, None, fs, s))
          else if state = EXCEPT \<or> state = TERM' then bind (KFiber_reset p None fs) (\<lambda>fs. Inr (False, Some p, fs, s))
          else bind (release_fiber t shared p (on_fiber p (\<lambda>f. f\<lparr>mState := HOLD\<rparr>) fs)) (\<lambda>fs. Inr (False, None, fs, s))))"

definition run_idle :: "int \<Rightarrow> nat \<Rightarrow> outcome \<Rightarrow> 'cb fibers \<Rightarrow> 'cb KScheduler \<Rightarrow> ('cb fibers \<times> 'cb KScheduler) result" where
  "run_idle t idleFiber out fs s =
     (let s = s\<lparr>mIdleThreadCount := mIdleThreadCount s + 1\<rparr>
      in bind (run_fiber t idleFiber out fs) (\<lambda>fs.
        let s = s\<lparr>mIdleThreadCount := mIdleThreadCount s - 1\<rparr>;
            state = mState (fiber fs idleFiber)
        in Inr (if state \<noteq> TERM' \<and> state \<noteq> EXCEPT then on_fiber idleFiber (\<lambda>f. f\<lparr>mState := HOLD\<rparr>) fs else fs, s)))"

text \<open>What \<open>KScheduler::idle\<close> does in one round.\<close>

definition idle_round :: "'cb KScheduler \<Rightarrow> outcome" where
  "idle_round s = (if stopping s then Returns else Yields_hold)"

text \<open>
  One round of the loop once a task has been looked for; \<open>out\<close> and \<open>shared\<close> say what the code that runs
  does. The first component tells whether the loop goes on. Leaving it destroys the two fibers of the thread.
\<close>

definition loop_round :: "bool \<Rightarrow> int \<Rightarrow> nat \<Rightarrow> outcome \<Rightarrow> bool \<Rightarrow> 'cb FiberBindThread option \<Rightarrow> nat option \<Rightarrow> 'cb fibers \<Rightarrow> 'cb KScheduler \<Rightarrow>
    (bool \<times> nat option \<times> 'cb fibers \<times> 'cb KScheduler) result" where
  "loop_round malloc t idleFiber out shared ft cbFiber fs s =
     (case dispatch ft idleFiber fs of
        Resume p \<Rightarrow> bind (run_task_fiber t p out shared fs s) (\<lambda>(n, fs, s). Inr (True, cbFiber, fs, s))
      | Run_callback f \<Rightarrow> bind (run_task_callback malloc t f out shared cbFiber fs s) (\<lambda>(n, cbFiber, fs, s). Inr (True, cbFiber, fs, s))
      | Drop_task \<Rightarrow> Inr (True, cbFiber, fs, release_active s)
      | Run_idle \<Rightarrow> bind (run_idle t idleFiber out fs s) (\<lambda>(fs, s). Inr (True, cbFiber, fs, s))
      | Leave \<Rightarrow>
          bind (case cbFiber of Some p \<Rightarrow> KFiber_destroy t p fs | None \<Rightarrow> Inr fs) (\<lambda>fs.
          bind (KFiber_destroy t idleFiber fs) (\<lambda>fs. Inr (False, None, fs, s))))"

section \<open>Choosing a task\<close>

definition null_task :: "'cb FiberBindThread \<Rightarrow> bool" where
  "null_task it \<longleftrightarrow> fiberPtr it = None \<and> ft_cb it = None"

text \<open>A task of another thread, and a task that thread \<open>me\<close> may run.\<close>

definition foreign :: "int \<Rightarrow> 'cb FiberBindThread \<Rightarrow> bool" where
  "foreign me it \<longleftrightarrow> ft_tid it \<noteq> 0 \<and> ft_tid it \<noteq> me"

definition runnable :: "int \<Rightarrow> 'cb fibers \<Rightarrow> 'cb FiberBindThread \<Rightarrow> bool" where
  "runnable me fs it \<longleftrightarrow> \<not> foreign me it \<and> (case fiberPtr it of None \<Rightarrow> True | Some p \<Rightarrow> mState (fiber fs p) \<noteq> EXEC)"

lemma scan_none:
  assumes "\<forall>it\<in>set q. \<not> null_task it" and "\<forall>it\<in>set q. \<not> runnable me fs it"
  shows "scan me fs q = Inr (None, q, \<exists>it\<in>set q. foreign me it)"
  using assms by (induction q) (auto simp: foreign_def runnable_def null_task_def split: option.splits)

lemma scan_some:
  assumes "\<forall>it\<in>set (q1 @ it # q2). \<not> null_task it" and "\<forall>x\<in>set q1. \<not> runnable me fs x" and "runnable me fs it"
  shows "scan me fs (q1 @ it # q2) = Inr (Some it, q1 @ q2, q2 \<noteq> [] \<or> (\<exists>x\<in>set q1. foreign me x))"
  using assms by (induction q1) (auto simp: foreign_def runnable_def null_task_def split: option.splits)

text \<open>A queue either has no task for the thread or splits at the first.\<close>

lemma queue_cases:
  obtains (none) "\<forall>it\<in>set q. \<not> P it"
  | (first) q1 it q2 where "q = q1 @ it # q2" and "P it" and "\<forall>x\<in>set q1. \<not> P x"
  using split_list_first_prop [of q P] by blast

text \<open>C28: In a queue without null tasks the search for a task ends, and takes the first task that is not bound to another thread and whose fiber is not being
  executed: it is removed from the queue, the others keep their order, and the count of active threads grows by one. If there is no such
  task, nothing changes. Another thread is woken when tasks follow behind the one taken or a task bound to another thread was passed.\<close>

theorem take_task_correct:
  assumes "\<forall>it\<in>set (mFiberQueue s). \<not> null_task it"
  shows "\<exists>ft needTickle s'. take_task me fs s = Inr (ft, needTickle, s') \<and>
    (case ft of
       None \<Rightarrow> s' = s \<and> (\<forall>it\<in>set (mFiberQueue s). \<not> runnable me fs it) \<and>
         needTickle = (\<exists>it\<in>set (mFiberQueue s). foreign me it)
     | Some it \<Rightarrow> \<exists>q1 q2. mFiberQueue s = q1 @ it # q2 \<and> runnable me fs it \<and> (\<forall>x\<in>set q1. \<not> runnable me fs x) \<and>
         s' = s\<lparr>mFiberQueue := q1 @ q2, mActiveThreadCount := mActiveThreadCount s + 1\<rparr> \<and>
         needTickle = (q2 \<noteq> [] \<or> (\<exists>x\<in>set q1. foreign me x)))"
proof (cases "mFiberQueue s" rule: queue_cases [where P = "runnable me fs"])
  case none
  then show ?thesis using scan_none [OF assms none] by (auto simp: take_task_def)
next
  case (first q1 it q2)
  then have "scan me fs (mFiberQueue s) = Inr (Some it, q1 @ q2, q2 \<noteq> [] \<or> (\<exists>x\<in>set q1. foreign me x))"
    using scan_some [of q1 it q2] assms by simp
  then show ?thesis using first by (auto simp: take_task_def)
qed

lemma take_task_Some:
  assumes "\<forall>it\<in>set (mFiberQueue s). \<not> null_task it" and "take_task me fs s = Inr (Some it, n, s')"
  obtains q1 q2 where "mFiberQueue s = q1 @ it # q2" and "runnable me fs it"
    and "s' = s\<lparr>mFiberQueue := q1 @ q2, mActiveThreadCount := mActiveThreadCount s + 1\<rparr>"
proof (cases "mFiberQueue s" rule: queue_cases [where P = "runnable me fs"])
  case none
  then show ?thesis using assms(2) scan_none [OF assms(1) none] by (simp add: take_task_def)
next
  case (first q1 it' q2)
  then have "scan me fs (mFiberQueue s) = Inr (Some it', q1 @ q2, q2 \<noteq> [] \<or> (\<exists>x\<in>set q1. foreign me x))"
    using scan_some [of q1 it' q2] assms(1) by simp
  then show ?thesis using that first assms(2) by (auto simp: take_task_def)
qed

section \<open>Queueing\<close>

lemma null_bind_thread: "null_task (bind_thread fc th) \<longleftrightarrow> fc = Fb None \<or> fc = Cb None"
  by (cases fc) (auto simp: null_task_def)

lemma scheduleNoLock_eq:
  "scheduleNoLock fc th s =
     (mFiberQueue s = [], if null_task (bind_thread fc th) then s else s\<lparr>mFiberQueue := mFiberQueue s @ [bind_thread fc th]\<rparr>)"
  by (simp add: scheduleNoLock_def null_task_def Let_def)

lemma schedule_eq:
  "schedule fc th s =
     (mFiberQueue s = [] \<and> mThreadCount s > 0,
      if null_task (bind_thread fc th) then s else s\<lparr>mFiberQueue := mFiberQueue s @ [bind_thread fc th]\<rparr>)"
  by (simp add: schedule_def scheduleNoLock_eq Let_def)

definition tasks_of :: "('cb FiberOrCb \<times> int) list \<Rightarrow> 'cb FiberBindThread list" where
  "tasks_of xs = filter (\<lambda>it. \<not> null_task it) (map (\<lambda>(fc, th). bind_thread fc th) xs)"

lemma snd_schedule_loop: "snd (schedule_loop xs n s) = s\<lparr>mFiberQueue := mFiberQueue s @ tasks_of xs\<rparr>"
  by (induction xs n s rule: schedule_loop.induct) (auto simp: tasks_of_def scheduleNoLock_eq)

lemma schedule_range_frame:
  assumes "schedule_range xs s = (n, s')"
  shows "s' = s\<lparr>mFiberQueue := mFiberQueue s @ tasks_of xs\<rparr>"
  using assms snd_schedule_loop [of xs False s] by (cases "schedule_loop xs False s") (auto simp: schedule_range_def)

lemma fst_schedule_loop_busy: "mFiberQueue s \<noteq> [] \<Longrightarrow> fst (schedule_loop xs n s) = n"
  by (induction xs n s rule: schedule_loop.induct) (auto simp: scheduleNoLock_eq)

lemma fst_schedule_loop_True: "fst (schedule_loop xs True s)"
  by (induction xs True s rule: schedule_loop.induct) (auto simp: scheduleNoLock_eq)

lemma fst_schedule_loop: "fst (schedule_loop xs False s) \<longleftrightarrow> xs \<noteq> [] \<and> mFiberQueue s = []"
proof (cases xs)
  case (Cons x xs')
  obtain fc th where x: "x = (fc, th)" by force
  show ?thesis
  proof (cases "mFiberQueue s = []")
    case True
    then show ?thesis using fst_schedule_loop_True by (auto simp: Cons x scheduleNoLock_eq)
  qed (simp add: Cons x scheduleNoLock_eq fst_schedule_loop_busy)
qed simp

text \<open>Scheduling appends the tasks of a range to the queue in their order, without the null ones, and changes nothing else of the scheduler. It wakes a
  thread exactly when the range is not empty, the queue was empty and there are threads. Scheduling one task is scheduling the range of this task.\<close>

theorem schedule_range_correct:
  "schedule_range xs s =
     (xs \<noteq> [] \<and> mFiberQueue s = [] \<and> mThreadCount s > 0,
      s\<lparr>mFiberQueue := mFiberQueue s @ filter (\<lambda>it. \<not> null_task it) (map (\<lambda>(fc, th). bind_thread fc th) xs)\<rparr>) \<and>
   schedule fc th s = schedule_range [(fc, th)] s"
proof -
  have r: "schedule_range xs s = (xs \<noteq> [] \<and> mFiberQueue s = [] \<and> mThreadCount s > 0, s\<lparr>mFiberQueue := mFiberQueue s @ tasks_of xs\<rparr>)" for xs
    using snd_schedule_loop [of xs False s] fst_schedule_loop [of xs s]
    by (cases "schedule_loop xs False s") (simp add: schedule_range_def)
  show ?thesis unfolding r by (simp add: tasks_of_def schedule_eq)
qed

section \<open>Running a task\<close>

definition ready_or_held :: "nat \<Rightarrow> 'cb fibers \<Rightarrow> bool" where
  "ready_or_held p fs \<longleftrightarrow> mState (fiber fs p) = READY \<or> mState (fiber fs p) = HOLD"

lemma run_task:
  assumes "ended_ok fs" and "at_main t m fs" and "p \<noteq> m" and "mState (fiber fs m) = EXEC" and "ready_or_held p fs"
  obtains fs' where "run_fiber t p out fs = Inr fs'" and "ended_ok fs'" and "at_main t m fs'" and "mState (fiber fs' m) = EXEC"
    and "mState (fiber fs' p) = state_after (effective p out fs)" and "mStack (fiber fs' p) = mStack (fiber fs p)"
    and "mCtx (fiber fs' p) = (if state_after (effective p out fs) \<in> {TERM', EXCEPT} then Ended else Suspended)"
    and "gFiberCount fs' = gFiberCount fs"
proof -
  have e: "mCtx (fiber fs p) \<noteq> Ended" using assms(1,5) by (auto simp: ended_ok_def ready_or_held_def)
  have "run_fiber t p out fs = Inr (after_run t m p (effective p out fs) fs)"
    using assms(5) by (intro run_fiber_eq [OF assms(2,3) _ e]) (auto simp: ready_or_held_def)
  moreover have "ended_ok (after_run t m p (effective p out fs) fs)"
    by (rule ended_after_run [OF assms(1) _ assms(3)]) (simp add: assms(4))
  moreover have "(e = Returns \<or> e = Throws) = (state_after e \<in> {TERM', EXCEPT})" for e
    by (cases e) (simp_all add: state_after_def)
  ultimately show ?thesis using that assms(2-4) by (simp add: at_main_def)
qed

text \<open>A thread's fiber is never left marked as executed.\<close>

definition left_as :: "outcome \<Rightarrow> FiberState" where
  "left_as out = (if state_after out = EXEC then HOLD else state_after out)"

lemma on_fiber_same: "mState (fiber fs p) = x \<Longrightarrow> on_fiber p (\<lambda>f. f\<lparr>mState := x\<rparr>) fs = fs"
  by (simp add: on_fiber_def fun_upd_idem)

text \<open>A thread that runs the fiber of its task uncounts itself; it queues the fiber again, for any thread, exactly when it is ready afterwards, and lets go
  of it otherwise. A fiber whose callback has ended is then destroyed unless someone else refers to it; a held one never is.\<close>

theorem run_task_fiber_correct:
  assumes "ended_ok fs" and "at_main t m fs" and "p \<noteq> m" and "mState (fiber fs m) = EXEC" and "ready_or_held p fs"
    and "mStack (fiber fs p)"
  shows "\<exists>fs' s'. run_task_fiber t p out shared fs s =
      Inr (left_as (effective p out fs) = READY \<and> mFiberQueue s = [] \<and> mThreadCount s > 0, fs', s') \<and>
    at_main t m fs' \<and> ended_ok fs' \<and> mState (fiber fs' p) = left_as (effective p out fs) \<and>
    s' = s\<lparr>mActiveThreadCount := mActiveThreadCount s - 1,
           mFiberQueue := mFiberQueue s @ (if mState (fiber fs' p) = READY then [bind_thread (Fb (Some p)) 0] else [])\<rparr> \<and>
    gFiberCount fs' = gFiberCount fs - (if mState (fiber fs' p) \<in> {TERM', EXCEPT} \<and> \<not> shared then 1 else 0)"
proof -
  obtain fs' where fs': "run_fiber t p out fs = Inr fs'" "ended_ok fs'" "at_main t m fs'" "mState (fiber fs' m) = EXEC"
    "mState (fiber fs' p) = state_after (effective p out fs)" "mStack (fiber fs' p)"
    "mCtx (fiber fs' p) = (if state_after (effective p out fs) \<in> {TERM', EXCEPT} then Ended else Suspended)" "gFiberCount fs' = gFiberCount fs"
    using run_task [OF assms(1-5)] assms(6) by metis
  have c: "gCurrentFiber fs' t \<noteq> Some p" using fs'(3) assms(3) by (simp add: at_main_def)
  have d: "at_main t m (fs'\<lparr>gFiberCount := c\<rparr>)" "ended_ok (fs'\<lparr>gFiberCount := c\<rparr>)" for c
    using fs'(2,3) by (simp_all add: at_main_def ended_ok_def)
  have h: "at_main t m (on_fiber p (\<lambda>f. f\<lparr>mState := HOLD\<rparr>) fs')" "ended_ok (on_fiber p (\<lambda>f. f\<lparr>mState := HOLD\<rparr>) fs')"
    "gFiberCount (on_fiber p (\<lambda>f. f\<lparr>mState := HOLD\<rparr>) fs') = gFiberCount fs'"
    "fiber (on_fiber p (\<lambda>f. f\<lparr>mState := HOLD\<rparr>) fs') p = (fiber fs' p)\<lparr>mState := HOLD\<rparr>"
    if "state_after (effective p out fs) \<notin> {TERM', EXCEPT}"
    using that fs'(2,3,5,7) assms(3) by (auto simp: at_main_def ended_ok_def on_fiber_def)
  show ?thesis using fs' c
    by (cases "effective p out fs")
      (simp_all add: run_task_fiber_def release_active_def release_fiber_def KFiber_destroy_def schedule_eq null_task_def state_after_def
        left_as_def h d Let_def)
qed

text \<open>The fiber a thread keeps for callbacks.\<close>

definition cb_fiber_ok :: "nat option \<Rightarrow> 'cb fibers \<Rightarrow> bool" where
  "cb_fiber_ok cbFiber fs \<longleftrightarrow> (case cbFiber of None \<Rightarrow> True
     | Some p \<Rightarrow> mStack (fiber fs p) \<and> mState (fiber fs p) = READY \<and> mCtx (fiber fs p) = At_entry \<and> mCb (fiber fs p) = None)"

text \<open>Either way the callback starts on a fresh or renewed fiber.\<close>

lemma callback_fiber:
  assumes "cb_fiber_ok cbFiber fs" and "ended_ok fs" and "at_main t m fs" and "mState (fiber fs m) = EXEC" and "cbFiber \<noteq> Some m"
    and "m < next_fiber fs"
  obtains p fs' where
    "(case cbFiber of Some p \<Rightarrow> bind (KFiber_reset p (Some f) fs) (\<lambda>fs. Inr (p, fs)) | None \<Rightarrow> KFiber_new True (Some f) 0 fs) = Inr (p, fs')"
    "p = (case cbFiber of Some p \<Rightarrow> p | None \<Rightarrow> next_fiber fs)" "p \<noteq> m"
    "mStack (fiber fs' p)" "mState (fiber fs' p) = READY" "mCtx (fiber fs' p) = At_entry" "mCb (fiber fs' p) = Some f"
    "ended_ok fs'" "at_main t m fs'" "mState (fiber fs' m) = EXEC" "gFiberCount fs' = gFiberCount fs + (if cbFiber = None then 1 else 0)"
proof (cases cbFiber)
  case None
  show ?thesis
  proof (rule that [of "next_fiber fs" "snd (projr (KFiber_new True (Some f) 0 fs))"])
    show "next_fiber fs \<noteq> m" using assms(6) by simp
  qed (use assms None in \<open>auto simp: KFiber_new_def ended_ok_def at_main_def Let_def\<close>)
next
  case (Some p)
  show ?thesis
  proof (rule that [of p "projr (KFiber_reset p (Some f) fs)"])
    show "p \<noteq> m" using assms(5) Some by simp
  qed (use assms Some in \<open>auto simp: KFiber_reset_def cb_fiber_ok_def ended_ok_def at_main_def on_fiber_def Let_def\<close>)
qed

text \<open>C29: A callback runs from its start on the thread's callback fiber or on a new one, and the loop goes on however it gives up control:
  when it has returned or thrown, its fiber is kept, ready, for the next callback; when it yields to be ready, the fiber is queued and a
  new one will be used; when it yields to be held or goes back, the thread lets go of the fiber, which stays held, is put in no queue and
  is not destroyed, since its own frames refer to it: unless the callback has handed it to someone, it leaks. The count of active
  threads goes down by one, and the number of fibers changes only by the new one.\<close>

theorem run_task_callback_correct:
  assumes "cb_fiber_ok cbFiber fs" and "ended_ok fs" and "at_main t m fs" and "mState (fiber fs m) = EXEC" and "cbFiber \<noteq> Some m"
    and "m < next_fiber fs"
  defines "p \<equiv> (case cbFiber of Some p \<Rightarrow> p | None \<Rightarrow> next_fiber fs)"
  shows "\<exists>cbFiber' fs' s'. run_task_callback True t f out shared cbFiber fs s =
      Inr (out = Yields_ready \<and> mFiberQueue s = [] \<and> mThreadCount s > 0, cbFiber', fs', s') \<and>
    cb_fiber_ok cbFiber' fs' \<and> at_main t m fs' \<and> ended_ok fs' \<and> mState (fiber fs' m) = EXEC \<and>
    cbFiber' = (if out = Returns \<or> out = Throws then Some p else None) \<and>
    mState (fiber fs' p) = (if out = Yields_hold \<or> out = Backs then HOLD else READY) \<and>
    gFiberCount fs' = gFiberCount fs + (if cbFiber = None then 1 else 0) \<and>
    s' = s\<lparr>mActiveThreadCount := mActiveThreadCount s - 1,
           mFiberQueue := mFiberQueue s @ (if out = Yields_ready then [bind_thread (Fb (Some p)) 0] else [])\<rparr>"
proof -
  obtain fs1 where fs1: "(case cbFiber of Some p \<Rightarrow> bind (KFiber_reset p (Some f) fs) (\<lambda>fs. Inr (p, fs)) | None \<Rightarrow> KFiber_new True (Some f) 0 fs) = Inr (p, fs1)"
    and p: "p \<noteq> m" "mStack (fiber fs1 p)" "mState (fiber fs1 p) = READY" "mCtx (fiber fs1 p) = At_entry" "mCb (fiber fs1 p) = Some f"
    and ok: "ended_ok fs1" "at_main t m fs1" "mState (fiber fs1 m) = EXEC" "gFiberCount fs1 = gFiberCount fs + (if cbFiber = None then 1 else 0)"
    unfolding p_def by (rule callback_fiber [OF assms(1-6)]) blast
  have e: "effective p out fs1 = out" by (simp add: effective_def p)
  obtain fs2 where fs2: "run_fiber t p out fs1 = Inr fs2" "ended_ok fs2" "at_main t m fs2" "mState (fiber fs2 m) = EXEC"
    "mState (fiber fs2 p) = state_after out" "mStack (fiber fs2 p)" "mCtx (fiber fs2 p) = (if state_after out \<in> {TERM', EXCEPT} then Ended else Suspended)"
    "gFiberCount fs2 = gFiberCount fs1"
    using run_task [OF ok(1,2) p(1) ok(3), of out] p(2,3) e by (metis ready_or_held_def)
  define fs3 where "fs3 = on_fiber p (\<lambda>f. f\<lparr>mCb := None, mCtx := At_entry, mState := READY\<rparr>) fs2"
  have r: "KFiber_reset p None fs2 = Inr fs3" if "out = Returns \<or> out = Throws"
    using that fs2 by (auto simp: KFiber_reset_def state_after_def fs3_def Let_def)
  have ok3: "at_main t m fs3" "ended_ok fs3" "mState (fiber fs3 m) = EXEC" "cb_fiber_ok (Some p) fs3" "mState (fiber fs3 p) = READY"
    "gFiberCount fs3 = gFiberCount fs2"
    using fs2 p(1) by (auto simp: fs3_def at_main_def ended_ok_def on_fiber_def cb_fiber_ok_def)
  have h: "at_main t m (on_fiber p (\<lambda>f. f\<lparr>mState := HOLD\<rparr>) fs2)" "ended_ok (on_fiber p (\<lambda>f. f\<lparr>mState := HOLD\<rparr>) fs2)"
    "gFiberCount (on_fiber p (\<lambda>f. f\<lparr>mState := HOLD\<rparr>) fs2) = gFiberCount fs2"
    "fiber (on_fiber p (\<lambda>f. f\<lparr>mState := HOLD\<rparr>) fs2) p = (fiber fs2 p)\<lparr>mState := HOLD\<rparr>"
    "fiber (on_fiber p (\<lambda>f. f\<lparr>mState := HOLD\<rparr>) fs2) m = fiber fs2 m"
    if "state_after out \<notin> {TERM', EXCEPT}"
    using that fs2(2,3,5,7) p(1) by (auto simp: at_main_def ended_ok_def on_fiber_def)
  show ?thesis using fs2 r ok3 ok(4)
    by (cases out)
      (simp_all add: run_task_callback_def fs1 release_active_def release_fiber_def schedule_eq null_task_def state_after_def
        h cb_fiber_ok_def Let_def)
qed

text \<open>A thread that has run a callback to its end cannot leave its loop: the fiber it keeps for the next callback is ready, and destroying a ready fiber
  fails an assertion.\<close>

theorem leaving_after_callback_aborts:
  assumes "cb_fiber_ok (Some p) fs" and "mState (fiber fs idleFiber) = TERM'"
  shows "loop_round malloc t idleFiber out shared None (Some p) fs s = Inl Assertion_failed"
  using assms by (simp add: loop_round_def dispatch_def KFiber_destroy_def cb_fiber_ok_def)

section \<open>Switching to another thread\<close>

text \<open>C30: Between the assignment of \<open>HOLD\<close> to the state of a fiber that switches to thread \<open>t2\<close> and the saving of its context, thread \<open>t2\<close> can
  take the fiber from the queue and resume it: both threads then execute it, and \<open>t2\<close> does so from the place where the fiber was left
  the time before. As long as the state is \<open>EXEC\<close>, thread \<open>t2\<close> passes the fiber over.\<close>

theorem switchTo_race:
  assumes "gCurrentFiber fs t = Some p" and "mState (fiber fs p) = EXEC" and "mCtx (fiber fs p) \<noteq> Ended"
    and "\<forall>it\<in>set (mFiberQueue s). foreign t2 it \<and> \<not> null_task it"
    and "at_main t2 m2 fs" and "p \<noteq> m2" and "t \<noteq> t2" and "which = This_scheduler \<or> which = Other_scheduler" and "t2 \<noteq> -1"
  shows "\<exists>n s' n' s'' n'' fs1 fs2. switchTo garbage which t t2 fs s = Inr (Some (n, fs, s')) \<and>
    take_task t2 fs s' = Inr (None, n', s') \<and>
    fs1 = on_fiber p (\<lambda>f. f\<lparr>mState := HOLD\<rparr>) fs \<and> Yeild2Hold garbage t fs = swapOut t Suspended p fs1 \<and>
    take_task t2 fs1 s' = Inr (Some (bind_thread (Fb (Some p)) t2), n'', s'') \<and>
    KFiber_resume t2 p fs1 = Inr fs2 \<and>
    gCurrentFiber fs2 t = Some p \<and> gCurrentFiber fs2 t2 = Some p \<and> mCtx (fiber fs2 p) = mCtx (fiber fs p)"
proof -
  let ?it = "bind_thread (Fb (Some p)) t2 :: 'a FiberBindThread"
  let ?s = "s\<lparr>mFiberQueue := mFiberQueue s @ [?it]\<rparr>"
  let ?fs1 = "on_fiber p (\<lambda>f. f\<lparr>mState := HOLD\<rparr>) fs"
  let ?fs2 = "on_fiber m2 (\<lambda>f. f\<lparr>mCtx := Suspended\<rparr>) (on_fiber p (\<lambda>f. f\<lparr>mState := EXEC\<rparr>) (SetThis t2 (Some p) ?fs1))"
  have g: "GetThis garbage t fs = (p, fs)" by (simp add: GetThis_def assms(1))
  have nn: "\<not> null_task ?it" by (simp add: null_task_def)
  have sw: "switchTo garbage which t t2 fs s = Inr (Some (mFiberQueue s = [] \<and> mThreadCount s > 0, fs, ?s))"
    using assms(7-9) nn by (auto simp: switchTo_def g schedule_eq)
  have nr: "\<not> runnable t2 f it" if "it \<in> set (mFiberQueue s)" for it f
    using that assms(4) by (simp add: runnable_def)
  have q: "\<forall>it\<in>set (mFiberQueue s @ [?it]). \<not> null_task it" using assms(4) nn by simp
  have "\<not> runnable t2 fs ?it" by (simp add: runnable_def assms(2))
  then have "scan t2 fs (mFiberQueue s @ [?it]) = Inr (None, mFiberQueue s @ [?it], \<exists>it\<in>set (mFiberQueue s @ [?it]). foreign t2 it)"
    using nr by (intro scan_none [OF q]) auto
  then have t1: "take_task t2 fs ?s = Inr (None, \<exists>it\<in>set (mFiberQueue s @ [?it]). foreign t2 it, ?s)" by (simp add: take_task_def)
  have r: "runnable t2 ?fs1 ?it" by (simp add: runnable_def foreign_def on_fiber_def)
  have nr': "\<forall>x\<in>set (mFiberQueue s). \<not> runnable t2 ?fs1 x" using nr by blast
  have "take_task t2 ?fs1 ?s =
      Inr (Some ?it, \<exists>x\<in>set (mFiberQueue s). foreign t2 x, s\<lparr>mFiberQueue := mFiberQueue s, mActiveThreadCount := mActiveThreadCount s + 1\<rparr>)"
    using scan_some [OF q nr' r] by (simp add: take_task_def)
  moreover have "Yeild2Hold garbage t fs = swapOut t Suspended p ?fs1" by (simp add: Yeild2Hold_def g assms(2))
  moreover have "KFiber_resume t2 p ?fs1 = Inr ?fs2"
    using assms(3,5,6) by (simp add: KFiber_resume_def swapIn_def swapcontext_def SetThis_def on_fiber_def at_main_def Let_def)
  moreover have "gCurrentFiber ?fs2 t = Some p \<and> gCurrentFiber ?fs2 t2 = Some p \<and> mCtx (fiber ?fs2 p) = mCtx (fiber fs p)"
    using assms(1,6,7) by (simp add: SetThis_def on_fiber_def)
  ultimately show ?thesis using sw t1 by (intro exI conjI) (rule refl | assumption | simp)+
qed

section \<open>Instances\<close>

definition sample_scheduler :: "'cb FiberBindThread list \<Rightarrow> 'cb KScheduler" where
  "sample_scheduler q =
     \<lparr>mThreads = [1, 2], mThreadIds = [1, 2], mThreadCount = 2, mContainUserCaller = False, mRootThread = -1, mStopping = False,
      mActiveThreadCount = 0, mIdleThreadCount = 0, mRootFiber = None, mFiberQueue = q\<rparr>"

lemma sample_queue [simp]: "mFiberQueue (sample_scheduler q) = q"
  by (simp add: sample_scheduler_def)

text \<open>A task for thread 2 and one for thread 1, which takes its own.\<close>

theorem take_task_correct_witness:
  "let s = sample_scheduler [bind_thread (Cb (Some 9)) 2, bind_thread (Cb (Some 7)) 1]
   in (\<exists>ft n s'. take_task 1 sample_fibers s = Inr (ft, n, s') \<and> (ft = None \<longrightarrow> s' = s)) \<and>
      take_task 1 sample_fibers s =
        Inr (Some (bind_thread (Cb (Some 7)) 1), True, s\<lparr>mFiberQueue := [bind_thread (Cb (Some 9)) 2], mActiveThreadCount := 1\<rparr>)"
proof -
  let ?s = "sample_scheduler [bind_thread (Cb (Some 9)) 2, bind_thread (Cb (Some 7)) 1] :: nat KScheduler"
  have "\<forall>it\<in>set (mFiberQueue ?s). \<not> null_task it" by (simp add: sample_scheduler_def null_task_def)
  from take_task_correct [OF this, of 1 sample_fibers] have "\<exists>ft n s'. take_task 1 sample_fibers ?s = Inr (ft, n, s') \<and> (ft = None \<longrightarrow> s' = ?s)"
    by (elim exE) (auto split: option.splits)
  moreover have "take_task 1 sample_fibers ?s =
      Inr (Some (bind_thread (Cb (Some 7)) 1), True, ?s\<lparr>mFiberQueue := [bind_thread (Cb (Some 9)) 2], mActiveThreadCount := 1\<rparr>)"
    by (simp add: take_task_def sample_scheduler_def)
  ultimately show ?thesis by (simp add: Let_def)
qed

theorem run_task_fiber_correct_witness:
  "\<exists>n fs' s'. run_task_fiber 1 (Suc 0) Yields_ready False sample_fibers (sample_scheduler []) = Inr (n, fs', s') \<and>
    mFiberQueue s' = [bind_thread (Fb (Some (Suc 0))) 0]"
proof -
  have "mStack (fiber sample_fibers (Suc 0))"
    by (simp add: sample_fibers_def GetThis_def KFiber_main_def KFiber_new_def SetThis_def Let_def)
  with run_task_fiber_correct [OF sample_fibers_ok(1,2) _ sample_fibers_ok(3), where p = "Suc 0" and out = Yields_ready and shared = False
      and s = "sample_scheduler []"] sample_fibers_ok(4,5)
  show ?thesis by (auto simp: ready_or_held_def effective_def state_after_def left_as_def sample_scheduler_def)
qed

text \<open>The callback of number 3 runs on a new fiber, yields to be held, and its fiber is given up.\<close>

theorem run_task_callback_correct_witness:
  "\<exists>n fs' s'. run_task_callback True 1 3 Yields_hold False None sample_fibers (sample_scheduler []) = Inr (n, None, fs', s') \<and>
    mState (fiber fs' 2) = HOLD \<and> gFiberCount fs' = 3 \<and> mFiberQueue s' = []"
proof -
  have n: "next_fiber sample_fibers = 2" "0 < next_fiber sample_fibers" "gFiberCount sample_fibers = 2"
    by (simp_all add: sample_fibers_def GetThis_def KFiber_main_def KFiber_new_def SetThis_def Let_def)
  have c: "cb_fiber_ok None sample_fibers" by (simp add: cb_fiber_ok_def)
  from run_task_callback_correct [OF c sample_fibers_ok(1-3) _ n(2), where f = 3 and out = Yields_hold and shared = False
      and s = "sample_scheduler []"]
  show ?thesis by (auto simp: n)
qed

definition sample_worker :: "nat fibers" where
  "sample_worker = sample_fibers\<lparr>fiber := (fiber sample_fibers)
     (Suc 0 := (fiber sample_fibers (Suc 0))\<lparr>mState := TERM', mCtx := Ended\<rparr>,
      2 := \<lparr>mCtx = At_entry, mState = READY, mFiberId = 3, mStackSize = 0, mStack = True, mCb = None\<rparr>)\<rparr>"

theorem leaving_after_callback_aborts_witness:
  "loop_round True 1 (Suc 0) Returns False None (Some 2) sample_worker (sample_scheduler []) = Inl Assertion_failed"
  by (rule leaving_after_callback_aborts) (simp_all add: sample_worker_def cb_fiber_ok_def)

text \<open>Fiber 1 runs on thread 1 and switches to thread 2, whose main fiber is number 2.\<close>

definition sample_switch :: "nat fibers" where
  "sample_switch = sample_fibers\<lparr>fiber := (fiber sample_fibers)
     (Suc 0 := (fiber sample_fibers (Suc 0))\<lparr>mState := EXEC\<rparr>,
      2 := \<lparr>mCtx = Suspended, mState = EXEC, mFiberId = 3, mStackSize = 0, mStack = False, mCb = None\<rparr>),
     gCurrentFiber := (gCurrentFiber sample_fibers)(1 := Some (Suc 0), 2 := Some 2),
     gThreadMainFiber := (gThreadMainFiber sample_fibers)(2 := Some 2)\<rparr>"

theorem switchTo_race_witness:
  "\<exists>n s' fs2. switchTo (False, 0) Other_scheduler 1 2 sample_switch (sample_scheduler []) = Inr (Some (n, sample_switch, s')) \<and>
    KFiber_resume 2 (Suc 0) (on_fiber (Suc 0) (\<lambda>f. f\<lparr>mState := HOLD\<rparr>) sample_switch) = Inr fs2 \<and>
    gCurrentFiber fs2 1 = Some (Suc 0) \<and> gCurrentFiber fs2 2 = Some (Suc 0)"
proof -
  have "gCurrentFiber sample_switch 1 = Some (Suc 0)" "mState (fiber sample_switch (Suc 0)) = EXEC"
    "mCtx (fiber sample_switch (Suc 0)) \<noteq> Ended" "at_main 2 2 sample_switch"
    using sample_fibers_ok by (auto simp: sample_switch_def at_main_def ended_ok_def)
  with switchTo_race [of sample_switch 1 "Suc 0" "sample_scheduler []" 2 2 Other_scheduler "(False, 0)"]
  show ?thesis by (elim meta_impE) auto
qed

end
