(* ===== verification/Kpool.thy ===== *)
theory Kpool
  imports Kschedule
begin

text \<open>
  The threads of a scheduler at work: the operations of theory Kschedule as the steps of a transition system. What the
  mutex or an atomic counter of the code makes indivisible is one step; the threads interleave freely. Code that runs on fibers
  may do anything to the fibers and schedule whatever it likes. \<open>given\<close> and \<open>finished\<close> record the tasks that
  were queued and those whose run is over. The invariants account for every task and for the two counters.
\<close>

section \<open>Steps\<close>

text \<open>
  Where a thread is in its loop: looking for a task, running one, between the end of a run and the call of
  \<open>schedule\<close> for a fiber that is ready again, in its idle fiber.
\<close>

datatype 'cb pc = Looping | Busy "'cb FiberBindThread" | Requeue nat | Idling

record 'cb pool =
  sched :: "'cb KScheduler"
  fibs :: "'cb fibers"
  pcs :: "int \<Rightarrow> 'cb pc"
  given :: "'cb FiberBindThread multiset"
  finished :: "'cb FiberBindThread multiset"

inductive pool_step :: "int list \<Rightarrow> 'cb pool \<Rightarrow> 'cb pool \<Rightarrow> bool" for ts :: "int list" where
  Scheduling: "schedule_range xs (sched w) = (n, s) \<Longrightarrow>
    pool_step ts w (w\<lparr>sched := s, given := given w + mset (tasks_of xs)\<rparr>)"
| Fibers_run: "pool_step ts w (w\<lparr>fibs := fs\<rparr>)"
| Stopping: "stop mine (fibs w) (sched w) = Inr (k, b, s) \<Longrightarrow> pool_step ts w (w\<lparr>sched := s\<rparr>)"
| Taking: "t \<in> set ts \<Longrightarrow> pcs w t = Looping \<Longrightarrow> take_task t (fibs w) (sched w) = Inr (Some it, n, s) \<Longrightarrow>
    pool_step ts w (w\<lparr>sched := s, pcs := (pcs w)(t := Busy it)\<rparr>)"
| Releasing: "t \<in> set ts \<Longrightarrow> pcs w t = Busy it \<Longrightarrow> pc = Looping \<or> (\<exists>p. mState (fiber (fibs w) p) = READY \<and> pc = Requeue p) \<Longrightarrow>
    pool_step ts w (w\<lparr>sched := release_active (sched w), pcs := (pcs w)(t := pc), finished := finished w + {#it#}\<rparr>)"
| Requeueing: "t \<in> set ts \<Longrightarrow> pcs w t = Requeue p \<Longrightarrow> schedule (Fb (Some p)) 0 (sched w) = (n, s) \<Longrightarrow>
    pool_step ts w (w\<lparr>sched := s, pcs := (pcs w)(t := Looping), given := given w + {#bind_thread (Fb (Some p)) 0#}\<rparr>)"
| Idle_in: "t \<in> set ts \<Longrightarrow> pcs w t = Looping \<Longrightarrow>
    pool_step ts w (w\<lparr>sched := (sched w)\<lparr>mIdleThreadCount := mIdleThreadCount (sched w) + 1\<rparr>, pcs := (pcs w)(t := Idling)\<rparr>)"
| Idle_out: "t \<in> set ts \<Longrightarrow> pcs w t = Idling \<Longrightarrow>
    pool_step ts w (w\<lparr>sched := (sched w)\<lparr>mIdleThreadCount := mIdleThreadCount (sched w) - 1\<rparr>, pcs := (pcs w)(t := Looping)\<rparr>)"

definition start_pool :: "'cb KScheduler \<Rightarrow> 'cb fibers \<Rightarrow> 'cb pool" where
  "start_pool s fs = \<lparr>sched = s, fibs = fs, pcs = (\<lambda>_. Looping), given = {#}, finished = {#}\<rparr>"

text \<open>A scheduler as the constructor makes it, or after \<open>start\<close>.\<close>

definition fresh :: "'cb KScheduler \<Rightarrow> bool" where
  "fresh s \<longleftrightarrow> mFiberQueue s = [] \<and> mActiveThreadCount s = 0 \<and> mIdleThreadCount s = 0"

definition pool_reachable :: "int list \<Rightarrow> 'cb pool \<Rightarrow> bool" where
  "pool_reachable ts w \<longleftrightarrow> (\<exists>s fs. fresh s \<and> (pool_step ts)\<^sup>*\<^sup>* (start_pool s fs) w)"

lemma new_fresh:
  assumes "KScheduler_new malloc garbage loop tid threads userCaller fs = Inr (s, fs')" and "start tids s = Inr s'"
  shows "fresh s'"
proof -
  have "fresh s" using assms(1) by (auto simp: KScheduler_new_def fresh_def Let_def bind_Inr_iff split: if_splits)
  then show ?thesis using assms(2) by (auto simp: start_def fresh_def Let_def split: if_splits)
qed

section \<open>Invariants\<close>

definition in_work :: "'cb pc \<Rightarrow> 'cb FiberBindThread multiset" where
  "in_work p = (case p of Busy it \<Rightarrow> {#it#} | _ \<Rightarrow> {#})"

definition running :: "int list \<Rightarrow> 'cb pool \<Rightarrow> 'cb FiberBindThread multiset" where
  "running ts w = sum_list (map (\<lambda>t. in_work (pcs w t)) ts)"

definition idlers :: "int list \<Rightarrow> 'cb pool \<Rightarrow> nat" where
  "idlers ts w = length (filter (\<lambda>t. pcs w t = Idling) ts)"

definition pool_inv :: "int list \<Rightarrow> 'cb pool \<Rightarrow> bool" where
  "pool_inv ts w \<longleftrightarrow>
     (\<forall>it\<in>set (mFiberQueue (sched w)). \<not> null_task it) \<and>
     mActiveThreadCount (sched w) = of_nat (size (running ts w)) \<and>
     mIdleThreadCount (sched w) = of_nat (idlers ts w) \<and>
     given w = mset (mFiberQueue (sched w)) + running ts w + finished w \<and>
     (\<forall>t\<in>set ts. \<forall>it. pcs w t = Busy it \<longrightarrow> \<not> foreign t it)"

lemma in_work_simps [simp]: "in_work Looping = {#}" "in_work (Busy it) = {#it#}" "in_work (Requeue p) = {#}" "in_work Idling = {#}"
  by (simp_all add: in_work_def)

text \<open>One thread's share of the sums.\<close>

lemma sum_upd:
  fixes f :: "'b \<Rightarrow> 'c :: comm_monoid_add"
  assumes "distinct ts" and "t \<in> set ts"
  shows "sum_list (map (\<lambda>u. f ((g(t := x)) u)) ts) + f (g t) = sum_list (map (\<lambda>u. f (g u)) ts) + f x"
  using assms
proof (induction ts)
  case (Cons a ts)
  show ?case
  proof (cases "a = t")
    case True
    then have "map (\<lambda>u. f ((g(t := x)) u)) ts = map (\<lambda>u. f (g u)) ts" using Cons.prems by (intro map_cong) auto
    then have "sum_list (map (\<lambda>u. f ((g(t := x)) u)) ts) = sum_list (map (\<lambda>u. f (g u)) ts)" by (rule arg_cong)
    then show ?thesis using True by (simp add: add_ac fun_upd_same del: fun_upd_apply)
  next
    case False
    then have "t \<in> set ts" "distinct ts" using Cons.prems by auto
    from Cons.IH [OF this(2,1)] False show ?thesis by (simp add: add_ac)
  qed
qed simp

lemma running_upd:
  assumes "distinct ts" and "t \<in> set ts"
  shows "running ts (w\<lparr>pcs := (pcs w)(t := x)\<rparr>) + in_work (pcs w t) = running ts w + in_work x"
  using sum_upd [OF assms, of in_work "pcs w" x] by (simp add: running_def)

definition idler :: "'cb pc \<Rightarrow> nat" where
  "idler p = (if p = Idling then 1 else 0)"

lemma idlers_sum: "idlers ts w = sum_list (map (\<lambda>t. idler (pcs w t)) ts)"
  by (induction ts) (auto simp: idlers_def idler_def)

lemma idlers_upd:
  assumes "distinct ts" and "t \<in> set ts"
  shows "idlers ts (w\<lparr>pcs := (pcs w)(t := x)\<rparr>) + idler (pcs w t) = idlers ts w + idler x"
  using sum_upd [OF assms, of idler "pcs w" x] by (simp add: idlers_sum)

lemma running_cong [simp]: "running ts (w\<lparr>sched := s\<rparr>) = running ts w" "running ts (w\<lparr>fibs := fs\<rparr>) = running ts w"
    "running ts (w\<lparr>given := g\<rparr>) = running ts w" "running ts (w\<lparr>finished := g\<rparr>) = running ts w"
  and idlers_cong [simp]: "idlers ts (w\<lparr>sched := s\<rparr>) = idlers ts w" "idlers ts (w\<lparr>fibs := fs\<rparr>) = idlers ts w"
    "idlers ts (w\<lparr>given := g\<rparr>) = idlers ts w" "idlers ts (w\<lparr>finished := g\<rparr>) = idlers ts w"
  by (simp_all add: running_def idlers_def)

lemma stop_frame:
  "stop mine fs s = Inr (k, b, s') \<Longrightarrow> mFiberQueue s' = mFiberQueue s \<and> mActiveThreadCount s' = mActiveThreadCount s \<and>
    mIdleThreadCount s' = mIdleThreadCount s"
  by (auto simp: stop_def Let_def split: if_splits)

lemma tasks_not_null: "it \<in> set (tasks_of xs) \<Longrightarrow> \<not> null_task it"
  by (auto simp: tasks_of_def)

text \<open>A thread goes from one place of its loop to another.\<close>

lemma pc_change:
  assumes "distinct ts" and "t \<in> set ts" and "pcs w t = p"
  shows "running ts (w\<lparr>pcs := (pcs w)(t := x)\<rparr>) + in_work p = running ts w + in_work x"
    and "idlers ts (w\<lparr>pcs := (pcs w)(t := x)\<rparr>) + idler p = idlers ts w + idler x"
  using running_upd [OF assms(1,2), of w x] idlers_upd [OF assms(1,2), of w x] by (simp_all add: assms(3))

lemmas pool_defs = pool_inv_def running_def idlers_def

lemma pool_step_inv:
  assumes "pool_step ts w w'" and "distinct ts" and "pool_inv ts w"
  shows "pool_inv ts w'"
  using assms
proof cases
  case (Scheduling xs n s)
  then show ?thesis using assms(3) schedule_range_frame [of xs "sched w" n s] tasks_not_null [of _ xs] by (auto simp: pool_inv_def)
next
  case (Stopping mine k b s)
  then show ?thesis using assms(3) stop_frame [of mine "fibs w" "sched w" k b s] by (auto simp: pool_inv_def)
next
  case (Taking t it n s)
  have nn: "\<forall>it\<in>set (mFiberQueue (sched w)). \<not> null_task it" using assms(3) by (simp add: pool_inv_def)
  obtain q1 q2 where q: "mFiberQueue (sched w) = q1 @ it # q2" "runnable t (fibs w) it"
    "s = (sched w)\<lparr>mFiberQueue := q1 @ q2, mActiveThreadCount := mActiveThreadCount (sched w) + 1\<rparr>"
    by (rule take_task_Some [OF nn Taking(4)])
  note c = pc_change [OF assms(2) Taking(2,3), of "Busy it"]
  show ?thesis using c assms(3) q Taking(1) by (auto simp: pool_defs runnable_def idler_def)
next
  case (Releasing t it pc)
  then have z: "in_work pc = {#}" "idler pc = 0" by (auto simp: idler_def)
  have "running ts w = running ts (w\<lparr>pcs := (pcs w)(t := pc)\<rparr>) + {#it#}" "idlers ts (w\<lparr>pcs := (pcs w)(t := pc)\<rparr>) = idlers ts w"
    using pc_change [OF assms(2) Releasing(2,3), of pc] z by (simp_all add: idler_def)
  then show ?thesis using assms(3) Releasing(1,4) by (auto simp: pool_defs release_active_def)
next
  case (Requeueing t p n s)
  note c = pc_change [OF assms(2) Requeueing(2,3), of Looping]
  show ?thesis using c assms(3) Requeueing(1,4)
    by (auto simp: pool_defs schedule_eq null_bind_thread null_task_def idler_def)
next
  case (Idle_in t)
  note c = pc_change [OF assms(2) Idle_in(2,3), of Idling]
  show ?thesis using c assms(3) Idle_in(1) by (auto simp: pool_defs idler_def)
next
  case (Idle_out t)
  have "running ts (w\<lparr>pcs := (pcs w)(t := Looping)\<rparr>) = running ts w" "idlers ts w = idlers ts (w\<lparr>pcs := (pcs w)(t := Looping)\<rparr>) + 1"
    using pc_change [OF assms(2) Idle_out(2,3), of Looping] by (simp_all add: idler_def)
  then show ?thesis using assms(3) Idle_out(1) by (auto simp: pool_defs)
qed (auto simp: pool_inv_def)

lemma pool_reachable_inv:
  assumes "pool_reachable ts w" and "distinct ts"
  shows "pool_inv ts w"
proof -
  obtain s fs where s: "fresh s" "(pool_step ts)\<^sup>*\<^sup>* (start_pool s fs) w" using assms(1) by (auto simp: pool_reachable_def)
  have "running ts (start_pool s fs) = {#}" "idlers ts (start_pool s fs) = 0"
    by (induction ts) (auto simp: running_def idlers_def start_pool_def)
  then have "pool_inv ts (start_pool s fs)" using s(1) by (auto simp: pool_inv_def start_pool_def fresh_def)
  with s(2) show ?thesis by (induction rule: rtranclp_induct) (auto intro: pool_step_inv assms(2))
qed

section \<open>What the invariants give\<close>

lemma size_running_le: "size (running ts w) \<le> length ts"
proof (induction ts)
  case (Cons t ts)
  have "size (in_work (pcs w t)) \<le> 1" by (simp add: in_work_def split: pc.splits)
  then show ?case using Cons by (simp add: running_def)
qed (simp add: running_def)

lemma idlers_le: "idlers ts w \<le> length ts"
  by (simp add: idlers_def)

lemma running_empty: "running ts w = {#} \<longleftrightarrow> (\<forall>t\<in>set ts. \<forall>it. pcs w t \<noteq> Busy it)"
  by (induction ts) (auto simp: running_def in_work_def split: pc.splits)

text \<open>C18: However the threads interleave, every task that was queued is in the queue, is being run by one thread, or its run is over; \<open>mActiveThreadCount\<close> is the
  number of tasks being run and \<open>mIdleThreadCount\<close> the number of threads in their idle fibers, and a thread runs only tasks that are bound
  to it or to no thread.\<close>

theorem scheduler_accounts:
  assumes "pool_reachable ts w" and "distinct ts" and "length ts < 2 ^ 32"
  shows "given w = mset (mFiberQueue (sched w)) + sum_list (map (\<lambda>t. case pcs w t of Busy it \<Rightarrow> {#it#} | _ \<Rightarrow> {#}) ts) + finished w \<and>
    unat (mActiveThreadCount (sched w)) = size (sum_list (map (\<lambda>t. case pcs w t of Busy it \<Rightarrow> {#it#} | _ \<Rightarrow> {#}) ts)) \<and>
    unat (mIdleThreadCount (sched w)) = length (filter (\<lambda>t. pcs w t = Idling) ts) \<and>
    (\<forall>t\<in>set ts. \<forall>it. pcs w t = Busy it \<longrightarrow> ft_tid it = 0 \<or> ft_tid it = t)"
proof -
  note inv = pool_reachable_inv [OF assms(1,2), unfolded pool_inv_def foreign_def]
  have "unat (of_nat (size (running ts w)) :: u32) = size (running ts w)"
    using size_running_le [of ts w] assms(3) by (intro unat_of_nat32) simp
  moreover have "unat (of_nat (idlers ts w) :: u32) = idlers ts w"
    using idlers_le [of ts w] assms(3) by (intro unat_of_nat32) simp
  ultimately show ?thesis using inv unfolding running_def idlers_def in_work_def by auto
qed

text \<open>C19: When \<open>stopping()\<close> answers that the scheduler can stop, no task is waiting and none is being run: the runs of all tasks that were ever queued are over. (A fiber that
  yielded to be ready is not counted between the end of its run and its return to the queue, so a further run of it may still come.)\<close>

theorem stopping_means_finished:
  assumes "pool_reachable ts w" and "distinct ts" and "length ts < 2 ^ 32" and "stopping (sched w)"
  shows "given w = finished w \<and> (\<forall>t\<in>set ts. \<forall>it. pcs w t \<noteq> Busy it)"
proof -
  note inv = pool_reachable_inv [OF assms(1,2), unfolded pool_inv_def]
  have "unat (of_nat (size (running ts w)) :: u32) = size (running ts w)"
    using size_running_le [of ts w] assms(3) by (intro unat_of_nat32) simp
  then have "running ts w = {#}" using inv assms(4) by (auto simp: stopping_def)
  then show ?thesis using inv assms(4) running_empty [of ts w] by (simp add: stopping_def)
qed

text \<open>A task that is bound to none of the threads stays in the queue.\<close>

lemma step_keeps_foreign:
  assumes "pool_step ts w w'" and "\<forall>it\<in>set (mFiberQueue (sched w)). \<not> null_task it" and "it \<in> set (mFiberQueue (sched w))" and "\<forall>t\<in>set ts. foreign t it"
  shows "it \<in> set (mFiberQueue (sched w'))"
  using assms(1)
proof cases
  case (Scheduling xs n s)
  then show ?thesis using assms(3) schedule_range_frame [of xs "sched w" n s] by auto
next
  case (Stopping mine k b s)
  then show ?thesis using assms(3) stop_frame [of mine "fibs w" "sched w" k b s] by auto
next
  case (Taking t it' n s)
  obtain q1 q2 where q: "mFiberQueue (sched w) = q1 @ it' # q2" "runnable t (fibs w) it'"
    "s = (sched w)\<lparr>mFiberQueue := q1 @ q2, mActiveThreadCount := mActiveThreadCount (sched w) + 1\<rparr>"
    by (rule take_task_Some [OF assms(2) Taking(4)])
  have "it \<noteq> it'" using q(2) Taking(2) assms(4) by (auto simp: runnable_def)
  then show ?thesis using q assms(3) Taking(1) by auto
qed (use assms(3) in \<open>auto simp: release_active_def schedule_eq\<close>)

text \<open>\<open>switchTo\<close> without an argument, called by a thread of another scheduler, queues the fiber bound to thread -1. No thread of the scheduler ever takes it,
  and the scheduler can never stop.\<close>

theorem switchTo_default_starves:
  assumes "pool_reachable ts w" and "distinct ts" and "\<forall>t\<in>set ts. t > 0"
    and "switchTo garbage Other_scheduler me (-1) (fibs w) (sched w) = Inr (Some (n, fs, s))"
    and "(pool_step ts)\<^sup>*\<^sup>* (w\<lparr>fibs := fs, sched := s, given := given w + {#last (mFiberQueue s)#}\<rparr>) w'"
  shows "last (mFiberQueue s) \<in> set (mFiberQueue (sched w')) \<and> \<not> stopping (sched w')"
proof -
  let ?w = "w\<lparr>fibs := fs, sched := s, given := given w + {#last (mFiberQueue s)#}\<rparr>"
  obtain p where s: "s = (sched w)\<lparr>mFiberQueue := mFiberQueue (sched w) @ [bind_thread (Fb (Some p)) (-1)]\<rparr>"
    using assms(4) by (cases "GetThis garbage me (fibs w)") (auto simp: switchTo_def schedule_eq null_task_def)
  then have l: "last (mFiberQueue s) = bind_thread (Fb (Some p)) (-1)" by simp
  have f: "\<forall>t\<in>set ts. foreign t (bind_thread (Fb (Some p)) (-1) :: 'a FiberBindThread)" using assms(3) by (auto simp: foreign_def)
  have "pool_inv ts ?w" using pool_reachable_inv [OF assms(1,2)] unfolding l
    by (simp add: pool_inv_def s null_task_def running_def idlers_def)
  with assms(5) have "pool_inv ts w' \<and> last (mFiberQueue s) \<in> set (mFiberQueue (sched w'))"
  proof (induction rule: rtranclp_induct)
    case base
    then show ?case by (simp add: s)
  next
    case (step y z)
    then have y: "pool_inv ts y" "last (mFiberQueue s) \<in> set (mFiberQueue (sched y))" by auto
    then have "\<forall>it\<in>set (mFiberQueue (sched y)). \<not> null_task it" by (simp add: pool_inv_def)
    then show ?case using step_keeps_foreign [OF step.hyps(2) _ y(2)] pool_step_inv [OF step.hyps(2) assms(2) y(1)] f l by simp
  qed
  then show ?thesis by (auto simp: stopping_def)
qed

section \<open>Instances\<close>

text \<open>Threads 1 and 2; thread 1 has taken a task that is bound to it, and thread 2 is idle.\<close>

definition sample_pool :: "nat pool" where
  "sample_pool =
     \<lparr>sched = (sample_scheduler [])\<lparr>mActiveThreadCount := 1, mIdleThreadCount := 1\<rparr>, fibs = sample_fibers,
      pcs = (\<lambda>_. Looping)(1 := Busy (bind_thread (Cb (Some 7)) 1), 2 := Idling),
      given = {#bind_thread (Cb (Some 7)) 1#}, finished = {#}\<rparr>"

lemma sample_pool_reachable: "pool_reachable [1, 2] sample_pool"
proof -
  let ?it = "bind_thread (Cb (Some 7)) 1 :: nat FiberBindThread"
  let ?w0 = "start_pool (sample_scheduler []) sample_fibers :: nat pool"
  let ?w1 = "?w0\<lparr>sched := sample_scheduler [?it], given := {#?it#}\<rparr>"
  let ?s = "(sample_scheduler [])\<lparr>mActiveThreadCount := 1\<rparr>"
  let ?w2 = "?w1\<lparr>sched := ?s, pcs := (\<lambda>_. Looping)(1 := Busy ?it)\<rparr>"
  have s: "schedule_range [(Cb (Some 7), 1)] (sample_scheduler []) = (True, sample_scheduler [?it])"
    by (simp add: schedule_range_def scheduleNoLock_def sample_scheduler_def)
  have k: "take_task 1 sample_fibers (sample_scheduler [?it]) = Inr (Some ?it, False, ?s)"
    by (simp add: take_task_def sample_scheduler_def)
  have "pool_step [1, 2] ?w0 ?w1"
    using pool_step.Scheduling [where w = ?w0, of "[(Cb (Some 7), 1)]"] s by (simp add: start_pool_def tasks_of_def null_task_def)
  moreover have "pool_step [1, 2] ?w1 ?w2"
    using pool_step.Taking [where w = ?w1 and t = 1 and ts = "[1, 2]" and it = ?it and n = False and s = ?s] k by (simp add: start_pool_def)
  moreover have "pool_step [1, 2] ?w2 sample_pool"
    using pool_step.Idle_in [where w = ?w2 and t = 2 and ts = "[1, 2]"] by (simp add: start_pool_def sample_pool_def sample_scheduler_def)
  ultimately have "(pool_step [1, 2])\<^sup>*\<^sup>* ?w0 sample_pool" by (meson converse_rtranclp_into_rtranclp rtranclp.rtrancl_refl)
  moreover have "fresh (sample_scheduler [] :: nat KScheduler)" by (simp add: fresh_def sample_scheduler_def)
  ultimately show ?thesis by (auto simp: pool_reachable_def)
qed

theorem scheduler_accounts_witness:
  "given sample_pool = {#bind_thread (Cb (Some 7)) 1#} \<and> unat (mActiveThreadCount (sched sample_pool)) = 1 \<and>
   unat (mIdleThreadCount (sched sample_pool)) = 1"
  using scheduler_accounts [OF sample_pool_reachable]
  by (simp add: sample_pool_def)

definition stopped_pool :: "nat pool" where
  "stopped_pool = (start_pool (sample_scheduler []) sample_fibers)\<lparr>sched := (sample_scheduler [])\<lparr>mStopping := True\<rparr>\<rparr>"

lemma stopped_pool_reachable: "pool_reachable [1, 2] stopped_pool"
proof -
  have "stop False (fibs (start_pool (sample_scheduler []) sample_fibers)) (sched (start_pool (sample_scheduler []) sample_fibers)) =
      Inr (2, False, (sample_scheduler [])\<lparr>mStopping := True\<rparr>)"
    by (simp add: stop_def sample_scheduler_def start_pool_def)
  from pool_step.Stopping [OF this, of "[1, 2]"] have "pool_step [1, 2] (start_pool (sample_scheduler []) sample_fibers) stopped_pool"
    by (simp add: stopped_pool_def)
  moreover have "fresh (sample_scheduler [] :: nat KScheduler)" by (simp add: fresh_def sample_scheduler_def)
  ultimately show ?thesis by (auto simp: pool_reachable_def)
qed

theorem stopping_means_finished_witness:
  "stopping (sched stopped_pool) \<and> given stopped_pool = finished stopped_pool"
proof -
  have s: "stopping (sched stopped_pool)" by (simp add: stopped_pool_def stopping_def sample_scheduler_def)
  with stopping_means_finished [OF stopped_pool_reachable _ _ s] show ?thesis by simp
qed

theorem switchTo_default_starves_witness:
  "\<exists>n fs s. switchTo (False, 0) Other_scheduler 9 (-1) (fibs sample_pool) (sched sample_pool) = Inr (Some (n, fs, s)) \<and>
    last (mFiberQueue s) \<in> set (mFiberQueue s)"
proof -
  obtain n fs s where sw: "switchTo (False, 0) Other_scheduler 9 (-1) (fibs sample_pool) (sched sample_pool) = Inr (Some (n, fs, s))"
    by (cases "GetThis (False, 0) 9 (fibs sample_pool)") (auto simp: switchTo_def schedule_eq)
  from switchTo_default_starves [OF sample_pool_reachable _ _ sw rtranclp.rtrancl_refl]
  have "last (mFiberQueue s) \<in> set (mFiberQueue s)" by simp
  with sw show ?thesis by blast
qed

end
