(* ===== verification/Kentry.thy ===== *)
theory Kentry
  imports Kschedule
begin

text \<open>
  kschedule.cpp: what a scheduler keeps per thread (\<open>gScheduler\<close>, \<open>gMainFiber\<close>), how a thread enters the loop of
  theory Kschedule, and the destructor. Schedulers are known by their addresses, a thread-local variable is a function of the thread.
\<close>

record sched_locals =
  gScheduler :: "int \<Rightarrow> nat option"
  gMainFiber :: "int \<Rightarrow> nat option"

definition setThis :: "nat \<Rightarrow> int \<Rightarrow> sched_locals \<Rightarrow> sched_locals" where
  "setThis this t l = l\<lparr>gScheduler := (gScheduler l)(t := Some this)\<rparr>"

definition KScheduler_GetThis :: "int \<Rightarrow> sched_locals \<Rightarrow> nat option" where
  "KScheduler_GetThis t l = gScheduler l t"

definition GetMainFiber :: "int \<Rightarrow> sched_locals \<Rightarrow> nat option" where
  "GetMainFiber t l = gMainFiber l t"

text \<open>What the thread-local variables get in the constructor, \<open>root\<close> being the root fiber if there is one.\<close>

definition KScheduler_new_locals :: "nat \<Rightarrow> nat option \<Rightarrow> int \<Rightarrow> sched_locals \<Rightarrow> sched_locals" where
  "KScheduler_new_locals this root t l =
     (case root of
        None \<Rightarrow> l
      | Some p \<Rightarrow> let l = l\<lparr>gScheduler := (gScheduler l)(t := Some this)\<rparr> in l\<lparr>gMainFiber := (gMainFiber l)(t := Some p)\<rparr>)"

definition KScheduler_destroy :: "nat \<Rightarrow> int \<Rightarrow> 'cb KScheduler \<Rightarrow> sched_locals \<Rightarrow> sched_locals result" where
  "KScheduler_destroy this t s l =
     (if \<not> mStopping s then Inl Assertion_failed
      else if gScheduler l t = Some this then Inr (l\<lparr>gScheduler := (gScheduler l)(t := None)\<rparr>)
      else Inr l)"

text \<open>Which case of \<open>switchTo\<close> and \<open>stop\<close> applies on a thread.\<close>

definition current_scheduler_of :: "nat \<Rightarrow> int \<Rightarrow> sched_locals \<Rightarrow> current_scheduler" where
  "current_scheduler_of this t l =
     (case KScheduler_GetThis t l of None \<Rightarrow> No_scheduler | Some s \<Rightarrow> if s = this then This_scheduler else Other_scheduler)"

text \<open>\<open>threadloop\<close> up to its loop: the idle fiber, and the state in which the loop begins. \<open>idle\<close> is the callback \<open>KScheduler::idle\<close>.\<close>

definition threadloop_enter :: "bool \<Rightarrow> bool \<times> u64 \<Rightarrow> nat \<Rightarrow> int \<Rightarrow> 'cb \<Rightarrow> 'cb KScheduler \<Rightarrow> 'cb fibers \<Rightarrow> sched_locals \<Rightarrow>
    (nat \<times> 'cb fibers \<times> sched_locals) result" where
  "threadloop_enter malloc garbage this t idle s fs l =
     (let l = setThis this t l;
          (fs, l) = (if t \<noteq> mRootThread s
                     then let (p, fs) = GetThis garbage t fs in (fs, l\<lparr>gMainFiber := (gMainFiber l)(t := Some p)\<rparr>)
                     else (fs, l))
      in bind (KFiber_new malloc (Some idle) 0 fs) (\<lambda>(idleFiber, fs). Inr (idleFiber, fs, l)))"

section \<open>Entering the loop\<close>

text \<open>The first call on a thread makes its main fiber.\<close>

lemma GetThis_first:
  assumes "gCurrentFiber fs t = None" and "ended_ok fs"
  shows "\<exists>fs'. GetThis garbage t fs = (next_fiber fs, fs') \<and> ended_ok fs' \<and> at_main t (next_fiber fs) fs' \<and>
    mState (fiber fs' (next_fiber fs)) = EXEC \<and> next_fiber fs' = next_fiber fs + 1 \<and> (\<forall>q < next_fiber fs. fiber fs' q = fiber fs q)"
  using assms by (auto simp: GetThis_def KFiber_main_def SetThis_def Let_def at_main_def ended_ok_def)

lemma KFiber_new_ok:
  assumes "ended_ok fs"
  shows "\<exists>fs'. KFiber_new True (Some cb) 0 fs = Inr (next_fiber fs, fs') \<and> ended_ok fs' \<and> next_fiber fs' = next_fiber fs + 1 \<and>
    mState (fiber fs' (next_fiber fs)) = READY \<and> mCb (fiber fs' (next_fiber fs)) = Some cb \<and> mCtx (fiber fs' (next_fiber fs)) = At_entry \<and>
    gCurrentFiber fs' = gCurrentFiber fs \<and> gThreadMainFiber fs' = gThreadMainFiber fs \<and> (\<forall>q < next_fiber fs. fiber fs' q = fiber fs q)"
  using assms by (auto simp: KFiber_new_def Let_def ended_ok_def)

text \<open>A thread of the pool enters its loop at its main fiber, with an idle fiber that can be resumed and runs \<open>idle\<close>: what the theorems
  about \<open>run_fiber\<close> ask for. The fibers there were stay as they are, and on this thread the scheduler is the current one.\<close>

theorem threadloop_enter_ready:
  assumes "ended_ok fs" and "gCurrentFiber fs t = None" and "t \<noteq> mRootThread s"
  shows "\<exists>idleFiber fs' l' m. threadloop_enter True garbage this t idle s fs l = Inr (idleFiber, fs', l') \<and>
    ended_ok fs' \<and> at_main t m fs' \<and> mState (fiber fs' m) = EXEC \<and> idleFiber \<noteq> m \<and> GetMainFiber t l' = Some m \<and>
    mState (fiber fs' idleFiber) = READY \<and> mCb (fiber fs' idleFiber) = Some idle \<and>
    current_scheduler_of this t l' = This_scheduler \<and> (\<forall>q < next_fiber fs. fiber fs' q = fiber fs q)"
proof -
  obtain f1 where f1: "GetThis garbage t fs = (next_fiber fs, f1)" "ended_ok f1" "at_main t (next_fiber fs) f1"
    "mState (fiber f1 (next_fiber fs)) = EXEC" "next_fiber f1 = next_fiber fs + 1" "\<forall>q < next_fiber fs. fiber f1 q = fiber fs q"
    using GetThis_first [OF assms(2,1), of garbage] by blast
  obtain f2 where f2: "KFiber_new True (Some idle) 0 f1 = Inr (next_fiber f1, f2)" "ended_ok f2"
    "mState (fiber f2 (next_fiber f1)) = READY" "mCb (fiber f2 (next_fiber f1)) = Some idle"
    "gCurrentFiber f2 = gCurrentFiber f1" "gThreadMainFiber f2 = gThreadMainFiber f1" "\<forall>q < next_fiber f1. fiber f2 q = fiber f1 q"
    using KFiber_new_ok [OF f1(2), of idle] by blast
  have "fiber f2 (next_fiber fs) = fiber f1 (next_fiber fs)" using f2(7) f1(5) by simp
  then have m: "at_main t (next_fiber fs) f2" "mState (fiber f2 (next_fiber fs)) = EXEC"
    using f1(3,4) f2(5,6) by (simp_all add: at_main_def)
  let ?l = "(setThis this t l)\<lparr>gMainFiber := (gMainFiber (setThis this t l))(t := Some (next_fiber fs))\<rparr>"
  have "threadloop_enter True garbage this t idle s fs l = Inr (next_fiber f1, f2, ?l)"
    using assms(3) f1(1) f2(1) by (simp add: threadloop_enter_def Let_def del: fun_upd_apply)
  moreover have "GetMainFiber t ?l = Some (next_fiber fs)" "current_scheduler_of this t ?l = This_scheduler"
    by (simp_all add: GetMainFiber_def current_scheduler_of_def KScheduler_GetThis_def setThis_def)
  ultimately show ?thesis using m f1(5,6) f2(2-4,7)
    by (intro exI [of _ "next_fiber f1"] exI [of _ f2] exI [of _ ?l] exI [of _ "next_fiber fs"]) simp
qed

text \<open>A scheduler that is destroyed without having been stopped fails an assertion.\<close>

theorem KScheduler_destroy_rejects:
  assumes "start tids s = Inr s'"
  shows "KScheduler_destroy this t s' l = Inl Assertion_failed"
  using assms by (auto simp: start_def KScheduler_destroy_def Let_def split: if_splits)

section \<open>Instances\<close>

theorem threadloop_enter_ready_witness:
  "\<exists>idleFiber fs' l'. threadloop_enter True (False, 0) 3 2 9 (sample_scheduler []) sample_fibers \<lparr>gScheduler = \<lambda>_. None, gMainFiber = \<lambda>_. None\<rparr> =
      Inr (idleFiber, fs', l') \<and> mState (fiber fs' idleFiber) = READY \<and> GetMainFiber 2 l' \<noteq> None"
proof -
  have "gCurrentFiber sample_fibers 2 = None"
    by (simp add: sample_fibers_def GetThis_def KFiber_main_def KFiber_new_def SetThis_def Let_def)
  moreover have "2 \<noteq> mRootThread (sample_scheduler [] :: nat KScheduler)" by (simp add: sample_scheduler_def)
  ultimately show ?thesis
    using threadloop_enter_ready [OF sample_fibers_ok(1), of 2 "sample_scheduler []" "(False, 0)" 3 9 "\<lparr>gScheduler = \<lambda>_. None, gMainFiber = \<lambda>_. None\<rparr>"]
    by blast
qed

theorem KScheduler_destroy_rejects_witness:
  "\<exists>s. start [1] ((sample_scheduler [] :: nat KScheduler)\<lparr>mStopping := True, mThreads := []\<rparr>) = Inr s \<and>
    KScheduler_destroy 3 1 s \<lparr>gScheduler = \<lambda>_. None, gMainFiber = \<lambda>_. None\<rparr> = Inl Assertion_failed"
proof -
  obtain s where s: "start [1] ((sample_scheduler [] :: nat KScheduler)\<lparr>mStopping := True, mThreads := []\<rparr>) = Inr s" by (simp add: start_def Let_def)
  show ?thesis using s KScheduler_destroy_rejects [OF s] by blast
qed

end
