(* ===== verification/Kcp_Wrapper.thy ===== *)
theory Kcp_Wrapper
  imports Kcp_Session
begin

text \<open>
  kcp.h and kcp.cpp: the class \<open>Kcp\<close> around a control block. A socket is its descriptor; what the
  system calls do is at the interface: \<open>arrivals\<close> are the datagrams \<open>recvfrom\<close> yields, with
  the addresses they come from, until it fails; the answers of \<open>sendto\<close> are not looked at by the code.
  Addresses are abstract (\<open>'a\<close>). \<open>Time::Abstime()\<close> is the argument \<open>now\<close>. The mutex makes
  \<open>send\<close> and the first part of \<open>outputRoutine\<close> one step each. The fields of \<open>KcpAttr\<close> get the prefix
  \<open>at_\<close>.
\<close>

section \<open>Data\<close>

record 'a KcpAttr =
  at_fd :: i32
  at_autoClose :: byte
  at_addr :: 'a
  at_conv :: u32
  at_sendWndSize :: u16
  at_recvWndSize :: u16
  at_nodelay :: byte
  at_interval :: i32
  at_fastResend :: byte

definition KcpAttr_new :: "'a \<Rightarrow> 'a KcpAttr" where
  "KcpAttr_new zero =
     \<lparr>at_fd = -1, at_autoClose = 0, at_addr = zero, at_conv = 0, at_sendWndSize = 512, at_recvWndSize = 512,
      at_nodelay = 1, at_interval = 100, at_fastResend = 2\<rparr>"

text \<open>\<open>mRecvEvent\<close> tells whether a callback is installed.\<close>

record 'a Kcp =
  mKcpHandle :: "ikcpcb option"
  mBindTid :: u32
  mAttr :: "'a KcpAttr"
  mRecvEvent :: bool
  mSendBufQueue :: "byte list list"

section \<open>Operations\<close>

text \<open>The two flags tell whether the allocations of \<open>ikcp_create\<close> succeed.\<close>

definition Kcp_init :: "bool \<Rightarrow> bool \<Rightarrow> 'a Kcp \<Rightarrow> bool \<times> 'a Kcp" where
  "Kcp_init malloc_kcp malloc_buffer k =
     (let attr = mAttr k in
      case ikcp_create malloc_kcp malloc_buffer (at_conv attr) of
        None \<Rightarrow> (False, k\<lparr>mKcpHandle := None\<rparr>)
      | Some h \<Rightarrow>
          let h = ikcp_setoutput h;
              h = snd (ikcp_wndsize h (uint (at_sendWndSize attr)) (uint (at_recvWndSize attr)));
              h = snd (ikcp_nodelay h (uint (at_nodelay attr)) (sint (at_interval attr)) (uint (at_fastResend attr)) 1)
          in (True, k\<lparr>mKcpHandle := Some h\<rparr>))"

text \<open>Both constructors; the fields a constructor leaves uninitialised are those of \<open>garbage\<close>, None is the exception.\<close>

definition Kcp_new :: "'a KcpAttr \<Rightarrow> u32 \<Rightarrow> 'a Kcp" where
  "Kcp_new attr garbage =
     \<lparr>mKcpHandle = None, mBindTid = garbage, mAttr = attr, mRecvEvent = False, mSendBufQueue = []\<rparr>"

definition Kcp_new_attr :: "bool \<Rightarrow> bool \<Rightarrow> 'a KcpAttr \<Rightarrow> u32 \<Rightarrow> 'a Kcp option" where
  "Kcp_new_attr malloc_kcp malloc_buffer attr garbage =
     (let (ok, k) = Kcp_init malloc_kcp malloc_buffer (Kcp_new attr garbage)
      in if \<not> ok then None else Some k)"

text \<open>The destructor: whether a control block is released and the descriptor it closes.\<close>

definition Kcp_destroy :: "'a Kcp \<Rightarrow> bool \<times> i32 option" where
  "Kcp_destroy k = (mKcpHandle k \<noteq> None, if at_autoClose (mAttr k) \<noteq> 0 then Some (at_fd (mAttr k)) else None)"

definition installRecvEvent :: "bool \<Rightarrow> 'a Kcp \<Rightarrow> bool \<times> 'a Kcp" where
  "installRecvEvent onRecvEvent k = (True, k\<lparr>mRecvEvent := onRecvEvent\<rparr>)"

definition Kcp_send :: "byte list \<Rightarrow> 'a Kcp \<Rightarrow> 'a Kcp" where
  "Kcp_send bytes k = k\<lparr>mSendBufQueue := mSendBufQueue k @ [bytes]\<rparr>"

definition Kcp_setAttr :: "bool \<Rightarrow> bool \<Rightarrow> 'a KcpAttr \<Rightarrow> 'a Kcp \<Rightarrow> bool \<times> 'a Kcp" where
  "Kcp_setAttr malloc_kcp malloc_buffer attr k =
     (if mKcpHandle k \<noteq> None then (True, k)
      else Kcp_init malloc_kcp malloc_buffer (k\<lparr>mAttr := attr\<rparr>))"

definition Kcp_check :: "u32 \<Rightarrow> 'a Kcp \<Rightarrow> u32 result" where
  "Kcp_check now k = (case mKcpHandle k of None \<Rightarrow> Inl Null_dereference | Some h \<Rightarrow> Inr (ikcp_check h now))"

definition Kcp_create :: "u32 \<Rightarrow> 'a Kcp \<Rightarrow> bool \<times> 'a Kcp" where
  "Kcp_create tid k = (True, k\<lparr>mBindTid := tid\<rparr>)"

text \<open>The output callback: what it gives to \<open>sendto\<close>.\<close>

definition KcpOutput :: "'a KcpAttr \<Rightarrow> byte list \<Rightarrow> (i32 \<times> byte list \<times> 'a) list" where
  "KcpOutput attr buf = (if length buf > 0 then [(at_fd attr, buf, at_addr attr)] else [])"

section \<open>Input\<close>

text \<open>
  The loop over the arriving datagrams: \<open>buf\<close> is the array of 2800 bytes, whose rest keeps what earlier
  datagrams left in it; the conversation number is read from it before the length is looked at.
\<close>

fun input_arrivals :: "(byte list \<times> 'a) list \<Rightarrow> byte list \<Rightarrow> 'a \<Rightarrow> 'a Kcp \<Rightarrow> ('a \<times> 'a Kcp) result" where
  "input_arrivals [] buf peerAddr k = Inr (peerAddr, k)"
| "input_arrivals ((d, from) # arrivals) buf peerAddr k =
     (let d = take (2 * 1400) d;
          buf = d @ drop (length d) buf;
          peerAddr = from
      in if ikcp_getconv buf \<noteq> Some (at_conv (mAttr k)) then input_arrivals arrivals buf peerAddr k
         else let k = k\<lparr>mAttr := (mAttr k)\<lparr>at_addr := peerAddr\<rparr>\<rparr> in
           case mKcpHandle k of
             None \<Rightarrow> Inl Null_dereference
           | Some h \<Rightarrow> bind (ikcp_input h (Some d)) (\<lambda>(ret, h). input_arrivals arrivals buf peerAddr (k\<lparr>mKcpHandle := Some h\<rparr>)))"

text \<open>What becomes of a message: given to the callback, or lost when the empty callback throws.\<close>

datatype 'a event = No_message | Recv_event "byte list" 'a | Bad_function_call "byte list"

definition inputRoutine :: "(byte list \<times> 'a) list \<Rightarrow> 'a \<Rightarrow> 'a Kcp \<Rightarrow> ('a Kcp \<times> 'a event) result" where
  "inputRoutine arrivals garbage k =
     bind (input_arrivals arrivals (replicate (2 * 1400) 0) garbage k) (\<lambda>(peerAddr, k).
       case mKcpHandle k of
         None \<Rightarrow> Inl Null_dereference
       | Some h \<Rightarrow>
           let ret = ikcp_peeksize h in
           if ret > 0
           then bind (ikcp_recv h ret) (\<lambda>(nrecv, bytes, h).
             let k = k\<lparr>mKcpHandle := Some h\<rparr>
             in Inr (k, if nrecv > 0 then (if mRecvEvent k then Recv_event bytes peerAddr else Bad_function_call bytes) else No_message))
           else Inr (k, No_message))"

section \<open>Output\<close>

fun send_loop :: "byte list list \<Rightarrow> ikcpcb \<Rightarrow> ikcpcb result" where
  "send_loop [] h = Inr h"
| "send_loop (b # queue) h = bind (ikcp_send h b (sint (of_nat (length b) :: i32))) (\<lambda>(ret, h). send_loop queue h)"

definition outputRoutine :: "u32 \<Rightarrow> 'a Kcp \<Rightarrow> ('a Kcp \<times> (i32 \<times> byte list \<times> 'a) list) result" where
  "outputRoutine now k =
     (let queue = mSendBufQueue k;
          k = k\<lparr>mSendBufQueue := []\<rparr>
      in case mKcpHandle k of
           None \<Rightarrow> Inl Null_dereference
         | Some h \<Rightarrow>
             bind (send_loop queue h) (\<lambda>h.
             bind (ikcp_update h now) (\<lambda>(h, out).
               Inr (k\<lparr>mKcpHandle := Some h\<rparr>, concat (map (KcpOutput (mAttr k)) out)))))"

text \<open>The comparator of the map of waiting connections; None is the null pointer.\<close>

definition KcpCompare :: "'a Kcp option \<Rightarrow> 'a Kcp option \<Rightarrow> bool result" where
  "KcpCompare v1 v2 =
     (case v1 of None \<Rightarrow> Inr True
      | Some k1 \<Rightarrow>
          case v2 of None \<Rightarrow> Inr False
          | Some k2 \<Rightarrow>
              if at_fd (mAttr k1) = at_fd (mAttr k2) then Inl Assertion_failed
              else Inr (sint (at_fd (mAttr k1)) < sint (at_fd (mAttr k2))))"

section \<open>The control block of a Kcp\<close>

definition first_handle :: "'a KcpAttr \<Rightarrow> ikcpcb" where
  "first_handle attr = snd (ikcp_nodelay (snd (ikcp_wndsize (fresh (at_conv attr)) (uint (at_sendWndSize attr)) (uint (at_recvWndSize attr))))
     (uint (at_nodelay attr)) (sint (at_interval attr)) (uint (at_fastResend attr)) 1)"

lemma Kcp_init_eq:
  "Kcp_init malloc_kcp malloc_buffer k =
     (if malloc_kcp \<and> malloc_buffer then (True, k\<lparr>mKcpHandle := Some (first_handle (mAttr k))\<rparr>) else (False, k\<lparr>mKcpHandle := None\<rparr>))"
  by (simp add: Kcp_init_def first_handle_def fresh_def ikcp_create_def Let_def)

text \<open>
  \<open>init\<close> makes a control block in a good state for the conversation of the attributes, with their
  windows (a receive window below 128 becomes 128, 0 leaves the default), their update interval kept between 10 and 5000 ms,
  without congestion control; it fails exactly when an allocation fails.
\<close>

lemma wndsize_u16_ok:
  assumes "kcp_ok kcp"
  shows "kcp_ok (snd (ikcp_wndsize kcp a (uint (w :: u16))))"
proof (rule ikcp_wndsize_ok [OF assms])
  show "uint w < 2147483648" using uint_lt2p [of w] by simp
qed

theorem Kcp_init_correct:
  "case Kcp_init malloc_kcp malloc_buffer k of (ok, k') \<Rightarrow>
     ok = (malloc_kcp \<and> malloc_buffer) \<and> mAttr k' = mAttr k \<and> mSendBufQueue k' = mSendBufQueue k \<and>
     (case mKcpHandle k' of None \<Rightarrow> \<not> ok
      | Some h \<Rightarrow> ok \<and> kcp_ok h \<and> conv h = at_conv (mAttr k) \<and> output_cb h \<and> stream h = 0 \<and> mtu h = 1400 \<and> nocwnd h = 1 \<and>
          snd_wnd h = (if at_sendWndSize (mAttr k) = 0 then 32 else ucast (at_sendWndSize (mAttr k))) \<and>
          rcv_wnd h = max (ucast (at_recvWndSize (mAttr k))) 128 \<and>
          fastresend h = ucast (at_fastResend (mAttr k)) \<and>
          interval h = (if sint (at_interval (mAttr k)) < 0 then 100 else word_of_int (clamp_interval (sint (at_interval (mAttr k))))))"
proof -
  have ok: "kcp_ok (first_handle (mAttr k))"
    unfolding first_handle_def by (intro ikcp_nodelay_ok wndsize_u16_ok fresh_ok)
  have z: "0 < uint w \<longleftrightarrow> w \<noteq> 0" for w :: u16 using uint_ge_0 [of w] unsigned_eq_0_iff [where w = w] by (auto simp: order_less_le)
  have u: "(word_of_int (uint w) :: u32) = ucast w" "(word_of_int (uint b) :: u32) = ucast b" for w :: u16 and b :: byte
    by (simp_all add: unsigned_ucast_eq)
  show ?thesis using ok
    by (simp add: Kcp_init_eq first_handle_def ikcp_nodelay_fields ikcp_wndsize_def Let_def fresh_eq z u imax_eq_max IKCP_WND_RCV_def
        ikcp_consts)
qed

section \<open>Operations as steps of a session\<close>

lemma act_self: "act s (ep w s) [] [] [] w = w"
  by (simp add: act_def)

text \<open>Messages that \<open>ikcp_send\<close> takes: those of fewer than 128 fragments.\<close>

definition fits :: "u32 \<Rightarrow> byte list \<Rightarrow> bool" where
  "fits m b \<longleftrightarrow> fragment_count (nat (sint m)) (length b) < 128"

lemma send_session:
  assumes r: "reachable cv mode w" and md: "mode s = 0" and l: "length b < 2147483648"
  shows "\<exists>ret k. ikcp_send (ep w s) b (sint (of_nat (length b) :: i32)) = Inr (ret, k) \<and> mss k = mss (ep w s) \<and>
    reachable cv mode (act s k [] (if fits (mss (ep w s)) b then [b] else []) [] w)"
proof -
  obtain H G where "session_inv cv mode w H G" using reachable_inv [OF r] by blast
  then have e: "endpoint (cv, True, mode s, mss (ep w s)) (H s) (received (ep w (\<not> s))) (H (\<not> s)) (G s) (ep w s)" by (rule session_invD(1))
  note d = endpointD [OF e]
  have m: "0 < sint (mss (ep w s))" using cfg_mss(2) [OF kcp_okD(1) [OF d(1)]] kcp_okD(1) [OF d(1)] by (simp add: cfg_ok_def)
  have sm: "stream (ep w s) = 0" using d(7) md by simp
  have n: "sint (of_nat (length b) :: i32) = int (length b)" using l by (rule sint_of_nat32)
  obtain ret k where k: "ikcp_send (ep w s) b (int (length b)) = Inr (ret, k)" "mss k = mss (ep w s)"
    "accepted b ret (ep w s) k = (if fits (mss (ep w s)) b then [b] else [])"
  proof (cases "fits (mss (ep w s)) b")
    case True
    then show ?thesis using that ikcp_send_message_mode [OF m l sm] by (simp add: fits_def Let_def accepted_def)
  next
    case False
    then show ?thesis using that ikcp_send_message_mode [OF m l sm] by (simp add: fits_def Let_def accepted_def)
  qed
  have "step w (act s k [] (accepted b ret (ep w s) k) [] w)" by (rule step.send [OF l k(1)])
  then have "reachable cv mode (act s k [] (if fits (mss (ep w s)) b then [b] else []) [] w)"
    unfolding k(3) by (rule reachable.step [OF r])
  then show ?thesis using k(1,2) n by auto
qed

lemma send_loop_session:
  assumes "reachable cv mode w" and "mode s = 0" and "\<forall>b\<in>set q. length b < 2147483648"
  shows "\<exists>h. send_loop q (ep w s) = Inr h \<and> mss h = mss (ep w s) \<and> reachable cv mode (act s h [] (filter (fits (mss (ep w s))) q) [] w)"
  using assms
proof (induction q arbitrary: w)
  case Nil
  then show ?case by (simp add: act_self)
next
  case (Cons b q)
  obtain ret k where k: "ikcp_send (ep w s) b (sint (of_nat (length b) :: i32)) = Inr (ret, k)" "mss k = mss (ep w s)"
    "reachable cv mode (act s k [] (if fits (mss (ep w s)) b then [b] else []) [] w)"
    using send_session [OF Cons.prems(1,2), of b] Cons.prems(3) by auto
  obtain h where "send_loop q k = Inr h" "mss h = mss k"
    "reachable cv mode (act s h [] (filter (fits (mss k)) q) [] (act s k [] (if fits (mss (ep w s)) b then [b] else []) [] w))"
    using Cons.IH [OF k(3) Cons.prems(2)] Cons.prems(3) by auto
  then show ?case using k(1,2) by (auto simp: act_act)
qed

text \<open>What an output datagram becomes.\<close>

definition datagrams_to :: "'a KcpAttr \<Rightarrow> byte list list \<Rightarrow> (i32 \<times> byte list \<times> 'a) list" where
  "datagrams_to attr ds = map (\<lambda>d. (at_fd attr, d, at_addr attr)) ds"

lemma KcpOutput_all: "[] \<notin> set ds \<Longrightarrow> concat (map (KcpOutput attr) ds) = datagrams_to attr ds"
  by (induction ds) (auto simp: KcpOutput_def datagrams_to_def)

definition may_output :: "'a Kcp \<Rightarrow> bool" where
  "may_output k \<longleftrightarrow> (\<forall>b\<in>set (mSendBufQueue k). length b < 2147483648) \<and>
     (case mKcpHandle k of None \<Rightarrow> False
      | Some h \<Rightarrow> case send_loop (mSendBufQueue k) h of Inl e \<Rightarrow> True | Inr h \<Rightarrow> may_number h)"

lemma output_session:
  assumes r: "reachable cv mode w" and md: "mode s = 0" and k: "mKcpHandle k = Some (ep w s)" and may: "may_output k"
  shows "\<exists>h ds. outputRoutine now k = Inr (k\<lparr>mSendBufQueue := [], mKcpHandle := Some h\<rparr>, datagrams_to (mAttr k) ds) \<and>
    mss h = mss (ep w s) \<and>
    reachable cv mode (act s h ds (filter (fits (mss (ep w s))) (mSendBufQueue k)) [] w)"
proof -
  let ?a = "filter (fits (mss (ep w s))) (mSendBufQueue k)"
  obtain h where h: "send_loop (mSendBufQueue k) (ep w s) = Inr h" "reachable cv mode (act s h [] ?a [] w)" "mss h = mss (ep w s)"
    using send_loop_session [where q = "mSendBufQueue k", OF r md] may by (auto simp: may_output_def)
  have mn: "may_number h" using may k h(1) by (simp add: may_output_def)
  let ?w = "act s h [] ?a [] w"
  obtain H G where "session_inv cv mode ?w H G" using reachable_inv [OF h(2)] by blast
  then have e: "endpoint (cv, True, mode s, mss h) (H s) (received (ep ?w (\<not> s))) (H (\<not> s)) (G s) h" by (metis session_invD(1) act_fields(1))
  have cb: "output_cb h" using endpointD(6) [OF e] by simp
  obtain h' ds where u: "ikcp_update h now = Inr (h', ds)" "\<forall>d\<in>set ds. d \<noteq> []"
    using ikcp_update_ok [OF endpointD(1) [OF e] cb may_numberD(1) [OF e mn], of now] by (auto elim!: yieldsE)
  have "step ?w (act s h' ds [] [] ?w)" by (rule step.update [where now = now]) (use mn u in simp_all)
  then have "reachable cv mode (act s h' ds ?a [] w)" using reachable.step [OF h(2)] by (simp add: act_act)
  moreover have "mss h' = mss (ep w s)" using calls_keep_mss(2) [OF h(2), of s now h' ds] mn u(1) h(3) by simp
  moreover have "[] \<notin> set ds" using u(2) by auto
  then have "outputRoutine now k = Inr (k\<lparr>mSendBufQueue := [], mKcpHandle := Some h'\<rparr>, datagrams_to (mAttr k) ds)"
    using k h(1) u(1) KcpOutput_all by (simp add: outputRoutine_def)
  ultimately show ?thesis by blast
qed

text \<open>A datagram adds at most one acknowledgement for every 24 bytes.\<close>

interpretation capped: frame_handler "\<lambda>n. input_ok (n + m)" for m
proof
  fix n kcp fa and h :: header and data :: "byte list"
  assume i: "input_ok (Suc n + m) kcp" and len: "unat (h_len h) \<le> length data" "0 \<le> sint (h_len h)"
  have "kcp_ok kcp" "unat (ackcount kcp) < 2147483648" using i by (simp_all add: input_ok_def)
  from input_frame_ok [OF this len]
  show "yields (input_frame kcp h data fa) (\<lambda>(kcp', fa'). input_ok (n + m) kcp')"
    by (rule yields_mono) (use i in \<open>auto simp: input_ok_def\<close>)
qed (simp add: input_ok_def)

lemma input_ackcount:
  assumes ok: "kcp_ok kcp" and a: "unat (ackcount kcp) + length d div 24 + m \<le> 2147483648"
  shows "\<exists>r k. ikcp_input kcp (Some d) = Inr (r, k) \<and> unat (ackcount k) + m \<le> 2147483648"
proof (cases "sint (of_nat (length d) :: i32) < sint IKCP_OVERHEAD")
  case True
  then show ?thesis using a by (simp add: ikcp_input_eq)
next
  case False
  have i: "input_ok (length d div 24 + m) kcp" using ok a by (simp add: input_ok_def)
  have "length d < 24 * Suc (length d div 24)" using dividend_less_times_div [of 24 "length d"] by simp
  with capped.loop_budget [OF i this, of "(False, 0, 0)"] obtain r k fa where
    l: "input_loop kcp d (False, 0, 0) = Inr (r, k, fa)" "input_ok m k" "r \<in> {0, -1, -2, -3}"
    by (auto elim!: yieldsE)
  have "kcp_ok k" "unat (ackcount k) + m \<le> 2147483648" using l(2) by (simp_all add: input_ok_def)
  with input_finish_ok [OF _ l(3), of k "snd_una kcp" fa] obtain r' k' where
    "input_finish (snd_una kcp) (r, k, fa) = Inr (r', k')" "ackcount k' = ackcount k" by (auto elim!: yieldsE)
  then show ?thesis using False l(1) \<open>unat (ackcount k) + m \<le> 2147483648\<close> by (simp add: ikcp_input_eq)
qed

text \<open>Arrivals a session can account for: datagrams of the network that fit the array, and room for their acknowledgements.\<close>

definition may_input :: "byte list set \<Rightarrow> (byte list \<times> 'a) list \<Rightarrow> 'a Kcp \<Rightarrow> bool" where
  "may_input ds arrivals k \<longleftrightarrow> (\<forall>(d, from) \<in> set arrivals. d \<in> ds \<and> length d \<le> 2800) \<and>
     (case mKcpHandle k of None \<Rightarrow> False
      | Some h \<Rightarrow> unat (ackcount h) + sum_list (map (\<lambda>(d, from). length d div 24) arrivals) \<le> 2147483648)"

lemma arrivals_session:
  assumes "reachable cv mode w" and "mKcpHandle k = Some (ep w s)" and "may_input (net w s) arrivals k"
  shows "\<exists>h a peer. input_arrivals arrivals buf peerAddr k = Inr (peer, k\<lparr>mKcpHandle := Some h, mAttr := (mAttr k)\<lparr>at_addr := a\<rparr>\<rparr>) \<and>
    mss h = mss (ep w s) \<and> reachable cv mode (act s h [] [] [] w)"
  using assms
proof (induction arrivals arbitrary: w k buf peerAddr)
  case Nil
  have "k\<lparr>mKcpHandle := Some (ep w s), mAttr := (mAttr k)\<lparr>at_addr := at_addr (mAttr k)\<rparr>\<rparr> = k" using Nil.prems(2) by simp
  then show ?case using Nil.prems(1) act_self [of s w] by (metis input_arrivals.simps(1))
next
  case (Cons x arrivals)
  obtain d "from" where x: "x = (d, from)" by (cases x)
  have d: "d \<in> net w s" "take 2800 d = d" using Cons.prems(3) by (auto simp: may_input_def x)
  have room: "unat (ackcount (ep w s)) + length d div 24 + sum_list (map (\<lambda>(d, from). length d div 24) arrivals) \<le> 2147483648"
    using Cons.prems(2,3) by (simp add: may_input_def x)
  have rest: "\<forall>(d, from)\<in>set arrivals. d \<in> net w s \<and> length d \<le> 2800" using Cons.prems(3) by (simp add: may_input_def)
  let ?buf = "d @ drop (length d) buf"
  show ?case
  proof (cases "ikcp_getconv ?buf = Some (at_conv (mAttr k))")
    case False
    have "may_input (net w s) arrivals k" using room rest Cons.prems(2) by (simp add: may_input_def)
    from Cons.IH [OF Cons.prems(1,2) this, of ?buf "from"] False show ?thesis by (simp add: x d(2))
  next
    case True
    obtain H G where "session_inv cv mode w H G" using reachable_inv [OF Cons.prems(1)] by blast
    then have ok: "kcp_ok (ep w s)" using endpointD(1) [OF session_invD(1)] by blast
    obtain r h where h: "ikcp_input (ep w s) (Some d) = Inr (r, h)"
      "unat (ackcount h) + sum_list (map (\<lambda>(d, from). length d div 24) arrivals) \<le> 2147483648"
      using input_ackcount [OF ok room] by blast
    let ?w = "act s h [] [] [] w" and ?k = "k\<lparr>mAttr := (mAttr k)\<lparr>at_addr := from\<rparr>, mKcpHandle := Some h\<rparr>"
    have "step w ?w" by (rule step.deliver [OF d(1) _ h(1)]) (use room in linarith)
    then have w: "reachable cv mode ?w" by (rule reachable.step [OF Cons.prems(1)])
    have m: "may_input (net ?w s) arrivals ?k" using rest h(2) by (simp add: may_input_def)
    have k: "mKcpHandle ?k = Some (ep ?w s)" by simp
    have "mss h = mss (ep w s)" by (rule calls_keep_mss(3) [OF Cons.prems(1) d(1) _ h(1)]) (use room in linarith)
    moreover obtain h' a peer where "input_arrivals arrivals ?buf from ?k = Inr (peer, ?k\<lparr>mKcpHandle := Some h', mAttr := (mAttr ?k)\<lparr>at_addr := a\<rparr>\<rparr>)"
      "mss h' = mss h" "reachable cv mode (act s h' [] [] [] ?w)" using Cons.IH [OF w k m, of ?buf "from"] by auto
    ultimately show ?thesis using True h(1) Cons.prems(2) by (auto simp: x d(2) act_act)
  qed
qed

definition message_of :: "'a event \<Rightarrow> byte list list" where
  "message_of e = (case e of No_message \<Rightarrow> [] | Recv_event b a \<Rightarrow> [b] | Bad_function_call b \<Rightarrow> [b])"

lemma positive_peeksize:
  assumes ok: "rcv_ok h" and p: "ikcp_peeksize h > 0" and r: "ikcp_recv h (ikcp_peeksize h) = Inr (n, bytes, k)"
  shows "bytes \<noteq> []"
proof
  let ?msg = "fst (split_message (rcv_queue h))"
  assume "bytes = []"
  have q: "rcv_queue h \<noteq> []" using p by (auto simp: ikcp_peeksize_def)
  have b: "bytes = concat (map (\<lambda>s. take (unat (seg_len s)) (seg_data s)) ?msg)" using r p q by (auto simp: ikcp_recv_outcome)
  have "seg_len s = 0" if "s \<in> set ?msg" for s
  proof -
    have "seg_ok s" using that split_message_append [of "rcv_queue h"] rcv_okD(5) [OF ok] by (metis Un_iff set_append)
    then have "unat (seg_len s) = length (take (unat (seg_len s)) (seg_data s))" by (simp add: seg_ok_def)
    moreover have "take (unat (seg_len s)) (seg_data s) = []" using b that unfolding \<open>bytes = []\<close> by auto
    ultimately show ?thesis by (simp add: unat_eq_0)
  qed
  then have "map seg_len ?msg = map (\<lambda>_. 0) ?msg" by simp
  then have "sum_list (map seg_len ?msg) = 0" by (simp only: sum_list_0)
  then show False using p by (auto simp: ikcp_peeksize_message [OF q] split: if_splits)
qed

lemma input_session:
  assumes r: "reachable cv mode w" and k: "mKcpHandle k = Some (ep w s)" and may: "may_input (net w s) arrivals k"
  shows "\<exists>h a e. inputRoutine arrivals garbage k = Inr (k\<lparr>mKcpHandle := Some h, mAttr := (mAttr k)\<lparr>at_addr := a\<rparr>\<rparr>, e) \<and>
    (\<forall>b c. e \<noteq> (if mRecvEvent k then Bad_function_call b else Recv_event b c)) \<and>
    mss h = mss (ep w s) \<and> [] \<notin> set (message_of e) \<and> reachable cv mode (act s h [] [] (message_of e) w)"
proof -
  obtain h a peer where i: "input_arrivals arrivals (replicate 2800 0) garbage k = Inr (peer, k\<lparr>mKcpHandle := Some h, mAttr := (mAttr k)\<lparr>at_addr := a\<rparr>\<rparr>)"
    "reachable cv mode (act s h [] [] [] w)" "mss h = mss (ep w s)" using arrivals_session [OF r k may] by blast
  show ?thesis
  proof (cases "ikcp_peeksize h > 0")
    case False
    then show ?thesis using i by (intro exI [of _ h] exI [of _ a] exI [of _ No_message]) (simp add: inputRoutine_def message_of_def)
  next
    case True
    then have "rcv_queue h \<noteq> []" by (auto simp: ikcp_peeksize_def)
    then obtain n bytes h' where v: "ikcp_recv h (ikcp_peeksize h) = Inr (n, bytes, h')" "n = ikcp_peeksize h"
      using True by (simp add: ikcp_recv_outcome)
    have "step (act s h [] [] [] w) (act s h' [] [] (if n < 0 \<or> ikcp_peeksize h < 0 then [] else [bytes]) (act s h [] [] [] w))"
      by (rule step.recv) (simp add: v(1))
    then have "reachable cv mode (act s h' [] [] [bytes] w)" using reachable.step [OF i(2)] True v(2) by (simp add: act_act)
    moreover have "mss h' = mss h" using calls_keep_mss(1) [OF i(2), of s _ _ _ h'] v(1) by simp
    moreover obtain H G where "session_inv cv mode (act s h [] [] [] w) H G" using reachable_inv [OF i(2)] by blast
    then have "rcv_ok h" using kcp_okD(2) [OF endpointD(1) [OF session_invD(1)]] by (metis act_fields(1))
    then have "bytes \<noteq> []" by (rule positive_peeksize [OF _ True v(1)])
    ultimately show ?thesis using i(1,3) v True
      by (intro exI [of _ h'] exI [of _ a] exI [of _ "if mRecvEvent k then Recv_event bytes peer else Bad_function_call bytes"])
        (simp add: inputRoutine_def message_of_def)
  qed
qed

section \<open>Two connected endpoints\<close>

text \<open>
  Two \<open>Kcp\<close> objects with the same conversation number, and a network as in theory Kcp_Session. The steps are the
  operations of the class, called in any order. \<open>asked\<close> are the messages given to \<open>send\<close>, \<open>took\<close> those \<open>outputRoutine\<close> gave to
  \<open>ikcp_send\<close> with success, \<open>gave\<close> those handed to the receive callback.
\<close>

record 'a pair =
  side :: "bool \<Rightarrow> 'a Kcp"
  wire :: "bool \<Rightarrow> byte list set"
  asked :: "bool \<Rightarrow> byte list list"
  took :: "bool \<Rightarrow> byte list list"
  gave :: "bool \<Rightarrow> byte list list"

definition taken_by :: "'a Kcp \<Rightarrow> byte list list" where
  "taken_by k = (case mKcpHandle k of None \<Rightarrow> [] | Some h \<Rightarrow> filter (fits (mss h)) (mSendBufQueue k))"

inductive pair_step :: "'a pair \<Rightarrow> 'a pair \<Rightarrow> bool" where
  Sending: "pair_step w (w\<lparr>side := (side w)(s := Kcp_send b (side w s)), asked := (asked w)(s := asked w s @ [b])\<rparr>)"
| Output: "may_output (side w s) \<Longrightarrow> outputRoutine now (side w s) = Inr (k, out) \<Longrightarrow>
    pair_step w (w\<lparr>side := (side w)(s := k), wire := (wire w)(\<not> s := wire w (\<not> s) \<union> (\<lambda>(fd, d, a). d) ` set out),
      took := (took w)(s := took w s @ taken_by (side w s))\<rparr>)"
| Input: "may_input (wire w s) arrivals (side w s) \<Longrightarrow> inputRoutine arrivals garbage (side w s) = Inr (k, e) \<Longrightarrow>
    pair_step w (w\<lparr>side := (side w)(s := k),
      gave := (gave w)(s := gave w s @ (case e of Recv_event b a \<Rightarrow> [b] | _ \<Rightarrow> []))\<rparr>)"

text \<open>Both sides constructed with attributes of one conversation, with a receive callback installed.\<close>

definition connected :: "u32 \<Rightarrow> 'a pair \<Rightarrow> bool" where
  "connected cv w \<longleftrightarrow> (\<exists>attr g. \<forall>s. at_conv (attr s) = cv \<and>
     (\<exists>k. Kcp_new_attr True True (attr s) (g s) = Some k \<and> side w s = snd (installRecvEvent True k)) \<and>
     wire w s = {} \<and> asked w s = [] \<and> took w s = [] \<and> gave w s = [])"

text \<open>The session a pair runs.\<close>

definition runs :: "u32 \<Rightarrow> 'a pair \<Rightarrow> world \<Rightarrow> bool" where
  "runs cv w v \<longleftrightarrow> reachable cv (\<lambda>_. 0) v \<and> wire w = net v \<and> took w = sent v \<and> gave w = got v \<and>
     (\<forall>s. mKcpHandle (side w s) = Some (ep v s) \<and> mRecvEvent (side w s) \<and> mss (ep v s) = 1376 \<and> [] \<notin> set (gave w s) \<and>
       filter (fits 1376) (asked w s) = took w s @ filter (fits 1376) (mSendBufQueue (side w s)))"

lemma first_mss: "mss (first_handle attr) = 1376"
  by (simp add: first_handle_def ikcp_nodelay_fields ikcp_wndsize_def Let_def fresh_eq)

lemma handle_session:
  assumes "reachable cv mode w" and "ep w s = fresh cv" and "at_conv attr = cv"
  shows "reachable cv mode (act s (first_handle attr) [] [] [] w)"
proof -
  let ?k = "snd (ikcp_wndsize (fresh cv) (uint (at_sendWndSize attr)) (uint (at_recvWndSize attr)))"
  have "uint (at_sendWndSize attr) < 2147483648" "uint (at_recvWndSize attr) < 2147483648"
    using uint_lt2p [of "at_sendWndSize attr"] uint_lt2p [of "at_recvWndSize attr"] by simp_all
  then have "step w (act s ?k [] [] [] w)" using step.set_wndsize [of _ _ w s] assms(2) by simp
  then have r: "reachable cv mode (act s ?k [] [] [] w)" by (rule reachable.step [OF assms(1)])
  have "step (act s ?k [] [] [] w) (act s (first_handle attr) [] [] [] (act s ?k [] [] [] w))"
    using step.set_nodelay [of "act s ?k [] [] [] w" s] by (simp add: first_handle_def assms(3))
  from reachable.step [OF r this] show ?thesis by (simp add: act_act)
qed

lemma connected_runs:
  assumes "connected cv w"
  shows "\<exists>v. runs cv w v"
proof -
  obtain attr g where c: "\<And>s. at_conv (attr s) = cv"
    "\<And>s. \<exists>k. Kcp_new_attr True True (attr s) (g s) = Some k \<and> side w s = snd (installRecvEvent True k)"
    "\<And>s. wire w s = {} \<and> asked w s = [] \<and> took w s = [] \<and> gave w s = []" using assms unfolding connected_def by blast
  have h: "mKcpHandle (side w s) = Some (first_handle (attr s)) \<and> mRecvEvent (side w s) \<and> mSendBufQueue (side w s) = []" for s
    using c(2) [of s] by (auto simp: Kcp_new_attr_def Kcp_init_eq Kcp_new_def installRecvEvent_def)
  let ?v0 = "start cv (\<lambda>_. 0)"
  have f: "ep ?v0 s = fresh cv" for s by (simp add: start_def fresh_eq)
  let ?v1 = "act True (first_handle (attr True)) [] [] [] ?v0"
  let ?v2 = "act False (first_handle (attr False)) [] [] [] ?v1"
  have "reachable cv (\<lambda>_. 0) ?v1" by (rule handle_session [OF reachable.start f c(1)])
  then have "reachable cv (\<lambda>_. 0) ?v2" by (rule handle_session) (simp_all add: f c(1))
  moreover have "ep ?v2 s = first_handle (attr s)" "net ?v2 s = {}" "sent ?v2 s = []" "got ?v2 s = []" for s
    by (cases s; simp add: start_def)+
  ultimately have "runs cv w ?v2" using h c(3) by (simp add: runs_def fun_eq_iff first_mss del: act_fields)
  then show ?thesis by blast
qed

lemma pair_step_runs:
  assumes "pair_step w w'" and "runs cv w v"
  shows "\<exists>v'. runs cv w' v'"
  using assms(1)
proof cases
  case (Sending s b)
  then have "runs cv w' v" using assms(2) by (auto simp: runs_def Kcp_send_def)
  then show ?thesis by blast
next
  case (Output s now k out)
  have r: "reachable cv (\<lambda>_. 0) v" "mKcpHandle (side w s) = Some (ep v s)" using assms(2) by (simp_all add: runs_def)
  have z: "mss (ep v s) = 1376" using assms(2) by (simp add: runs_def)
  obtain h ds where h: "outputRoutine now (side w s) = Inr ((side w s)\<lparr>mSendBufQueue := [], mKcpHandle := Some h\<rparr>, datagrams_to (mAttr (side w s)) ds)"
    "reachable cv (\<lambda>_. 0) (act s h ds (filter (fits 1376) (mSendBufQueue (side w s))) [] v)" "mss h = 1376"
    using output_session [OF r(1) refl r(2) Output(2), of now] unfolding z by blast
  have "(\<lambda>(fd, d, a). d) ` set (datagrams_to (mAttr (side w s)) ds) = set ds" by (force simp: datagrams_to_def)
  then have "runs cv w' (act s h ds (filter (fits 1376) (mSendBufQueue (side w s))) [] v)"
    using assms(2) Output(1,3) h r(2) z by (auto simp: runs_def act_def taken_by_def)
  then show ?thesis by blast
next
  case (Input s arrivals garbage k e)
  have r: "reachable cv (\<lambda>_. 0) v" "mKcpHandle (side w s) = Some (ep v s)" "wire w s = net v s" "mRecvEvent (side w s)"
    using assms(2) by (simp_all add: runs_def)
  have may: "may_input (net v s) arrivals (side w s)" using Input(2) by (simp only: r(3))
  obtain h a e' where h: "inputRoutine arrivals garbage (side w s) = Inr ((side w s)\<lparr>mKcpHandle := Some h, mAttr := (mAttr (side w s))\<lparr>at_addr := a\<rparr>\<rparr>, e')"
    "\<forall>b c. e' \<noteq> (if mRecvEvent (side w s) then Bad_function_call b else Recv_event b c)"
    "mss h = mss (ep v s)" "[] \<notin> set (message_of e')" "reachable cv (\<lambda>_. 0) (act s h [] [] (message_of e') v)"
    using input_session [OF r(1,2) may, of garbage] by (elim exE conjE) rule
  have "e' = e" "k = (side w s)\<lparr>mKcpHandle := Some h, mAttr := (mAttr (side w s))\<lparr>at_addr := a\<rparr>\<rparr>" using h(1) Input(3) by simp_all
  moreover have "(case e of Recv_event b a \<Rightarrow> [b] | _ \<Rightarrow> []) = message_of e"
    using h(2) r(4) \<open>e' = e\<close> by (auto simp: message_of_def split: event.splits)
  ultimately have "runs cv w' (act s h [] [] (message_of e') v)"
    using assms(2) Input(1) h(3-5) r(2) by (auto simp: runs_def act_def)
  then show ?thesis by blast
qed

text \<open>What 127 fragments of 1376 bytes hold.\<close>

lemma fits_1376: "fits 1376 b \<longleftrightarrow> length b \<le> 174752"
proof -
  have "(length b + 1375) div 1376 < 128 \<longleftrightarrow> length b + 1375 < 176128" by (simp add: div_less_iff_less_mult)
  then show ?thesis by (auto simp: fits_def fragment_count_def)
qed

lemma pair_runs:
  assumes "connected cv w0" and "pair_step\<^sup>*\<^sup>* w0 w"
  shows "\<exists>v. runs cv w v"
  using assms(2) by (induction rule: rtranclp_induct) (use connected_runs [OF assms(1)] pair_step_runs in blast)+

section \<open>What the class promises\<close>

text \<open>C8: However two connected \<open>Kcp\<close> objects send, run their output and their input routines, over a network that loses, repeats and
  reorders datagrams: the messages handed to the receive callback of one are a prefix of those given to \<open>send\<close> of the other one, in
  order, without loss or repetition; only messages of more than 174752 bytes, which \<open>outputRoutine\<close> drops, are missing.\<close>

theorem wrapper_delivers:
  assumes "connected cv w0" and "pair_step\<^sup>*\<^sup>* w0 w"
  shows "prefix (gave w s) (filter (\<lambda>b. length b \<le> 174752) (asked w (\<not> s)))"
proof -
  obtain v where v: "runs cv w v" using pair_runs [OF assms] by blast
  have "prefix (gave w s) (took w (\<not> s))" using v delivered_messages [of cv "\<lambda>_. 0" v s] by (simp add: runs_def)
  moreover have "filter (\<lambda>b. length b \<le> 174752) (asked w (\<not> s)) =
      took w (\<not> s) @ filter (fits 1376) (mSendBufQueue (side w (\<not> s)))" using v by (simp add: runs_def fits_1376 [abs_def])
  ultimately show ?thesis by simp
qed

text \<open>C31: An empty message stops the conversation for good: the sender's routine queues it as one empty fragment, but the receiver's
  hands over a message only if its size is positive. What the callback ever gets is therefore a prefix of the messages before the first empty one.\<close>

theorem empty_message_stalls:
  assumes "connected cv w0" and "pair_step\<^sup>*\<^sup>* w0 w"
  shows "prefix (gave w s) (takeWhile (\<lambda>b. b \<noteq> []) (filter (\<lambda>b. length b \<le> 174752) (asked w (\<not> s))))"
proof -
  obtain v where v: "runs cv w v" using pair_runs [OF assms] by blast
  have "prefix (gave w s) (filter (fits 1376) (asked w (\<not> s)))"
    using v delivered_messages [of cv "\<lambda>_. 0" v s] by (simp add: runs_def)
  then obtain rest where "filter (fits 1376) (asked w (\<not> s)) = gave w s @ rest" by (auto elim: prefixE)
  moreover have "\<forall>b\<in>set (gave w s). b \<noteq> []" using v by (auto simp: runs_def)
  ultimately show ?thesis by (simp add: fits_1376 [abs_def, symmetric])
qed

text \<open>C9: Two connected \<open>Kcp\<close> objects run a session of the protocol engine: each state they reach is, in control blocks, datagrams and messages, a world the
  session reaches. In each such state \<open>outputRoutine\<close> returns with an empty queue, having given every datagram to \<open>sendto\<close> with the peer's
  address, and \<open>inputRoutine\<close> returns with at most one message for the callback.\<close>

theorem wrapper_refines_session:
  assumes "connected cv w0" and "pair_step\<^sup>*\<^sup>* w0 w"
  shows "\<exists>v. reachable cv (\<lambda>_. 0) v \<and> (\<forall>s. mKcpHandle (side w s) = Some (ep v s)) \<and> wire w = net v \<and> took w = sent v \<and> gave w = got v \<and>
    (may_output (side w s) \<longrightarrow> (\<exists>k out. outputRoutine now (side w s) = Inr (k, out) \<and> mSendBufQueue k = [] \<and>
       (\<forall>(fd, d, a)\<in>set out. fd = at_fd (mAttr (side w s)) \<and> a = at_addr (mAttr (side w s))))) \<and>
    (may_input (wire w s) arrivals (side w s) \<longrightarrow> (\<exists>k e. inputRoutine arrivals garbage (side w s) = Inr (k, e) \<and> (\<forall>b. e \<noteq> Bad_function_call b)))"
proof -
  obtain v where v: "runs cv w v" using pair_runs [OF assms] by blast
  then have r: "reachable cv (\<lambda>_. 0) v" "mKcpHandle (side w s) = Some (ep v s)" "wire w = net v" "mRecvEvent (side w s)" for s
    by (simp_all add: runs_def)
  have "\<exists>k out. outputRoutine now (side w s) = Inr (k, out) \<and> mSendBufQueue k = [] \<and>
      (\<forall>(fd, d, a)\<in>set out. fd = at_fd (mAttr (side w s)) \<and> a = at_addr (mAttr (side w s)))" if "may_output (side w s)"
    using output_session [OF r(1) _ r(2) that, of now] by (auto simp: datagrams_to_def)
  moreover have "\<exists>k e. inputRoutine arrivals garbage (side w s) = Inr (k, e) \<and> (\<forall>b. e \<noteq> Bad_function_call b)"
    if "may_input (wire w s) arrivals (side w s)"
  proof -
    have "may_input (net v s) arrivals (side w s)" using that by (simp only: r(3))
    from input_session [OF r(1,2) this, of garbage] show ?thesis using r(4) by auto
  qed
  ultimately show ?thesis using v by (intro exI [of _ v]) (simp add: runs_def)
qed

lemma getconv_append: "length d \<ge> 4 \<Longrightarrow> ikcp_getconv (d @ rest) = ikcp_getconv d"
proof -
  assume "length d \<ge> 4"
  then obtain a b c e r where "d = a # b # c # e # r" by (auto simp: numeral_eq_Suc Suc_le_length_iff)
  then show ?thesis by (simp add: ikcp_getconv_def)
qed

text \<open>C32: The peer's address can be taken over: when a datagram of the conversation is followed by an empty datagram from anywhere, the conversation number read
  is the one the first left in the array, and the address of the second becomes the peer's, although \<open>ikcp_input\<close> rejects the second and its
  sender need not know the conversation number. All output then goes to that address.\<close>

theorem inputRoutine_redirects:
  assumes "mKcpHandle k = Some h" and "kcp_ok h" and "unat (ackcount h) + length d div 24 \<le> 2147483648"
    and "4 \<le> length d" and "length d \<le> 2800" and "ikcp_getconv d = Some (at_conv (mAttr k))"
  shows "\<exists>h' peer. input_arrivals [(d, peer'), ([], attacker)] (replicate 2800 0) garbage k =
      Inr (peer, k\<lparr>mKcpHandle := Some h', mAttr := (mAttr k)\<lparr>at_addr := attacker\<rparr>\<rparr>) \<and>
    (\<exists>r. ikcp_input h (Some d) = Inr (r, h')) \<and> ikcp_input h' (Some []) = Inr (-1, h') \<and>
    KcpOutput (mAttr (k\<lparr>mKcpHandle := Some h', mAttr := (mAttr k)\<lparr>at_addr := attacker\<rparr>\<rparr>)) [x] = [(at_fd (mAttr k), [x], attacker)]"
proof -
  obtain r h' where h: "ikcp_input h (Some d) = Inr (r, h')" using ikcp_input_ok [OF assms(2,3)] by (auto elim: yieldsE)
  have e: "ikcp_input h' (Some []) = Inr (-1, h')" by (simp add: ikcp_input_eq IKCP_OVERHEAD_def)
  have "input_arrivals [(d, peer'), ([], attacker)] (replicate 2800 0) garbage k =
      Inr (attacker, k\<lparr>mKcpHandle := Some h', mAttr := (mAttr k)\<lparr>at_addr := attacker\<rparr>\<rparr>)"
    using h e assms(1,5,6) getconv_append [OF assms(4)] by simp
  then show ?thesis using h e by (auto simp: KcpOutput_def)
qed

text \<open>One call of \<open>inputRoutine\<close> hands over at most one message: when two complete messages wait in the receive queue, the callback gets the first, and the second stays
  in the queue until the socket becomes readable again.\<close>

theorem inputRoutine_one_message:
  assumes "mKcpHandle k = Some h" and "rcv_ok h" and "length (payload (rcv_queue h)) < 2147483648" and "mRecvEvent k"
    and "message_complete h" and "split_message (rcv_queue h) = (first, rest)" and "payload first \<noteq> []"
  shows "\<exists>h'. inputRoutine [] garbage k = Inr (k\<lparr>mKcpHandle := Some h'\<rparr>, Recv_event (payload first) garbage) \<and>
    rcv_queue h' @ rcv_buf h' = rest @ rcv_buf h"
proof -
  have q: "rcv_queue h \<noteq> []" using assms(5) by (simp add: message_complete_def)
  have p: "ikcp_peeksize h = int (length (payload first))" using peeksize_value [OF assms(2) q assms(3)] assms(5,6) by simp
  obtain h' where h': "ikcp_recv h (ikcp_peeksize h) = Inr (int (length (payload first)), payload first, h')"
    "rcv_queue h' @ rcv_buf h' = rest @ rcv_buf h"
    using ikcp_recv_complete [OF assms(2,3,5,6), of "ikcp_peeksize h"] by (auto simp: p)
  have "0 < length (payload first)" using assms(7) by simp
  then show ?thesis using h' assms(1,4) by (intro exI [of _ h']) (simp add: inputRoutine_def p)
qed

section \<open>Instances\<close>

text \<open>Two objects of conversation 7; addresses are numbers. The first sends three bytes.\<close>

definition sample_attr :: "nat KcpAttr" where
  "sample_attr = (KcpAttr_new 0)\<lparr>at_conv := 7\<rparr>"

definition sample_kcp :: "nat Kcp" where
  "sample_kcp = \<lparr>mKcpHandle = Some (first_handle sample_attr), mBindTid = 0, mAttr = sample_attr, mRecvEvent = True, mSendBufQueue = []\<rparr>"

definition sample_pair :: "nat pair" where
  "sample_pair = \<lparr>side = (\<lambda>_. sample_kcp), wire = (\<lambda>_. {}), asked = (\<lambda>_. []), took = (\<lambda>_. []), gave = (\<lambda>_. [])\<rparr>"

lemma sample_connected: "connected 7 sample_pair"
  unfolding connected_def
  by (rule exI [of _ "\<lambda>_. sample_attr"], rule exI [of _ "\<lambda>_. 0"])
    (simp add: sample_pair_def sample_kcp_def Kcp_new_attr_def Kcp_init_eq Kcp_new_def installRecvEvent_def sample_attr_def)

definition sample_exchange :: "(u32 option \<times> int \<times> int \<times> byte list) result" where
  "sample_exchange =
     bind (ikcp_send (first_handle sample_attr) [1, 2, 3] 3) (\<lambda>(r, h).
     bind (if may_number h then ikcp_update h 0 else Inl No_return) (\<lambda>(h, out).
       if length out \<noteq> 1 then Inl No_return
       else bind (ikcp_input (first_handle sample_attr) (Some (hd out))) (\<lambda>(r, h).
         bind (ikcp_recv h (ikcp_peeksize h)) (\<lambda>(n, bytes, h').
           Inr (ikcp_getconv (hd out), int (length (hd out)), ikcp_peeksize h, bytes)))))"

lemma sample_exchange_result: "sample_exchange = Inr (Some 7, 27, 3, [1, 2, 3])"
  by code_simp

lemma three_steps: "pair_step a b \<Longrightarrow> pair_step b c \<Longrightarrow> pair_step c d \<Longrightarrow> pair_step\<^sup>*\<^sup>* a d"
  by (meson rtranclp.rtrancl_refl rtranclp.rtrancl_into_rtrancl)

lemma sample_pair_run:
  "\<exists>w. pair_step\<^sup>*\<^sup>* sample_pair w \<and> gave w False = [[1, 2, 3]] \<and> took w True = [[1, 2, 3]] \<and> asked w True = [[1, 2, 3]]"
proof -
  let ?h = "first_handle sample_attr"
  obtain r1 h1 h2 out r3 h3 n h4 where
    1: "ikcp_send ?h [1, 2, 3] 3 = Inr (r1, h1)" "may_number h1" and
    u: "ikcp_update h1 0 = Inr (h2, out)" "length out = 1" and
    iv: "ikcp_input ?h (Some (hd out)) = Inr (r3, h3)" and
    4: "ikcp_recv h3 (ikcp_peeksize h3) = Inr (n, [1, 2, 3], h4)" and
    dv: "ikcp_getconv (hd out) = Some 7" "int (length (hd out)) = 27" "ikcp_peeksize h3 = 3"
    using sample_exchange_result unfolding sample_exchange_def
    by (auto simp: bind_Inr_iff split: prod.splits if_splits)
  obtain d where "out = [d]" using u(2) by (auto simp: length_Suc_conv)
  then have 2: "ikcp_update h1 0 = Inr (h2, [d])" and 3: "ikcp_input ?h (Some d) = Inr (r3, h3)"
    and d: "ikcp_getconv d = Some 7" "int (length d) = 27" "ikcp_peeksize h3 = 3" using u iv dv by simp_all
  have len: "length d = 27" using d(2) by simp
  have at: "at_conv sample_attr = 7" by (simp add: sample_attr_def)
  let ?k1 = "Kcp_send [1, 2, 3] sample_kcp"
  let ?w1 = "sample_pair\<lparr>side := (side sample_pair)(True := ?k1), asked := (asked sample_pair)(True := asked sample_pair True @ [[1, 2, 3]])\<rparr>"
  have s1: "pair_step sample_pair ?w1" using pair_step.Sending [of sample_pair True "[1, 2, 3]"] by (simp add: sample_pair_def)
  have n: "sint (of_nat (length [1 :: byte, 2, 3]) :: i32) = 3" by simp
  have k1: "mSendBufQueue ?k1 = [[1, 2, 3]]" "mKcpHandle ?k1 = Some ?h" "mAttr ?k1 = sample_attr" by (simp_all add: Kcp_send_def sample_kcp_def)
  have l1: "send_loop [[1, 2, 3]] ?h = Inr h1" using 1(1) n by simp
  have m1: "may_output ?k1" by (simp add: may_output_def k1 l1 1(2) del: send_loop.simps)
  let ?k2 = "?k1\<lparr>mSendBufQueue := [], mKcpHandle := Some h2\<rparr>" and ?o = "datagrams_to sample_attr [d]"
  have "d \<noteq> []" using len by auto
  then have o: "outputRoutine 0 ?k1 = Inr (?k2, ?o)"
    using KcpOutput_all [of "[d]" sample_attr] by (simp add: outputRoutine_def k1 l1 2 del: send_loop.simps)
  let ?w2 = "?w1\<lparr>side := (side ?w1)(True := ?k2), wire := (wire ?w1)(\<not> True := wire ?w1 (\<not> True) \<union> (\<lambda>(fd, d, a). d) ` set ?o),
      took := (took ?w1)(True := took ?w1 True @ taken_by (side ?w1 True))\<rparr>"
  have s2: "pair_step ?w1 ?w2" by (rule pair_step.Output) (use m1 o in simp_all)
  have "taken_by ?k1 = [[1, 2, 3]]" by (simp add: taken_by_def k1 first_mss fits_def fragment_count_def)
  then have t2: "took ?w2 True = [[1, 2, 3]]" "side ?w2 False = sample_kcp" "wire ?w2 False = {d}" "gave ?w2 False = []"
    by (simp_all add: sample_pair_def datagrams_to_def)
  have a: "ackcount ?h = 0" by (simp add: first_handle_def ikcp_nodelay_fields ikcp_wndsize_def Let_def fresh_eq)
  have m2: "may_input (wire ?w2 False) [(d, 5)] (side ?w2 False)"
    unfolding t2(2,3) by (simp add: may_input_def sample_kcp_def a len)
  have g: "ikcp_getconv (d @ drop (length d) (replicate 2800 0)) = Some 7" using getconv_append [of d] len d(1) by simp
  have "n = 3" using 4 d(3) by (auto simp: ikcp_recv_outcome split: if_splits)
  then have i: "inputRoutine [(d, 5)] 0 (side ?w2 False) =
      Inr (sample_kcp\<lparr>mKcpHandle := Some h4, mAttr := sample_attr\<lparr>at_addr := 5\<rparr>\<rparr>, Recv_event [1, 2, 3] 5)"
    unfolding t2(2) using 3 4 d(3) g len by (simp add: inputRoutine_def sample_kcp_def at)
  let ?k3 = "sample_kcp\<lparr>mKcpHandle := Some h4, mAttr := sample_attr\<lparr>at_addr := 5\<rparr>\<rparr>"
  let ?w3 = "?w2\<lparr>side := (side ?w2)(False := ?k3), gave := (gave ?w2)(False := gave ?w2 False @ (case Recv_event [1, 2, 3] (5 :: nat) of Recv_event b a \<Rightarrow> [b] | _ \<Rightarrow> []))\<rparr>"
  have s3: "pair_step ?w2 ?w3" by (rule pair_step.Input [OF m2 i])
  have "pair_step\<^sup>*\<^sup>* sample_pair ?w3" by (rule three_steps [OF s1 s2 s3])
  moreover have "gave ?w3 False = [[1, 2, 3]]" "took ?w3 True = [[1, 2, 3]]" using t2(1,4) by simp_all
  moreover have "asked ?w3 True = [[1, 2, 3]]" by (simp add: sample_pair_def)
  ultimately show ?thesis by blast
qed

theorem wrapper_delivers_witness:
  "\<exists>w. pair_step\<^sup>*\<^sup>* sample_pair w \<and> gave w False = [[1, 2, 3]] \<and>
     prefix (gave w False) (filter (\<lambda>b. length b \<le> 174752) (asked w True)) \<and> asked w True = [[1, 2, 3]]"
proof -
  obtain w where w: "pair_step\<^sup>*\<^sup>* sample_pair w" "gave w False = [[1, 2, 3]]" "asked w True = [[1, 2, 3]]" using sample_pair_run by blast
  then show ?thesis using wrapper_delivers [OF sample_connected w(1), of False] by auto
qed

theorem wrapper_refines_session_witness:
  "\<exists>w v. pair_step\<^sup>*\<^sup>* sample_pair w \<and> reachable 7 (\<lambda>_. 0) v \<and> took w True = [[1, 2, 3]] \<and> sent v True = [[1, 2, 3]] \<and> gave w = got v"
proof -
  obtain w where w: "pair_step\<^sup>*\<^sup>* sample_pair w" "took w True = [[1, 2, 3]]" using sample_pair_run by blast
  then show ?thesis using wrapper_refines_session [OF sample_connected w(1)] by metis
qed

text \<open>A conversation number and nothing else is enough of a datagram.\<close>

theorem inputRoutine_redirects_witness:
  "\<exists>h' peer. input_arrivals [([7, 0, 0, 0], 5), ([], 6)] (replicate 2800 0) 0 sample_kcp =
      Inr (peer, sample_kcp\<lparr>mKcpHandle := Some h', mAttr := sample_attr\<lparr>at_addr := 6\<rparr>\<rparr>)"
proof -
  have h: "mKcpHandle sample_kcp = Some (first_handle sample_attr)" "mAttr sample_kcp = sample_attr" by (simp_all add: sample_kcp_def)
  have ok: "kcp_ok (first_handle sample_attr)"
    unfolding first_handle_def by (intro ikcp_nodelay_ok wndsize_u16_ok fresh_ok)
  have a: "unat (ackcount (first_handle sample_attr)) + length [7 :: byte, 0, 0, 0] div 24 \<le> 2147483648"
    by (simp add: first_handle_def ikcp_nodelay_fields ikcp_wndsize_def Let_def fresh_eq)
  have "ikcp_getconv [7, 0, 0, 0] = Some 7" by code_simp
  then have c: "ikcp_getconv [7, 0, 0, 0] = Some (at_conv (mAttr sample_kcp))" by (simp add: h(2) sample_attr_def)
  have l: "4 \<le> length [7 :: byte, 0, 0, 0]" "length [7 :: byte, 0, 0, 0] \<le> 2800" by simp_all
  from inputRoutine_redirects [OF h(1) ok a l c, where peer' = 5 and attacker = 6 and garbage = 0 and x = 0]
  show ?thesis unfolding h(2) by (elim exE conjE) (rule exI, rule exI)
qed

theorem inputRoutine_one_message_witness:
  "\<exists>h'. inputRoutine [] 5 (sample_kcp\<lparr>mKcpHandle := Some sample_receiver\<rparr>) =
      Inr (sample_kcp\<lparr>mKcpHandle := Some h'\<rparr>, Recv_event [1, 2, 3] 5)"
proof -
  have q: "rcv_queue sample_receiver = [arrived 0 1 [1, 2], arrived 1 0 [3], arrived 2 1 [4]]"
    by (simp add: sample_receiver_def)
  have f: "seg_frg (arrived n f bs) = f" "seg_data (arrived n f bs) = bs" for n f bs by (simp_all add: arrived_def)
  have m: "split_message (rcv_queue sample_receiver) = ([arrived 0 1 [1, 2], arrived 1 0 [3]], [arrived 2 1 [4]])"
    by (simp add: q f)
  have c: "message_complete sample_receiver" by (simp add: message_complete_def q f)
  have "length (payload (rcv_queue sample_receiver)) < 2147483648" by (simp add: q f)
  from inputRoutine_one_message [OF _ sample_receiver_ok this _ c m, of "sample_kcp\<lparr>mKcpHandle := Some sample_receiver\<rparr>" 5]
  show ?thesis by (auto simp: f sample_kcp_def)
qed

text \<open>The first side sends an empty message and then another one; the peer's callback never gets anything.\<close>

theorem empty_message_stalls_witness:
  "\<exists>w. pair_step\<^sup>*\<^sup>* sample_pair w \<and> asked w True = [[], [1, 2, 3]] \<and> gave w False = []"
proof -
  let ?w1 = "sample_pair\<lparr>side := (side sample_pair)(True := Kcp_send [] (side sample_pair True)), asked := (asked sample_pair)(True := [[]])\<rparr>"
  let ?w2 = "?w1\<lparr>side := (side ?w1)(True := Kcp_send [1, 2, 3] (side ?w1 True)), asked := (asked ?w1)(True := [[], [1, 2, 3]])\<rparr>"
  have "pair_step sample_pair ?w1" using pair_step.Sending [of sample_pair True "[]"] by (simp add: sample_pair_def)
  moreover have "pair_step ?w1 ?w2" using pair_step.Sending [of ?w1 True "[1, 2, 3]"] by simp
  ultimately have s: "pair_step\<^sup>*\<^sup>* sample_pair ?w2" by (meson converse_rtranclp_into_rtranclp rtranclp.rtrancl_refl)
  moreover have "asked ?w2 True = [[], [1, 2, 3]]" by simp
  moreover have "gave ?w2 False = []" using empty_message_stalls [OF sample_connected s, of False] by simp
  ultimately show ?thesis by blast
qed

end
