(* ===== verification/Kmanager.thy ===== *)
theory Kmanager
  imports Kcp_Wrapper Ktimer Kschedule
begin

text \<open>
  kcpmanager.h and kcpmanager.cpp: the manager, a timer manager and a scheduler whose idle fibers wait for
  events of the sockets. \<open>Kcp\<close> objects live in a store; a callback names the object and the routine it is bound to.
  System calls are at the interface: whether \<open>epoll_ctl\<close> succeeds is an argument, the events
  \<open>epoll_wait\<close> yields too, \<open>eventfd_write\<close> and \<open>eventfd_read\<close> act on a counter. The address of a
  \<open>Context\<close> in an event is its index in \<open>mContextVec\<close>. The parts of \<open>idle\<close> are here, its loop is in
  theory Kidle.
\<close>

section \<open>Data\<close>

text \<open>What a callback is bound to: a routine of a \<open>Kcp\<close> object, or a function of the user's.\<close>

datatype routine = InputRoutine nat | OutputRoutine nat | User_function nat

datatype KcpState = NOTINIT | INITED | REMOVE

datatype Event = NONE | READ | WRITE

text \<open>\<open>ec_scheduler\<close> tells whether the pointer to the scheduler is set.\<close>

record EventContext =
  ec_scheduler :: bool
  ec_fiber :: "nat option"
  ec_cb :: "routine callback option"

record Context =
  ctx_read :: EventContext
  ctx_write :: EventContext
  ctx_timerId :: u64
  ctx_tid :: u32
  ctx_fd :: i32
  ctx_events :: u32

definition EPOLLIN :: u32 where "EPOLLIN = 1"
definition EPOLLOUT :: u32 where "EPOLLOUT = 4"
definition EPOLLERR :: u32 where "EPOLLERR = 8"
definition EPOLLHUP :: u32 where "EPOLLHUP = 16"

definition epoll_event_size :: u32 where "epoll_event_size = 1024"

record 'a KcpManager =
  kcps :: "nat \<Rightarrow> 'a Kcp"
  timers :: "routine KTimerManager"
  scheduler :: "routine callback KScheduler"
  mWaitingQueue :: "(nat \<times> KcpState) list"
  mContextVec :: "Context option list"
  mEventCount :: u16
  epoll_fds :: "i32 set"
  eventfd :: u64

section \<open>Contexts\<close>

definition EventContext_new :: EventContext where
  "EventContext_new = \<lparr>ec_scheduler = False, ec_fiber = None, ec_cb = None\<rparr>"

text \<open>\<open>timerId\<close> and \<open>tid\<close> of a new context are uninitialised; they are 0 here and written before they are read.\<close>

definition Context_new :: "i32 \<Rightarrow> Context" where
  "Context_new fd =
     \<lparr>ctx_read = EventContext_new, ctx_write = EventContext_new, ctx_timerId = 0, ctx_tid = 0, ctx_fd = fd, ctx_events = 0\<rparr>"

fun fill_contexts :: "nat \<Rightarrow> Context option list \<Rightarrow> Context option list" where
  "fill_contexts i [] = []"
| "fill_contexts i (None # v) = Some (Context_new (of_nat i)) # fill_contexts (i + 1) v"
| "fill_contexts i (Some c # v) = Some c # fill_contexts i v"

definition contextResize :: "nat \<Rightarrow> Context option list \<Rightarrow> Context option list" where
  "contextResize n v =
     (if n = length v then v
      else fill_contexts 0 (take n v @ replicate (n - length v) None))"

definition getContext :: "Event \<Rightarrow> Context \<Rightarrow> EventContext result" where
  "getContext event c =
     (case event of READ \<Rightarrow> Inr (ctx_read c) | WRITE \<Rightarrow> Inr (ctx_write c) | NONE \<Rightarrow> Inl Assertion_failed)"

definition resetContext :: "Event \<Rightarrow> Context \<Rightarrow> Context result" where
  "resetContext event c =
     (case event of
        READ \<Rightarrow> Inr (c\<lparr>ctx_read := EventContext_new\<rparr>)
      | WRITE \<Rightarrow> Inr (c\<lparr>ctx_write := EventContext_new\<rparr>)
      | NONE \<Rightarrow> Inl Assertion_failed)"

section \<open>Waking and scheduling\<close>

definition tickle :: "'a KcpManager \<Rightarrow> 'a KcpManager" where
  "tickle m = (if \<not> hasIdleThread (scheduler m) then m else m\<lparr>eventfd := eventfd m + 1\<rparr>)"

definition onTimerInsertedAtFront :: "'a KcpManager \<Rightarrow> 'a KcpManager" where
  "onTimerInsertedAtFront m = tickle m"

definition schedule_on :: "routine callback FiberOrCb \<Rightarrow> int \<Rightarrow> 'a KcpManager \<Rightarrow> 'a KcpManager" where
  "schedule_on fc th m =
     (let (needTickle, s) = schedule fc th (scheduler m); m = m\<lparr>scheduler := s\<rparr>
      in if needTickle then tickle m else m)"

definition triggerEvent :: "Event \<Rightarrow> Context \<Rightarrow> 'a KcpManager \<Rightarrow> 'a KcpManager result" where
  "triggerEvent event c m =
     bind (getContext event c) (\<lambda>eventCtx.
       if ec_cb eventCtx \<noteq> None
       then if \<not> ec_scheduler eventCtx then Inl Null_dereference
            else Inr (schedule_on (Cb (ec_cb eventCtx)) (sint (ctx_tid c)) m)
       else if ec_fiber eventCtx \<noteq> None
       then if \<not> ec_scheduler eventCtx then Inl Null_dereference
            else Inr (schedule_on (Fb (ec_fiber eventCtx)) (sint (ctx_tid c)) m)
       else Inr m)"

definition KcpManager_stopping :: "u64 \<Rightarrow> 'a KcpManager \<Rightarrow> bool \<times> u64 \<times> 'a KcpManager" where
  "KcpManager_stopping now m =
     (let (timeout, ts) = getNearTimeout now (timers m)
      in (timeout = -1 \<and> stopping (scheduler m), timeout, m\<lparr>timers := ts\<rparr>))"

section \<open>Timers of the user\<close>

text \<open>The public operations on timers. \<open>onTimerInsertedAtFront\<close> is called where the lock has been released.\<close>

definition manager_addTimer :: "bool \<Rightarrow> u64 \<Rightarrow> u64 \<Rightarrow> routine callback option \<Rightarrow> u32 \<Rightarrow> u32 \<Rightarrow> 'a KcpManager \<Rightarrow> nat option \<times> 'a KcpManager" where
  "manager_addTimer malloc now ms cb recycle tid m =
     (let (timer, atFront, ts) = addTimer malloc now ms cb recycle tid (timers m); m = m\<lparr>timers := ts\<rparr>
      in (timer, if atFront then onTimerInsertedAtFront m else m))"

definition manager_addConditionTimer :: "bool \<Rightarrow> u64 \<Rightarrow> u64 \<Rightarrow> routine option \<Rightarrow> nat \<Rightarrow> u32 \<Rightarrow> 'a KcpManager \<Rightarrow> nat option \<times> 'a KcpManager" where
  "manager_addConditionTimer malloc now ms cb cond recycle m =
     (let (timer, atFront, ts) = addConditionTimer malloc now ms cb cond recycle (timers m); m = m\<lparr>timers := ts\<rparr>
      in (timer, if atFront then onTimerInsertedAtFront m else m))"

definition manager_delTimer :: "u64 \<Rightarrow> 'a KcpManager \<Rightarrow> 'a KcpManager" where
  "manager_delTimer timerId m = m\<lparr>timers := delTimer timerId (timers m)\<rparr>"

section \<open>The waiting queue\<close>

text \<open>
  \<open>std::map\<close> with the comparator of \<open>Kcp\<close>, which can fail: the search for a key compares it with
  entries up to the first that is not less, and an entry that is neither less nor greater is the key's.
\<close>

definition compare_kcp :: "(nat \<Rightarrow> 'a Kcp) \<Rightarrow> nat option \<Rightarrow> nat option \<Rightarrow> bool result" where
  "compare_kcp ks p q = KcpCompare (map_option ks p) (map_option ks q)"

fun map_find :: "(nat \<Rightarrow> 'a Kcp) \<Rightarrow> nat option \<Rightarrow> (nat \<times> KcpState) list \<Rightarrow> nat option result" where
  "map_find ks k [] = Inr None"
| "map_find ks k ((p, st) # q) =
     bind (compare_kcp ks (Some p) k) (\<lambda>less.
       if less then bind (map_find ks k q) (\<lambda>r. Inr (map_option Suc r))
       else bind (compare_kcp ks k (Some p)) (\<lambda>greater. Inr (if greater then None else Some 0)))"

fun map_insert :: "(nat \<Rightarrow> 'a Kcp) \<Rightarrow> nat \<Rightarrow> KcpState \<Rightarrow> (nat \<times> KcpState) list \<Rightarrow> (bool \<times> (nat \<times> KcpState) list) result" where
  "map_insert ks k new [] = Inr (True, [(k, new)])"
| "map_insert ks k new ((p, st) # q) =
     bind (compare_kcp ks (Some p) (Some k)) (\<lambda>less.
       if less then bind (map_insert ks k new q) (\<lambda>(r, q). Inr (r, (p, st) # q))
       else bind (compare_kcp ks (Some k) (Some p)) (\<lambda>greater.
         Inr (if greater then (True, (k, new) # (p, st) # q) else (False, (p, st) # q))))"

definition addKcp :: "nat option \<Rightarrow> 'a KcpManager \<Rightarrow> (bool \<times> 'a KcpManager) result" where
  "addKcp kcp m =
     (if ucast (mEventCount m) \<ge> epoll_event_size then Inr (False, m)
      else case kcp of
        None \<Rightarrow> Inr (False, m)
      | Some p \<Rightarrow> bind (map_insert (kcps m) p NOTINIT (mWaitingQueue m)) (\<lambda>(r, q). Inr (r, m\<lparr>mWaitingQueue := q\<rparr>)))"

definition delKcp :: "nat option \<Rightarrow> 'a KcpManager \<Rightarrow> (bool \<times> 'a KcpManager) result" where
  "delKcp kcp m =
     bind (map_find (kcps m) kcp (mWaitingQueue m)) (\<lambda>it.
       case it of
         None \<Rightarrow> Inr (True, m)
       | Some i \<Rightarrow> Inr (True, m\<lparr>mWaitingQueue := (mWaitingQueue m)[i := (fst (mWaitingQueue m ! i), REMOVE)]\<rparr>))"

section \<open>The idle fiber\<close>

definition maxEvents :: "'a KcpManager \<Rightarrow> u32" where
  "maxEvents m = epoll_event_size div (if mThreadCount (scheduler m) \<noteq> 0 then mThreadCount (scheduler m) else 1) + 1"

text \<open>
  The context for a descriptor: its index and the vector, grown if need be. An index out of range is an access behind the end
  of the vector; for a negative descriptor the size asked for is not even defined.
\<close>

definition context_for :: "i32 \<Rightarrow> Context option list \<Rightarrow> (nat \<times> Context option list) result" where
  "context_for fd v =
     (if sint fd < 0 then Inl Buffer_overflow
      else let i = nat (sint fd);
               v = (if i \<ge> length v then contextResize (i * 3 div 2) v else v)
      in if i \<ge> length v then Inl Buffer_overflow else Inr (i, v))"

text \<open>
  A waiting connection is taken over by thread \<open>tid\<close>. \<open>epoll_ok\<close> is the success of \<open>epoll_ctl\<close>,
  \<open>now\<close> the clock. The second component of the result tells whether the events of the thread grew by one.
\<close>

definition register_kcp :: "u32 \<Rightarrow> u64 \<Rightarrow> bool \<Rightarrow> bool \<Rightarrow> nat \<Rightarrow> 'a KcpManager \<Rightarrow> (bool \<times> 'a KcpManager) result" where
  "register_kcp tid now malloc epoll_ok p m =
     (let m = m\<lparr>kcps := (kcps m)(p := snd (Kcp_create tid (kcps m p)))\<rparr>;
          attr = mAttr (kcps m p);
          fd = at_fd attr
      in bind (context_for fd (mContextVec m)) (\<lambda>(i, v).
        case v ! i of
          None \<Rightarrow> Inl Assertion_failed
        | Some ctx \<Rightarrow>
            let ctx = ctx\<lparr>ctx_events := EPOLLIN, ctx_fd := fd, ctx_tid := tid,
                  ctx_read := \<lparr>ec_scheduler = True, ec_fiber = None, ec_cb = Some (Call (InputRoutine p))\<rparr>\<rparr>;
                (timer, atFront, ts) = addTimer malloc now (scast (at_interval attr)) (Some (Call (OutputRoutine p))) (at_interval attr) tid (timers m);
                m = m\<lparr>timers := ts\<rparr>;
                m = (if atFront then onTimerInsertedAtFront m else m)
            in case timer of
                 None \<Rightarrow> Inl Assertion_failed
               | Some q \<Rightarrow>
                   let ctx = ctx\<lparr>ctx_timerId := mUniqueId (store ts q)\<rparr>
                   in if epoll_ok
                      then Inr (True, m\<lparr>mContextVec := v[i := Some ctx], epoll_fds := insert fd (epoll_fds m), mEventCount := mEventCount m + 1\<rparr>)
                      else bind (resetContext READ ctx) (\<lambda>ctx.
                        Inr (False, m\<lparr>mContextVec := v[i := Some ctx], timers := on_timer q KTimer_cancel ts\<rparr>))))"

text \<open>A waiting connection that is to be removed, on the thread it is bound to.\<close>

definition unregister_kcp :: "nat \<Rightarrow> 'a KcpManager \<Rightarrow> 'a KcpManager result" where
  "unregister_kcp p m =
     (let fd = at_fd (mAttr (kcps m p));
          i = nat (sint fd);
          m = m\<lparr>epoll_fds := epoll_fds m - {fd}\<rparr>
      in if sint fd < 0 \<or> i \<ge> length (mContextVec m) then Inl Buffer_overflow
         else case mContextVec m ! i of
           None \<Rightarrow> Inl Null_dereference
         | Some ctx \<Rightarrow>
             bind (resetContext READ ctx) (\<lambda>ctx'.
               Inr (m\<lparr>mContextVec := (mContextVec m)[i := Some ctx'], timers := delTimer (ctx_timerId ctx) (timers m),
                      mEventCount := mEventCount m - 1\<rparr>)))"

text \<open>
  The loop over the waiting queue, with the number of events of the thread; \<open>epoll_ok p\<close> is the answer of
  \<open>epoll_ctl\<close> for object \<open>p\<close>. The result holds the entries that stay in the queue.
\<close>

fun idle_entries :: "u32 \<Rightarrow> u64 \<Rightarrow> bool \<Rightarrow> (nat \<Rightarrow> bool) \<Rightarrow> (nat \<times> KcpState) list \<Rightarrow> u32 \<Rightarrow> 'a KcpManager \<Rightarrow>
    ((nat \<times> KcpState) list \<times> u32 \<times> 'a KcpManager) result" where
  "idle_entries tid now malloc epoll_ok [] localEventCount m = Inr ([], localEventCount, m)"
| "idle_entries tid now malloc epoll_ok ((p, st) # it) localEventCount m =
     (case st of
        NOTINIT \<Rightarrow>
          if ucast (mEventCount m) \<ge> epoll_event_size
          then bind (idle_entries tid now malloc epoll_ok it localEventCount m) (\<lambda>(q, n, m). Inr ((p, st) # q, n, m))
          else bind (register_kcp tid now malloc (epoll_ok p) p m) (\<lambda>(grown, m).
            idle_entries tid now malloc epoll_ok it (if grown then localEventCount + 1 else localEventCount) m)
      | INITED \<Rightarrow> bind (idle_entries tid now malloc epoll_ok it localEventCount m) (\<lambda>(q, n, m). Inr ((p, st) # q, n, m))
      | REMOVE \<Rightarrow>
          if mBindTid (kcps m p) = tid
          then bind (unregister_kcp p m) (\<lambda>m. idle_entries tid now malloc epoll_ok it (localEventCount - 1) m)
          else idle_entries tid now malloc epoll_ok it localEventCount m)"

definition idle_register :: "u32 \<Rightarrow> u64 \<Rightarrow> bool \<Rightarrow> (nat \<Rightarrow> bool) \<Rightarrow> u32 \<Rightarrow> 'a KcpManager \<Rightarrow> (u32 \<times> 'a KcpManager) result" where
  "idle_register tid now malloc epoll_ok localEventCount m =
     (if localEventCount < maxEvents m
      then bind (idle_entries tid now malloc epoll_ok (mWaitingQueue m) localEventCount m) (\<lambda>(q, n, m).
        Inr (n, m\<lparr>mWaitingQueue := q\<rparr>))
      else Inr (localEventCount, m))"

text \<open>An event is that of the eventfd or carries a context.\<close>

datatype event_data = Event_fd | Event_ctx nat

definition handle_event :: "event_data \<times> u32 \<Rightarrow> 'a KcpManager \<Rightarrow> 'a KcpManager result" where
  "handle_event ev m =
     (case fst ev of
        Event_fd \<Rightarrow> Inr (m\<lparr>eventfd := 0\<rparr>)
      | Event_ctx i \<Rightarrow>
          case mContextVec m ! i of
            None \<Rightarrow> Inl Assertion_failed
          | Some ctx \<Rightarrow>
              let events = snd ev;
                  events = (if events AND (EPOLLERR OR EPOLLHUP) \<noteq> 0 then events OR ((EPOLLIN OR EPOLLOUT) AND ctx_events ctx) else events)
              in bind (if events OR EPOLLIN \<noteq> 0 then triggerEvent READ ctx m else Inr m) (\<lambda>m.
                 if events OR EPOLLOUT \<noteq> 0 then triggerEvent WRITE ctx m else Inr m))"

fun handle_events :: "(event_data \<times> u32) list \<Rightarrow> 'a KcpManager \<Rightarrow> 'a KcpManager result" where
  "handle_events [] m = Inr m"
| "handle_events (ev # evs) m = bind (handle_event ev m) (handle_events evs)"

text \<open>
  What follows the return of \<open>epoll_wait\<close>, up to the yield of the idle fiber. Each part takes its locks and releases them again;
  \<open>idle_dispatch\<close> is their composition, and in theory Kidle the parts are steps of their own.
\<close>

definition idle_expire :: "u64 \<Rightarrow> 'a KcpManager \<Rightarrow> (routine callback \<times> u32) list \<times> 'a KcpManager" where
  "idle_expire now m = (let (cbs, ts) = listExpiredTimer now (timers m) in (cbs, m\<lparr>timers := ts\<rparr>))"

definition schedule_callbacks :: "(routine callback \<times> u32) list \<Rightarrow> 'a KcpManager \<Rightarrow> 'a KcpManager" where
  "schedule_callbacks cbs m =
     (let (needTickle, s) = schedule_range (map (\<lambda>(cb, tid). (Cb (Some cb), sint tid)) cbs) (scheduler m);
          m = m\<lparr>scheduler := s\<rparr>
      in if needTickle then tickle m else m)"

definition idle_dispatch :: "u64 \<Rightarrow> (event_data \<times> u32) list \<Rightarrow> 'a KcpManager \<Rightarrow> 'a KcpManager result" where
  "idle_dispatch now evs m = (let (cbs, m) = idle_expire now m in handle_events evs (schedule_callbacks cbs m))"

text \<open>Construction and destruction; \<open>epoll_ok\<close> and \<open>eventfd_ok\<close> are the success of the two system calls.\<close>

definition KcpManager_new :: "bool \<Rightarrow> bool \<Rightarrow> routine callback KScheduler \<Rightarrow> int list \<Rightarrow> (nat \<Rightarrow> 'a Kcp) \<Rightarrow> 'a KcpManager result" where
  "KcpManager_new epoll_ok eventfd_ok s tids ks =
     (let m = \<lparr>kcps = ks, timers = KTimerManager_new 0, scheduler = s, mWaitingQueue = [], mContextVec = [], mEventCount = 0,
               epoll_fds = {}, eventfd = 0\<rparr>
      in if \<not> epoll_ok \<or> \<not> eventfd_ok then Inr m
         else bind (start tids s) (\<lambda>s. Inr (m\<lparr>scheduler := s\<rparr>)))"

definition KcpManager_destroy :: "bool \<Rightarrow> routine callback fibers \<Rightarrow> 'a KcpManager \<Rightarrow> 'a KcpManager result" where
  "KcpManager_destroy mine fs m =
     bind (stop mine fs (scheduler m)) (\<lambda>(tickles, runs_root, s).
       let m = (tickle ^^ tickles) (m\<lparr>scheduler := s\<rparr>)
       in Inr (m\<lparr>mContextVec := []\<rparr>))"

section \<open>The queue: lemmas\<close>

definition kcp_fd :: "(nat \<Rightarrow> 'a Kcp) \<Rightarrow> nat \<Rightarrow> int" where
  "kcp_fd ks p = sint (at_fd (mAttr (ks p)))"

abbreviation entry_less :: "(nat \<Rightarrow> 'a Kcp) \<Rightarrow> (nat \<times> KcpState) \<Rightarrow> (nat \<times> KcpState) \<Rightarrow> bool" where
  "entry_less ks x y \<equiv> kcp_fd ks (fst x) < kcp_fd ks (fst y)"

interpretation waiting: strict_weak "entry_less ks" for ks
  by (rule strict_weak_key)

lemma sint_inj: "sint (a :: i32) = sint b \<longleftrightarrow> a = b"
  by (auto intro: signed_word_eqI)

lemma compare_kcp_simps:
  "compare_kcp ks (Some p) None = Inr False"
  "compare_kcp ks None k = Inr True"
  "compare_kcp ks (Some p) (Some q) = (if kcp_fd ks p = kcp_fd ks q then Inl Assertion_failed else Inr (kcp_fd ks p < kcp_fd ks q))"
  by (simp_all add: compare_kcp_def KcpCompare_def kcp_fd_def sint_inj)

lemma map_find_null: "map_find ks None q = Inr None"
  by (cases q) (auto simp: compare_kcp_simps)

lemma map_find_some:
  assumes "sorted_wrt (entry_less ks) q"
  shows "map_find ks (Some p) q = (if \<exists>x\<in>set q. kcp_fd ks (fst x) = kcp_fd ks p then Inl Assertion_failed else Inr None)"
  using assms
proof (induction q)
  case (Cons x q)
  obtain k st where x: "x = (k, st)" by (cases x)
  consider (less) "kcp_fd ks k < kcp_fd ks p" | (same) "kcp_fd ks k = kcp_fd ks p" | (greater) "kcp_fd ks p < kcp_fd ks k" by linarith
  then show ?case
  proof cases
    case less
    then show ?thesis using Cons by (auto simp: x compare_kcp_simps)
  next
    case same
    then show ?thesis by (simp add: x compare_kcp_simps)
  next
    case greater
    then have "kcp_fd ks (fst y) \<noteq> kcp_fd ks p" if "y \<in> set q" for y using Cons.prems that by (auto simp: x)
    then show ?thesis using greater by (auto simp: x compare_kcp_simps)
  qed
qed simp

lemma map_insert_spec:
  assumes "sorted_wrt (entry_less ks) q"
  shows "map_insert ks p new q =
    (if \<exists>x\<in>set q. kcp_fd ks (fst x) = kcp_fd ks p then Inl Assertion_failed else Inr (True, set_insert (entry_less ks) (p, new) q))"
  using assms
proof (induction q)
  case (Cons x q)
  obtain k st where x: "x = (k, st)" by (cases x)
  consider (less) "kcp_fd ks k < kcp_fd ks p" | (same) "kcp_fd ks k = kcp_fd ks p" | (greater) "kcp_fd ks p < kcp_fd ks k" by linarith
  then show ?case
  proof cases
    case less
    then show ?thesis using Cons by (auto simp: x compare_kcp_simps)
  next
    case same
    then show ?thesis by (simp add: x compare_kcp_simps)
  next
    case greater
    then have "kcp_fd ks (fst y) \<noteq> kcp_fd ks p" if "y \<in> set q" for y using Cons.prems that by (auto simp: x)
    then show ?thesis using greater by (auto simp: x compare_kcp_simps)
  qed
qed simp

definition queue_sorted :: "'a KcpManager \<Rightarrow> bool" where
  "queue_sorted m \<longleftrightarrow> sorted_wrt (entry_less (kcps m)) (mWaitingQueue m)"

text \<open>Adding a connection when fewer than 1024 events are registered puts it into the waiting queue, which stays ordered by descriptor; but adding one whose
  descriptor is that of a waiting one, the same connection twice for instance, does not answer false as the return value suggests: the comparator's assertion fails.\<close>

theorem addKcp_correct:
  assumes "queue_sorted m"
  shows "addKcp None m = Inr (False, m) \<and>
    (ucast (mEventCount m) < epoll_event_size \<longrightarrow>
      (case addKcp (Some p) m of
         Inl e \<Rightarrow> e = Assertion_failed \<and> (\<exists>x\<in>set (mWaitingQueue m). kcp_fd (kcps m) (fst x) = kcp_fd (kcps m) p)
       | Inr (r, m') \<Rightarrow> r \<and> (\<forall>x\<in>set (mWaitingQueue m). kcp_fd (kcps m) (fst x) \<noteq> kcp_fd (kcps m) p) \<and>
           queue_sorted m' \<and> set (mWaitingQueue m') = insert (p, NOTINIT) (set (mWaitingQueue m)) \<and>
           m' = m\<lparr>mWaitingQueue := mWaitingQueue m'\<rparr>))"
proof (cases "\<exists>x\<in>set (mWaitingQueue m). kcp_fd (kcps m) (fst x) = kcp_fd (kcps m) p")
  case True
  then show ?thesis using map_insert_spec [OF assms [unfolded queue_sorted_def], of p NOTINIT] by (auto simp: addKcp_def not_le)
next
  case False
  let ?q = "set_insert (entry_less (kcps m)) (p, NOTINIT) (mWaitingQueue m)"
  have "set ?q = insert (p, NOTINIT) (set (mWaitingQueue m))"
    using False by (intro waiting.insert_new) (metis fst_conv linorder_neqE)
  moreover have "sorted_wrt (entry_less (kcps m)) ?q" by (rule waiting.sorted_insert [OF assms [unfolded queue_sorted_def]])
  moreover have "map_insert (kcps m) p NOTINIT (mWaitingQueue m) = Inr (True, ?q)"
    using map_insert_spec [OF assms [unfolded queue_sorted_def], of p NOTINIT] False by simp
  ultimately show ?thesis using False by (auto simp: addKcp_def not_le queue_sorted_def)
qed

text \<open>\<open>delKcp\<close> never removes anything. If a connection with the same descriptor is waiting, in particular the one to be removed, the comparator's
  assertion fails; otherwise, in particular once the connection is in use, nothing happens and the answer is true.\<close>

theorem delKcp_removes_nothing:
  assumes "queue_sorted m"
  shows "delKcp (Some p) m =
    (if \<exists>x\<in>set (mWaitingQueue m). kcp_fd (kcps m) (fst x) = kcp_fd (kcps m) p then Inl Assertion_failed else Inr (True, m)) \<and>
    delKcp None m = Inr (True, m)"
  using map_find_some [OF assms [unfolded queue_sorted_def], of p] by (simp add: delKcp_def map_find_null)

section \<open>Registering: lemmas\<close>

lemma length_fill [simp]: "length (fill_contexts i v) = length v"
  by (induction i v rule: fill_contexts.induct) auto

lemma fill_no_null: "None \<notin> set (fill_contexts i v)"
  by (induction i v rule: fill_contexts.induct) auto

lemma fill_keeps: "j < length v \<Longrightarrow> v ! j = Some c \<Longrightarrow> fill_contexts i v ! j = Some c"
proof (induction i v arbitrary: j rule: fill_contexts.induct)
  case (2 i v)
  then show ?case by (cases j) auto
next
  case (3 i c' v)
  then show ?case by (cases j) auto
qed simp

lemma resize_grows:
  assumes "length v \<le> n" and "None \<notin> set v"
  shows "length (contextResize n v) = n" and "None \<notin> set (contextResize n v)"
    and "j < length v \<Longrightarrow> contextResize n v ! j = v ! j"
proof -
  show "length (contextResize n v) = n" using assms(1) by (simp add: contextResize_def)
  show "None \<notin> set (contextResize n v)" using assms(2) by (simp add: contextResize_def fill_no_null)
  assume j: "j < length v"
  then obtain c where c: "v ! j = Some c" using assms(2) by (metis nth_mem option.exhaust)
  show "contextResize n v ! j = v ! j"
  proof (cases "n = length v")
    case False
    have "(take n v @ replicate (n - length v) None) ! j = Some c" using j c assms(1) by (simp add: nth_append)
    then show ?thesis using False c j assms(1) fill_keeps by (simp add: contextResize_def)
  qed (simp add: contextResize_def)
qed

text \<open>From descriptor 2 on, growing the vector to one and a half times the descriptor makes room for it.\<close>

lemma context_for_ok:
  assumes "2 \<le> sint fd \<or> 0 \<le> sint fd \<and> nat (sint fd) < length v" and "None \<notin> set v"
  shows "\<exists>v'. context_for fd v = Inr (nat (sint fd), v') \<and> nat (sint fd) < length v' \<and> length v \<le> length v' \<and> None \<notin> set v' \<and>
    (\<forall>j<length v. v' ! j = v ! j)"
proof (cases "nat (sint fd) \<ge> length v")
  case True
  let ?i = "nat (sint fd)"
  have i: "?i < ?i * 3 div 2" using True assms(1) by linarith
  have g: "length v \<le> ?i * 3 div 2" using i True by linarith
  have "0 \<le> sint fd" using assms(1) by linarith
  then show ?thesis using True i g resize_grows [OF g assms(2)]
    by (intro exI [of _ "contextResize (?i * 3 div 2) v"]) (auto simp: context_for_def Let_def)
next
  case False
  then show ?thesis using assms by (intro exI [of _ v]) (auto simp: context_for_def Let_def)
qed

text \<open>Standard input and output cannot be sockets here: for a descriptor 0 or 1 that is not below the size of the vector, registering accesses the vector
  behind its end, since the size asked for, one and a half times the descriptor, does not exceed it. A negative descriptor, the default of
  \<open>KcpAttr\<close>, is not caught either.\<close>

theorem register_out_of_range:
  assumes "at_fd (mAttr (kcps m p)) = fd" and "sint fd < 2" and "sint fd < 0 \<or> length (mContextVec m) \<le> nat (sint fd)"
  shows "register_kcp tid now malloc epoll_ok p m = Inl Buffer_overflow"
proof -
  have "context_for fd (mContextVec m) = Inl Buffer_overflow"
  proof (cases "sint fd < 0")
    case False
    then have "nat (sint fd) * 3 div 2 \<le> nat (sint fd)" using assms(2) by linarith
    then have "length (contextResize (nat (sint fd) * 3 div 2) (mContextVec m)) \<le> nat (sint fd)"
      using assms(3) False by (auto simp: contextResize_def)
    then show ?thesis using False assms(3) by (simp add: context_for_def Let_def)
  qed (simp add: context_for_def)
  then show ?thesis using assms(1) by (simp add: register_kcp_def Kcp_create_def Let_def)
qed

section \<open>The invariant\<close>

text \<open>
  What holds of a registered descriptor: its context calls the input routine of an object with this descriptor, and a
  recurring timer, known to the context, calls the object's output routine on the context's thread.
\<close>

definition input_context :: "nat \<Rightarrow> EventContext" where
  "input_context p = \<lparr>ec_scheduler = True, ec_fiber = None, ec_cb = Some (Call (InputRoutine p))\<rparr>"

definition output_timer :: "nat \<Rightarrow> Context \<Rightarrow> routine KTimer \<Rightarrow> bool" where
  "output_timer p c t \<longleftrightarrow> mUniqueId t = ctx_timerId c \<and> KTimer.mCb t = Some (Call (OutputRoutine p)) \<and> mRecycleTime t \<noteq> 0 \<and> mTid t = ctx_tid c"

definition served_by :: "'a KcpManager \<Rightarrow> i32 \<Rightarrow> nat \<Rightarrow> bool" where
  "served_by m fd p \<longleftrightarrow> 0 \<le> sint fd \<and> nat (sint fd) < length (mContextVec m) \<and> at_fd (mAttr (kcps m p)) = fd \<and>
     (\<exists>c. mContextVec m ! nat (sint fd) = Some c \<and> ctx_read c = input_context p \<and>
        (\<exists>q\<in>set (mTimers (timers m)). output_timer p c (store (timers m) q)))"

definition mgr_core :: "'a KcpManager \<Rightarrow> bool" where
  "mgr_core m \<longleftrightarrow> None \<notin> set (mContextVec m) \<and> (\<forall>c. Some c \<in> set (mContextVec m) \<longrightarrow> ctx_write c = EventContext_new) \<and>
     timers_ok (timers m) \<and> (\<forall>fd\<in>epoll_fds m. \<exists>p. served_by m fd p) \<and>
     finite (epoll_fds m) \<and> unat (mEventCount m) = card (epoll_fds m)"

text \<open>A connection that can be registered: its socket is neither standard input nor output, and its interval is not 0.\<close>

definition fit_to_register :: "'a KcpManager \<Rightarrow> nat \<Rightarrow> bool" where
  "fit_to_register m p \<longleftrightarrow> 2 \<le> kcp_fd (kcps m) p \<and> at_fd (mAttr (kcps m p)) \<notin> epoll_fds m \<and> at_interval (mAttr (kcps m p)) \<noteq> 0"

definition mgr_ok :: "'a KcpManager \<Rightarrow> bool" where
  "mgr_ok m \<longleftrightarrow> mgr_core m \<and> queue_sorted m \<and> (\<forall>(p, st)\<in>set (mWaitingQueue m). st = NOTINIT \<and> fit_to_register m p)"

lemma tickle_frame: "\<exists>e. tickle m = m\<lparr>eventfd := e\<rparr>"
proof (cases "hasIdleThread (scheduler m)")
  case False
  then show ?thesis by (intro exI [of _ "eventfd m"]) (simp add: tickle_def)
qed (auto simp: tickle_def)

lemma maybe_tickle: "\<exists>e. (if b then tickle m else m) = m\<lparr>eventfd := e\<rparr>"
  using tickle_frame [of m] by (cases b) (auto intro: exI [of _ "eventfd m"])

lemma maybe_notify: "\<exists>e. (if b then onTimerInsertedAtFront m else m) = m\<lparr>eventfd := e\<rparr>"
  unfolding onTimerInsertedAtFront_def by (rule maybe_tickle)

lemma fill_write:
  "(\<forall>c. Some c \<in> set v \<longrightarrow> ctx_write c = EventContext_new) \<Longrightarrow> Some c \<in> set (fill_contexts i v) \<Longrightarrow> ctx_write c = EventContext_new"
  by (induction i v rule: fill_contexts.induct) (auto simp: Context_new_def)

lemma resize_write:
  assumes "\<forall>c. Some c \<in> set v \<longrightarrow> ctx_write c = EventContext_new" and "Some c \<in> set (contextResize n v)"
  shows "ctx_write c = EventContext_new"
  using assms in_set_takeD [of "Some c" n v] fill_write [of "take n v @ replicate (n - length v) None" c 0]
  by (auto simp: contextResize_def dest: in_set_takeD split: if_splits)

lemma context_for_write:
  assumes "context_for fd v = Inr (i, v')" and "\<forall>c. Some c \<in> set v \<longrightarrow> ctx_write c = EventContext_new" and "Some c \<in> set v'"
  shows "ctx_write c = EventContext_new"
  using assms resize_write [OF assms(2), of c] by (auto simp: context_for_def Let_def split: if_splits)

text \<open>The timer a registration adds.\<close>

lemma register_timer:
  assumes "timers_ok ts" and "gUniqueIdCount ts < - 1"
  shows "\<exists>q n ts'. addTimer True now ms (Some (Call (OutputRoutine p))) iv tid ts = (Some q, n, ts') \<and> timers_ok ts' \<and>
    q \<in> set (mTimers ts') \<and> set (mTimers ts) \<subseteq> set (mTimers ts') \<and> (\<forall>r\<in>set (mTimers ts). store ts' r = store ts r) \<and>
    KTimer.mCb (store ts' q) = Some (Call (OutputRoutine p)) \<and> mRecycleTime (store ts' q) = ucast iv \<and> mTid (store ts' q) = tid \<and>
    mTime (store ts' q) = now + ms \<and> gUniqueIdCount ts' = gUniqueIdCount ts + 1"
proof -
  obtain q n ts' where a: "addTimer True now ms (Some (Call (OutputRoutine p))) iv tid ts = (Some q, n, ts')"
    "set (mTimers ts') = insert q (set (mTimers ts))" "timers_ok ts'"
    "store ts' q = \<lparr>mTid = tid, mTime = now + ms, mRecycleTime = ucast iv, mCb = Some (Call (OutputRoutine p)), mUniqueId = gUniqueIdCount ts + 1\<rparr>"
    "\<forall>r\<in>set (mTimers ts). store ts' r = store ts r"
    using addTimer_correct [OF assms, where now = now and ms = ms and cb = "Some (Call (OutputRoutine p))" and recycle = iv and tid = tid]
    by (elim exE conjE) (simp only:, blast)
  have "gUniqueIdCount ts' = gUniqueIdCount ts + 1"
    using addTimer_eq(1) [OF assms, where now = now and ms = ms and cb = "Some (Call (OutputRoutine p))" and recycle = iv and tid = tid] a(1) by auto
  then show ?thesis using a by (intro exI [of _ q] exI [of _ n] exI [of _ ts']) auto
qed

lemma ucast_nonzero: "(w :: u32) \<noteq> 0 \<Longrightarrow> (ucast w :: u64) \<noteq> 0"
proof
  assume "w \<noteq> 0" and z: "(ucast w :: u64) = 0"
  have "uint (ucast w :: u64) = uint w"
    using uint_lt2p [of w] uint_ge_0 [of w] by (simp add: unsigned_ucast_eq take_bit_int_eq_self)
  then show False using z \<open>w \<noteq> 0\<close> by (simp add: unsigned_eq_0_iff)
qed

definition registered :: "u32 \<Rightarrow> u64 \<Rightarrow> nat \<Rightarrow> 'a KcpManager \<Rightarrow> 'a KcpManager \<Rightarrow> bool" where
  "registered tid now p m m' \<longleftrightarrow>
     (\<exists>q c. mContextVec m' ! nat (kcp_fd (kcps m) p) = Some c \<and> ctx_read c = input_context p \<and> ctx_tid c = tid \<and>
        q \<in> set (mTimers (timers m')) \<and> output_timer p c (store (timers m') q) \<and>
        mTime (store (timers m') q) = now + scast (at_interval (mAttr (kcps m p)))) \<and>
     epoll_fds m' = insert (at_fd (mAttr (kcps m p))) (epoll_fds m) \<and> mBindTid (kcps m' p) = tid \<and>
     (\<forall>x. mAttr (kcps m' x) = mAttr (kcps m x)) \<and> mWaitingQueue m' = mWaitingQueue m \<and> scheduler m' = scheduler m \<and>
     gUniqueIdCount (timers m') = gUniqueIdCount (timers m) + 1"

lemma served_mono:
  assumes "served_by m fd p" and "length (mContextVec m) \<le> length (mContextVec m')"
    and "mContextVec m' ! nat (sint fd) = mContextVec m ! nat (sint fd)" and "mAttr (kcps m' p) = mAttr (kcps m p)"
    and "set (mTimers (timers m)) \<subseteq> set (mTimers (timers m'))"
    and "\<forall>r\<in>set (mTimers (timers m)). store (timers m') r = store (timers m) r"
  shows "served_by m' fd p"
proof -
  obtain c q where c: "mContextVec m ! nat (sint fd) = Some c" "ctx_read c = input_context p"
    "q \<in> set (mTimers (timers m))" "output_timer p c (store (timers m) q)" using assms(1) by (auto simp: served_by_def)
  have "store (timers m') q = store (timers m) q" using assms(6) c(3) by blast
  then have "\<exists>q\<in>set (mTimers (timers m')). output_timer p c (store (timers m') q)" using c(3,4) assms(5) by (intro bexI [of _ q]) auto
  then show ?thesis using assms(1-4) c(1,2) by (auto simp: served_by_def)
qed

lemma kcps_bind_attr: "mAttr ((ks(p := snd (Kcp_create tid (ks p)))) x) = mAttr (ks x)"
  by (simp add: Kcp_create_def)

text \<open>The manager after a registration: the new socket is served, and the others still are.\<close>

lemma registration_core:
  assumes core: "mgr_core m" and n: "unat (mEventCount m) < 1024"
    and fd: "fd = at_fd (mAttr (kcps m p))" "2 \<le> sint fd" "fd \<notin> epoll_fds m"
    and v: "nat (sint fd) < length v" "length (mContextVec m) \<le> length v" "None \<notin> set v"
      "\<forall>j<length (mContextVec m). v ! j = mContextVec m ! j" "\<forall>c. Some c \<in> set v \<longrightarrow> ctx_write c = EventContext_new"
    and t: "timers_ok ts" "q \<in> set (mTimers ts)" "set (mTimers (timers m)) \<subseteq> set (mTimers ts)"
      "\<forall>r\<in>set (mTimers (timers m)). store ts r = store (timers m) r"
    and ctx: "ctx_write ctx = EventContext_new" "ctx_read ctx = input_context p" "output_timer p ctx (store ts q)"
    and m': "m' = m\<lparr>kcps := (kcps m)(p := snd (Kcp_create tid (kcps m p))), timers := ts, eventfd := e,
      mContextVec := v[nat (sint fd) := Some ctx], epoll_fds := insert fd (epoll_fds m), mEventCount := mEventCount m + 1\<rparr>"
  shows "mgr_core m'"
proof -
  let ?i = "nat (sint fd)"
  have c: "\<forall>fd\<in>epoll_fds m. \<exists>p. served_by m fd p" "finite (epoll_fds m)" "unat (mEventCount m) = card (epoll_fds m)"
    using core by (simp_all add: mgr_core_def)
  have new: "served_by m' fd p" unfolding served_by_def
    using fd(1,2) v(1) ctx t(2) by (simp add: m' kcps_bind_attr del: fun_upd_apply) auto
  have old: "\<exists>p. served_by m' d p" if d: "d \<in> epoll_fds m" for d
  proof -
    obtain x where x: "served_by m d x" using c(1) d by blast
    then have b: "0 \<le> sint d" "nat (sint d) < length (mContextVec m)" by (simp_all add: served_by_def)
    have "d \<noteq> fd" using d fd(3) by blast
    then have "nat (sint d) \<noteq> ?i" using b(1) fd(2) sint_inj [of d fd] by linarith
    then have "mContextVec m' ! nat (sint d) = mContextVec m ! nat (sint d)" using v(4) b(2) by (simp add: m')
    moreover have "length (mContextVec m) \<le> length (mContextVec m')" using v(2) by (simp add: m')
    moreover have "mAttr (kcps m' x) = mAttr (kcps m x)" by (simp add: m' kcps_bind_attr del: fun_upd_apply)
    ultimately have "served_by m' d x" using t(3,4) by (intro served_mono [OF x]) (simp_all add: m')
    then show ?thesis by blast
  qed
  have "unat (mEventCount m + 1) = Suc (unat (mEventCount m))" using n by (simp add: unat_word_ariths)
  then have cnt: "unat (mEventCount m') = card (epoll_fds m')" using c(2,3) fd(3) by (simp add: m')
  have sub: "set (v[?i := Some ctx]) \<subseteq> insert (Some ctx) (set v)" by (rule set_update_subset_insert)
  have "None \<notin> set (mContextVec m')" "\<forall>c. Some c \<in> set (mContextVec m') \<longrightarrow> ctx_write c = EventContext_new"
    using sub v(3,5) ctx(1) by (auto simp: m')
  moreover have "timers_ok (timers m')" "finite (epoll_fds m')" and ep: "epoll_fds m' = insert fd (epoll_fds m)" using t(1) c(2) by (simp_all add: m')
  moreover have "\<forall>fd\<in>epoll_fds m'. \<exists>p. served_by m' fd p" unfolding ep by (rule ballI, erule insertE) (use new old in metis)+
  ultimately show ?thesis unfolding mgr_core_def using cnt by (intro conjI)
qed

lemma register_ok:
  assumes core: "mgr_core m" and fit: "fit_to_register m p" and uid: "gUniqueIdCount (timers m) < - 1" and n: "unat (mEventCount m) < 1024"
  shows "\<exists>m'. register_kcp tid now True True p m = Inr (True, m') \<and> mgr_core m' \<and> registered tid now p m m'"
proof -
  let ?fd = "at_fd (mAttr (kcps m p))" and ?iv = "at_interval (mAttr (kcps m p))"
  let ?i = "nat (sint ?fd)" and ?ks = "(kcps m)(p := snd (Kcp_create tid (kcps m p)))"
  have c: "None \<notin> set (mContextVec m)" "\<forall>c. Some c \<in> set (mContextVec m) \<longrightarrow> ctx_write c = EventContext_new" "timers_ok (timers m)"
    using core by (simp_all add: mgr_core_def)
  have fit': "2 \<le> sint ?fd" "?fd \<notin> epoll_fds m" "?iv \<noteq> 0" using fit by (simp_all add: fit_to_register_def kcp_fd_def)
  obtain v where v: "context_for ?fd (mContextVec m) = Inr (?i, v)" "?i < length v" "length (mContextVec m) \<le> length v"
    "None \<notin> set v" "\<forall>j<length (mContextVec m). v ! j = mContextVec m ! j"
    using context_for_ok [of ?fd "mContextVec m"] fit'(1) c(1) by blast
  have vw: "\<forall>c. Some c \<in> set v \<longrightarrow> ctx_write c = EventContext_new" using context_for_write [OF v(1) c(2)] by blast
  obtain ctx0 where ctx0: "v ! ?i = Some ctx0" using v(2,4) by (metis nth_mem option.exhaust)
  obtain q f ts where t: "addTimer True now (scast ?iv) (Some (Call (OutputRoutine p))) ?iv tid (timers m) = (Some q, f, ts)" "timers_ok ts"
    "q \<in> set (mTimers ts)" "set (mTimers (timers m)) \<subseteq> set (mTimers ts)" "\<forall>r\<in>set (mTimers (timers m)). store ts r = store (timers m) r"
    "KTimer.mCb (store ts q) = Some (Call (OutputRoutine p))" "mRecycleTime (store ts q) = ucast ?iv" "mTid (store ts q) = tid"
    "mTime (store ts q) = now + scast ?iv" "gUniqueIdCount ts = gUniqueIdCount (timers m) + 1"
    using register_timer [OF c(3) uid, where now = now and ms = "scast ?iv" and p = p and iv = ?iv and tid = tid] by (elim exE conjE) rule
  define ctx where "ctx = ctx0\<lparr>ctx_events := EPOLLIN, ctx_fd := ?fd, ctx_tid := tid, ctx_read := input_context p, ctx_timerId := mUniqueId (store ts q)\<rparr>"
  obtain e where e: "(if f then onTimerInsertedAtFront (m\<lparr>kcps := ?ks, timers := ts\<rparr>) else m\<lparr>kcps := ?ks, timers := ts\<rparr>) =
      m\<lparr>kcps := ?ks, timers := ts, eventfd := e\<rparr>"
    using maybe_notify [of f "m\<lparr>kcps := ?ks, timers := ts\<rparr>"] by (elim exE) (rule that)
  define m' where "m' = m\<lparr>kcps := ?ks, timers := ts, eventfd := e, mContextVec := v[?i := Some ctx], epoll_fds := insert ?fd (epoll_fds m),
      mEventCount := mEventCount m + 1\<rparr>"
  have a: "mAttr (kcps (m\<lparr>kcps := ?ks\<rparr>) p) = mAttr (kcps m p)" "mContextVec (m\<lparr>kcps := ?ks\<rparr>) = mContextVec m"
    "timers (m\<lparr>kcps := ?ks\<rparr>) = timers m" by (simp_all add: kcps_bind_attr del: fun_upd_apply)
  have r: "register_kcp tid now True True p m = Inr (True, m')"
    unfolding register_kcp_def Let_def a v(1) bind_simps prod.case ctx0 option.case t(1) if_True e m'_def ctx_def input_context_def
    by (simp del: fun_upd_apply)
  have w: "ctx_write ctx = EventContext_new" "ctx_read ctx = input_context p" using vw ctx0 v(2) by (auto simp: ctx_def dest: nth_mem)
  have o: "output_timer p ctx (store ts q)" using t(6-8) ucast_nonzero [OF fit'(3)] by (simp add: output_timer_def ctx_def)
  have "mgr_core m'" by (rule registration_core [OF core n refl fit'(1,2) v(2-5) vw t(2-5) w o m'_def])
  moreover have "registered tid now p m m'" unfolding registered_def kcp_fd_def
  proof (intro conjI exI [of _ q] exI [of _ ctx] allI)
    show "mContextVec m' ! ?i = Some ctx" using v(2) by (simp add: m'_def)
    show "mAttr (kcps m' x) = mAttr (kcps m x)" for x by (simp add: m'_def kcps_bind_attr del: fun_upd_apply)
    show "mBindTid (kcps m' p) = tid" by (simp add: m'_def Kcp_create_def)
  qed (use w(2) o t(3,9,10) in \<open>simp_all add: m'_def ctx_def\<close>)
  ultimately show ?thesis using r by blast
qed

lemma events_full: "ucast (mEventCount m) \<ge> epoll_event_size \<longleftrightarrow> 1024 \<le> unat (mEventCount m)"
proof -
  have "uint (ucast (mEventCount m) :: u32) = uint (mEventCount m)"
    using uint_lt2p [of "mEventCount m"] uint_ge_0 [of "mEventCount m"] by (simp add: unsigned_ucast_eq take_bit_int_eq_self)
  then have "unat (ucast (mEventCount m) :: u32) = unat (mEventCount m)" by (simp only: unat_eq_nat_uint)
  then show ?thesis by (simp add: word_le_nat_alt epoll_event_size_def)
qed

text \<open>The entries of the waiting queue that can stay in it.\<close>

definition entries_fit :: "'a KcpManager \<Rightarrow> (nat \<times> KcpState) list \<Rightarrow> bool" where
  "entries_fit m q \<longleftrightarrow> sorted_wrt (entry_less (kcps m)) q \<and> (\<forall>(p, st)\<in>set q. st = NOTINIT \<and> fit_to_register m p)"

lemma entries_fit_Cons:
  "entries_fit m ((p, st) # q) \<longleftrightarrow> st = NOTINIT \<and> fit_to_register m p \<and> (\<forall>x\<in>set q. kcp_fd (kcps m) p < kcp_fd (kcps m) (fst x)) \<and> entries_fit m q"
  by (auto simp: entries_fit_def)

text \<open>What a pass over the queue may change besides the contexts and the timers.\<close>

definition same_kcps :: "'a KcpManager \<Rightarrow> 'a KcpManager \<Rightarrow> bool" where
  "same_kcps m m' \<longleftrightarrow> (\<forall>x. mAttr (kcps m' x) = mAttr (kcps m x)) \<and> mWaitingQueue m' = mWaitingQueue m \<and> scheduler m' = scheduler m"

lemma same_kcps_fd: "same_kcps m m' \<Longrightarrow> kcp_fd (kcps m') = kcp_fd (kcps m)"
  by (auto simp: same_kcps_def kcp_fd_def)

lemma entries_fit_registered:
  assumes "entries_fit m ((p, st) # q)" and "registered tid now p m m'"
  shows "entries_fit m' q" and "same_kcps m m'"
proof -
  show sk: "same_kcps m m'" using assms(2) by (simp add: registered_def same_kcps_def)
  have "fit_to_register m' x" if "(x, st') \<in> set q" for x st'
  proof -
    have lt: "kcp_fd (kcps m) p < kcp_fd (kcps m) x" using assms(1) that by (auto simp: entries_fit_Cons)
    have "fit_to_register m x" using assms(1) that by (auto simp: entries_fit_Cons entries_fit_def)
    moreover have "at_fd (mAttr (kcps m x)) \<noteq> at_fd (mAttr (kcps m p))" using lt by (auto simp: kcp_fd_def)
    ultimately show ?thesis using assms(2) by (simp add: fit_to_register_def registered_def kcp_fd_def)
  qed
  then show "entries_fit m' q" using assms(1) same_kcps_fd [OF sk] by (auto simp: entries_fit_def)
qed

lemma fit_frame: "same_kcps m m' \<Longrightarrow> epoll_fds m' = epoll_fds m \<Longrightarrow> fit_to_register m' p = fit_to_register m p"
  by (simp add: fit_to_register_def kcp_fd_def same_kcps_def)

lemma uid_room:
  assumes "uint (u :: u64) + int (Suc n) < 18446744073709551615"
  shows "u < - 1" and "uint (u + 1) + int n < 18446744073709551615"
proof -
  have "uint (- 1 :: u64) = 18446744073709551615" by (simp add: unsigned_minus_1_eq_mask mask_eq_exp_minus_1)
  then show "u < - 1" unfolding word_less_def using assms by linarith
  have "uint (u + 1) = uint u + 1" using assms by (simp add: uint_plus_if')
  then show "uint (u + 1) + int n < 18446744073709551615" using assms by simp
qed

lemma idle_entries_full:
  "1024 \<le> unat (mEventCount m) \<Longrightarrow> entries_fit m q \<Longrightarrow> idle_entries tid now malloc ok q n m = Inr (q, n, m)"
proof (induction q)
  case (Cons x q)
  obtain p st where x: "x = (p, st)" by (cases x)
  have "st = NOTINIT" "entries_fit m q" using Cons.prems(2) by (simp_all add: x entries_fit_Cons)
  then show ?case using Cons.IH Cons.prems(1) by (simp add: x events_full)
qed simp

lemma idle_entries_ok:
  assumes "mgr_core m" and "entries_fit m q" and "uint (gUniqueIdCount (timers m)) + int (length q) < 18446744073709551615"
  shows "\<exists>q' n' m'. idle_entries tid now True (\<lambda>_. True) q n m = Inr (q', n', m') \<and> mgr_core m' \<and> entries_fit m' q' \<and>
    same_kcps m m' \<and> epoll_fds m \<subseteq> epoll_fds m' \<and> set q' \<subseteq> set q \<and>
    (\<forall>(p, st)\<in>set q. (p, st) \<in> set q' \<or> at_fd (mAttr (kcps m p)) \<in> epoll_fds m') \<and>
    (unat (mEventCount m) + length q \<le> 1024 \<longrightarrow> q' = [])"
  using assms
proof (induction q arbitrary: n m)
  case Nil
  then show ?case by (simp add: same_kcps_def)
next
  case (Cons x q)
  show ?case
  proof (cases "1024 \<le> unat (mEventCount m)")
    case True
    then show ?thesis using idle_entries_full [OF True Cons.prems(2)] Cons.prems(1,2)
      by (intro exI [of _ "x # q"] exI [of _ n] exI [of _ m]) (auto simp: same_kcps_def)
  next
    case False
    obtain p st where x: "x = (p, st)" by (cases x)
    have st: "st = NOTINIT" "fit_to_register m p" using Cons.prems(2) by (simp_all add: x entries_fit_Cons)
    have room: "uint (gUniqueIdCount (timers m)) + int (Suc (length q)) < 18446744073709551615" using Cons.prems(3) by simp
    have lt: "unat (mEventCount m) < 1024" using False by simp
    obtain m1 where m1: "register_kcp tid now True True p m = Inr (True, m1)" "mgr_core m1" "registered tid now p m m1"
      using register_ok [OF Cons.prems(1) st(2) uid_room(1) [OF room] lt, of tid now] by blast
    have f: "entries_fit m1 q" "same_kcps m m1" using entries_fit_registered [OF _ m1(3)] Cons.prems(2) by (simp_all add: x)
    have g: "gUniqueIdCount (timers m1) = gUniqueIdCount (timers m) + 1" "epoll_fds m1 = insert (at_fd (mAttr (kcps m p))) (epoll_fds m)"
      using m1(3) by (simp_all add: registered_def)
    have r1: "uint (gUniqueIdCount (timers m1)) + int (length q) < 18446744073709551615" unfolding g(1) by (rule uid_room(2) [OF room])
    obtain q' n' m' where q': "idle_entries tid now True (\<lambda>_. True) q (n + 1) m1 = Inr (q', n', m')" "mgr_core m'" "entries_fit m' q'"
      "same_kcps m1 m'" "epoll_fds m1 \<subseteq> epoll_fds m'" "set q' \<subseteq> set q"
      "\<forall>(p, st)\<in>set q. (p, st) \<in> set q' \<or> at_fd (mAttr (kcps m1 p)) \<in> epoll_fds m'"
      "unat (mEventCount m1) + length q \<le> 1024 \<longrightarrow> q' = []"
      using Cons.IH [OF m1(2) f(1) r1, of "n + 1"] by (elim exE conjE) rule
    have e: "idle_entries tid now True (\<lambda>_. True) (x # q) n m = Inr (q', n', m')"
      using False m1(1) q'(1) by (simp add: x st(1) events_full)
    have k: "same_kcps m m'" using f(2) q'(4) by (simp add: same_kcps_def)
    have a: "mAttr (kcps m1 y) = mAttr (kcps m y)" for y using f(2) by (simp add: same_kcps_def)
    have "card (epoll_fds m1) = Suc (card (epoll_fds m))" using st(2) Cons.prems(1) by (simp add: g(2) fit_to_register_def mgr_core_def)
    then have c: "unat (mEventCount m1) = Suc (unat (mEventCount m))" using m1(2) Cons.prems(1) by (simp add: mgr_core_def)
    have "\<forall>(p, st)\<in>set (x # q). (p, st) \<in> set q' \<or> at_fd (mAttr (kcps m p)) \<in> epoll_fds m'"
      using q'(5,7) g(2) by (auto simp: x a)
    then show ?thesis using e k q' g(2) c by (intro exI [of _ q'] exI [of _ n'] exI [of _ m']) auto
  qed
qed

section \<open>Events: lemmas\<close>

lemma mask_in: "(x :: u32) OR EPOLLIN \<noteq> 0" "(x :: u32) OR EPOLLOUT \<noteq> 0"
  by (simp_all add: EPOLLIN_def EPOLLOUT_def or_eq_0_iff)

text \<open>A manager with tasks added to its queue.\<close>

definition queued_tasks :: "'a KcpManager \<Rightarrow> routine callback FiberBindThread list \<Rightarrow> 'a KcpManager \<Rightarrow> bool" where
  "queued_tasks m ts m' \<longleftrightarrow> (\<exists>e. m' = m\<lparr>scheduler := (scheduler m)\<lparr>mFiberQueue := mFiberQueue (scheduler m) @ ts\<rparr>, eventfd := e\<rparr>)"

lemma queued_tasks_refl: "queued_tasks m [] (m\<lparr>eventfd := e\<rparr>)"
  by (auto simp: queued_tasks_def)

lemma queued_tasks_trans:
  assumes "queued_tasks m ts m'" and "queued_tasks m' us m''"
  shows "queued_tasks m (ts @ us) m''"
proof -
  obtain e e' where "m' = m\<lparr>scheduler := (scheduler m)\<lparr>mFiberQueue := mFiberQueue (scheduler m) @ ts\<rparr>, eventfd := e\<rparr>"
    "m'' = m'\<lparr>scheduler := (scheduler m')\<lparr>mFiberQueue := mFiberQueue (scheduler m') @ us\<rparr>, eventfd := e'\<rparr>"
    using assms by (auto simp: queued_tasks_def)
  then show ?thesis by (auto simp: queued_tasks_def)
qed

lemma schedule_on_queued: "queued_tasks m [bind_thread (Cb (Some f)) th] (schedule_on (Cb (Some f)) th m)"
proof -
  let ?m = "m\<lparr>scheduler := (scheduler m)\<lparr>mFiberQueue := mFiberQueue (scheduler m) @ [bind_thread (Cb (Some f)) th]\<rparr>\<rparr>"
  have "\<not> null_task (bind_thread (Cb (Some f)) th)" by (simp add: null_task_def)
  then have "schedule_on (Cb (Some f)) th m = (if mFiberQueue (scheduler m) = [] \<and> mThreadCount (scheduler m) > 0 then tickle ?m else ?m)"
    unfolding schedule_on_def schedule_eq Let_def prod.case by (simp del: bind_thread.simps)
  then obtain e where "schedule_on (Cb (Some f)) th m = ?m\<lparr>eventfd := e\<rparr>" using maybe_tickle by metis
  then show ?thesis unfolding queued_tasks_def by (intro exI [of _ e]) simp
qed

text \<open>What an event puts into the queue.\<close>

definition event_tasks :: "Context option list \<Rightarrow> event_data \<times> u32 \<Rightarrow> routine callback FiberBindThread list" where
  "event_tasks v ev = (case fst ev of Event_fd \<Rightarrow> []
     | Event_ctx i \<Rightarrow> case v ! i of None \<Rightarrow> [] | Some c \<Rightarrow> [bind_thread (Cb (ec_cb (ctx_read c))) (sint (ctx_tid c))])"

text \<open>An event the kernel can deliver: that of the eventfd or of a registered descriptor.\<close>

definition deliverable :: "'a KcpManager \<Rightarrow> event_data \<times> u32 \<Rightarrow> bool" where
  "deliverable m ev \<longleftrightarrow> fst ev = Event_fd \<or> (\<exists>fd\<in>epoll_fds m. fst ev = Event_ctx (nat (sint fd)))"

lemma handle_event_queues:
  assumes "mgr_core m" and "deliverable m ev"
  shows "\<exists>m'. handle_event ev m = Inr m' \<and> queued_tasks m (event_tasks (mContextVec m) ev) m'"
proof (cases "fst ev")
  case Event_fd
  then show ?thesis using queued_tasks_refl by (auto simp: handle_event_def event_tasks_def)
next
  case (Event_ctx i)
  obtain fd p where fd: "fd \<in> epoll_fds m" "i = nat (sint fd)" "served_by m fd p"
    using assms Event_ctx by (auto simp: deliverable_def mgr_core_def)
  then obtain c where c: "mContextVec m ! i = Some c" "ctx_read c = input_context p" "i < length (mContextVec m)" by (auto simp: served_by_def)
  have "Some c \<in> set (mContextVec m)" using c(1,3) by (metis nth_mem)
  then have w: "ctx_write c = EventContext_new" using assms(1) by (auto simp: mgr_core_def)
  let ?m = "schedule_on (Cb (Some (Call (InputRoutine p)))) (sint (ctx_tid c)) m"
  have "triggerEvent READ c m = Inr ?m" by (simp add: triggerEvent_def getContext_def c(2) input_context_def)
  moreover have "triggerEvent WRITE c k = Inr k" for k :: "'a KcpManager"
    by (simp add: triggerEvent_def getContext_def w EventContext_new_def)
  ultimately have "handle_event ev m = Inr ?m" by (simp add: handle_event_def Event_ctx c(1) mask_in Let_def)
  then show ?thesis using schedule_on_queued [of m] by (simp add: event_tasks_def Event_ctx c(1,2) input_context_def)
qed

lemma queued_tasks_core:
  assumes "queued_tasks m ts m'"
  shows "mgr_core m' = mgr_core m" and "mContextVec m' = mContextVec m" and "epoll_fds m' = epoll_fds m" and "timers m' = timers m"
    and "deliverable m' ev = deliverable m ev" and "kcps m' = kcps m" and "mWaitingQueue m' = mWaitingQueue m"
    and "mFiberQueue (scheduler m') = mFiberQueue (scheduler m) @ ts"
  using assms by (auto simp: queued_tasks_def mgr_core_def served_by_def deliverable_def)

lemma handle_events_ok:
  assumes "mgr_core m" and "\<forall>ev\<in>set evs. deliverable m ev"
  shows "\<exists>m'. handle_events evs m = Inr m' \<and> queued_tasks m (concat (map (event_tasks (mContextVec m)) evs)) m'"
  using assms
proof (induction evs arbitrary: m)
  case Nil
  then show ?case using queued_tasks_refl [of m "eventfd m"] by simp
next
  case (Cons ev evs)
  obtain m1 where m1: "handle_event ev m = Inr m1" "queued_tasks m (event_tasks (mContextVec m) ev) m1"
    using handle_event_queues [OF Cons.prems(1)] Cons.prems(2) by fastforce
  note k = queued_tasks_core [OF m1(2)]
  have "mgr_core m1" "\<forall>ev\<in>set evs. deliverable m1 ev" using Cons.prems by (simp_all add: k(1,5))
  from Cons.IH [OF this] obtain m' where "handle_events evs m1 = Inr m'" "queued_tasks m1 (concat (map (event_tasks (mContextVec m)) evs)) m'"
    by (auto simp: k(2))
  then show ?case using m1(1) queued_tasks_trans [OF m1(2)] by auto
qed

text \<open>The callbacks of expired timers as tasks.\<close>

definition timer_tasks :: "u64 \<Rightarrow> 'a KcpManager \<Rightarrow> routine callback FiberBindThread list" where
  "timer_tasks now m = map (\<lambda>(cb, tid). bind_thread (Cb (Some cb)) (sint tid)) (fst (listExpiredTimer now (timers m)))"

lemma tasks_of_callbacks:
  "tasks_of (map (\<lambda>(cb, tid). (Cb (Some cb), sint tid)) cbs) = map (\<lambda>(cb, tid). bind_thread (Cb (Some cb)) (sint tid)) cbs"
  by (induction cbs) (auto simp: tasks_of_def null_task_def)

lemma expired_served:
  assumes "mgr_core m" and "served_by m fd p"
  shows "served_by (m\<lparr>timers := snd (listExpiredTimer now (timers m))\<rparr>) fd p"
proof -
  have ok: "timers_ok (timers m)" using assms(1) by (simp add: mgr_core_def)
  let ?t = "snd (listExpiredTimer now (timers m))"
  note r = list_expired_result [OF ok, of now]
  obtain c q where c: "mContextVec m ! nat (sint fd) = Some c" "ctx_read c = input_context p"
    "q \<in> set (mTimers (timers m))" "output_timer p c (store (timers m) q)" using assms(2) by (auto simp: served_by_def)
  have "q \<in> set (mTimers ?t)" using r c(3,4) by (auto simp: output_timer_def)
  moreover have "output_timer p c (store ?t q)" using r c(3,4) by (simp add: output_timer_def)
  ultimately show ?thesis using assms(2) c(1,2) by (auto simp: served_by_def)
qed

lemma expired_core:
  assumes "mgr_core m"
  shows "mgr_core (m\<lparr>timers := snd (listExpiredTimer now (timers m))\<rparr>)"
proof -
  have "timers_ok (snd (listExpiredTimer now (timers m)))" using assms list_expired_ok by (auto simp: mgr_core_def)
  moreover have "\<exists>p. served_by (m\<lparr>timers := snd (listExpiredTimer now (timers m))\<rparr>) fd p" if f: "fd \<in> epoll_fds m" for fd
  proof -
    have "\<forall>fd\<in>epoll_fds m. \<exists>p. served_by m fd p" using assms by (simp add: mgr_core_def)
    then obtain p where "served_by m fd p" using f by blast
    then show ?thesis using expired_served [OF assms] by (intro exI [of _ p])
  qed
  ultimately show ?thesis using assms by (simp add: mgr_core_def)
qed

lemma schedule_callbacks_queues:
  "queued_tasks m (map (\<lambda>(cb, tid). bind_thread (Cb (Some cb)) (sint tid)) cbs) (schedule_callbacks cbs m)"
proof -
  obtain b s where b: "schedule_range (map (\<lambda>(cb, tid). (Cb (Some cb), sint tid)) cbs) (scheduler m) = (b, s)"
    by (cases "schedule_range (map (\<lambda>(cb, tid). (Cb (Some cb), sint tid)) cbs) (scheduler m)")
  have s: "s = (scheduler m)\<lparr>mFiberQueue := mFiberQueue (scheduler m) @ map (\<lambda>(cb, tid). bind_thread (Cb (Some cb)) (sint tid)) cbs\<rparr>"
    using schedule_range_frame [OF b] by (simp add: tasks_of_callbacks)
  obtain e where "(if b then tickle (m\<lparr>scheduler := s\<rparr>) else m\<lparr>scheduler := s\<rparr>) = m\<lparr>scheduler := s, eventfd := e\<rparr>"
    using maybe_tickle [of b "m\<lparr>scheduler := s\<rparr>"] by (elim exE) (rule that)
  then have "schedule_callbacks cbs m = m\<lparr>scheduler := s, eventfd := e\<rparr>" by (simp add: schedule_callbacks_def b)
  then show ?thesis by (auto simp: queued_tasks_def s)
qed

lemma idle_expire_eq: "idle_expire now m = (fst (listExpiredTimer now (timers m)), m\<lparr>timers := snd (listExpiredTimer now (timers m))\<rparr>)"
  by (simp add: idle_expire_def split: prod.split)

lemma idle_dispatch_ok:
  assumes "mgr_core m" and "\<forall>ev\<in>set evs. deliverable m ev"
  shows "\<exists>m'. idle_dispatch now evs m = Inr m' \<and> mgr_core m' \<and>
    queued_tasks (m\<lparr>timers := snd (listExpiredTimer now (timers m))\<rparr>)
      (timer_tasks now m @ concat (map (event_tasks (mContextVec m)) evs)) m'"
proof -
  let ?m = "m\<lparr>timers := snd (listExpiredTimer now (timers m))\<rparr>"
  let ?k = "schedule_callbacks (fst (listExpiredTimer now (timers m))) ?m"
  have q: "queued_tasks ?m (timer_tasks now m) ?k" unfolding timer_tasks_def by (rule schedule_callbacks_queues)
  note k = queued_tasks_core [OF q]
  have c: "mgr_core ?k" using expired_core [OF assms(1), of now] k(1) by simp
  have d: "\<forall>ev\<in>set evs. deliverable ?k ev" using assms(2) by (simp add: k(5)) (simp add: deliverable_def)
  obtain m' where m': "handle_events evs ?k = Inr m'" "queued_tasks ?k (concat (map (event_tasks (mContextVec ?k)) evs)) m'"
    using handle_events_ok [OF c d] by blast
  have "idle_dispatch now evs m = Inr m'" using m'(1) by (simp add: idle_dispatch_def idle_expire_eq)
  moreover have "mgr_core m'" using queued_tasks_core(1) [OF m'(2)] c by simp
  moreover have "queued_tasks ?m (timer_tasks now m @ concat (map (event_tasks (mContextVec m)) evs)) m'"
    using queued_tasks_trans [OF q m'(2)] by (simp add: k(2))
  ultimately show ?thesis by blast
qed

section \<open>The manager at work\<close>

text \<open>
  The steps of the manager, in any order: the calls of its interface; what the idle fibers do, a pass over the waiting queue and every
  call behind \<open>epoll_wait\<close> a step of its own; and what the threads do meanwhile to the scheduler and to the \<open>Kcp\<close> objects, whose
  descriptors and intervals they leave as they are. The steps are those of a manager that is used as it has to be:
  \<^item> a connection that is added has a descriptor from 2 on that is not registered, and an interval that is not 0 (\<open>fit_to_register\<close>);
    \<open>register_out_of_range\<close> and \<open>second_registration_disconnects\<close> show what happens otherwise;
  \<^item> the sockets that are registered stay open, and for a descriptor that is not registered \<open>epoll_ctl\<close> and the allocation of the timer
    succeed: undoing a registration cancels a timer inside the ordered set, which breaks its order (\<open>cancel_breaks_order\<close>);
  \<^item> the 64-bit unique numbers of timers are not used up;
  \<^item> the user deletes no timer of a connection, and changes a timer of his own through its pointer while it is in the set only in what the
    order does not depend on (its callback, its period).
\<close>

definition connection_timer :: "'a KcpManager \<Rightarrow> u64 \<Rightarrow> bool" where
  "connection_timer m uid \<longleftrightarrow> (\<exists>fd\<in>epoll_fds m. \<exists>c. mContextVec m ! nat (sint fd) = Some c \<and> ctx_timerId c = uid)"

inductive mgr_step :: "'a KcpManager \<Rightarrow> 'a KcpManager \<Rightarrow> bool" where
  Adding: "fit_to_register m p \<Longrightarrow> addKcp (Some p) m = Inr (r, m') \<Longrightarrow> mgr_step m m'"
| Deleting: "delKcp kcp m = Inr (r, m') \<Longrightarrow> mgr_step m m'"
| Timing: "gUniqueIdCount (timers m) < - 1 \<Longrightarrow> manager_addTimer malloc now ms cb recycle tid m = (t, m') \<Longrightarrow> mgr_step m m'"
| Timing_if: "gUniqueIdCount (timers m) < - 1 \<Longrightarrow> manager_addConditionTimer malloc now ms f cond recycle m = (t, m') \<Longrightarrow> mgr_step m m'"
| Untiming: "\<not> connection_timer m uid \<Longrightarrow> mgr_step m (manager_delTimer uid m)"
| Altering: "q \<in> set (mTimers (timers m)) \<longrightarrow> \<not> connection_timer m (mUniqueId (store (timers m) q)) \<and>
      mTime t = mTime (store (timers m) q) \<and> mUniqueId t = mUniqueId (store (timers m) q) \<Longrightarrow>
    mgr_step m (m\<lparr>timers := on_timer q (\<lambda>_. t) (timers m)\<rparr>)"
| Registering: "uint (gUniqueIdCount (timers m)) + int (length (mWaitingQueue m)) < 18446744073709551615 \<Longrightarrow>
    idle_register tid now True (\<lambda>_. True) n m = Inr (n', m') \<Longrightarrow> mgr_step m m'"
| Asking: "KcpManager_stopping now m = (b, d, m') \<Longrightarrow> mgr_step m m'"
| Expiring: "idle_expire now m = (cbs, m') \<Longrightarrow> mgr_step m m'"
| Scheduling: "mgr_step m (schedule_callbacks cbs m)"
| Handling: "deliverable m ev \<Longrightarrow> handle_event ev m = Inr m' \<Longrightarrow> mgr_step m m'"
| Working: "mgr_step m (m\<lparr>scheduler := s, eventfd := e\<rparr>)"
| Using: "\<forall>x. at_fd (mAttr (ks x)) = at_fd (mAttr (kcps m x)) \<and> at_interval (mAttr (ks x)) = at_interval (mAttr (kcps m x)) \<Longrightarrow>
    mgr_step m (m\<lparr>kcps := ks\<rparr>)"

lemma mgr_okD: "mgr_ok m \<Longrightarrow> mgr_core m \<and> queue_sorted m \<and> entries_fit m (mWaitingQueue m)"
  by (simp add: mgr_ok_def entries_fit_def queue_sorted_def)

lemma mgr_okI: "mgr_core m \<Longrightarrow> entries_fit m (mWaitingQueue m) \<Longrightarrow> mgr_ok m"
  by (simp add: mgr_ok_def entries_fit_def queue_sorted_def)

lemmas mgr_defs = mgr_core_def served_by_def entries_fit_def fit_to_register_def

lemma idle_register_ok:
  assumes ok: "mgr_ok m" and room: "uint (gUniqueIdCount (timers m)) + int (length (mWaitingQueue m)) < 18446744073709551615"
  shows "\<exists>n' m'. idle_register tid now True (\<lambda>_. True) n m = Inr (n', m') \<and> mgr_ok m' \<and> epoll_fds m \<subseteq> epoll_fds m' \<and>
    scheduler m' = scheduler m \<and> (\<forall>x. mAttr (kcps m' x) = mAttr (kcps m x)) \<and>
    (n < maxEvents m \<and> unat (mEventCount m) + length (mWaitingQueue m) \<le> 1024 \<longrightarrow>
      mWaitingQueue m' = [] \<and> (\<forall>(p, st)\<in>set (mWaitingQueue m). at_fd (mAttr (kcps m p)) \<in> epoll_fds m'))"
proof (cases "n < maxEvents m")
  case False
  then show ?thesis using ok by (intro exI [of _ n] exI [of _ m]) (simp add: idle_register_def)
next
  case True
  note d = mgr_okD [OF ok]
  obtain q' n' m' where q': "idle_entries tid now True (\<lambda>_. True) (mWaitingQueue m) n m = Inr (q', n', m')" "mgr_core m'" "entries_fit m' q'"
    "same_kcps m m'" "epoll_fds m \<subseteq> epoll_fds m'"
    "\<forall>(p, st)\<in>set (mWaitingQueue m). (p, st) \<in> set q' \<or> at_fd (mAttr (kcps m p)) \<in> epoll_fds m'"
    "unat (mEventCount m) + length (mWaitingQueue m) \<le> 1024 \<longrightarrow> q' = []"
    using idle_entries_ok [OF conjunct1 [OF d] _ room, of tid now n] d by (elim exE conjE) blast
  let ?m = "m'\<lparr>mWaitingQueue := q'\<rparr>"
  have "mgr_core ?m" using q'(2) by (simp add: mgr_core_def served_by_def)
  moreover have "entries_fit ?m q'" using q'(3) by (simp add: entries_fit_def fit_to_register_def)
  ultimately have "mgr_ok ?m" by (intro mgr_okI) simp_all
  then show ?thesis using True q' by (intro exI [of _ n'] exI [of _ ?m]) (auto simp: idle_register_def same_kcps_def)
qed

text \<open>Timers may change as long as the set stays in order and those of connections stay as they are.\<close>

lemma timers_core:
  assumes core: "mgr_core m" and "timers_ok ts"
    and keep: "\<forall>q\<in>set (mTimers (timers m)). connection_timer m (mUniqueId (store (timers m) q)) \<longrightarrow>
      q \<in> set (mTimers ts) \<and> store ts q = store (timers m) q"
  shows "mgr_core (m\<lparr>timers := ts\<rparr>)"
proof -
  have "\<exists>p. served_by (m\<lparr>timers := ts\<rparr>) fd p" if f: "fd \<in> epoll_fds m" for fd
  proof -
    obtain p where p: "served_by m fd p" using core f by (auto simp: mgr_core_def)
    then obtain c q where c: "mContextVec m ! nat (sint fd) = Some c" "ctx_read c = input_context p"
      "q \<in> set (mTimers (timers m))" "output_timer p c (store (timers m) q)" by (auto simp: served_by_def)
    then have "connection_timer m (mUniqueId (store (timers m) q))" using f by (auto simp: connection_timer_def output_timer_def)
    then have "q \<in> set (mTimers ts)" "store ts q = store (timers m) q" using keep c(3) by blast+
    then have "\<exists>q\<in>set (mTimers ts). output_timer p c (store ts q)" using c(4) by (intro bexI [of _ q]) simp_all
    then show ?thesis using p c(1,2) by (intro exI [of _ p]) (simp add: served_by_def)
  qed
  then show ?thesis using assms(1,2) by (simp add: mgr_core_def)
qed

lemma timers_mgr_ok:
  assumes "mgr_ok m" and "mgr_core (m\<lparr>timers := ts\<rparr>)"
  shows "mgr_ok (m\<lparr>timers := ts, eventfd := e\<rparr>)" and "mgr_ok (m\<lparr>timers := ts\<rparr>)"
  using assms by (simp_all add: mgr_ok_def mgr_core_def served_by_def queue_sorted_def fit_to_register_def)

lemma add_timer_keeps:
  assumes "timers_ok ts" and "gUniqueIdCount ts < - 1" and "addTimer malloc now ms cb recycle tid ts = (t, f, ts')"
  shows "timers_ok ts'" and "\<forall>q\<in>set (mTimers ts). q \<in> set (mTimers ts') \<and> store ts' q = store ts q"
proof -
  show "timers_ok ts'" by (rule add_timer_ok [OF assms])
  show "\<forall>q\<in>set (mTimers ts). q \<in> set (mTimers ts') \<and> store ts' q = store ts q"
  proof (cases malloc)
    case True
    then show ?thesis
      using addTimer_correct [OF assms(1,2), where now = now and ms = ms and cb = cb and recycle = recycle and tid = tid] assms(3) by auto
  qed (use assms(3) in \<open>simp add: addTimer_def addTimer_ptr_def\<close>)
qed

lemma added_timer_ok:
  assumes ok: "mgr_ok m" and "gUniqueIdCount (timers m) < - 1" and "addTimer malloc now ms cb recycle tid (timers m) = (t, f, ts)"
  shows "mgr_ok (if f then onTimerInsertedAtFront (m\<lparr>timers := ts\<rparr>) else m\<lparr>timers := ts\<rparr>)"
    and "epoll_fds (if f then onTimerInsertedAtFront (m\<lparr>timers := ts\<rparr>) else m\<lparr>timers := ts\<rparr>) = epoll_fds m"
proof -
  note d = mgr_okD [OF ok]
  have t: "timers_ok (timers m)" using d by (simp add: mgr_core_def)
  have "mgr_core (m\<lparr>timers := ts\<rparr>)" using d add_timer_keeps [OF t assms(2,3)] by (intro timers_core) blast+
  note k = timers_mgr_ok [OF ok this]
  obtain e where e: "(if f then onTimerInsertedAtFront (m\<lparr>timers := ts\<rparr>) else m\<lparr>timers := ts\<rparr>) = m\<lparr>timers := ts, eventfd := e\<rparr>"
    using maybe_notify [of f "m\<lparr>timers := ts\<rparr>"] by (elim exE) (rule that)
  show "mgr_ok (if f then onTimerInsertedAtFront (m\<lparr>timers := ts\<rparr>) else m\<lparr>timers := ts\<rparr>)"
    and "epoll_fds (if f then onTimerInsertedAtFront (m\<lparr>timers := ts\<rparr>) else m\<lparr>timers := ts\<rparr>) = epoll_fds m"
    unfolding e by (simp_all add: k(1))
qed

lemma altered_timer_ok:
  assumes ok: "timers_ok ts" and key: "q \<in> set (mTimers ts) \<longrightarrow> mTime t = mTime (store ts q) \<and> mUniqueId t = mUniqueId (store ts q)"
  shows "timers_ok (on_timer q (\<lambda>_. t) ts)"
proof -
  let ?h = "(store ts)(q := t)"
  have k: "mTime (?h p) = mTime (store ts p)" "mUniqueId (?h p) = mUniqueId (store ts p)" if "p \<in> set (mTimers ts)" for p
    using key that by auto
  have "sorted_wrt (before ?h) (mTimers ts)"
    using timers_okD(1) [OF ok] by (rule sorted_wrt_mono_rel [rotated]) (simp add: Comparator_def k del: fun_upd_apply)
  moreover have "inj_on (\<lambda>p. mUniqueId (?h p)) (set (mTimers ts))"
    using timers_okD(2) [OF ok] k(2) by (simp add: inj_on_def del: fun_upd_apply)
  moreover have "\<forall>p\<in>set (mTimers ts). p < brk ts \<and> mUniqueId (?h p) \<le> gUniqueIdCount ts"
    using timers_okD(4) [OF ok] k(2) by (simp del: fun_upd_apply)
  ultimately show ?thesis by (simp add: timers_ok_def on_timer_def del: fun_upd_apply)
qed

lemma mgr_step_ok:
  assumes "mgr_step m m'" and ok: "mgr_ok m"
  shows "mgr_ok m' \<and> epoll_fds m \<subseteq> epoll_fds m'"
  using assms(1)
proof cases
  case (Adding p r)
  note d = mgr_okD [OF ok]
  show ?thesis
  proof (cases "epoll_event_size \<le> ucast (mEventCount m)")
    case True
    then show ?thesis using Adding ok by (simp add: addKcp_def)
  next
    case False
    let ?q = "set_insert (entry_less (kcps m)) (p, NOTINIT) (mWaitingQueue m)"
    have m': "m' = m\<lparr>mWaitingQueue := ?q\<rparr>"
      using Adding(2) False map_insert_spec [of "kcps m" "mWaitingQueue m" p NOTINIT] d
      by (auto simp: addKcp_def queue_sorted_def split: if_splits)
    have "sorted_wrt (entry_less (kcps m)) ?q" using d by (intro waiting.sorted_insert) (simp add: queue_sorted_def)
    then have "entries_fit m' ?q" using d Adding(1) set_insert_subset [of "entry_less (kcps m)" "(p, NOTINIT)" "mWaitingQueue m"]
      by (auto simp: entries_fit_def m' fit_to_register_def)
    moreover have "mgr_core m'" using d by (simp add: m' mgr_core_def served_by_def)
    ultimately show ?thesis by (auto simp: m' intro: mgr_okI)
  qed
next
  case (Deleting kcp r)
  then have "m' = m" using map_find_some [of "kcps m" "mWaitingQueue m"] mgr_okD [OF ok]
    by (cases kcp) (auto simp: delKcp_def map_find_null queue_sorted_def split: if_splits)
  then show ?thesis using ok by simp
next
  case (Timing malloc now ms cb recycle tid t)
  obtain r f ts where a: "addTimer malloc now ms cb recycle tid (timers m) = (r, f, ts)" using prod_cases3 by blast
  have "(if f then onTimerInsertedAtFront (m\<lparr>timers := ts\<rparr>) else m\<lparr>timers := ts\<rparr>) = m'"
    using Timing(2) unfolding manager_addTimer_def a Let_def prod.case prod.inject by (rule conjunct2)
  with added_timer_ok [OF ok Timing(1) a] show ?thesis by (simp only: order_refl)
next
  case (Timing_if malloc now ms f cond recycle t)
  obtain r n ts where a: "addTimer malloc now ms (Some (OnTimer cond f)) recycle 0 (timers m) = (r, n, ts)" using prod_cases3 by blast
  have "(if n then onTimerInsertedAtFront (m\<lparr>timers := ts\<rparr>) else m\<lparr>timers := ts\<rparr>) = m'"
    using Timing_if(2) unfolding manager_addConditionTimer_def addConditionTimer_def a Let_def prod.case prod.inject by (rule conjunct2)
  with added_timer_ok [OF ok Timing_if(1) a] show ?thesis by (simp only: order_refl)
next
  case (Untiming uid)
  have t: "timers_ok (timers m)" using mgr_okD [OF ok] by (simp add: mgr_core_def)
  have "mgr_core (m\<lparr>timers := delTimer uid (timers m)\<rparr>)" using mgr_okD [OF ok] Untiming(2) del_timer_eq [OF t]
    by (intro timers_core) auto
  then show ?thesis using timers_mgr_ok(2) [OF ok] by (simp add: Untiming(1) manager_delTimer_def)
next
  case (Altering q t)
  have "timers_ok (timers m)" using mgr_okD [OF ok] by (simp add: mgr_core_def)
  then have "timers_ok (on_timer q (\<lambda>_. t) (timers m))" using Altering(2) by (intro altered_timer_ok) blast+
  then have "mgr_core (m\<lparr>timers := on_timer q (\<lambda>_. t) (timers m)\<rparr>)" using mgr_okD [OF ok] Altering(2)
    by (intro timers_core) (auto simp: on_timer_def)
  then show ?thesis using timers_mgr_ok(2) [OF ok] by (simp add: Altering(1))
next
  case (Registering tid now n n')
  then show ?thesis using idle_register_ok [OF ok Registering(1), of tid now n] by auto
next
  case (Asking now b d)
  then have "m' = m\<lparr>timers := snd (getNearTimeout now (timers m))\<rparr>" by (auto simp: KcpManager_stopping_def split: prod.splits)
  moreover have "timers_ok (snd (getNearTimeout now (timers m)))" using mgr_okD [OF ok] near_timeout_ok by (auto simp: mgr_core_def)
  moreover have "store (snd (getNearTimeout now (timers m))) = store (timers m)" "mTimers (snd (getNearTimeout now (timers m))) = mTimers (timers m)"
    by (simp_all add: getNearTimeout_def Let_def split: list.split)
  ultimately show ?thesis using mgr_okD [OF ok]
    by (auto intro!: mgr_okI simp: mgr_defs)
next
  case (Expiring now cbs)
  have "m' = m\<lparr>timers := snd (listExpiredTimer now (timers m))\<rparr>" using Expiring by (simp add: idle_expire_eq)
  moreover have "mgr_core (m\<lparr>timers := snd (listExpiredTimer now (timers m))\<rparr>)" using mgr_okD [OF ok] by (intro expired_core) blast
  ultimately show ?thesis using timers_mgr_ok(2) [OF ok] by simp
next
  case (Scheduling cbs)
  note k = queued_tasks_core [OF schedule_callbacks_queues [of m cbs]]
  have "entries_fit m' (mWaitingQueue m')" using mgr_okD [OF ok] by (simp add: Scheduling k entries_fit_def fit_to_register_def)
  then show ?thesis using mgr_okD [OF ok] k(1,3) by (auto simp: Scheduling intro: mgr_okI)
next
  case (Handling ev)
  obtain m1 where m1: "handle_event ev m = Inr m1" "queued_tasks m (event_tasks (mContextVec m) ev) m1"
    using handle_event_queues [OF conjunct1 [OF mgr_okD [OF ok]] Handling(1)] by blast
  then have "m1 = m'" using Handling(2) by simp
  note k = queued_tasks_core [OF m1(2) [unfolded this]]
  have "entries_fit m' (mWaitingQueue m')" using mgr_okD [OF ok] by (simp add: k entries_fit_def fit_to_register_def)
  then show ?thesis using mgr_okD [OF ok] k(1,3) by (auto intro: mgr_okI)
next
  case (Working s e)
  then show ?thesis using mgr_okD [OF ok] by (auto intro!: mgr_okI simp: mgr_defs)
next
  case (Using ks)
  have f: "kcp_fd ks = kcp_fd (kcps m)" using Using(2) by (auto simp: kcp_fd_def)
  have "served_by m' fd p = served_by m fd p" for fd p using Using by (simp add: served_by_def)
  then have "mgr_core m'" using mgr_okD [OF ok] Using(1) by (simp add: mgr_core_def)
  then show ?thesis using mgr_okD [OF ok] Using f by (auto intro!: mgr_okI simp: entries_fit_def fit_to_register_def)
qed

lemma mgr_steps_ok:
  assumes "mgr_step\<^sup>*\<^sup>* m m'" and "mgr_ok m"
  shows "mgr_ok m' \<and> epoll_fds m \<subseteq> epoll_fds m'"
  using assms(1) by (induction rule: rtranclp_induct) (use assms(2) mgr_step_ok in blast)+

lemma new_manager_ok:
  assumes "KcpManager_new epoll_ok eventfd_ok s tids ks = Inr m"
  shows "mgr_ok m"
proof -
  obtain t where "m = \<lparr>kcps = ks, timers = KTimerManager_new 0, scheduler = t, mWaitingQueue = [], mContextVec = [], mEventCount = 0,
      epoll_fds = {}, eventfd = 0\<rparr>" using assms by (auto simp: KcpManager_new_def Let_def bind_Inr_iff split: if_splits)
  then show ?thesis by (auto intro!: mgr_okI simp: mgr_core_def entries_fit_def timers_ok_def KTimerManager_new_def)
qed

section \<open>What the manager promises\<close>

text \<open>C10: In every state that a new manager reaches by the steps of \<open>mgr_step\<close>, each registered descriptor has a context whose read
  callback is the input routine of an object with this descriptor, and a recurring timer, the one the context names, for the output
  routine of the same object on the same thread; \<open>mEventCount\<close> is the number of registered descriptors, and the set of timers is in
  order. The steps are, in any order, \<open>addKcp\<close>, \<open>delKcp\<close>, \<open>addTimer\<close>, \<open>addConditionTimer\<close>, \<open>delTimer\<close>, \<open>schedule\<close>, what the user does
  to his timers and connections, and what the idle fibers do, under these conditions: connections are added with a descriptor from 2
  on that is not registered and an interval other than 0; sockets stay open, and \<open>epoll_ctl\<close> and allocations succeed in a
  registration; timer numbers are not used up; the user leaves the connections' timers alone and does not change the time of a
  timer that is in the set. Outside of them it fails: \<open>second_registration_disconnects\<close>, \<open>cancel_breaks_order\<close>, \<open>setNextTime_starves\<close>.\<close>

theorem manager_serves:
  assumes "KcpManager_new epoll_ok eventfd_ok s tids ks = Inr m0" and "mgr_step\<^sup>*\<^sup>* m0 m"
  shows "unat (mEventCount m) = card (epoll_fds m) \<and> timers_ok (timers m) \<and>
    (\<forall>fd\<in>epoll_fds m. \<exists>p c q. mContextVec m ! nat (sint fd) = Some c \<and> at_fd (mAttr (kcps m p)) = fd \<and>
      ec_cb (ctx_read c) = Some (Call (InputRoutine p)) \<and> ec_scheduler (ctx_read c) \<and>
      q \<in> set (mTimers (timers m)) \<and> mUniqueId (store (timers m) q) = ctx_timerId c \<and>
      KTimer.mCb (store (timers m) q) = Some (Call (OutputRoutine p)) \<and> mRecycleTime (store (timers m) q) \<noteq> 0 \<and>
      mTid (store (timers m) q) = ctx_tid c)"
proof -
  have core: "mgr_core m" using mgr_steps_ok [OF assms(2) new_manager_ok [OF assms(1)]] mgr_okD by blast
  have "\<exists>p c q. mContextVec m ! nat (sint fd) = Some c \<and> at_fd (mAttr (kcps m p)) = fd \<and>
      ec_cb (ctx_read c) = Some (Call (InputRoutine p)) \<and> ec_scheduler (ctx_read c) \<and>
      q \<in> set (mTimers (timers m)) \<and> mUniqueId (store (timers m) q) = ctx_timerId c \<and>
      KTimer.mCb (store (timers m) q) = Some (Call (OutputRoutine p)) \<and> mRecycleTime (store (timers m) q) \<noteq> 0 \<and>
      mTid (store (timers m) q) = ctx_tid c" if fd: "fd \<in> epoll_fds m" for fd
  proof -
    obtain p where "served_by m fd p" using core fd by (auto simp: mgr_core_def)
    then obtain c q where "mContextVec m ! nat (sint fd) = Some c" "at_fd (mAttr (kcps m p)) = fd" "ctx_read c = input_context p"
      "q \<in> set (mTimers (timers m))" "output_timer p c (store (timers m) q)" by (auto simp: served_by_def)
    then show ?thesis by (intro exI [of _ p] exI [of _ c] exI [of _ q]) (simp add: input_context_def output_timer_def)
  qed
  then show ?thesis using core by (auto simp: mgr_core_def)
qed

text \<open>C11: In every state that a new manager reaches by the steps of \<open>mgr_step\<close>, under its conditions (connections with a descriptor from 2 on, not registered, interval not
  0; \<open>epoll_ctl\<close> and allocations succeed) and as many timer numbers left as connections wait, a pass of an idle fiber over the waiting
  queue returns and keeps what was registered, every registered descriptor being served; when the thread has not its share of the
  connections yet and the manager has room for all that wait, all of them are registered and the queue is empty afterwards. A pass over
  a connection with a descriptor below 2, such as the default -1, is the fault of \<open>register_out_of_range\<close>.\<close>

theorem manager_registers:
  assumes "KcpManager_new epoll_ok eventfd_ok s tids ks = Inr m0" and "mgr_step\<^sup>*\<^sup>* m0 m"
    and "uint (gUniqueIdCount (timers m)) + int (length (mWaitingQueue m)) < 18446744073709551615"
  shows "\<exists>n' m'. idle_register tid now True (\<lambda>_. True) n m = Inr (n', m') \<and> epoll_fds m \<subseteq> epoll_fds m' \<and>
    (\<forall>fd\<in>epoll_fds m'. \<exists>p. served_by m' fd p) \<and>
    (n < maxEvents m \<and> unat (mEventCount m) + length (mWaitingQueue m) \<le> 1024 \<longrightarrow>
      mWaitingQueue m' = [] \<and> (\<forall>(p, st)\<in>set (mWaitingQueue m). at_fd (mAttr (kcps m p)) \<in> epoll_fds m'))"
proof -
  have ok: "mgr_ok m" using mgr_steps_ok [OF assms(2) new_manager_ok [OF assms(1)]] by blast
  obtain n' m' where m': "idle_register tid now True (\<lambda>_. True) n m = Inr (n', m')" "mgr_ok m'" "epoll_fds m \<subseteq> epoll_fds m'"
    "n < maxEvents m \<and> unat (mEventCount m) + length (mWaitingQueue m) \<le> 1024 \<longrightarrow>
      mWaitingQueue m' = [] \<and> (\<forall>(p, st)\<in>set (mWaitingQueue m). at_fd (mAttr (kcps m p)) \<in> epoll_fds m')"
    using idle_register_ok [OF ok assms(3), of tid now n] by (elim exE conjE) rule
  have "\<forall>fd\<in>epoll_fds m'. \<exists>p. served_by m' fd p" using mgr_okD [OF m'(2)] by (simp add: mgr_core_def)
  then show ?thesis using m' by blast
qed

text \<open>C12: In the states \<open>mgr_step\<close> reaches, after \<open>epoll_wait\<close> the manager queues, in this order (what other threads schedule may come in between), the callbacks of the expired timers, each for its thread, and for every event of a registered
  descriptor the read callback of its context for the context's thread, whatever the event bits say: the tests \<open>ev.events | EPOLLIN\<close> and
  \<open>ev.events | EPOLLOUT\<close> hold always, the second without effect since no write callback is ever set.\<close>

theorem manager_dispatches:
  assumes "KcpManager_new epoll_ok eventfd_ok s tids ks = Inr m0" and "mgr_step\<^sup>*\<^sup>* m0 m"
    and "\<forall>ev\<in>set evs. fst ev = Event_fd \<or> (\<exists>fd\<in>epoll_fds m. fst ev = Event_ctx (nat (sint fd)))"
  shows "\<exists>m'. idle_dispatch now evs m = Inr m' \<and> timers m' = snd (listExpiredTimer now (timers m)) \<and>
    mFiberQueue (scheduler m') = mFiberQueue (scheduler m) @
      map (\<lambda>(cb, tid). bind_thread (Cb (Some cb)) (sint tid)) (fst (listExpiredTimer now (timers m))) @
      concat (map (\<lambda>ev. case fst ev of Event_fd \<Rightarrow> []
        | Event_ctx i \<Rightarrow> case mContextVec m ! i of None \<Rightarrow> [] | Some c \<Rightarrow> [bind_thread (Cb (ec_cb (ctx_read c))) (sint (ctx_tid c))]) evs)"
proof -
  have core: "mgr_core m" using mgr_steps_ok [OF assms(2) new_manager_ok [OF assms(1)]] mgr_okD by blast
  have d: "\<forall>ev\<in>set evs. deliverable m ev" using assms(3) by (simp add: deliverable_def)
  obtain m' where m': "idle_dispatch now evs m = Inr m'"
    "queued_tasks (m\<lparr>timers := snd (listExpiredTimer now (timers m))\<rparr>) (timer_tasks now m @ concat (map (event_tasks (mContextVec m)) evs)) m'"
    using idle_dispatch_ok [OF core d, of now] by blast
  show ?thesis using m'(1) queued_tasks_core(4,8) [OF m'(2)]
    by (intro exI [of _ m']) (simp add: timer_tasks_def event_tasks_def [abs_def])
qed

lemma serving_not_waiting:
  assumes "mgr_ok m" and "fd \<in> epoll_fds m" and "now \<noteq> 0"
  shows "fst (getNearTimeout now (timers m)) \<noteq> - 1"
proof -
  obtain p where "served_by m fd p" using mgr_okD [OF assms(1)] assms(2) by (auto simp: mgr_core_def)
  then obtain q qs where q: "mTimers (timers m) = q # qs" by (cases "mTimers (timers m)") (auto simp: served_by_def)
  show ?thesis
  proof (cases "now \<ge> mTime (store (timers m) q)")
    case True
    then show ?thesis by (simp add: getNearTimeout_def q)
  next
    case False
    have "mTime (store (timers m) q) - now \<noteq> -1"
    proof
      assume e: "mTime (store (timers m) q) - now = -1"
      then have "mTime (store (timers m) q) = now - 1" by (simp add: algebra_simps)
      then show False using False assms(3) by (metis less_imp_le word_gt_0 word_le_less_eq word_less_1 word_sub_le linorder_not_le word_less_sub1)
    qed
    then show ?thesis using False by (simp add: getNearTimeout_def q)
  qed
qed

lemma serving_not_stopping:
  assumes "mgr_ok m" and "fd \<in> epoll_fds m" and "now \<noteq> 0"
  shows "\<not> fst (KcpManager_stopping now m)"
  using serving_not_waiting [OF assms] by (cases "getNearTimeout now (timers m)") (auto simp: KcpManager_stopping_def)

text \<open>A manager that has registered a connection never stops: its timer recurs for ever and the manager never takes it out, and \<open>stopping\<close> asks for a manager
  without timers. So no thread that asks from then on leaves its loop.\<close>

theorem manager_never_stops:
  assumes "KcpManager_new epoll_ok eventfd_ok s tids ks = Inr m0" and "mgr_step\<^sup>*\<^sup>* m0 m" and "fd \<in> epoll_fds m"
    and "mgr_step\<^sup>*\<^sup>* m m'" and "now \<noteq> 0"
  shows "\<not> fst (KcpManager_stopping now m')"
proof -
  have "mgr_ok m" using mgr_steps_ok [OF assms(2) new_manager_ok [OF assms(1)]] by blast
  then have "mgr_ok m'" "fd \<in> epoll_fds m'" using mgr_steps_ok [OF assms(4)] assms(3) by blast+
  then show ?thesis using serving_not_stopping assms(5) by blast
qed

text \<open>Adding a connection whose descriptor is already registered disconnects the one in use: \<open>epoll_ctl\<close> fails, and undoing the registration clears the
  context the two share, so that no event of the descriptor schedules anything any more.\<close>

theorem second_registration_disconnects:
  assumes "mgr_core m" and "served_by m fd p'" and "at_fd (mAttr (kcps m p)) = fd" and "gUniqueIdCount (timers m) < - 1"
  shows "\<exists>m'. register_kcp tid now True False p m = Inr (False, m') \<and>
    (\<forall>bits. handle_event (Event_ctx (nat (sint fd)), bits) m' = Inr m')"
proof -
  let ?i = "nat (sint fd)" and ?ks = "(kcps m)(p := snd (Kcp_create tid (kcps m p)))" and ?iv = "at_interval (mAttr (kcps m p))"
  have ok: "timers_ok (timers m)" using assms(1) by (simp add: mgr_core_def)
  obtain c0 where i: "0 \<le> sint fd" "?i < length (mContextVec m)" "mContextVec m ! ?i = Some c0" using assms(2) by (auto simp: served_by_def)
  have v: "context_for fd (mContextVec m) = Inr (?i, mContextVec m)" using i by (simp add: context_for_def Let_def)
  have w: "ctx_write c0 = EventContext_new" using assms(1) i(2,3) by (metis mgr_core_def nth_mem)
  obtain q f ts where t: "addTimer True now (scast ?iv) (Some (Call (OutputRoutine p))) ?iv tid (timers m) = (Some q, f, ts)"
    using register_timer [OF ok assms(4), where now = now and ms = "scast ?iv" and p = p and iv = ?iv and tid = tid] by (elim exE conjE) rule
  have a: "mAttr (kcps (m\<lparr>kcps := ?ks\<rparr>) p) = mAttr (kcps m p)" "mContextVec (m\<lparr>kcps := ?ks\<rparr>) = mContextVec m"
    "timers (m\<lparr>kcps := ?ks\<rparr>) = timers m" by (simp_all add: kcps_bind_attr del: fun_upd_apply)
  obtain e where e: "(if f then onTimerInsertedAtFront (m\<lparr>kcps := ?ks, timers := ts\<rparr>) else m\<lparr>kcps := ?ks, timers := ts\<rparr>) =
      m\<lparr>kcps := ?ks, timers := ts, eventfd := e\<rparr>"
    using maybe_notify [of f "m\<lparr>kcps := ?ks, timers := ts\<rparr>"] by (elim exE) (rule that)
  define c where "c = c0\<lparr>ctx_events := EPOLLIN, ctx_fd := fd, ctx_tid := tid, ctx_timerId := mUniqueId (store ts q), ctx_read := EventContext_new\<rparr>"
  define m' where "m' = m\<lparr>kcps := ?ks, eventfd := e, mContextVec := (mContextVec m)[?i := Some c], timers := on_timer q KTimer_cancel ts\<rparr>"
  have r: "register_kcp tid now True False p m = Inr (False, m')"
    unfolding register_kcp_def Let_def a assms(3) v bind_simps prod.case i(3) option.case t if_False e m'_def c_def
    by (simp add: resetContext_def del: fun_upd_apply)
  have "mContextVec m' ! ?i = Some c" using i(2) by (simp add: m'_def)
  moreover have "ctx_read c = EventContext_new" "ctx_write c = EventContext_new" using w by (simp_all add: c_def)
  ultimately have "handle_event (Event_ctx ?i, bits) m' = Inr m'" for bits
    by (simp add: handle_event_def triggerEvent_def getContext_def EventContext_new_def mask_in Let_def)
  then show ?thesis using r by blast
qed

section \<open>Instances\<close>

text \<open>
  A manager of two threads and objects with descriptors 5, 6 and so on, whose output routines are to run every 100 ms. Connection 0 is added, and
  thread 1 takes it over at time 10.
\<close>

definition sample_kcps :: "nat \<Rightarrow> nat Kcp" where
  "sample_kcps p = sample_kcp\<lparr>mAttr := sample_attr\<lparr>at_fd := 5 + of_nat p, at_interval := 100\<rparr>\<rparr>"

definition sample_manager :: "nat KcpManager" where
  "sample_manager = \<lparr>kcps = sample_kcps, timers = KTimerManager_new 0, scheduler = sample_scheduler [], mWaitingQueue = [],
     mContextVec = [], mEventCount = 0, epoll_fds = {}, eventfd = 0\<rparr>"

lemma sample_kcps_attr [simp]: "at_fd (mAttr (sample_kcps p)) = 5 + of_nat p" "at_interval (mAttr (sample_kcps p)) = 100"
  by (simp_all add: sample_kcps_def)

lemma sample_manager_new:
  "KcpManager_new True True ((sample_scheduler [])\<lparr>mThreads := [], mThreadIds := [], mStopping := True\<rparr>) [1, 2] sample_kcps = Inr sample_manager"
  by (simp add: KcpManager_new_def start_def sample_scheduler_def sample_manager_def Let_def)

definition sample_waiting :: "nat KcpManager" where
  "sample_waiting = sample_manager\<lparr>mWaitingQueue := [(0, NOTINIT)]\<rparr>"

lemma sample_adding: "addKcp (Some 0) sample_manager = Inr (True, sample_waiting)"
  by (simp add: addKcp_def sample_manager_def sample_waiting_def epoll_event_size_def)

definition sample_context :: Context where
  "sample_context = \<lparr>ctx_read = input_context 0, ctx_write = EventContext_new, ctx_timerId = 1, ctx_tid = 1, ctx_fd = 5, ctx_events = EPOLLIN\<rparr>"

definition sample_serving :: "nat KcpManager" where
  "sample_serving = \<lparr>kcps = sample_kcps(0 := snd (Kcp_create 1 (sample_kcps 0))),
     timers = \<lparr>store = (store (KTimerManager_new 0))(0 := KTimer_new 10 100 (Some (Call (OutputRoutine 0))) 100 1 1),
       brk = 1, gUniqueIdCount = 1, mTickle = True, mTimers = [0]\<rparr>,
     scheduler = sample_scheduler [], mWaitingQueue = [],
     mContextVec = (fill_contexts 0 (replicate 7 None))[5 := Some sample_context], mEventCount = 1, epoll_fds = {5}, eventfd = 0\<rparr>"

lemma sample_register: "register_kcp 1 10 True True 0 sample_waiting = Inr (True, sample_serving\<lparr>mWaitingQueue := [(0, NOTINIT)]\<rparr>)"
proof -
  let ?ks = "sample_kcps(0 := snd (Kcp_create 1 (sample_kcps 0)))"
  let ?ts = "timers sample_serving"
  have v: "context_for 5 [] = Inr (5, fill_contexts 0 (replicate 7 None))" by (simp add: context_for_def contextResize_def)
  have v5: "fill_contexts 0 (replicate 7 None) ! 5 = Some (Context_new 5)" by (simp add: eval_nat_numeral)
  have t: "addTimer True 10 (scast (100 :: u32)) (Some (Call (OutputRoutine 0))) 100 1 (KTimerManager_new 0) = (Some 0, True, ?ts)"
    by (simp add: addTimer_def addTimer_ptr_def KTimerManager_new_def sample_serving_def Comparator_def)
  have a: "mAttr (kcps (sample_waiting\<lparr>kcps := ?ks\<rparr>) 0) = mAttr (sample_kcps 0)" by (simp add: Kcp_create_def)
  have f: "kcps sample_waiting = sample_kcps" "mContextVec (sample_waiting\<lparr>kcps := ?ks\<rparr>) = []"
    "timers (sample_waiting\<lparr>kcps := ?ks\<rparr>) = KTimerManager_new 0" by (simp_all add: sample_waiting_def sample_manager_def)
  have fd: "at_fd (mAttr (sample_kcps 0)) = 5" by simp
  have u: "mUniqueId (store ?ts 0) = 1" by (simp add: sample_serving_def KTimer_new_def)
  have c: "(Context_new 5)\<lparr>ctx_events := EPOLLIN, ctx_fd := 5, ctx_tid := 1,
      ctx_read := \<lparr>ec_scheduler = True, ec_fiber = None, ec_cb = Some (Call (InputRoutine 0))\<rparr>, ctx_timerId := 1\<rparr> = sample_context"
    by (simp add: Context_new_def sample_context_def input_context_def)
  show ?thesis
    unfolding register_kcp_def Let_def f(1) a fd sample_kcps_attr(2) f(2,3) t v bind_simps prod.case v5 option.case if_True u c
    by (simp add: onTimerInsertedAtFront_def tickle_def hasIdleThread_def sample_scheduler_def sample_waiting_def sample_manager_def sample_serving_def
        KTimerManager_new_def del: fun_upd_apply)
qed

lemma sample_registering: "idle_register 1 10 True (\<lambda>_. True) 0 sample_waiting = Inr (1, sample_serving)"
proof -
  have w: "mWaitingQueue sample_waiting = [(0, NOTINIT)]" "mWaitingQueue sample_serving = []" "mEventCount sample_waiting = 0"
    by (simp_all add: sample_waiting_def sample_manager_def sample_serving_def)
  have m: "0 < maxEvents sample_waiting"
    by (simp add: maxEvents_def epoll_event_size_def sample_waiting_def sample_manager_def sample_scheduler_def)
  have "sample_serving\<lparr>mWaitingQueue := [(0, NOTINIT)], mWaitingQueue := []\<rparr> = sample_serving" by (simp add: sample_serving_def)
  then show ?thesis using sample_register w m by (simp add: idle_register_def epoll_event_size_def)
qed

lemma sample_steps: "mgr_step\<^sup>*\<^sup>* sample_manager sample_waiting" "mgr_step\<^sup>*\<^sup>* sample_manager sample_serving"
proof -
  have "fit_to_register sample_manager 0" by (simp add: fit_to_register_def kcp_fd_def sample_manager_def)
  from mgr_step.Adding [OF this sample_adding] have a: "mgr_step sample_manager sample_waiting" .
  have "uint (gUniqueIdCount (timers sample_waiting)) + int (length (mWaitingQueue sample_waiting)) < 18446744073709551615"
    by (simp add: sample_waiting_def sample_manager_def KTimerManager_new_def)
  from mgr_step.Registering [OF this sample_registering] have b: "mgr_step sample_waiting sample_serving" .
  show "mgr_step\<^sup>*\<^sup>* sample_manager sample_waiting" using a by blast
  show "mgr_step\<^sup>*\<^sup>* sample_manager sample_serving" using a b by (meson converse_rtranclp_into_rtranclp rtranclp.rtrancl_refl)
qed

lemma sample_serving_fields [simp]: "epoll_fds sample_serving = {5}" "mContextVec sample_serving ! 5 = Some sample_context"
  "mEventCount sample_serving = 1" "scheduler sample_serving = sample_scheduler []"
  by (simp_all add: sample_serving_def)

theorem addKcp_correct_witness:
  "addKcp (Some 0) sample_waiting = Inl Assertion_failed \<and> addKcp (Some 1) sample_waiting =
     Inr (True, sample_waiting\<lparr>mWaitingQueue := [(0, NOTINIT), (1, NOTINIT)]\<rparr>)"
proof -
  have q: "queue_sorted sample_waiting" "mWaitingQueue sample_waiting = [(0, NOTINIT)]" "kcps sample_waiting = sample_kcps"
    "ucast (mEventCount sample_waiting) < epoll_event_size"
    by (simp_all add: queue_sorted_def sample_waiting_def sample_manager_def epoll_event_size_def)
  have fd: "kcp_fd sample_kcps 0 = 5" "kcp_fd sample_kcps 1 = 6" by (simp_all add: kcp_fd_def)
  have "addKcp (Some 0) sample_waiting = Inl Assertion_failed"
    using addKcp_correct [OF q(1), of 0] q(2-4) fd by (simp split: sum.splits)
  moreover have "addKcp (Some 1) sample_waiting = Inr (True, sample_waiting\<lparr>mWaitingQueue := [(0, NOTINIT), (1, NOTINIT)]\<rparr>)"
    using q(4) by (simp add: addKcp_def q(2,3) compare_kcp_simps fd fd [unfolded One_nat_def] not_le)
  ultimately show ?thesis by blast
qed

theorem delKcp_removes_nothing_witness:
  "delKcp (Some 0) sample_waiting = Inl Assertion_failed \<and> delKcp (Some 1) sample_waiting = Inr (True, sample_waiting)"
proof -
  have q: "queue_sorted sample_waiting" "mWaitingQueue sample_waiting = [(0, NOTINIT)]" "kcps sample_waiting = sample_kcps"
    by (simp_all add: queue_sorted_def sample_waiting_def sample_manager_def)
  show ?thesis using delKcp_removes_nothing [OF q(1), of 0] delKcp_removes_nothing [OF q(1), of 1] by (simp add: q(2,3) kcp_fd_def)
qed

theorem register_out_of_range_witness:
  "register_kcp 1 10 True True 0 (sample_waiting\<lparr>kcps := \<lambda>_. sample_kcp\<rparr>) = Inl Buffer_overflow"
proof -
  have "sint (- 1 :: i32) = - 1" by simp
  then show ?thesis by (intro register_out_of_range [where fd = "- 1"]) (simp_all add: sample_kcp_def sample_attr_def KcpAttr_new_def)
qed

theorem manager_serves_witness:
  "\<exists>p c. mContextVec sample_serving ! 5 = Some c \<and> ec_cb (ctx_read c) = Some (Call (InputRoutine p)) \<and> timers_ok (timers sample_serving)"
  using manager_serves [OF sample_manager_new sample_steps(2)] by auto

theorem manager_registers_witness:
  "\<exists>n m. idle_register 1 10 True (\<lambda>_. True) 0 sample_waiting = Inr (n, m) \<and> mWaitingQueue m = [] \<and> 5 \<in> epoll_fds m"
proof -
  have w: "mWaitingQueue sample_waiting = [(0, NOTINIT)]" "mEventCount sample_waiting = 0" "kcps sample_waiting = sample_kcps"
    "gUniqueIdCount (timers sample_waiting) = 0" "0 < maxEvents sample_waiting"
    by (simp_all add: sample_waiting_def sample_manager_def KTimerManager_new_def maxEvents_def epoll_event_size_def sample_scheduler_def)
  then have "uint (gUniqueIdCount (timers sample_waiting)) + int (length (mWaitingQueue sample_waiting)) < 18446744073709551615" by simp
  from manager_registers [OF sample_manager_new sample_steps(1) this, of 1 10 0] w show ?thesis by auto
qed

text \<open>At time 20, before the timer expires, the socket becomes readable.\<close>

theorem manager_dispatches_witness:
  "\<exists>m. idle_dispatch 20 [(Event_ctx 5, 1)] sample_serving = Inr m \<and>
    mFiberQueue (scheduler m) = [bind_thread (Cb (Some (Call (InputRoutine 0)))) 1]"
proof -
  have "\<forall>ev\<in>set [(Event_ctx 5, 1 :: u32)]. fst ev = Event_fd \<or> (\<exists>fd\<in>epoll_fds sample_serving. fst ev = Event_ctx (nat (sint fd)))" by simp
  moreover have "fst (listExpiredTimer 20 (timers sample_serving)) = []"
    by (simp add: listExpiredTimer_def sample_serving_def KTimer_new_def)
  moreover have "ec_cb (ctx_read sample_context) = Some (Call (InputRoutine 0))" "ctx_tid sample_context = 1"
    by (simp_all add: sample_context_def input_context_def)
  ultimately show ?thesis using manager_dispatches [OF sample_manager_new sample_steps(2), of "[(Event_ctx 5, 1)]" 20]
    by (elim meta_impE exE conjE) (auto simp del: bind_thread.simps)
qed

theorem manager_never_stops_witness: "\<not> fst (KcpManager_stopping 20 sample_serving)"
  using manager_never_stops [OF sample_manager_new sample_steps(2) _ rtranclp.rtrancl_refl, of 5 20] by simp

theorem second_registration_disconnects_witness:
  "\<exists>m. register_kcp 2 20 True False 0 sample_serving = Inr (False, m) \<and> handle_event (Event_ctx 5, 1) m = Inr m"
proof -
  have "uint (1 :: u64) + int (Suc 0) < 18446744073709551615" by simp
  from uid_room(1) [OF this] have "(1 :: u64) < - 1" .
  then have "gUniqueIdCount (timers sample_serving) < - 1" by (simp add: sample_serving_def)
  moreover have "mgr_core sample_serving" using mgr_steps_ok [OF sample_steps(2) new_manager_ok [OF sample_manager_new]] mgr_okD by blast
  moreover from this obtain p where "served_by sample_serving 5 p" by (auto simp: mgr_core_def)
  moreover have "at_fd (mAttr (kcps sample_serving 0)) = 5" by (simp add: sample_serving_def Kcp_create_def)
  ultimately show ?thesis using second_registration_disconnects [of sample_serving 5 p 0 2 20] by auto
qed

end
