(* ===== verification/Kidle.thy ===== *)
theory Kidle
  imports Kmanager
begin

text \<open>
  kcpmanager.cpp, the loop of \<open>idle\<close>: the parts of theory Kmanager in the order of the code, as what one idle fiber does from
  one place in the loop to the next. The answer of \<open>epoll_wait\<close> is an argument, the clock is read where the code reads it. Several idle
  fibers, one for each thread, work on one manager, and their steps interleave, with each other and with the other steps of the manager:
  a pass over the waiting queue, all of it under \<open>mQueueMutex\<close>, is one step; asking for the timeout, asking the scheduler, taking the
  expired timers, scheduling them and each event, which take their locks one after the other, are steps of their own.
\<close>

section \<open>The loop\<close>

text \<open>
  The places: before the pass over the waiting queue, before each of the two questions of \<open>stopping\<close>, at \<open>epoll_wait\<close>, and behind it,
  with the events and then the callbacks that are still to be dealt with.
\<close>

datatype idle_pc = At_queue | At_stopping | At_scheduler | At_wait | At_expired "(event_data \<times> u32) list"
  | At_schedule "(routine callback \<times> u32) list" "(event_data \<times> u32) list" | At_events "(event_data \<times> u32) list" | Loop_left

datatype wait_result = Interrupted | Wait_failed | Events "(event_data \<times> u32) list"

record idle_locals =
  localEventCount :: u32
  timeoutms :: u64

definition idle_begin :: idle_locals where
  "idle_begin = \<lparr>localEventCount = 0, timeoutms = 10\<rparr>"

text \<open>The timeout \<open>epoll_wait\<close> gets, a 32-bit \<open>int\<close>.\<close>

definition epoll_timeout :: "idle_locals \<Rightarrow> i32" where
  "epoll_timeout l = ucast (timeoutms l)"

text \<open>The first component of the result tells whether the fiber yields.\<close>

definition idle_step :: "u32 \<Rightarrow> u64 \<Rightarrow> bool \<Rightarrow> (nat \<Rightarrow> bool) \<Rightarrow> wait_result \<Rightarrow> idle_pc \<Rightarrow> idle_locals \<Rightarrow> 'a KcpManager \<Rightarrow>
    (bool \<times> idle_pc \<times> idle_locals \<times> 'a KcpManager) result" where
  "idle_step tid now malloc epoll_ok wait pc l m =
     (case pc of
        At_queue \<Rightarrow>
          bind (idle_register tid now malloc epoll_ok (localEventCount l) m) (\<lambda>(n, m).
            Inr (False, At_stopping, l\<lparr>localEventCount := n\<rparr>, m))
      | At_stopping \<Rightarrow>
          let (timeout, ts) = getNearTimeout now (timers m)
          in Inr (False, if timeout = -1 then At_scheduler else At_wait, l\<lparr>timeoutms := timeout\<rparr>, m\<lparr>timers := ts\<rparr>)
      | At_scheduler \<Rightarrow> Inr (False, if stopping (scheduler m) then Loop_left else At_wait, l, m)
      | At_wait \<Rightarrow>
          (case wait of
             Interrupted \<Rightarrow> Inr (True, At_wait, l, m)
           | Wait_failed \<Rightarrow> Inr (False, Loop_left, l, m)
           | Events evs \<Rightarrow> Inr (False, At_expired evs, l, m))
      | At_expired evs \<Rightarrow> let (cbs, m) = idle_expire now m in Inr (False, At_schedule cbs evs, l, m)
      | At_schedule cbs evs \<Rightarrow> Inr (False, At_events evs, l, schedule_callbacks cbs m)
      | At_events [] \<Rightarrow> Inr (True, At_queue, l, m)
      | At_events (ev # evs) \<Rightarrow> bind (handle_event ev m) (\<lambda>m. Inr (False, At_events evs, l, m))
      | Loop_left \<Rightarrow> Inr (False, Loop_left, l, m))"

section \<open>The idle fibers of all threads\<close>

record 'a idle_world =
  mgr :: "'a KcpManager"
  place :: "u32 \<Rightarrow> idle_pc"
  vars :: "u32 \<Rightarrow> idle_locals"

definition idle_start :: "'a KcpManager \<Rightarrow> 'a idle_world" where
  "idle_start m = \<lparr>mgr = m, place = (\<lambda>_. At_queue), vars = (\<lambda>_. idle_begin)\<rparr>"

text \<open>What the kernel can answer, and the numbers that are left for timers.\<close>

definition wait_ok :: "wait_result \<Rightarrow> 'a KcpManager \<Rightarrow> bool" where
  "wait_ok wait m \<longleftrightarrow> (case wait of Events evs \<Rightarrow> \<forall>ev\<in>set evs. deliverable m ev | _ \<Rightarrow> True)"

definition uid_left :: "'a KcpManager \<Rightarrow> bool" where
  "uid_left m \<longleftrightarrow> uint (gUniqueIdCount (timers m)) + int (length (mWaitingQueue m)) < 18446744073709551615"

text \<open>The other steps of the manager, those that do not count events, happen on any thread.\<close>

inductive idle_world_step :: "'a idle_world \<Rightarrow> 'a idle_world \<Rightarrow> bool" where
  Idle: "wait_ok wait (mgr w) \<Longrightarrow> uid_left (mgr w) \<Longrightarrow>
    idle_step t now True (\<lambda>_. True) wait (place w t) (vars w t) (mgr w) = Inr (y, pc, l, m) \<Longrightarrow>
    idle_world_step w (w\<lparr>mgr := m, place := (place w)(t := pc), vars := (vars w)(t := l)\<rparr>)"
| Other: "mgr_step (mgr w) m \<Longrightarrow> mEventCount m = mEventCount (mgr w) \<Longrightarrow> idle_world_step w (w\<lparr>mgr := m\<rparr>)"

section \<open>Counting\<close>

lemma notify_count: "mEventCount (onTimerInsertedAtFront m) = mEventCount m"
  by (simp add: onTimerInsertedAtFront_def tickle_def)

lemma register_count:
  assumes "register_kcp tid now True True p m = Inr (g, m')"
  shows "g \<and> mEventCount m' = mEventCount m + 1"
proof -
  let ?m = "m\<lparr>kcps := (kcps m)(p := snd (Kcp_create tid (kcps m p)))\<rparr>"
  let ?a = "mAttr (kcps ?m p)"
  obtain timer f ts where t: "addTimer True now (scast (at_interval ?a)) (Some (Call (OutputRoutine p))) (at_interval ?a) tid (timers ?m) = (timer, f, ts)"
    using prod_cases3 by blast
  note r = assms [unfolded register_kcp_def Let_def t prod.case]
  obtain x where x: "context_for (at_fd ?a) (mContextVec ?m) = Inr x" using r [unfolded bind_Inr_iff] by (elim exE conjE) rule
  obtain i v where v: "x = (i, v)" by (cases x)
  note r = r [unfolded x bind_simps v prod.case]
  obtain ctx where c: "v ! i = Some ctx" using r by (cases "v ! i") simp_all
  obtain q where q: "timer = Some q" using r by (cases timer) (simp_all add: c)
  show ?thesis using r by (cases f) (auto simp: c q notify_count)
qed

lemma idle_entries_count:
  assumes "idle_entries tid now True (\<lambda>_. True) q n m = Inr (q', n', m')" and "\<forall>x\<in>set q. snd x = NOTINIT" and "unat (mEventCount m) \<le> 1024"
  shows "\<exists>k. n' = n + of_nat k \<and> mEventCount m' = mEventCount m + of_nat k \<and> unat (mEventCount m) + k \<le> 1024"
  using assms
proof (induction q arbitrary: n m q' n' m')
  case Nil
  then show ?case by (intro exI [of _ 0]) auto
next
  case (Cons x q)
  obtain p where x: "x = (p, NOTINIT)" using Cons.prems(2) by (cases x) auto
  have i: "\<forall>x\<in>set q. snd x = NOTINIT" using Cons.prems(2) by simp
  show ?case
  proof (cases "1024 \<le> unat (mEventCount m)")
    case True
    then obtain r where "idle_entries tid now True (\<lambda>_. True) q n m = Inr (r, n', m')"
      using Cons.prems(1) by (auto simp: x events_full bind_Inr_iff)
    from Cons.IH [OF this i Cons.prems(3)] show ?thesis .
  next
    case False
    then obtain g m1 where m1: "register_kcp tid now True True p m = Inr (g, m1)"
      "idle_entries tid now True (\<lambda>_. True) q (if g then n + 1 else n) m1 = Inr (q', n', m')"
      using Cons.prems(1) by (auto simp: x events_full bind_Inr_iff)
    note c = register_count [OF m1(1)]
    have u: "unat (mEventCount m1) = Suc (unat (mEventCount m))" using c False by (simp add: unat_word_ariths)
    then have "unat (mEventCount m1) \<le> 1024" using False by simp
    from Cons.IH [OF m1(2) i this] obtain k where "n' = n + 1 + of_nat k" "mEventCount m' = mEventCount m1 + of_nat k"
      "unat (mEventCount m1) + k \<le> 1024" using c by auto
    then show ?thesis using c u by (intro exI [of _ "Suc k"]) auto
  qed
qed

lemma idle_register_count:
  assumes "idle_register tid now True (\<lambda>_. True) n m = Inr (n', m')" and "mgr_ok m" and "unat (mEventCount m) \<le> 1024"
  shows "\<exists>k. n' = n + of_nat k \<and> mEventCount m' = mEventCount m + of_nat k \<and> unat (mEventCount m) + k \<le> 1024"
proof (cases "n < maxEvents m")
  case True
  then obtain q m1 where m1: "idle_entries tid now True (\<lambda>_. True) (mWaitingQueue m) n m = Inr (q, n', m1)" "m' = m1\<lparr>mWaitingQueue := q\<rparr>"
    using assms(1) by (auto simp: idle_register_def bind_Inr_iff)
  have "\<forall>x\<in>set (mWaitingQueue m). snd x = NOTINIT" using assms(2) by (auto simp: mgr_ok_def)
  from idle_entries_count [OF m1(1) this assms(3)] show ?thesis by (simp add: m1(2))
next
  case False
  then show ?thesis using assms(1,3) by (intro exI [of _ 0]) (simp add: idle_register_def)
qed

lemma expire_count: "idle_expire now m = (cbs, m') \<Longrightarrow> mEventCount m' = mEventCount m"
  by (auto simp: idle_expire_eq)

lemma queued_tasks_count: "queued_tasks m ts m' \<Longrightarrow> mEventCount m' = mEventCount m"
  by (auto simp: queued_tasks_def)

section \<open>The invariant\<close>

text \<open>The events a thread still has to deal with can be delivered: descriptors stay registered.\<close>

definition pending_ok :: "'a KcpManager \<Rightarrow> idle_pc \<Rightarrow> bool" where
  "pending_ok m pc \<longleftrightarrow> (case pc of At_expired evs \<Rightarrow> \<forall>ev\<in>set evs. deliverable m ev | At_schedule cbs evs \<Rightarrow> \<forall>ev\<in>set evs. deliverable m ev
     | At_events evs \<Rightarrow> \<forall>ev\<in>set evs. deliverable m ev | _ \<Rightarrow> True)"

definition world_ok :: "'a idle_world \<Rightarrow> bool" where
  "world_ok w \<longleftrightarrow> mgr_ok (mgr w) \<and> unat (mEventCount (mgr w)) \<le> 1024 \<and>
     (\<Sum>t\<in>UNIV. unat (localEventCount (vars w t))) = unat (mEventCount (mgr w)) \<and> (\<forall>t. pending_ok (mgr w) (place w t))"

lemma deliverable_mono: "epoll_fds m \<subseteq> epoll_fds m' \<Longrightarrow> deliverable m ev \<Longrightarrow> deliverable m' ev"
  by (auto simp: deliverable_def)

lemma pending_mono: "epoll_fds m \<subseteq> epoll_fds m' \<Longrightarrow> pending_ok m pc \<Longrightarrow> pending_ok m' pc"
  using deliverable_mono [of m m'] by (auto simp: pending_ok_def split: idle_pc.splits)

text \<open>
  A step of an idle fiber does not fault; it is a step of the manager or changes nothing of it, and counts an event for the thread
  as often as for the manager.
\<close>

definition good_step :: "idle_locals \<Rightarrow> 'a KcpManager \<Rightarrow> (bool \<times> idle_pc \<times> idle_locals \<times> 'a KcpManager) result \<Rightarrow> bool" where
  "good_step l m r \<longleftrightarrow> (\<exists>y pc' l' m' k. r = Inr (y, pc', l', m') \<and> mgr_step\<^sup>*\<^sup>* m m' \<and> pending_ok m' pc' \<and>
     localEventCount l' = localEventCount l + of_nat k \<and> mEventCount m' = mEventCount m + of_nat k \<and> unat (mEventCount m) + k \<le> 1024)"

lemma good_stepI:
  assumes "mgr_step\<^sup>*\<^sup>* m m'" and "pending_ok m' pc'" and "localEventCount l' = localEventCount l" and "mEventCount m' = mEventCount m"
    and "unat (mEventCount m) \<le> 1024"
  shows "good_step l m (Inr (y, pc', l', m'))"
  unfolding good_step_def using assms by (intro exI [of _ y] exI [of _ pc'] exI [of _ l'] exI [of _ m'] exI [of _ 0]) simp

lemma idle_step_ok:
  assumes ok: "mgr_ok m" and n: "unat (mEventCount m) \<le> 1024" and "wait_ok wait m" and room: "uid_left m" and p: "pending_ok m pc"
  shows "good_step l m (idle_step t now True (\<lambda>_. True) wait pc l m)"
proof (cases pc)
  case At_queue
  obtain n' m' where r: "idle_register t now True (\<lambda>_. True) (localEventCount l) m = Inr (n', m')"
    using idle_register_ok [OF ok room [unfolded uid_left_def], of t now "localEventCount l"] by blast
  obtain k where k: "n' = localEventCount l + of_nat k" "mEventCount m' = mEventCount m + of_nat k" "unat (mEventCount m) + k \<le> 1024"
    using idle_register_count [OF r ok n] by blast
  have "mgr_step\<^sup>*\<^sup>* m m'" using mgr_step.Registering [OF room [unfolded uid_left_def] r] by blast
  then show ?thesis using At_queue r k by (simp add: idle_step_def good_step_def pending_ok_def) blast
next
  case At_stopping
  obtain b s m' where q: "KcpManager_stopping now m = (b, s, m')" by (cases "KcpManager_stopping now m")
  have "mgr_step\<^sup>*\<^sup>* m m'" using mgr_step.Asking [OF q] by blast
  moreover have "getNearTimeout now (timers m) = (s, timers m')" "m' = m\<lparr>timers := timers m'\<rparr>"
    using q by (auto simp: KcpManager_stopping_def split: prod.splits)
  moreover from this(2) have "mEventCount m' = mEventCount m" by (metis KcpManager.select_convs(6) KcpManager.surjective KcpManager.update_convs(2))
  ultimately have "good_step l m (Inr (False, if s = - 1 then At_scheduler else At_wait, l\<lparr>timeoutms := s\<rparr>, m'))" using n
    by (intro good_stepI) (simp_all add: pending_ok_def)
  then show ?thesis using At_stopping \<open>getNearTimeout now (timers m) = (s, timers m')\<close> \<open>m' = m\<lparr>timers := timers m'\<rparr>\<close> [symmetric]
    by (simp add: idle_step_def)
next
  case At_scheduler
  have "good_step l m (Inr (False, if stopping (scheduler m) then Loop_left else At_wait, l, m))" using n
    by (intro good_stepI) (simp_all add: pending_ok_def)
  then show ?thesis using At_scheduler by (simp add: idle_step_def)
next
  case At_wait
  have "good_step l m (Inr (True, At_wait, l, m))" "good_step l m (Inr (False, Loop_left, l, m))"
    using n by (intro good_stepI; simp add: pending_ok_def)+
  moreover have "good_step l m (Inr (False, At_expired evs, l, m))" if "wait = Events evs" for evs
    using n assms(3) that by (intro good_stepI) (simp_all add: pending_ok_def wait_ok_def)
  ultimately show ?thesis using At_wait by (cases wait) (simp_all add: idle_step_def)
next
  case (At_expired evs)
  obtain cbs m' where e: "idle_expire now m = (cbs, m')" by (cases "idle_expire now m")
  have s: "mgr_step m m'" by (rule mgr_step.Expiring [OF e])
  then have "pending_ok m' pc" using mgr_step_ok [OF _ ok] pending_mono p by blast
  then have "good_step l m (Inr (False, At_schedule cbs evs, l, m'))" using s expire_count [OF e] n At_expired
    by (intro good_stepI) (auto simp: pending_ok_def)
  then show ?thesis using At_expired e by (simp add: idle_step_def)
next
  case (At_schedule cbs evs)
  let ?m = "schedule_callbacks cbs m"
  have s: "mgr_step m ?m" by (rule mgr_step.Scheduling)
  then have "pending_ok ?m pc" using mgr_step_ok [OF _ ok] pending_mono p by blast
  then have "good_step l m (Inr (False, At_events evs, l, ?m))" using s queued_tasks_count [OF schedule_callbacks_queues] n At_schedule
    by (intro good_stepI) (auto simp: pending_ok_def)
  then show ?thesis using At_schedule by (simp add: idle_step_def)
next
  case (At_events evs)
  show ?thesis
  proof (cases evs)
    case Nil
    then show ?thesis using At_events n by (simp add: idle_step_def) (intro good_stepI; simp add: pending_ok_def)
  next
    case (Cons ev rest)
    have d: "deliverable m ev" "\<forall>ev\<in>set rest. deliverable m ev" using p by (simp_all add: pending_ok_def At_events Cons)
    obtain m' where m': "handle_event ev m = Inr m'" "queued_tasks m (event_tasks (mContextVec m) ev) m'"
      using handle_event_queues [OF _ d(1)] mgr_okD [OF ok] by blast
    have s: "mgr_step m m'" by (rule mgr_step.Handling [OF d(1) m'(1)])
    have "pending_ok m' (At_events rest)" using d(2) queued_tasks_core(5) [OF m'(2)] by (simp add: pending_ok_def)
    then have "good_step l m (Inr (False, At_events rest, l, m'))" using s queued_tasks_count [OF m'(2)] n by (intro good_stepI) auto
    then show ?thesis using At_events Cons m'(1) by (simp add: idle_step_def)
  qed
next
  case Loop_left
  then show ?thesis using n by (simp add: idle_step_def) (intro good_stepI; simp add: pending_ok_def)
qed

lemma sum_one:
  fixes f :: "'a :: finite \<Rightarrow> nat"
  assumes "f' t = f t + k" and "\<And>u. u \<noteq> t \<Longrightarrow> f' u = f u"
  shows "(\<Sum>u\<in>UNIV. f' u) = (\<Sum>u\<in>UNIV. f u) + k"
proof -
  have "(\<Sum>u\<in>UNIV. f' u) = f' t + (\<Sum>u\<in>UNIV - {t}. f' u)" "(\<Sum>u\<in>UNIV. f u) = f t + (\<Sum>u\<in>UNIV - {t}. f u)"
    by (simp_all add: sum.remove)
  moreover have "(\<Sum>u\<in>UNIV - {t}. f' u) = (\<Sum>u\<in>UNIV - {t}. f u)" using assms(2) by (intro sum.cong) auto
  ultimately show ?thesis using assms(1) by simp
qed

lemma unat_add_small: "unat (x :: 'a :: len word) + k < 2 ^ LENGTH('a) \<Longrightarrow> unat (x + of_nat k) = unat x + k"
  by (simp add: unat_word_ariths unat_of_nat)

lemma world_step_ok:
  assumes "idle_world_step w w'" and ok: "world_ok w"
  shows "world_ok w' \<and> mgr_step\<^sup>*\<^sup>* (mgr w) (mgr w')"
  using assms(1)
proof cases
  case (Idle wait t now y pc l m)
  have o: "mgr_ok (mgr w)" "unat (mEventCount (mgr w)) \<le> 1024" "(\<Sum>t\<in>UNIV. unat (localEventCount (vars w t))) = unat (mEventCount (mgr w))"
    and p: "pending_ok (mgr w) (place w u)" for u
    using ok by (simp_all add: world_ok_def)
  obtain k where k: "mgr_step\<^sup>*\<^sup>* (mgr w) m" "localEventCount l = localEventCount (vars w t) + of_nat k"
    "mEventCount m = mEventCount (mgr w) + of_nat k" "unat (mEventCount (mgr w)) + k \<le> 1024" "pending_ok m pc"
    using idle_step_ok [OF o(1,2) Idle(2,3) p, of "vars w t" t now t] Idle(4) by (auto simp: good_step_def)
  have m: "unat (mEventCount m) = unat (mEventCount (mgr w)) + k" unfolding k(3) using k(4) by (intro unat_add_small) simp
  have "unat (localEventCount (vars w t)) \<le> unat (mEventCount (mgr w))" unfolding o(3) [symmetric] by (intro member_le_sum) auto
  then have l: "unat (localEventCount l) = unat (localEventCount (vars w t)) + k" unfolding k(2) using k(4) by (intro unat_add_small) simp
  have "(\<Sum>u\<in>UNIV. unat (localEventCount (((vars w)(t := l)) u))) = (\<Sum>u\<in>UNIV. unat (localEventCount (vars w u))) + k"
    by (rule sum_one [where t = t]) (simp_all add: l)
  moreover have "mgr_ok m" and e: "epoll_fds (mgr w) \<subseteq> epoll_fds m" using mgr_steps_ok [OF k(1) o(1)] by blast+
  moreover have "\<forall>u. pending_ok m (((place w)(t := pc)) u)" using pending_mono [OF e p] k(5) by simp
  ultimately show ?thesis using Idle(1) k(1,4) m o(3) by (simp add: world_ok_def)
next
  case (Other m)
  then show ?thesis using ok mgr_step_ok [OF Other(2)] pending_mono [of "mgr w" m] by (auto simp: world_ok_def)
qed

lemma world_steps_ok:
  assumes "idle_world_step\<^sup>*\<^sup>* w w'" and "world_ok w"
  shows "world_ok w' \<and> mgr_step\<^sup>*\<^sup>* (mgr w) (mgr w')"
  using assms
proof (induction rule: rtranclp_induct)
  case (step w' w'')
  then show ?case using world_step_ok [of w' w''] by (meson rtranclp_trans)
qed simp

lemma start_ok:
  assumes "KcpManager_new epoll_ok eventfd_ok s tids ks = Inr m"
  shows "world_ok (idle_start m)"
proof -
  have "mEventCount m = 0" using assms by (auto simp: KcpManager_new_def Let_def bind_Inr_iff split: if_splits)
  then show ?thesis using new_manager_ok [OF assms] by (simp add: world_ok_def idle_start_def idle_begin_def pending_ok_def)
qed

text \<open>C13: However the steps of the idle fibers interleave, with each other and with the other steps of \<open>mgr_step\<close> (\<open>addKcp\<close>, \<open>delKcp\<close>, the
  operations on timers, \<open>schedule\<close>, the use of the connections), the connections the threads count as their own add up to those the
  manager counts, the registered descriptors, 1024 at most. A fiber that is resumed, wherever it stopped, does not fault, whatever
  events of registered descriptors \<open>epoll_wait\<close> answers, and keeps on looping, except that it leaves when \<open>epoll_wait\<close> fails or the
  scheduler is stopping after the fiber has found no timer, and so no connection, in the manager. This is under the conditions of
  \<open>mgr_step\<close>: connections are added with a descriptor from 2 on that is not registered and an interval other than 0, sockets stay open,
  \<open>epoll_ctl\<close> and allocations succeed in a registration, timer numbers are left, and the connections' timers and the times of timers
  in the set are left alone; a pass over a connection with the default descriptor -1 is the fault of \<open>register_out_of_range\<close>.\<close>

theorem idle_fibers_correct:
  assumes "KcpManager_new epoll_ok eventfd_ok s tids ks = Inr m0" and "idle_world_step\<^sup>*\<^sup>* (idle_start m0) w"
    and "wait_ok wait (mgr w)" and "uid_left (mgr w)" and "now \<noteq> 0"
  shows "(\<Sum>t\<in>UNIV. unat (localEventCount (vars w t))) = unat (mEventCount (mgr w)) \<and> unat (mEventCount (mgr w)) = card (epoll_fds (mgr w)) \<and>
    unat (mEventCount (mgr w)) \<le> 1024 \<and>
    (\<exists>y pc l m. idle_step t now True (\<lambda>_. True) wait (place w t) (vars w t) (mgr w) = Inr (y, pc, l, m) \<and>
       (pc = At_scheduler \<longrightarrow> epoll_fds (mgr w) = {}) \<and>
       (pc = Loop_left \<longrightarrow> place w t = Loop_left \<or> place w t = At_wait \<and> wait = Wait_failed \<or>
          place w t = At_scheduler \<and> stopping (scheduler (mgr w))))"
proof -
  have ok: "world_ok w" and r: "mgr_step\<^sup>*\<^sup>* m0 (mgr w)" using world_steps_ok [OF assms(2) start_ok [OF assms(1)]] by (simp_all add: idle_start_def)
  have o: "mgr_ok (mgr w)" "unat (mEventCount (mgr w)) \<le> 1024" "pending_ok (mgr w) (place w t)" using ok by (simp_all add: world_ok_def)
  obtain y pc l m where s: "idle_step t now True (\<lambda>_. True) wait (place w t) (vars w t) (mgr w) = Inr (y, pc, l, m)"
    using idle_step_ok [OF o(1,2) assms(3,4) o(3), of "vars w t" t now] by (auto simp: good_step_def)
  have "epoll_fds (mgr w) = {}" if pc: "pc = At_scheduler"
  proof -
    have "place w t = At_stopping" "fst (getNearTimeout now (timers (mgr w))) = - 1"
      using s pc by (auto simp: idle_step_def bind_Inr_iff Let_def split: idle_pc.splits wait_result.splits prod.splits list.splits if_splits)
    then show ?thesis using serving_not_waiting [OF o(1) _ assms(5)] by blast
  qed
  moreover have "place w t = Loop_left \<or> place w t = At_wait \<and> wait = Wait_failed \<or> place w t = At_scheduler \<and> stopping (scheduler (mgr w))"
    if pc: "pc = Loop_left"
    using s pc by (auto simp: idle_step_def bind_Inr_iff Let_def split: idle_pc.splits wait_result.splits prod.splits list.splits if_splits)
  moreover have "unat (mEventCount (mgr w)) = card (epoll_fds (mgr w))" using o(1) by (simp add: mgr_ok_def mgr_core_def)
  ultimately show ?thesis using ok s by (auto simp: world_ok_def)
qed

section \<open>Instances\<close>

text \<open>Thread 1 has taken over connection 0 and is about to ask whether the manager is stopping.\<close>

definition sample_world :: "nat idle_world" where
  "sample_world = \<lparr>mgr = sample_serving, place = (\<lambda>_. At_queue)(1 := At_stopping), vars = (\<lambda>_. idle_begin)(1 := idle_begin\<lparr>localEventCount := 1\<rparr>)\<rparr>"

lemma sample_world_reached: "idle_world_step\<^sup>*\<^sup>* (idle_start sample_manager) sample_world"
proof -
  have "mgr_step sample_manager sample_waiting"
    by (rule mgr_step.Adding [OF _ sample_adding]) (simp add: fit_to_register_def kcp_fd_def sample_manager_def)
  moreover have "mEventCount sample_waiting = mEventCount sample_manager" by (simp add: sample_waiting_def)
  ultimately have 1: "idle_world_step (idle_start sample_manager) ((idle_start sample_manager)\<lparr>mgr := sample_waiting\<rparr>)"
    by (intro idle_world_step.Other) (simp_all add: idle_start_def)
  let ?w = "(idle_start sample_manager)\<lparr>mgr := sample_waiting\<rparr>"
  have "wait_ok Interrupted (mgr ?w)" "uid_left (mgr ?w)"
    by (simp_all add: wait_ok_def uid_left_def sample_waiting_def sample_manager_def KTimerManager_new_def)
  moreover have "idle_step 1 10 True (\<lambda>_. True) Interrupted (place ?w 1) (vars ?w 1) (mgr ?w) =
      Inr (False, At_stopping, idle_begin\<lparr>localEventCount := 1\<rparr>, sample_serving)"
    using sample_registering by (simp add: idle_step_def idle_start_def idle_begin_def)
  ultimately have "idle_world_step ?w (?w\<lparr>mgr := sample_serving, place := (place ?w)(1 := At_stopping), vars := (vars ?w)(1 := idle_begin\<lparr>localEventCount := 1\<rparr>)\<rparr>)"
    by (rule idle_world_step.Idle)
  then have "idle_world_step ?w sample_world" by (simp add: sample_world_def idle_start_def)
  with 1 show ?thesis by (meson converse_rtranclp_into_rtranclp rtranclp.rtrancl_refl)
qed

theorem idle_fibers_correct_witness:
  "\<exists>y pc l m. idle_step 1 20 True (\<lambda>_. True) Interrupted At_stopping (idle_begin\<lparr>localEventCount := 1\<rparr>) sample_serving = Inr (y, pc, l, m) \<and> pc \<noteq> Loop_left"
proof -
  have u: "uid_left (mgr sample_world)" "wait_ok Interrupted (mgr sample_world)"
    by (simp_all add: uid_left_def wait_ok_def sample_world_def sample_serving_def)
  have w: "place sample_world 1 = At_stopping" "vars sample_world 1 = idle_begin\<lparr>localEventCount := 1\<rparr>" "mgr sample_world = sample_serving"
    by (simp_all add: sample_world_def)
  show ?thesis using idle_fibers_correct [OF sample_manager_new sample_world_reached u(2,1), of 20 1] by (auto simp: w)
qed

end
