(* ===== verification/Kthread.thy ===== *)
theory Kthread
  imports Main
begin

text \<open>
  kthread.h and kthread.cpp: a thread and the object that stands for it. Objects live in a store; a thread is known by its pthread id,
  and the thread-local variables are functions of it. The system's side is at the interface: the thread id \<open>pthread_create\<close> yields,
  the kernel number of the new thread, the success of \<open>pthread_join\<close>. A semaphore is a counter. Every statement of the entry function
  is a step of its own, so that the creator, the new thread and all others interleave between any two of them. Attributes of threads
  and log output are left out.
\<close>

section \<open>Data\<close>

text \<open>\<open>mKernalTid\<close> is None before the new thread sets it; a pthread id 0 stands for none.\<close>

record 'cb Thread =
  mKernalTid :: "int option"
  mTid :: nat
  mName :: string
  mCb :: "'cb option"
  mShouldJoin :: bool
  mSemaphore :: nat

text \<open>
  What the code asks of the system for a thread id; a join that fails is not recorded. \<open>sysName\<close> is the name the system keeps of a
  thread.
\<close>

datatype reclaim = Pthread_detach nat | Pthread_join nat

record 'cb threads =
  object :: "nat \<Rightarrow> 'cb Thread"
  gThread :: "nat \<Rightarrow> nat option"
  gThreadName :: "nat \<Rightarrow> string"
  sysName :: "nat \<Rightarrow> string"
  reclaims :: "reclaim list"

definition on_thread :: "nat \<Rightarrow> ('cb Thread \<Rightarrow> 'cb Thread) \<Rightarrow> 'cb threads \<Rightarrow> 'cb threads" where
  "on_thread p f w = w\<lparr>object := (object w)(p := f (object w p))\<rparr>"

section \<open>Operations\<close>

text \<open>
  The constructor up to the wait; \<open>created\<close> is what \<open>pthread_create\<close> yields, None an error, on which the
  constructor throws. The wait is \<open>sem_wait\<close>, which returns only if the counter is positive.
\<close>

definition Thread_new :: "nat option \<Rightarrow> 'cb \<Rightarrow> string \<Rightarrow> 'cb Thread option" where
  "Thread_new created cb threadName =
     (let th = \<lparr>mKernalTid = None, mTid = 0, mName = (if length threadName \<noteq> 0 then threadName else ''Unknow''),
                mCb = Some cb, mShouldJoin = True, mSemaphore = 0\<rparr>
      in case created of None \<Rightarrow> None | Some tid \<Rightarrow> Some (th\<lparr>mTid := tid\<rparr>))"

definition sem_wait :: "'cb Thread \<Rightarrow> 'cb Thread option" where
  "sem_wait th = (if mSemaphore th > 0 then Some (th\<lparr>mSemaphore := mSemaphore th - 1\<rparr>) else None)"

definition Thread_destroy :: "'cb Thread \<Rightarrow> reclaim list" where
  "Thread_destroy th = (if mShouldJoin th \<and> mTid th \<noteq> 0 then [Pthread_detach (mTid th)] else [])"

definition Thread_SetName :: "nat \<Rightarrow> string \<Rightarrow> 'cb threads \<Rightarrow> 'cb threads" where
  "Thread_SetName me name w =
     (if name = [] then w
      else let w = (case gThread w me of None \<Rightarrow> w | Some p \<Rightarrow> on_thread p (\<lambda>th. th\<lparr>mName := name\<rparr>) w)
           in w\<lparr>gThreadName := (gThreadName w)(me := name)\<rparr>)"

definition Thread_GetName :: "nat \<Rightarrow> 'cb threads \<Rightarrow> string" where
  "Thread_GetName me w = gThreadName w me"

definition Thread_GetThis :: "nat \<Rightarrow> 'cb threads \<Rightarrow> nat option" where
  "Thread_GetThis me w = gThread w me"

definition Thread_detach :: "nat \<Rightarrow> 'cb threads \<Rightarrow> 'cb threads" where
  "Thread_detach p w =
     (if mTid (object w p) \<noteq> 0
      then on_thread p (\<lambda>th. th\<lparr>mShouldJoin := False\<rparr>) (w\<lparr>reclaims := reclaims w @ [Pthread_detach (mTid (object w p))]\<rparr>)
      else w)"

text \<open>\<open>join\<close> throws when \<open>pthread_join\<close> fails: the first component is False.\<close>

definition Thread_join :: "bool \<Rightarrow> nat \<Rightarrow> 'cb threads \<Rightarrow> bool \<times> 'cb threads" where
  "Thread_join ok p w =
     (if mShouldJoin (object w p) \<and> mTid (object w p) \<noteq> 0
      then if \<not> ok then (False, w)
           else let w = w\<lparr>reclaims := reclaims w @ [Pthread_join (mTid (object w p))]\<rparr>
                in (True, on_thread p (\<lambda>th. th\<lparr>mTid := 0, mShouldJoin := False\<rparr>) w)
      else (True, w))"

section \<open>The entry function\<close>

text \<open>
  Where the new thread of an object is: \<open>Unborn\<close> before it exists, then before each statement of \<open>entrance\<close>, in the callback it has
  swapped out of the object, at its end. \<open>Lost\<close>: it has used an object that was destroyed, and what it does is undefined.
\<close>

datatype 'cb runner = Unborn | Starting | Entered | Named | Numbered | Posted | Titled | Running "'cb option" | Finished | Lost

text \<open>One statement of \<open>entrance\<close>: thread \<open>me\<close>, whose kernel number is \<open>k\<close>, with the argument \<open>p\<close>.\<close>

fun entrance :: "nat \<Rightarrow> int \<Rightarrow> nat \<Rightarrow> 'cb runner \<Rightarrow> 'cb threads \<Rightarrow> 'cb runner \<times> 'cb threads" where
  "entrance me k p Starting w = (Entered, w\<lparr>gThread := (gThread w)(me := Some p)\<rparr>)"
| "entrance me k p Entered w = (Named, w\<lparr>gThreadName := (gThreadName w)(me := mName (object w p))\<rparr>)"
| "entrance me k p Named w =
     (Numbered, case gThread w me of None \<Rightarrow> w | Some q \<Rightarrow> on_thread q (\<lambda>th. th\<lparr>mKernalTid := Some k\<rparr>) w)"
| "entrance me k p Numbered w =
     (Posted, case gThread w me of None \<Rightarrow> w | Some q \<Rightarrow> on_thread q (\<lambda>th. th\<lparr>mSemaphore := mSemaphore th + 1\<rparr>) w)"
| "entrance me k p Posted w = (Titled, w\<lparr>sysName := (sysName w)(me := take 15 (mName (object w p)))\<rparr>)"
| "entrance me k p Titled w = (Running (mCb (object w p)), on_thread p (\<lambda>th. th\<lparr>mCb := None\<rparr>) w)"
| "entrance me k p (Running cb) w = (Finished, w\<lparr>gThread := (gThread w)(me := None)\<rparr>)"
| "entrance me k p r w = (r, w)"

text \<open>The statements that read or write the object.\<close>

fun uses_object :: "'cb runner \<Rightarrow> bool" where
  "uses_object Entered = True"
| "uses_object Named = True"
| "uses_object Numbered = True"
| "uses_object Posted = True"
| "uses_object Titled = True"
| "uses_object r = False"

section \<open>All threads\<close>

text \<open>Who holds an object: nobody yet, its constructor, which waits for the semaphore, those it was handed to, nobody any more.\<close>

datatype owner = Absent | Waiting | Owning | Gone

record 'cb system =
  mem :: "'cb threads"
  owner :: "nat \<Rightarrow> owner"
  runner :: "nat \<Rightarrow> 'cb runner"
  asked_of :: "nat \<Rightarrow> 'cb option"
  ids :: "nat \<Rightarrow> nat"
  ran :: "nat \<Rightarrow> 'cb option list"
  detaches :: "nat \<Rightarrow> nat"

text \<open>
  The steps of all threads, interleaved. \<open>ktid p\<close> is the kernel number of the new thread of object \<open>p\<close>. The system gives no thread
  id twice, and \<open>pthread_join\<close> succeeds only when the thread has ended; it may fail. \<open>detach\<close> and \<open>join\<close> may be called at any time
  and any number of times on an object that exists, by its thread too. The object may be destroyed at any time after its constructor
  has returned: a thread that then still uses it, in \<open>entrance\<close> or through \<open>gThread\<close> in \<open>SetName\<close>, is lost. \<open>asked_of\<close>, \<open>ids\<close>, \<open>ran\<close> and
  \<open>detaches\<close> record the callback and the id of a thread, what it has run to its end, and the calls of \<open>detach\<close>.
\<close>

inductive thread_step :: "(nat \<Rightarrow> int) \<Rightarrow> 'cb system \<Rightarrow> 'cb system \<Rightarrow> bool" for ktid :: "nat \<Rightarrow> int" where
  Creating: "owner w p = Absent \<Longrightarrow> tid \<noteq> 0 \<Longrightarrow> \<forall>q. owner w q \<noteq> Absent \<longrightarrow> ids w q \<noteq> tid \<Longrightarrow> Thread_new (Some tid) cb name = Some th \<Longrightarrow>
    thread_step ktid w (w\<lparr>mem := on_thread p (\<lambda>_. th) (mem w), owner := (owner w)(p := Waiting), runner := (runner w)(p := Starting),
      asked_of := (asked_of w)(p := Some cb), ids := (ids w)(p := tid)\<rparr>)"
| Constructed: "owner w p = Waiting \<Longrightarrow> sem_wait (object (mem w) p) = Some th \<Longrightarrow>
    thread_step ktid w (w\<lparr>mem := on_thread p (\<lambda>_. th) (mem w), owner := (owner w)(p := Owning)\<rparr>)"
| Entering: "runner w p \<noteq> Unborn \<Longrightarrow> uses_object (runner w p) \<longrightarrow> owner w p \<noteq> Gone \<Longrightarrow>
    entrance (ids w p) (ktid p) p (runner w p) (mem w) = (r, m) \<Longrightarrow>
    thread_step ktid w (w\<lparr>mem := m, runner := (runner w)(p := r),
      ran := (case runner w p of Running cb \<Rightarrow> (ran w)(p := ran w p @ [cb]) | _ \<Rightarrow> ran w)\<rparr>)"
| Losing: "owner w p = Gone \<Longrightarrow> uses_object (runner w p) \<Longrightarrow>
    thread_step ktid w (w\<lparr>runner := (runner w)(p := Lost)\<rparr>)"
| Naming: "\<forall>p. gThread (mem w) me = Some p \<longrightarrow> owner w p \<noteq> Gone \<Longrightarrow>
    thread_step ktid w (w\<lparr>mem := Thread_SetName me name (mem w)\<rparr>)"
| Naming_lost: "gThread (mem w) (ids w p) = Some p \<Longrightarrow> owner w p = Gone \<Longrightarrow> runner w p = Running cb \<Longrightarrow>
    thread_step ktid w (w\<lparr>runner := (runner w)(p := Lost)\<rparr>)"
| Detaching: "owner w p = Waiting \<or> owner w p = Owning \<Longrightarrow>
    thread_step ktid w (w\<lparr>mem := Thread_detach p (mem w), detaches := (detaches w)(p := detaches w p + 1)\<rparr>)"
| Joining: "owner w p = Waiting \<or> owner w p = Owning \<Longrightarrow> ok \<longrightarrow> runner w p = Finished \<Longrightarrow>
    thread_step ktid w (w\<lparr>mem := snd (Thread_join ok p (mem w))\<rparr>)"
| Destroying: "owner w p = Owning \<Longrightarrow>
    thread_step ktid w (w\<lparr>mem := (mem w)\<lparr>reclaims := reclaims (mem w) @ Thread_destroy (object (mem w) p)\<rparr>, owner := (owner w)(p := Gone)\<rparr>)"

definition system_start :: "(nat \<Rightarrow> 'cb Thread) \<Rightarrow> 'cb system" where
  "system_start obj =
     \<lparr>mem = \<lparr>object = obj, gThread = (\<lambda>_. None), gThreadName = (\<lambda>_. []), sysName = (\<lambda>_. []), reclaims = []\<rparr>,
      owner = (\<lambda>_. Absent), runner = (\<lambda>_. Unborn), asked_of = (\<lambda>_. None), ids = (\<lambda>_. 0), ran = (\<lambda>_. []), detaches = (\<lambda>_. 0)\<rparr>"

section \<open>The invariants\<close>

definition handshake :: "(nat \<Rightarrow> int) \<Rightarrow> 'cb system \<Rightarrow> nat \<Rightarrow> bool" where
  "handshake ktid w p \<longleftrightarrow>
     (let th = object (mem w) p; this = (gThread (mem w) (ids w p) = Some p); numbered = (mKernalTid th = Some (ktid p));
          posted = (owner w p \<noteq> Absent \<and> (owner w p = Waiting \<longrightarrow> mSemaphore th = 1) \<and> numbered) in
      case runner w p of
        Unborn \<Rightarrow> owner w p = Absent \<and> ran w p = []
      | Starting \<Rightarrow> owner w p = Waiting \<and> mSemaphore th = 0 \<and> mCb th = asked_of w p \<and> ran w p = []
      | Entered \<Rightarrow> owner w p = Waiting \<and> mSemaphore th = 0 \<and> mCb th = asked_of w p \<and> ran w p = [] \<and> this
      | Named \<Rightarrow> owner w p = Waiting \<and> mSemaphore th = 0 \<and> mCb th = asked_of w p \<and> ran w p = [] \<and> this
      | Numbered \<Rightarrow> owner w p = Waiting \<and> mSemaphore th = 0 \<and> mCb th = asked_of w p \<and> ran w p = [] \<and> this \<and> numbered
      | Posted \<Rightarrow> posted \<and> mCb th = asked_of w p \<and> ran w p = [] \<and> this
      | Titled \<Rightarrow> posted \<and> mCb th = asked_of w p \<and> ran w p = [] \<and> this
      | Running cb \<Rightarrow> posted \<and> cb = asked_of w p \<and> ran w p = [] \<and> this
      | Finished \<Rightarrow> posted \<and> ran w p = [asked_of w p]
      | Lost \<Rightarrow> owner w p = Gone \<and> numbered \<and> ran w p = [])"

fun reclaimed :: "reclaim \<Rightarrow> nat" where
  "reclaimed (Pthread_detach t) = t"
| "reclaimed (Pthread_join t) = t"

definition reclaim_count :: "'cb system \<Rightarrow> nat \<Rightarrow> nat" where
  "reclaim_count w p = count_list (map reclaimed (reclaims (mem w))) (ids w p)"

definition was_joined :: "'cb system \<Rightarrow> nat \<Rightarrow> bool" where
  "was_joined w p \<longleftrightarrow> Pthread_join (ids w p) \<in> set (reclaims (mem w))"

definition accounted :: "'cb system \<Rightarrow> nat \<Rightarrow> bool" where
  "accounted w p \<longleftrightarrow>
     (let th = object (mem w) p in
      case owner w p of
        Absent \<Rightarrow> detaches w p = 0
      | Gone \<Rightarrow> reclaim_count w p = (if was_joined w p then 1 else max 1 (detaches w p))
      | _ \<Rightarrow> (if was_joined w p then mTid th = 0 \<and> \<not> mShouldJoin th \<and> reclaim_count w p = 1
             else mTid th = ids w p \<and> reclaim_count w p = detaches w p \<and> (mShouldJoin th \<longleftrightarrow> detaches w p = 0)))"

definition ids_ok :: "'cb system \<Rightarrow> bool" where
  "ids_ok w \<longleftrightarrow> inj_on (ids w) {p. owner w p \<noteq> Absent} \<and> (\<forall>p. owner w p \<noteq> Absent \<longrightarrow> ids w p \<noteq> 0) \<and>
     (\<forall>r\<in>set (reclaims (mem w)). \<exists>p. owner w p \<noteq> Absent \<and> reclaimed r = ids w p)"

definition system_ok :: "(nat \<Rightarrow> int) \<Rightarrow> 'cb system \<Rightarrow> bool" where
  "system_ok ktid w \<longleftrightarrow> (\<forall>p. handshake ktid w p) \<and> (\<forall>p. accounted w p) \<and> ids_ok w"

lemma object_on_thread [simp]: "object (on_thread p f w) q = (if q = p then f (object w p) else object w q)"
  "reclaims (on_thread p f w) = reclaims w" "gThread (on_thread p f w) = gThread w"
  by (simp_all add: on_thread_def)

lemma Thread_SetName_frame:
  "mKernalTid (object (Thread_SetName me name w) p) = mKernalTid (object w p)" "mCb (object (Thread_SetName me name w) p) = mCb (object w p)"
  "mSemaphore (object (Thread_SetName me name w) p) = mSemaphore (object w p)" "mTid (object (Thread_SetName me name w) p) = mTid (object w p)"
  "mShouldJoin (object (Thread_SetName me name w) p) = mShouldJoin (object w p)" "reclaims (Thread_SetName me name w) = reclaims w"
  "gThread (Thread_SetName me name w) = gThread w"
  by (auto simp: Thread_SetName_def Let_def split: option.split)

lemma Thread_detach_frame:
  "mKernalTid (object (Thread_detach p w) q) = mKernalTid (object w q)" "mCb (object (Thread_detach p w) q) = mCb (object w q)"
  "mSemaphore (object (Thread_detach p w) q) = mSemaphore (object w q)" "gThread (Thread_detach p w) = gThread w"
  by (auto simp: Thread_detach_def)

lemma Thread_join_frame:
  "mKernalTid (object (snd (Thread_join ok p w)) q) = mKernalTid (object w q)" "mCb (object (snd (Thread_join ok p w)) q) = mCb (object w q)"
  "mSemaphore (object (snd (Thread_join ok p w)) q) = mSemaphore (object w q)" "gThread (snd (Thread_join ok p w)) = gThread w"
  by (auto simp: Thread_join_def Let_def)

lemma entrance_frame:
  "mTid (object (snd (entrance me k p r w)) q) = mTid (object w q)"
  "mShouldJoin (object (snd (entrance me k p r w)) q) = mShouldJoin (object w q)"
  "reclaims (snd (entrance me k p r w)) = reclaims w"
  by (cases r; simp split: option.split)+

lemma ids_neq: "ids_ok w \<Longrightarrow> owner w p \<noteq> Absent \<Longrightarrow> owner w q \<noteq> Absent \<Longrightarrow> p \<noteq> q \<Longrightarrow> ids w p \<noteq> ids w q"
  by (auto simp: ids_ok_def inj_on_def)

lemma unborn: "handshake ktid w p \<Longrightarrow> runner w p = Unborn \<longleftrightarrow> owner w p = Absent"
  by (auto simp: handshake_def Let_def split: runner.splits)

text \<open>A statement of \<open>entrance\<close> keeps the handshake of its own object, and those of all others.\<close>

lemma entering_same:
  assumes "handshake ktid w p" and "uses_object (runner w p) \<longrightarrow> owner w p \<noteq> Gone"
    and "entrance (ids w p) (ktid p) p (runner w p) (mem w) = (r, m)"
  shows "handshake ktid (w\<lparr>mem := m, runner := (runner w)(p := r),
    ran := (case runner w p of Running cb \<Rightarrow> (ran w)(p := ran w p @ [cb]) | _ \<Rightarrow> ran w)\<rparr>) p"
proof -
  have m: "m = snd (entrance (ids w p) (ktid p) p (runner w p) (mem w))" "r = fst (entrance (ids w p) (ktid p) p (runner w p) (mem w))"
    using assms(3) by simp_all
  show ?thesis using assms(1,2) unfolding m handshake_def Let_def by (cases "runner w p"; simp)
qed

lemma entering_other:
  assumes h: "handshake ktid w p" and hq: "handshake ktid w q" and "p \<noteq> q" and "runner w p \<noteq> Unborn" and "ids_ok w"
    and e: "entrance (ids w p) (ktid p) p (runner w p) (mem w) = (r, m)"
  shows "handshake ktid (w\<lparr>mem := m, runner := (runner w)(p := r),
    ran := (case runner w p of Running cb \<Rightarrow> (ran w)(p := ran w p @ [cb]) | _ \<Rightarrow> ran w)\<rparr>) q"
proof (cases "owner w q = Absent")
  case True
  then show ?thesis using unborn [OF hq] hq \<open>p \<noteq> q\<close> by (cases "runner w p") (auto simp: handshake_def Let_def)
next
  case False
  then have i: "ids w q \<noteq> ids w p" using ids_neq [OF \<open>ids_ok w\<close>] unborn [OF h] assms(3,4) by metis
  have "object m q = object (mem w) q \<and> gThread m (ids w q) = gThread (mem w) (ids w q)"
    using e h i \<open>p \<noteq> q\<close> by (cases "runner w p") (auto simp: handshake_def Let_def)
  then show ?thesis using hq \<open>p \<noteq> q\<close> by (cases "runner w p") (simp_all add: handshake_def Let_def cong: runner.case_cong)
qed

lemma losing:
  assumes "handshake ktid w p" and "owner w p = Gone" and "uses_object (runner w p)"
  shows "mKernalTid (object (mem w) p) = Some (ktid p)" "ran w p = []"
  using assms by (cases "runner w p"; simp add: handshake_def Let_def)+

lemma handshake_step:
  assumes "thread_step ktid w w'" and "\<forall>p. handshake ktid w p" and "ids_ok w"
  shows "handshake ktid w' q"
proof -
  have h: "handshake ktid w q" using assms(2) by blast
  show ?thesis using assms(1)
  proof cases
    case (Creating p tid cb name th)
    then show ?thesis using h unborn [OF h] by (auto simp: handshake_def Let_def Thread_new_def split: runner.splits)
  next
    case (Constructed p th)
    then show ?thesis using h by (auto simp: handshake_def Let_def sem_wait_def split: runner.splits if_splits)
  next
    case (Entering p r m)
    have hp: "handshake ktid w p" using assms(2) by blast
    show ?thesis
    proof (cases "p = q")
      case True
      show ?thesis unfolding Entering(1) True [symmetric] by (rule entering_same [OF hp Entering(3,4)])
    next
      case False
      show ?thesis unfolding Entering(1) by (rule entering_other [OF hp h False Entering(2) assms(3) Entering(4)])
    qed
  next
    case (Losing p)
    show ?thesis
    proof (cases "p = q")
      case True
      show ?thesis unfolding Losing(1) using losing [OF h, folded True] Losing(2,3) True by (simp add: handshake_def Let_def)
    next
      case False
      then show ?thesis unfolding Losing(1) using h by (simp add: handshake_def Let_def cong: runner.case_cong)
    qed
  next
    case (Naming me name)
    then show ?thesis using h by (simp add: handshake_def Let_def Thread_SetName_frame cong: runner.case_cong)
  next
    case (Naming_lost p cb)
    then show ?thesis using h by (cases "p = q") (auto simp: handshake_def Let_def cong: runner.case_cong)
  next
    case (Detaching p)
    then show ?thesis using h by (simp add: handshake_def Let_def Thread_detach_frame cong: runner.case_cong)
  next
    case (Joining p ok)
    then show ?thesis using h by (simp add: handshake_def Let_def Thread_join_frame cong: runner.case_cong)
  next
    case (Destroying p)
    then show ?thesis using h by (auto simp: handshake_def Let_def split: runner.splits)
  qed
qed

text \<open>
  A step that asks the system for nothing keeps the accounts if it keeps the account of every object; one that asks for the id of
  an object changes the account of this object and no other.
\<close>

lemma accounted_same:
  assumes "owner w' q = owner w q" and "ids w' = ids w" and "owner w q \<noteq> Absent \<Longrightarrow> reclaim_count w' q = reclaim_count w q"
    and "owner w q \<noteq> Absent \<Longrightarrow> was_joined w' q = was_joined w q" and "detaches w' q = detaches w q"
    and "mShouldJoin (object (mem w') q) = mShouldJoin (object (mem w) q)" and "mTid (object (mem w') q) = mTid (object (mem w) q)"
  shows "accounted w' q = accounted w q"
  using assms by (cases "owner w q") (simp_all add: accounted_def Let_def)

lemma no_reclaim:
  assumes "ids_ok w \<and> (\<forall>q. accounted w q)"
    and "owner w' = owner w" and "ids w' = ids w" and "reclaims (mem w') = reclaims (mem w)" and "detaches w' = detaches w"
    and "\<forall>q. mShouldJoin (object (mem w') q) = mShouldJoin (object (mem w) q) \<and> mTid (object (mem w') q) = mTid (object (mem w) q)"
  shows "ids_ok w' \<and> (\<forall>q. accounted w' q)"
  using assms accounted_same [of w' _ w] by (simp add: ids_ok_def reclaim_count_def was_joined_def)

lemma reclaim_count_append:
  assumes "ids_ok w" and "owner w p \<noteq> Absent" and "owner w q \<noteq> Absent" and "ids w' = ids w"
    and "reclaims (mem w') = reclaims (mem w) @ rs" and rs: "\<forall>r\<in>set rs. reclaimed r = ids w p"
  shows "reclaim_count w' q = reclaim_count w q + (if q = p then length rs else 0)"
    and "was_joined w' q \<longleftrightarrow> was_joined w q \<or> q = p \<and> Pthread_join (ids w p) \<in> set rs"
proof -
  show "was_joined w' q \<longleftrightarrow> was_joined w q \<or> q = p \<and> Pthread_join (ids w p) \<in> set rs"
    using rs ids_neq [OF assms(1-3)] assms(4,5) by (cases "q = p") (auto simp: was_joined_def)
  have "count_list (map reclaimed rs) (ids w q) = (if q = p then length rs else 0)"
    using rs ids_neq [OF assms(1-3)] by (induction rs) auto
  then show "reclaim_count w' q = reclaim_count w q + (if q = p then length rs else 0)"
    using assms(4,5) by (simp add: reclaim_count_def)
qed

lemma reclaim_accounts:
  assumes acc: "ids_ok w \<and> (\<forall>q. accounted w q)" and p: "owner w p \<noteq> Absent" "owner w' p \<noteq> Absent" and i: "ids w' = ids w"
    and r: "reclaims (mem w') = reclaims (mem w) @ rs" "\<forall>r\<in>set rs. reclaimed r = ids w p"
    and o: "\<forall>q. q \<noteq> p \<longrightarrow> owner w' q = owner w q \<and> object (mem w') q = object (mem w) q \<and> detaches w' q = detaches w q"
    and p': "accounted w p \<Longrightarrow> reclaim_count w' p = reclaim_count w p + length rs \<Longrightarrow>
      was_joined w' p = (was_joined w p \<or> Pthread_join (ids w p) \<in> set rs) \<Longrightarrow> accounted w' p"
  shows "ids_ok w' \<and> (\<forall>q. accounted w' q)"
proof -
  have ok: "ids_ok w" using acc by simp
  have a: "owner w' q = Absent \<longleftrightarrow> owner w q = Absent" for q using o p by (cases "q = p") auto
  have "ids_ok w'" using ok p(1) r(2) unfolding ids_ok_def a r(1) i by auto
  moreover have "accounted w' q" for q
  proof (cases "q = p")
    case True
    then show ?thesis using p' acc reclaim_count_append [OF ok p(1) p(1) i r] by simp
  next
    case False
    then have "accounted w' q = accounted w q" using o i reclaim_count_append [OF ok p(1) _ i r, of q]
      by (intro accounted_same) simp_all
    then show ?thesis using acc by simp
  qed
  ultimately show ?thesis by blast
qed

lemma create_accounted:
  assumes acc: "ids_ok w \<and> (\<forall>q. accounted w q)" and "owner w p = Absent" and "tid \<noteq> 0"
    and fresh: "\<forall>q. owner w q \<noteq> Absent \<longrightarrow> ids w q \<noteq> tid" and th: "mShouldJoin th" "mTid th = tid"
    and w': "owner w' = (owner w)(p := Waiting)" "ids w' = (ids w)(p := tid)" "mem w' = on_thread p (\<lambda>_. th) (mem w)" "detaches w' = detaches w"
  shows "ids_ok w' \<and> (\<forall>q. accounted w' q)"
proof -
  have "reclaimed r \<noteq> tid" if "r \<in> set (reclaims (mem w))" for r
    using acc that fresh by (metis ids_ok_def)
  then have "count_list (map reclaimed (reclaims (mem w))) tid = 0" by (auto simp: count_list_0_iff)
  moreover have "detaches w p = 0" using acc assms(2) by (auto simp: accounted_def Let_def split: owner.splits)
  moreover have "ids_ok w'" using assms by (auto simp: ids_ok_def inj_on_def)
  moreover have "accounted w' q = accounted w q" if "q \<noteq> p" for q
    using that w' by (simp add: accounted_def Let_def reclaim_count_def was_joined_def cong: owner.case_cong)
  moreover have "\<not> was_joined w' p"
    using \<open>\<And>r. r \<in> set (reclaims (mem w)) \<Longrightarrow> reclaimed r \<noteq> tid\<close> w' by (force simp: was_joined_def)
  moreover have "accounted w' p" using th w' calculation(1,2,5) by (simp add: accounted_def Let_def reclaim_count_def)
  ultimately show ?thesis using acc by metis
qed

lemma reclaimed_step:
  assumes "thread_step ktid w w'" and acc: "ids_ok w \<and> (\<forall>q. accounted w q)"
  shows "ids_ok w' \<and> (\<forall>q. accounted w' q)"
  using assms(1)
proof cases
  case (Creating p tid cb name th)
  from Creating(5) have "mShouldJoin th" "mTid th = tid" by (auto simp: Thread_new_def)
  from create_accounted [OF acc Creating(2-4) this] show ?thesis by (simp add: Creating(1))
next
  case (Constructed p th)
  show ?thesis by (rule reclaim_accounts [OF acc, of p _ "[]"])
    (use Constructed in \<open>auto simp: accounted_def Let_def sem_wait_def split: if_splits\<close>)
next
  case (Entering p r m)
  then have m: "m = snd (entrance (ids w p) (ktid p) p (runner w p) (mem w))" by simp
  show ?thesis by (rule no_reclaim [OF acc]) (simp_all add: Entering(1) m entrance_frame)
next
  case (Naming me name)
  show ?thesis by (rule no_reclaim [OF acc]) (simp_all add: Naming(1) Thread_SetName_frame)
next
  case (Detaching p)
  then have "ids w p \<noteq> 0" using acc by (auto simp: ids_ok_def)
  then show ?thesis
    by (intro reclaim_accounts [OF acc, of p _ "if mTid (object (mem w) p) = 0 then [] else [Pthread_detach (ids w p)]"])
      (use Detaching conjunct2 [OF acc, rule_format, of p] in
        \<open>auto simp: Thread_detach_def accounted_def Let_def split: owner.splits if_splits\<close>)
next
  case (Joining p ok)
  then have "ids w p \<noteq> 0" using acc by (auto simp: ids_ok_def)
  then show ?thesis
    by (intro reclaim_accounts [OF acc, of p _ "if mShouldJoin (object (mem w) p) \<and> mTid (object (mem w) p) \<noteq> 0 \<and> ok then [Pthread_join (ids w p)] else []"])
      (use Joining conjunct2 [OF acc, rule_format, of p] in
        \<open>auto simp: Thread_join_def accounted_def Let_def split: owner.splits if_splits\<close>)
next
  case (Destroying p)
  then have "ids w p \<noteq> 0" using acc by (auto simp: ids_ok_def)
  then show ?thesis
    by (intro reclaim_accounts [OF acc, of p _ "Thread_destroy (object (mem w) p)"])
      (use Destroying conjunct2 [OF acc, rule_format, of p] in
        \<open>auto simp: Thread_destroy_def accounted_def Let_def split: owner.splits if_splits\<close>)
qed (rule no_reclaim [OF acc]; simp)+

lemma system_ok_steps:
  assumes "(thread_step ktid)\<^sup>*\<^sup>* (system_start obj) w"
  shows "system_ok ktid w"
  using assms
proof (induction rule: rtranclp_induct)
  case base
  then show ?case by (simp add: system_ok_def system_start_def handshake_def accounted_def ids_ok_def)
next
  case (step w w')
  then show ?case using handshake_step [OF step(2)] reclaimed_step [OF step(2)] by (simp add: system_ok_def)
qed

section \<open>What the class promises\<close>

text \<open>C22: However the creator, the new thread and all others interleave, statement by statement: when the constructor of a thread
  object has returned, the object holds the kernel number of the new thread; once the semaphore is posted the constructor is not
  blocked; the thread runs the callback the object was constructed with, to its end once and no other, and in it \<open>GetThis\<close> is the
  object. The only way out of this is that the object is destroyed while the thread still uses it, which the code does not prevent
  (\<open>early_destruction\<close>): the thread is then lost before the callback has ended.\<close>

theorem Thread_handshake:
  assumes "(thread_step ktid)\<^sup>*\<^sup>* (system_start obj) w" and "owner w p \<noteq> Absent"
  shows "(owner w p \<noteq> Waiting \<longrightarrow> mKernalTid (object (mem w) p) = Some (ktid p)) \<and>
    (owner w p = Waiting \<and> runner w p \<notin> {Starting, Entered, Named, Numbered} \<longrightarrow> sem_wait (object (mem w) p) \<noteq> None) \<and>
    ran w p = (if runner w p = Finished then [asked_of w p] else []) \<and>
    (\<forall>cb. runner w p = Running cb \<longrightarrow> cb = asked_of w p \<and> Thread_GetThis (ids w p) (mem w) = Some p) \<and>
    (runner w p = Lost \<longrightarrow> owner w p = Gone)"
proof -
  have "handshake ktid w p" using system_ok_steps [OF assms(1)] by (simp add: system_ok_def)
  then show ?thesis using assms(2)
    by (cases "runner w p") (auto simp: handshake_def Let_def sem_wait_def Thread_GetThis_def)
qed

text \<open>C23: No thread is left behind, and none is released twice unless \<open>detach\<close> is called twice: for a thread object that is destroyed,
  the number of times the system has been told that its thread is not waited for any more is one if the thread was joined,
  otherwise the number of calls of \<open>detach\<close>, or one, by the destructor, if there was none. Before, it is one if the thread was
  joined, whatever is called after that, otherwise the number of calls of \<open>detach\<close>. Calls of \<open>join\<close> and \<open>detach\<close> may come in any order
  and number, \<open>pthread_join\<close> may fail, and the system gives no thread id twice.\<close>

theorem Thread_reclaimed_once:
  assumes "(thread_step ktid)\<^sup>*\<^sup>* (system_start obj) w" and "owner w p \<noteq> Absent"
  shows "count_list (map reclaimed (reclaims (mem w))) (ids w p) =
      (if Pthread_join (ids w p) \<in> set (reclaims (mem w)) then 1
       else if owner w p = Gone then max 1 (detaches w p) else detaches w p)"
proof -
  have "accounted w p" using system_ok_steps [OF assms(1)] by (simp add: system_ok_def)
  then show ?thesis using assms(2) by (auto simp: accounted_def Let_def reclaim_count_def was_joined_def split: owner.splits if_splits)
qed

text \<open>\<open>detach\<close> does not look at \<open>mShouldJoin\<close>: called twice it releases the thread twice.\<close>

theorem double_detach:
  assumes "mTid (object w p) \<noteq> 0"
  shows "reclaims (Thread_detach p (Thread_detach p w)) = reclaims w @ [Pthread_detach (mTid (object w p)), Pthread_detach (mTid (object w p))]"
  using assms by (simp add: Thread_detach_def on_thread_def)

section \<open>Instances\<close>

text \<open>The next statement of the thread of an object that exists.\<close>

definition enter :: "(nat \<Rightarrow> int) \<Rightarrow> nat \<Rightarrow> 'cb system \<Rightarrow> 'cb system" where
  "enter ktid p w = w\<lparr>mem := snd (entrance (ids w p) (ktid p) p (runner w p) (mem w)),
     runner := (runner w)(p := fst (entrance (ids w p) (ktid p) p (runner w p) (mem w))),
     ran := (case runner w p of Running cb \<Rightarrow> (ran w)(p := ran w p @ [cb]) | _ \<Rightarrow> ran w)\<rparr>"

lemma enter_step: "runner w p \<noteq> Unborn \<Longrightarrow> owner w p \<noteq> Gone \<Longrightarrow> thread_step ktid w (enter ktid p w)"
  unfolding enter_def by (rule thread_step.Entering) simp_all

lemma entrance_posts:
  assumes "runner w p = Starting" and "owner w p = Waiting"
  obtains w' where "(thread_step ktid)\<^sup>*\<^sup>* w w'" and "runner w' p = Posted" and "owner w' = owner w" and "ids w' = ids w"
    and "asked_of w' = asked_of w" and "detaches w' = detaches w" and "reclaims (mem w') = reclaims (mem w)"
    and "object (mem w') p = (object (mem w) p)\<lparr>mKernalTid := Some (ktid p), mSemaphore := mSemaphore (object (mem w) p) + 1\<rparr>"
proof -
  let ?e = "enter ktid p"
  note steps = enter_step [of w p ktid] enter_step [of "?e w" p ktid] enter_step [of "?e (?e w)" p ktid] enter_step [of "?e (?e (?e w))" p ktid]
  have "(thread_step ktid)\<^sup>*\<^sup>* w (?e (?e (?e (?e w))))"
    using steps assms by (simp add: enter_def)
  then show thesis by (rule that) (use assms in \<open>simp_all add: enter_def\<close>)
qed

lemma entrance_finishes:
  assumes "runner w p = Posted" and "owner w p = Owning"
  obtains w' where "(thread_step ktid)\<^sup>*\<^sup>* w w'" and "runner w' p = Finished" and "owner w' = owner w" and "ids w' = ids w"
    and "asked_of w' = asked_of w" and "detaches w' = detaches w" and "reclaims (mem w') = reclaims (mem w)"
    and "object (mem w') p = (object (mem w) p)\<lparr>mCb := None\<rparr>"
proof -
  let ?e = "enter ktid p"
  note steps = enter_step [of w p ktid] enter_step [of "?e w" p ktid] enter_step [of "?e (?e w)" p ktid]
  have "(thread_step ktid)\<^sup>*\<^sup>* w (?e (?e (?e w)))"
    using steps assms by (simp add: enter_def)
  then show thesis by (rule that) (use assms in \<open>simp_all add: enter_def\<close>)
qed

text \<open>Object 0 is constructed with callback 7; its thread has kernel number 42 and thread id 3.\<close>

definition sample_system :: "nat system" where
  "sample_system = system_start (\<lambda>_. \<lparr>mKernalTid = None, mTid = 0, mName = [], mCb = None, mShouldJoin = False, mSemaphore = 0\<rparr>)"

lemma sample_constructed:
  obtains w where "(thread_step (\<lambda>_. 42))\<^sup>*\<^sup>* sample_system w" and "owner w 0 = Owning" and "runner w 0 = Posted" and "asked_of w 0 = Some 7"
    and "ids w 0 = 3" and "detaches w 0 = 0" and "mTid (object (mem w) 0) = 3" and "mShouldJoin (object (mem w) 0)" and "reclaims (mem w) = []"
proof -
  let ?s = "thread_step (\<lambda>_. 42 :: int)"
  let ?th = "\<lparr>mKernalTid = None, mTid = 3, mName = ''worker'', mCb = Some 7, mShouldJoin = True, mSemaphore = 0\<rparr> :: nat Thread"
  have s: "owner sample_system 0 = Absent" "\<forall>q. owner sample_system q \<noteq> Absent \<longrightarrow> ids sample_system q \<noteq> 3"
    by (simp_all add: sample_system_def system_start_def)
  have th: "Thread_new (Some 3) 7 ''worker'' = Some ?th" by (simp add: Thread_new_def)
  obtain w1 where 1: "?s sample_system w1" "owner w1 0 = Waiting" "runner w1 0 = Starting" "object (mem w1) 0 = ?th"
    "asked_of w1 0 = Some 7" "ids w1 0 = 3" "detaches w1 0 = 0" "reclaims (mem w1) = []"
    using thread_step.Creating [OF s(1) _ s(2) th, where ktid = "\<lambda>_. 42"] by (fastforce simp: sample_system_def system_start_def)
  obtain w2 where 2: "?s\<^sup>*\<^sup>* w1 w2" "runner w2 0 = Posted" "owner w2 = owner w1" "ids w2 = ids w1" "asked_of w2 = asked_of w1"
    "detaches w2 = detaches w1" "reclaims (mem w2) = reclaims (mem w1)" "object (mem w2) 0 = ?th\<lparr>mKernalTid := Some 42, mSemaphore := 1\<rparr>"
    by (rule entrance_posts [OF 1(3,2), where ktid = "\<lambda>_. 42"]) (simp add: 1(4))
  have sem: "sem_wait (object (mem w2) 0) = Some (?th\<lparr>mKernalTid := Some 42\<rparr>)" by (simp add: 2(8) sem_wait_def)
  have o: "owner w2 0 = Waiting" by (simp add: 1(2) 2(3))
  have "?s\<^sup>*\<^sup>* sample_system (w2\<lparr>mem := on_thread 0 (\<lambda>_. ?th\<lparr>mKernalTid := Some 42\<rparr>) (mem w2), owner := (owner w2)(0 := Owning)\<rparr>)"
    using 1(1) 2(1) thread_step.Constructed [OF o sem, where ktid = "\<lambda>_. 42"]
    by (meson converse_rtranclp_into_rtranclp rtranclp.rtrancl_into_rtrancl)
  then show thesis by (rule that) (simp_all add: 1 2)
qed

text \<open>Its thread runs to its end; it is joined, then detached, then destroyed.\<close>

lemma sample_reclaimed:
  obtains w where "(thread_step (\<lambda>_. 42))\<^sup>*\<^sup>* sample_system w" and "owner w 0 = Gone" and "runner w 0 = Finished" and "ids w 0 = 3"
    and "detaches w 0 = 1" and "Pthread_join 3 \<in> set (reclaims (mem w))"
proof -
  let ?s = "thread_step (\<lambda>_. 42 :: int)"
  obtain w1 where 1: "?s\<^sup>*\<^sup>* sample_system w1" "owner w1 0 = Owning" "runner w1 0 = Posted" "ids w1 0 = 3" "detaches w1 0 = 0"
    "mTid (object (mem w1) 0) = 3" "mShouldJoin (object (mem w1) 0)" by (rule sample_constructed) blast
  obtain w2 where 2: "?s\<^sup>*\<^sup>* w1 w2" "runner w2 0 = Finished" "owner w2 = owner w1" "ids w2 = ids w1" "detaches w2 = detaches w1"
    "object (mem w2) 0 = (object (mem w1) 0)\<lparr>mCb := None\<rparr>" by (rule entrance_finishes [OF 1(3,2)])
  obtain w3 where 3: "?s w2 w3" "runner w3 0 = Finished" "owner w3 0 = Owning" "ids w3 0 = 3" "detaches w3 0 = 0"
    "mTid (object (mem w3) 0) = 0" "Pthread_join 3 \<in> set (reclaims (mem w3))"
    using thread_step.Joining [of w2 0 True "\<lambda>_. 42"] 1 2 by (fastforce simp: Thread_join_def)
  obtain w4 where 4: "?s w3 w4" "runner w4 0 = Finished" "owner w4 0 = Owning" "ids w4 0 = 3" "detaches w4 0 = 1"
    "Pthread_join 3 \<in> set (reclaims (mem w4))"
    using thread_step.Detaching [of w3 0 "\<lambda>_. 42"] 3 by (fastforce simp: Thread_detach_def)
  obtain w5 where 5: "?s w4 w5" "runner w5 0 = Finished" "owner w5 0 = Gone" "ids w5 0 = 3" "detaches w5 0 = 1"
    "Pthread_join 3 \<in> set (reclaims (mem w5))"
    using thread_step.Destroying [of w4 0 "\<lambda>_. 42"] 4 by fastforce
  have "?s\<^sup>*\<^sup>* sample_system w5" using 1(1) 2(1) 3(1) 4(1) 5(1) by (meson rtranclp.rtrancl_into_rtrancl rtranclp_trans)
  then show thesis using 5 that by blast
qed

text \<open>Destroyed as soon as it is constructed, the object is gone when its thread reads its name and its callback, which never runs.\<close>

theorem early_destruction:
  "\<exists>w. (thread_step (\<lambda>_. 42))\<^sup>*\<^sup>* sample_system w \<and> runner w 0 = Lost \<and> asked_of w 0 = Some 7 \<and> ran w 0 = []"
proof -
  let ?s = "thread_step (\<lambda>_. 42 :: int)"
  obtain w1 where 1: "?s\<^sup>*\<^sup>* sample_system w1" "owner w1 0 = Owning" "runner w1 0 = Posted" "asked_of w1 0 = Some 7"
    by (rule sample_constructed) blast
  obtain w2 where 2: "?s w1 w2" "owner w2 0 = Gone" "runner w2 0 = Posted" "asked_of w2 0 = Some 7"
    using thread_step.Destroying [OF 1(2), where ktid = "\<lambda>_. 42"] 1 by fastforce
  obtain w3 where 3: "?s w2 w3" "runner w3 0 = Lost" "asked_of w3 0 = Some 7"
    using thread_step.Losing [OF 2(2), where ktid = "\<lambda>_. 42"] 2 by fastforce
  have r: "?s\<^sup>*\<^sup>* sample_system w3" using 1(1) 2(1) 3(1) by (meson rtranclp.rtrancl_into_rtrancl)
  have "handshake (\<lambda>_. 42) w3 0" using system_ok_steps [OF r [unfolded sample_system_def]] by (simp add: system_ok_def)
  then show ?thesis using r 3(2,3) by (auto simp: handshake_def Let_def)
qed

theorem Thread_handshake_witness:
  "\<exists>w. (thread_step (\<lambda>_. 42))\<^sup>*\<^sup>* sample_system w \<and> owner w 0 = Owning \<and> runner w 0 = Posted \<and> mKernalTid (object (mem w) 0) = Some 42"
proof -
  obtain w where w: "(thread_step (\<lambda>_. 42))\<^sup>*\<^sup>* sample_system w" "owner w 0 = Owning" "runner w 0 = Posted" by (rule sample_constructed)
  then show ?thesis using Thread_handshake [OF w(1) [unfolded sample_system_def], of 0] by auto
qed

theorem Thread_reclaimed_once_witness:
  "\<exists>w. (thread_step (\<lambda>_. 42))\<^sup>*\<^sup>* sample_system w \<and> owner w 0 = Gone \<and> detaches w 0 = 1 \<and> count_list (map reclaimed (reclaims (mem w))) 3 = 1"
proof -
  obtain w where w: "(thread_step (\<lambda>_. 42))\<^sup>*\<^sup>* sample_system w" "owner w 0 = Gone" "runner w 0 = Finished" "ids w 0 = 3" "detaches w 0 = 1"
    "Pthread_join 3 \<in> set (reclaims (mem w))" by (rule sample_reclaimed)
  then show ?thesis using Thread_reclaimed_once [OF w(1) [unfolded sample_system_def], of 0] by auto
qed

end
