(* ===== verification/Spec2Isabelle.thy ===== *)
theory Spec2Isabelle
  imports Kcp_Target Kcp_Host Kcp_Progress Kcp_Flow Ktimer Kpool Kentry Kcp_Wrapper Kidle Kthread
begin

text \<open>
  A verification library of fiber_kcp: the KCP protocol (\<open>src/ikcp.c\<close>, \<open>src/ikcp.h\<close>), a reliable byte stream over
  datagrams, and the C++ program around it that serves many conversations with a pool of threads, fibers, timers and \<open>epoll\<close>.

  \<^bold>\<open>The program and its theories.\<close> Every theory opens with a text that says how its state corresponds to the code. In the order of the calls:

  \<^item> \<open>Kcp_Prelude\<close>, \<open>Std_Set\<close>: machine words, C integer arithmetic, results that may fault (\<open>result\<close>, \<open>bind\<close>, \<open>yields\<close>); what the C++ code uses
    of \<open>std::set\<close> and \<open>std::map\<close>.
  \<^item> \<open>Codec\<close>: the byte encodings and the segment header. \<open>Kcp_Target\<close>: what ikcp.h decides by the macros of the compiler, the integer
    types and the way integers are stored, and why the rest of the library need not ask which host it is on. \<open>Iqueue\<close>: the queue macros of ikcp.h on a heap of pointers, and the drain
    loops of \<open>ikcp_release\<close>. The other theories keep queues as lists; the locale \<open>queue_ops\<close> is the contract between the two views.
  \<^item> \<open>Kcp_State\<close>, \<open>Kcp_Config\<close>: the control block \<open>ikcpcb\<close>, creation and configuration, and its invariant \<open>kcp_ok\<close>.
    \<open>Seg_Order\<close>: queues ordered by serial number.
  \<^item> \<open>Kcp_Recv\<close>, \<open>Kcp_Ack\<close>, \<open>Kcp_Send\<close>, \<open>Kcp_Flush\<close>, \<open>Kcp_Input\<close>, \<open>Kcp_Update\<close>: the operations \<open>ikcp_recv\<close>, \<open>ikcp_peeksize\<close>,
    \<open>ikcp_parse_data\<close>; acknowledgements and round-trip times; \<open>ikcp_send\<close>; \<open>ikcp_flush\<close>; \<open>ikcp_input\<close>; \<open>ikcp_update\<close> and
    \<open>ikcp_check\<close>. \<open>Kcp_Flush_Spec\<close> and \<open>Kcp_Input_Spec\<close> say what the two long ones do as a whole.
  \<^item> \<open>Kcp_Host\<close>: the allocator hooks, log output, the output callback, the whole of \<open>ikcp_release\<close>.
  \<^item> \<open>Kcp_Link\<close>, \<open>Kcp_Endpoint\<close>, \<open>Kcp_Session\<close>: two control blocks and a network that loses, repeats and reorders datagrams; what
    the protocol promises. \<open>Kcp_Lively\<close>, \<open>Kcp_Progress\<close>: why it never gets stuck. \<open>Kcp_Flow\<close>: flow control.
  \<^item> \<open>Kcp_Wrapper\<close> (kcp.h, kcp.cpp): the class \<open>Kcp\<close>, a control block on a socket. \<open>Ktimer\<close> (ktimer.h, ktimer.cpp): timers.
    \<open>Kfiber\<close> (kfiber.h, kfiber.cpp): fibers. \<open>Kschedule\<close>, \<open>Kentry\<close>, \<open>Kpool\<close> (kschedule.h, kschedule.cpp): the scheduler, how a thread
    enters its loop, and its threads as a step relation. \<open>Kthread\<close> (kthread.h, kthread.cpp): threads, the statements of their entry function
    interleaved with those who hold the thread objects.
  \<^item> \<open>Kmanager\<close>, \<open>Kidle\<close> (kcpmanager.h, kcpmanager.cpp): the manager, which registers the sockets of \<open>Kcp\<close> objects, gives each a timer for
    \<open>outputRoutine\<close>, and in its idle fibers turns events and expired timers into tasks of the scheduler.
    \<open>mgr_step\<close> states how a manager has to be used.

  \<^bold>\<open>How the code is modelled.\<close> Structs and classes are records, functions are HOL functions that return the changed state, loops are recursive functions that are
  proved to end. A 32-bit integer is a word and wraps. An assertion that fails, a null pointer that is followed and a write behind the end of a block are
  values of \<open>fault\<close>, so that a theorem that an operation returns \<open>Inr\<close> says that it does none of this. What the program asks of the system (the clock, what \<open>recvfrom\<close> and \<open>epoll_wait\<close> yield, success of the
  allocations in \<open>ikcp_create\<close>, \<open>ikcp_setmtu\<close>, \<open>addTimer\<close> and the constructor of fibers) is an argument. The allocations of segments and of the array of acknowledgements, in
  \<open>ikcp_send\<close>, \<open>ikcp_input\<close> and \<open>ikcp_ack_push\<close>, succeed: the code asserts it, aborts, or does not test it. Arithmetic of signed integers wraps, where C leaves an overflow undefined;
  theory \<open>Kcp_Ack\<close> says where none occurs. What a mutex or an atomic variable makes indivisible is one step of a step
  relation, and steps of different threads interleave freely; a pass of an idle fiber over the waiting queue, under one mutex, is one step.

  \<^bold>\<open>What the lemmas show.\<close>

  \<^item> One control block: \<open>kcp_ok\<close> holds of a new block, every operation keeps it, and under it no operation faults. Each operation does what its specification says, on
    every branch: fragmentation and reassembly are inverse, a flush emits the frames \<open>flush_frames\<close> in datagrams of at most \<open>mtu\<close> bytes, an input rejects
    what it has to and takes the rest frame by frame (locale \<open>frame_handler\<close>).
  \<^item> A conversation: \<open>endpoint\<close> ties a block to the history of what its end has numbered and delivered; \<open>session_inv\<close> holds in all reachable worlds. So what an
    application receives is always a prefix of what the other one sent, with the boundaries of messages in message mode, and everything that was sent is delivered, queued or in a send buffer.
    Under the invariant \<open>lively\<close> serving the two ends (\<open>serve\<close>: receiving, flushing, delivering datagrams, no further sending) can always deliver all that was sent.
    As long as no window is reduced, the queues of both ends keep within the windows, and a receiver whose application keeps up refuses no data (\<open>flow\<close>).
  \<^item> The wire format is the same on every host whose macros ikcp.h tests for (\<open>known_host\<close>), whether the integers are stored bytewise or copied.
  \<^item> Two \<open>Kcp\<close> objects whose sockets are connected are such a conversation (a refinement of \<open>Kcp_Session\<close>).
  \<^item> Timers expire in order and recurring ones stay in the set; the counters of the scheduler account for every task; fibers change state as their code gives up control; a thread object
    and its thread agree on the callback unless the object is destroyed too early, and each thread is joined or detached, once unless \<open>detach\<close> is called twice. In a manager used as \<open>mgr_step\<close> says, every
    registered socket has its context and timer, and the idle fibers dispatch its events; \<open>register_out_of_range\<close>, \<open>second_registration_disconnects\<close> and \<open>cancel_breaks_order\<close> are what happens in others.

  \<^bold>\<open>Bounds.\<close> Serial numbers are compared modulo \<open>2^32\<close>, so the theorems on conversations let an end number fewer than \<open>2^31\<close> segments and collect fewer than \<open>2^31\<close>
  acknowledgements between two flushes. \<open>ikcp_setmtu\<close> is called with at most 1431655741, beyond which the size of the output block wraps, and not below the size of segments that are already queued.
  \<open>ikcp_send\<close> refuses messages of 128 fragments and more, 174753 bytes and more for a \<open>Kcp\<close>; \<open>Kcp::inputRoutine\<close> reads datagrams into an array of 2800 bytes. Timers have 64-bit numbers, of which some have to be left.
  There is no fuel: all functions are total.

  \<^bold>\<open>Not modelled.\<close> \<open>ikcp_qprint\<close>, whose body is disabled; the log lines inside the operations, which change nothing of the state; stack sizes, signals; what
  \<open>swapcontext\<close> does to registers and stacks; the return of allocated memory of C++ objects (\<open>shared_ptr\<close> counts), except where the destructor of a fiber depends on it; the
  destruction of the manager while its threads still run. The programs under test/ are drivers.
\<close>

end
